(* ===== verification/Prelude.thy ===== *)
theory Prelude
  imports Main "HOL-Library.Word"
begin

text \<open>
  Shared vocabulary of the development: the machine integer types the C++ code uses, the
  faults that stand for undefined behaviour and failed assertions, the error monad that
  threads them, the part of \<open>std::set\<close> with a comparator that the timers use, and
  generic lemmas on lists and words.
\<close>

section \<open>Machine integers\<close>

type_synonym u64 = "64 word"
type_synonym u32 = "32 word"
type_synonym u8 = "8 word"

named_theorems model_defs \<open>definitions that unfold a model operation\<close>
named_theorems fault_simps \<open>rewriting of results that may carry a fault\<close>

section \<open>Faults: undefined behaviour, aborts and uncaught exceptions as values\<close>

text \<open>
  Each constructor is a way in which a run of the code stops being defined: reading a
  container out of range, dereferencing a null pointer, passing the end iterator to
  \<open>erase\<close> or \<open>front\<close>, a failed \<open>assert\<close>, division by zero, a call of
  \<open>exit\<close>, an exception that leaves the function.
\<close>

datatype fault =
    OutOfBounds
  | NullDeref
  | EraseEnd
  | EmptyFront
  | AssertFail
  | DivByZero
  | ExitCalled
  | IntOverflow
  | Throws string

type_synonym 'a result = "fault + 'a"

definition bindR :: "'a result \<Rightarrow> ('a \<Rightarrow> 'b result) \<Rightarrow> 'b result" where
  "bindR r f = (case r of Inl e \<Rightarrow> Inl e | Inr x \<Rightarrow> f x)"

lemma bindR_simps [simp, fault_simps]:
  "bindR (Inl e) f = Inl e"
  "bindR (Inr x) f = f x"
  by (simp_all add: bindR_def)

lemma bindR_eq_Inr [fault_simps]:
  "bindR r f = Inr y \<longleftrightarrow> (\<exists>x. r = Inr x \<and> f x = Inr y)"
  by (cases r) auto

lemma bindR_eq_Inl [fault_simps]:
  "bindR r f = Inl e \<longleftrightarrow> r = Inl e \<or> (\<exists>x. r = Inr x \<and> f x = Inl e)"
  by (cases r) auto

lemma bindR_assoc: "bindR (bindR r f) g = bindR r (\<lambda>x. bindR (f x) g)"
  by (cases r) simp_all

section \<open>Error numbers of Linux\<close>

definition EPERM :: int where "EPERM = 1"
definition EINTR :: int where "EINTR = 4"
definition EBADF :: int where "EBADF = 9"
definition EAGAIN :: int where "EAGAIN = 11"
definition EBUSY :: int where "EBUSY = 16"
definition EINVAL :: int where "EINVAL = 22"
definition EDEADLK :: int where "EDEADLK = 35"
definition ETIMEDOUT :: int where "ETIMEDOUT = 110"
definition EINPROGRESS :: int where "EINPROGRESS = 115"
definition EOWNERDEAD :: int where "EOWNERDEAD = 130"
definition ENOTRECOVERABLE :: int where "ENOTRECOVERABLE = 131"

lemmas errno_consts = EPERM_def EINTR_def EBADF_def EAGAIN_def EBUSY_def EINVAL_def EDEADLK_def
  ETIMEDOUT_def EINPROGRESS_def EOWNERDEAD_def ENOTRECOVERABLE_def

section \<open>Loops that need not end\<close>

text \<open>
  A loop runs its body until the body stops with a result; a fault of the body ends it. A
  loop that does not end is \<open>None\<close>.
\<close>

type_synonym 'a run = "'a result option"

definition bindO :: "'a run \<Rightarrow> ('a \<Rightarrow> 'b run) \<Rightarrow> 'b run" where
  "bindO m f = (case m of None \<Rightarrow> None | Some r \<Rightarrow> (case r of Inl e \<Rightarrow> Some (Inl e) | Inr x \<Rightarrow> f x))"

lemma bindO_simps [simp, fault_simps]:
  "bindO None f = None"
  "bindO (Some (Inl e)) f = Some (Inl e)"
  "bindO (Some (Inr x)) f = f x"
  by (simp_all add: bindO_def)

lemma bindO_eq_Some [fault_simps]:
  "bindO m f = Some (Inr y) \<longleftrightarrow> (\<exists>x. m = Some (Inr x) \<and> f x = Some (Inr y))"
  by (cases m; cases "the m") (auto simp: bindO_def)

partial_function (option) loopO :: "('s \<Rightarrow> ('s + 'b) run) \<Rightarrow> 's \<Rightarrow> 'b run" where
  "loopO body s = (case body s of
     None \<Rightarrow> None
   | Some r \<Rightarrow> (case r of
       Inl e \<Rightarrow> Some (Inl e)
     | Inr c \<Rightarrow> (case c of Inl s' \<Rightarrow> loopO body s' | Inr b \<Rightarrow> Some (Inr b))))"

definition loop :: "('s \<Rightarrow> ('s + 'b) result) \<Rightarrow> 's \<Rightarrow> 'b run" where
  "loop body s = loopO (\<lambda>s. Some (body s)) s"

lemma loopO_steps:
  "body s = None \<Longrightarrow> loopO body s = None"
  "body s = Some (Inl e) \<Longrightarrow> loopO body s = Some (Inl e)"
  "body s = Some (Inr (Inr b)) \<Longrightarrow> loopO body s = Some (Inr b)"
  "body s = Some (Inr (Inl s')) \<Longrightarrow> loopO body s = loopO body s'"
  by (simp_all add: loopO.simps [of body s])

lemma loop_steps:
  "body s = Inl e \<Longrightarrow> loop body s = Some (Inl e)"
  "body s = Inr (Inr b) \<Longrightarrow> loop body s = Some (Inr b)"
  "body s = Inr (Inl s') \<Longrightarrow> loop body s = loop body s'"
  by (simp_all add: loop_def loopO_steps)

text \<open>A loop that cannot leave a set of states does not return.\<close>

lemma loopO_diverges:
  assumes "s \<in> S" and "\<And>s. s \<in> S \<Longrightarrow> \<exists>s' \<in> S. body s = Some (Inr (Inl s'))"
  shows "loopO body s = None"
proof (rule ccontr)
  assume "loopO body s \<noteq> None"
  then obtain y where "loopO body s = Some y" by blast
  then have "\<forall>S. s \<in> S \<longrightarrow> \<not> (\<forall>s \<in> S. \<exists>s' \<in> S. body s = Some (Inr (Inl s')))"
  proof (rule loopO.raw_induct [rotated])
    fix rec and body' :: "'a \<Rightarrow> ('a + 'b) run" and t z
    assume IH: "\<And>body t z. rec body t = Some z \<Longrightarrow>
        \<forall>S. t \<in> S \<longrightarrow> \<not> (\<forall>s \<in> S. \<exists>s' \<in> S. body s = Some (Inr (Inl s')))"
      and r: "(case body' t of None \<Rightarrow> None | Some r \<Rightarrow> (case r of Inl e \<Rightarrow> Some (Inl e)
        | Inr c \<Rightarrow> (case c of Inl s' \<Rightarrow> rec body' s' | Inr b \<Rightarrow> Some (Inr b)))) = Some z"
    show "\<forall>S. t \<in> S \<longrightarrow> \<not> (\<forall>s \<in> S. \<exists>s' \<in> S. body' s = Some (Inr (Inl s')))"
    proof (intro allI impI notI)
      fix S assume S: "t \<in> S" "\<forall>s \<in> S. \<exists>s' \<in> S. body' s = Some (Inr (Inl s'))"
      then obtain t' where t': "t' \<in> S" "body' t = Some (Inr (Inl t'))" by blast
      with r have "rec body' t' = Some z" by simp
      from IH [OF this] S t' show False by blast
    qed
  qed
  with assms show False by blast
qed

lemma loop_diverges:
  assumes "s \<in> S" and "\<And>s. s \<in> S \<Longrightarrow> \<exists>s' \<in> S. body s = Inr (Inl s')"
  shows "loop body s = None"
  unfolding loop_def by (rule loopO_diverges [OF assms(1)]) (use assms(2) in simp)

text \<open>What every turn keeps, and every result of a turn has, the result of the loop has.\<close>

lemma loopO_result:
  fixes body :: "'a \<Rightarrow> ('a + 'b) run"
  assumes "loopO body s = Some (Inr y)" and "P s"
    and "\<And>s s'. P s \<Longrightarrow> body s = Some (Inr (Inl s')) \<Longrightarrow> P s'"
    and "\<And>s y. P s \<Longrightarrow> body s = Some (Inr (Inr y)) \<Longrightarrow> Q y"
  shows "Q y"
proof -
  have "\<forall>P Q y. z = Inr y \<longrightarrow> P s \<longrightarrow> (\<forall>s s'. P s \<longrightarrow> body s = Some (Inr (Inl s')) \<longrightarrow> P s') \<longrightarrow>
      (\<forall>s y. P s \<longrightarrow> body s = Some (Inr (Inr y)) \<longrightarrow> Q y) \<longrightarrow> Q y"
    if "loopO body s = Some z" for z
    using that
  proof (rule loopO.raw_induct [rotated])
    fix rec and body' :: "'a \<Rightarrow> ('a + 'b) run" and t z
    assume IH: "\<And>body t z. rec body t = Some z \<Longrightarrow>
        \<forall>P Q y. z = Inr y \<longrightarrow> P t \<longrightarrow> (\<forall>s s'. P s \<longrightarrow> body s = Some (Inr (Inl s')) \<longrightarrow> P s') \<longrightarrow>
          (\<forall>s y. P s \<longrightarrow> body s = Some (Inr (Inr y)) \<longrightarrow> Q y) \<longrightarrow> Q y"
      and r: "(case body' t of None \<Rightarrow> None | Some r \<Rightarrow> (case r of Inl e \<Rightarrow> Some (Inl e)
        | Inr c \<Rightarrow> (case c of Inl s' \<Rightarrow> rec body' s' | Inr b \<Rightarrow> Some (Inr b)))) = Some z"
    show "\<forall>P Q y. z = Inr y \<longrightarrow> P t \<longrightarrow> (\<forall>s s'. P s \<longrightarrow> body' s = Some (Inr (Inl s')) \<longrightarrow> P s') \<longrightarrow>
          (\<forall>s y. P s \<longrightarrow> body' s = Some (Inr (Inr y)) \<longrightarrow> Q y) \<longrightarrow> Q y"
    proof (intro allI impI)
      fix P :: "'a \<Rightarrow> bool" and Q :: "'b \<Rightarrow> bool" and y
      assume z: "z = Inr y" and P: "P t"
        and inv: "\<forall>s s'. P s \<longrightarrow> body' s = Some (Inr (Inl s')) \<longrightarrow> P s'"
        and fin: "\<forall>s y. P s \<longrightarrow> body' s = Some (Inr (Inr y)) \<longrightarrow> Q y"
      from r z consider (stop) "body' t = Some (Inr (Inr y))"
        | (more) t' where "body' t = Some (Inr (Inl t'))" "rec body' t' = Some (Inr y)"
        by (auto split: option.splits sum.splits)
      then show "Q y"
      proof cases
        case stop
        with P fin show ?thesis by blast
      next
        case more
        have "P t'" using inv P more(1) by blast
        from IH [OF more(2), rule_format, of y P Q] this inv fin show ?thesis by blast
      qed
    qed
  qed
  with assms show ?thesis by blast
qed

text \<open>Reading a vector with \<open>operator[]\<close>: out of range is undefined behaviour.\<close>

definition at :: "'a list \<Rightarrow> int \<Rightarrow> 'a result" where
  "at xs i = (if 0 \<le> i \<and> i < int (length xs) then Inr (xs ! nat i) else Inl OutOfBounds)"

lemma at_simps [simp]:
  "0 \<le> i \<Longrightarrow> i < int (length xs) \<Longrightarrow> at xs i = Inr (xs ! nat i)"
  "i < 0 \<Longrightarrow> at xs i = Inl OutOfBounds"
  "int (length xs) \<le> i \<Longrightarrow> at xs i = Inl OutOfBounds"
  by (simp_all add: at_def)

lemma at_Inr_iff: "at xs i = Inr x \<longleftrightarrow> 0 \<le> i \<and> i < int (length xs) \<and> x = xs ! nat i"
  by (auto simp: at_def)

section \<open>The part of \<open>std::set\<close> the code uses\<close>

text \<open>
  A \<open>std::set\<close> with comparator \<open>lt\<close> is the list of its elements in iteration
  order; an iterator is an index and \<open>end()\<close> is the length. \<open>insert\<close> keeps an
  element that is already there, \<open>lower_bound\<close> is the first element not less than the
  argument, \<open>find\<close> is that element when the argument is not less than it either.
\<close>

fun sset_insert :: "('a \<Rightarrow> 'a \<Rightarrow> bool) \<Rightarrow> 'a \<Rightarrow> 'a list \<Rightarrow> 'a list" where
  "sset_insert lt x [] = [x]"
| "sset_insert lt x (y # ys) =
     (if lt x y then x # y # ys
      else if lt y x then y # sset_insert lt x ys
      else y # ys)"

definition sset_lower_bound :: "('a \<Rightarrow> 'a \<Rightarrow> bool) \<Rightarrow> 'a \<Rightarrow> 'a list \<Rightarrow> nat" where
  "sset_lower_bound lt x xs = length (takeWhile (\<lambda>y. lt y x) xs)"

definition sset_find :: "('a \<Rightarrow> 'a \<Rightarrow> bool) \<Rightarrow> 'a \<Rightarrow> 'a list \<Rightarrow> nat option" where
  "sset_find lt x xs =
     (let i = sset_lower_bound lt x xs
      in if i < length xs \<and> \<not> lt x (xs ! i) then Some i else None)"

definition sset_erase :: "nat \<Rightarrow> 'a list \<Rightarrow> 'a list" where
  "sset_erase i xs = take i xs @ drop (Suc i) xs"

text \<open>The contract of a comparator: a strict linear order on the elements.\<close>

locale comparator =
  fixes lt :: "'a \<Rightarrow> 'a \<Rightarrow> bool"
  assumes lt_irrefl: "\<not> lt x x"
    and lt_trans: "lt x y \<Longrightarrow> lt y z \<Longrightarrow> lt x z"
    and lt_total: "lt x y \<or> x = y \<or> lt y x"
begin

lemma lt_asym: "lt x y \<Longrightarrow> \<not> lt y x"
  using lt_irrefl lt_trans by blast

lemma not_lt_iff: "\<not> lt x y \<longleftrightarrow> x = y \<or> lt y x"
  using lt_asym lt_total lt_irrefl by blast

lemma set_insert_set: "set (sset_insert lt x xs) = insert x (set xs)"
  by (induction xs) (auto simp: not_lt_iff lt_asym)

lemma insert_sorted:
  "sorted_wrt lt xs \<Longrightarrow> sorted_wrt lt (sset_insert lt x xs)"
proof (induction xs)
  case Nil
  then show ?case by simp
next
  case (Cons y ys)
  then show ?case
    by (auto simp: set_insert_set intro: lt_trans)
qed

lemma sorted_distinct: "sorted_wrt lt xs \<Longrightarrow> distinct xs"
  by (induction xs) (auto simp: lt_irrefl)

lemma insert_member: "sorted_wrt lt xs \<Longrightarrow> x \<in> set xs \<Longrightarrow> sset_insert lt x xs = xs"
  by (induction xs) (auto simp: lt_irrefl dest: lt_asym)

lemma insert_length:
  "x \<notin> set xs \<Longrightarrow> length (sset_insert lt x xs) = Suc (length xs)"
  by (induction xs) (auto simp: not_lt_iff)

lemma insert_front:
  "sorted_wrt lt xs \<Longrightarrow> x \<notin> set xs \<Longrightarrow>
   hd (sset_insert lt x xs) = x \<longleftrightarrow> (\<forall>y \<in> set xs. lt x y)"
  by (cases xs) (auto intro: lt_trans dest: lt_asym simp: lt_irrefl)

lemma takeWhile_below:
  assumes "sorted_wrt lt xs"
  shows "takeWhile (\<lambda>y. lt y x) xs = filter (\<lambda>y. lt y x) xs"
  using assms
proof (induction xs)
  case Nil
  then show ?case by simp
next
  case (Cons y ys)
  show ?case
  proof (cases "lt y x")
    case True
    with Cons show ?thesis by simp
  next
    case False
    with Cons.prems have "\<forall>z \<in> set ys. \<not> lt z x"
      using lt_trans by auto
    with False show ?thesis by (simp add: filter_empty_conv)
  qed
qed

lemma lower_bound_split:
  assumes "sorted_wrt lt xs"
  shows "take (sset_lower_bound lt x xs) xs = filter (\<lambda>y. lt y x) xs"
    and "drop (sset_lower_bound lt x xs) xs = filter (\<lambda>y. \<not> lt y x) xs"
proof -
  have t: "takeWhile (\<lambda>y. lt y x) xs = filter (\<lambda>y. lt y x) xs"
    by (rule takeWhile_below [OF assms])
  show "take (sset_lower_bound lt x xs) xs = filter (\<lambda>y. lt y x) xs"
    by (metis sset_lower_bound_def t takeWhile_eq_take)
  have "dropWhile (\<lambda>y. lt y x) xs = filter (\<lambda>y. \<not> lt y x) xs"
    using assms
  proof (induction xs)
    case Nil
    then show ?case by simp
  next
    case (Cons y ys)
    show ?case
    proof (cases "lt y x")
      case True
      with Cons show ?thesis by simp
    next
      case False
      with Cons.prems have "\<forall>z \<in> set ys. \<not> lt z x"
        using lt_trans by auto
      with False show ?thesis by simp
    qed
  qed
  then show "drop (sset_lower_bound lt x xs) xs = filter (\<lambda>y. \<not> lt y x) xs"
    by (metis sset_lower_bound_def dropWhile_eq_drop)
qed

lemma find_member:
  assumes "sorted_wrt lt xs" and "x \<in> set xs"
  obtains i where "sset_find lt x xs = Some i" and "i < length xs" and "xs ! i = x"
proof -
  let ?i = "sset_lower_bound lt x xs"
  have mem: "x \<in> set (drop ?i xs)"
    using assms lower_bound_split(2) [OF assms(1)] by (simp add: lt_irrefl)
  then have less: "?i < length xs" by (cases "?i < length xs") auto
  have "xs ! ?i \<in> set (drop ?i xs)"
    using less by (metis Cons_nth_drop_Suc list.set_intros(1))
  then have "\<not> lt (xs ! ?i) x"
    by (simp add: lower_bound_split(2) [OF assms(1)])
  moreover have "\<not> lt x (xs ! ?i)"
  proof
    assume a: "lt x (xs ! ?i)"
    have "x = xs ! ?i \<or> lt (xs ! ?i) x"
    proof -
      have "drop ?i xs = xs ! ?i # drop (Suc ?i) xs"
        using less by (simp add: Cons_nth_drop_Suc)
      moreover have "sorted_wrt lt (drop ?i xs)"
        using assms(1) by (simp add: sorted_wrt_drop)
      ultimately show ?thesis using mem by auto
    qed
    with a show False using lt_irrefl lt_asym by metis
  qed
  ultimately have "xs ! ?i = x" using lt_total by blast
  moreover have "sset_find lt x xs = Some ?i"
    using less \<open>\<not> lt x (xs ! ?i)\<close> by (simp add: sset_find_def)
  ultimately show ?thesis using less that by blast
qed

lemma find_Some:
  assumes "sset_find lt x xs = Some i"
  shows "i < length xs \<and> xs ! i = x"
proof -
  have i: "i = sset_lower_bound lt x xs" "i < length xs" "\<not> lt x (xs ! i)"
    using assms by (auto simp: sset_find_def Let_def split: if_splits)
  moreover have "\<not> lt (xs ! i) x"
    using i(1,2) nth_length_takeWhile [of "\<lambda>y. lt y x" xs]
    by (simp add: sset_lower_bound_def)
  ultimately show ?thesis using lt_total by blast
qed

lemma find_None: "sorted_wrt lt xs \<Longrightarrow> sset_find lt x xs = None \<Longrightarrow> x \<notin> set xs"
  by (metis find_member option.distinct(1))

lemma erase_find:
  assumes "sorted_wrt lt xs" and "sset_find lt x xs = Some i"
  shows "sset_erase i xs = filter (\<lambda>y. y \<noteq> x) xs"
proof -
  have i: "i < length xs" "xs ! i = x" using find_Some [OF assms(2)] by auto
  then have split: "xs = take i xs @ x # drop (Suc i) xs"
    using id_take_nth_drop by blast
  have "distinct (take i xs @ x # drop (Suc i) xs)"
    using sorted_distinct [OF assms(1)] split by simp
  then have "x \<notin> set (take i xs @ drop (Suc i) xs)"
    by simp
  then have "filter (\<lambda>y. y \<noteq> x) (take i xs @ drop (Suc i) xs) = take i xs @ drop (Suc i) xs"
    by (intro filter_True) blast
  then have "filter (\<lambda>y. y \<noteq> x) (take i xs @ x # drop (Suc i) xs) = sset_erase i xs"
    by (simp add: sset_erase_def)
  then show ?thesis using split by simp
qed

end

lemma sorted_wrt_filter_keep: "sorted_wrt R xs \<Longrightarrow> sorted_wrt R (filter P xs)"
  by (induction xs) auto

lemma sorted_wrt_cong_set:
  "(\<And>x y. x \<in> set xs \<Longrightarrow> y \<in> set xs \<Longrightarrow> R x y = S x y) \<Longrightarrow> sorted_wrt R xs = sorted_wrt S xs"
  by (induction xs) auto

text \<open>
  Two loops over a sorted list, one after the other: the elements below a bound, then the
  elements that satisfy a second test. Together they select a filter of the list when both
  tests are closed downwards.
\<close>

lemma two_prefixes_filter:
  assumes "sorted_wrt R q"
    and "\<And>x y. x \<in> set q \<Longrightarrow> y \<in> set q \<Longrightarrow> R x y \<Longrightarrow> P y \<Longrightarrow> P x"
    and "\<And>x y. x \<in> set q \<Longrightarrow> y \<in> set q \<Longrightarrow> R x y \<Longrightarrow> \<not> P x \<Longrightarrow> \<not> P y \<Longrightarrow> E y \<Longrightarrow> E x"
  shows "takeWhile P q @ takeWhile E (dropWhile P q) = filter (\<lambda>x. P x \<or> E x \<and> \<not> P x) q"
  using assms
proof (induction q)
  case Nil
  then show ?case by simp
next
  case (Cons y ys)
  have IH: "takeWhile P ys @ takeWhile E (dropWhile P ys) = filter (\<lambda>x. P x \<or> E x \<and> \<not> P x) ys"
    by (rule Cons.IH) (use Cons.prems in auto)
  show ?case
  proof (cases "P y")
    case True
    with IH show ?thesis by simp
  next
    case False
    then have np: "\<forall>z \<in> set ys. \<not> P z" using Cons.prems(1,2) by auto
    then have d: "dropWhile P ys = ys" "takeWhile P ys = []"
      by (metis dropWhile_eq_self_iff hd_in_set, metis takeWhile_eq_Nil_iff hd_in_set)
    show ?thesis
    proof (cases "E y")
      case True
      with False IH d show ?thesis by simp
    next
      case E: False
      have "\<forall>z \<in> set ys. \<not> E z"
        using Cons.prems(1,3) False E np by fastforce
      with False E np show ?thesis by (auto simp: filter_empty_conv)
    qed
  qed
qed

lemma take_two_prefixes:
  "take (length (takeWhile P q) + length (takeWhile E (drop (length (takeWhile P q)) q))) q =
   takeWhile P q @ takeWhile E (dropWhile P q)"
  by (metis dropWhile_eq_drop takeWhile_eq_take take_add)

section \<open>Words\<close>

lemma word_sub_le_iff: "(a::'a::len word) \<le> b \<Longrightarrow> unat (b - a) = unat b - unat a"
  by (rule unat_sub)

lemma unat_plus_no_wrap:
  "unat (a::'a::len word) + unat b < 2 ^ LENGTH('a) \<Longrightarrow> unat (a + b) = unat a + unat b"
  by (simp add: unat_word_ariths)

lemma unat_times_no_wrap:
  "unat (a::'a::len word) * unat b < 2 ^ LENGTH('a) \<Longrightarrow> unat (a * b) = unat a * unat b"
  by (simp add: unat_word_ariths)

end
