(* ===== verification/Timer.thy ===== *)
theory Timer
  imports Prelude
begin

text \<open>
  \<open>src/fiber/timer.h\<close> and \<open>src/fiber/timer.cc\<close>: timer tasks and the ordered set that
  holds them. A \<open>shared_ptr<TimerTask>\<close> is the address of the task (a natural number)
  and \<open>heap\<close> maps addresses to the objects; the allocator's choice of a fresh address is
  an argument of the operations that allocate. The value a call of \<open>GetCurrentMS()\<close>
  returns is an argument as well (\<open>now\<close>). Every operation takes the timer's lock for its
  whole body, so an operation is one step; the virtual call \<open>onTimerInsertedAtFront()\<close>
  that \<open>addTimerTask\<close> makes after releasing the lock is reported by a boolean of the
  result, for the poller to act on.
\<close>

section \<open>Data\<close>

record 'cb timer_task =
  m_cb :: "'cb option"
  m_ms :: u64
  m_next :: u64
  m_recurring :: bool

record 'cb timer =
  heap :: "nat \<Rightarrow> 'cb timer_task"
  m_tasks :: "nat list"
  m_tickled :: bool
  m_previouseTime :: u64

definition TimerTask_ctor :: "'cb option \<Rightarrow> u64 \<Rightarrow> bool \<Rightarrow> u64 \<Rightarrow> 'cb timer_task" where
  "TimerTask_ctor cb ms recurring now =
     \<lparr>m_cb = cb, m_ms = ms, m_next = now + ms, m_recurring = recurring\<rparr>"

definition Comparator :: "(nat \<Rightarrow> 'cb timer_task) \<Rightarrow> nat \<Rightarrow> nat \<Rightarrow> bool" where
  "Comparator h lhs rhs =
     (if m_next (h lhs) < m_next (h rhs) then True
      else if m_next (h lhs) > m_next (h rhs) then False
      else lhs < rhs)"

definition Timer_ctor :: "(nat \<Rightarrow> 'cb timer_task) \<Rightarrow> u64 \<Rightarrow> 'cb timer" where
  "Timer_ctor h now =
     \<lparr>heap = h, m_tasks = [], m_tickled = False, m_previouseTime = now\<rparr>"

section \<open>Operations\<close>

text \<open>
  \<open>addTimerTask\<close>: the iterator \<open>insert\<close> returns is \<open>begin()\<close> exactly when the task
  is the first element. The boolean says that \<open>onTimerInsertedAtFront()\<close> is called.
\<close>

definition addTimerTask :: "nat \<Rightarrow> 'cb timer \<Rightarrow> 'cb timer \<times> bool" where
  "addTimerTask p t =
     (let q = sset_insert (Comparator (heap t)) p (m_tasks t);
          isFront = (hd q = p \<and> \<not> m_tickled t)
      in (t\<lparr>m_tasks := q, m_tickled := (if isFront then True else m_tickled t)\<rparr>, isFront))"

definition createTimer ::
  "nat \<Rightarrow> 'cb option \<Rightarrow> u64 \<Rightarrow> bool \<Rightarrow> u64 \<Rightarrow> 'cb timer \<Rightarrow> 'cb timer \<times> bool" where
  "createTimer p cb ms recurring now t =
     addTimerTask p (t\<lparr>heap := (heap t)(p := TimerTask_ctor cb ms recurring now)\<rparr>)"

text \<open>
  \<open>TaskCond\<close>: the callback of a conditional timer runs only while the object its weak
  pointer refers to is alive. \<open>createCondTimer\<close> binds it to the callback it is given.
\<close>

definition TaskCond :: "bool \<Rightarrow> ('w \<Rightarrow> 'w) \<Rightarrow> 'w \<Rightarrow> 'w" where
  "TaskCond cond_alive cb w = (if cond_alive then cb w else w)"

definition createCondTimer ::
  "nat \<Rightarrow> ('w \<Rightarrow> 'w) \<Rightarrow> ('w \<Rightarrow> bool) \<Rightarrow> u64 \<Rightarrow> bool \<Rightarrow> u64 \<Rightarrow> ('w \<Rightarrow> 'w) timer
     \<Rightarrow> ('w \<Rightarrow> 'w) timer \<times> bool" where
  "createCondTimer p cb weak_cond ms recurring now t =
     createTimer p (Some (\<lambda>w. TaskCond (weak_cond w) cb w)) ms recurring now t"

definition cancel :: "nat \<Rightarrow> 'cb timer \<Rightarrow> ('cb timer \<times> bool) result" where
  "cancel p t =
     (if m_cb (heap t p) \<noteq> None then
        (let h = (heap t)(p := (heap t p)\<lparr>m_cb := None\<rparr>)
         in case sset_find (Comparator h) p (m_tasks t) of
              None \<Rightarrow> Inl EraseEnd
            | Some it \<Rightarrow> Inr (t\<lparr>heap := h, m_tasks := sset_erase it (m_tasks t)\<rparr>, True))
      else Inr (t, False))"

definition refresh :: "nat \<Rightarrow> u64 \<Rightarrow> 'cb timer \<Rightarrow> 'cb timer \<times> bool" where
  "refresh p now t =
     (if m_cb (heap t p) = None then (t, False)
      else case sset_find (Comparator (heap t)) p (m_tasks t) of
             None \<Rightarrow> (t, False)
           | Some it \<Rightarrow>
               (let q = sset_erase it (m_tasks t);
                    h = (heap t)(p := (heap t p)\<lparr>m_next := now + m_ms (heap t p)\<rparr>)
                in (t\<lparr>heap := h, m_tasks := sset_insert (Comparator h) p q\<rparr>, True)))"

text \<open>The result of \<open>reset\<close>: the timer, whether the front hook is called, the return value.\<close>

definition reset ::
  "nat \<Rightarrow> u64 \<Rightarrow> bool \<Rightarrow> u64 \<Rightarrow> 'cb timer \<Rightarrow> 'cb timer \<times> bool \<times> bool" where
  "reset p ms from_now now t =
     (if ms = m_ms (heap t p) \<and> \<not> from_now then (t, False, True)
      else if m_cb (heap t p) = None then (t, False, False)
      else case sset_find (Comparator (heap t)) p (m_tasks t) of
             None \<Rightarrow> (t, False, False)
           | Some it \<Rightarrow>
               (let q = sset_erase it (m_tasks t);
                    start = (if from_now then now else m_next (heap t p) - ms);
                    h = (heap t)(p := (heap t p)\<lparr>m_ms := ms, m_next := start + ms\<rparr>);
                    (t', front) = addTimerTask p (t\<lparr>heap := h, m_tasks := q\<rparr>)
                in (t', front, True)))"

definition getNextExecuteTime :: "u64 \<Rightarrow> 'cb timer \<Rightarrow> 'cb timer \<times> u64" where
  "getNextExecuteTime now_ms t =
     (let t' = t\<lparr>m_tickled := False\<rparr>
      in case m_tasks t of
           [] \<Rightarrow> (t', - 1)
         | p # _ \<Rightarrow>
             (if now_ms \<ge> m_next (heap t p) then (t', 0)
              else (t', m_next (heap t p) - now_ms)))"

definition hasTimer :: "'cb timer \<Rightarrow> bool" where
  "hasTimer t = (m_tasks t \<noteq> [])"

definition detectClockRollover :: "u64 \<Rightarrow> 'cb timer \<Rightarrow> bool \<times> 'cb timer" where
  "detectClockRollover now_ms t =
     (now_ms < m_previouseTime t \<and> now_ms < m_previouseTime t - 60 * 60 * 1000,
      t\<lparr>m_previouseTime := now_ms\<rparr>)"

text \<open>The last loop of \<open>getExecuteTask\<close>: collect the callbacks and re-queue the recurring tasks.\<close>

definition expire_one :: "u64 \<Rightarrow> nat \<Rightarrow> 'cb timer \<Rightarrow> 'cb timer" where
  "expire_one now_ms p t =
     (let task = heap t p
      in if m_recurring task
         then (let h = (heap t)(p := task\<lparr>m_next := now_ms + m_ms task\<rparr>)
               in t\<lparr>heap := h, m_tasks := sset_insert (Comparator h) p (m_tasks t)\<rparr>)
         else t\<lparr>heap := (heap t)(p := task\<lparr>m_cb := None\<rparr>)\<rparr>)"

fun run_expired :: "u64 \<Rightarrow> nat list \<Rightarrow> 'cb timer \<Rightarrow> 'cb timer \<times> 'cb option list" where
  "run_expired now_ms [] t = (t, [])"
| "run_expired now_ms (p # ps) t =
     (let (t', cbs) = run_expired now_ms ps (expire_one now_ms p t)
      in (t', m_cb (heap t p) # cbs))"

text \<open>
  \<open>getExecuteTask\<close>: \<open>now_ms\<close> is the clock read at entry, \<open>now2\<close> the clock the
  constructor of the probe task \<open>now_task\<close> reads later, \<open>np\<close> the probe's address.
\<close>

definition expired_end :: "u64 \<Rightarrow> u64 \<Rightarrow> nat \<Rightarrow> bool \<Rightarrow> 'cb timer \<Rightarrow> nat" where
  "expired_end now_ms now2 np rollover t =
     (let h = (heap t)(np := TimerTask_ctor None 0 False now2);
          it = (if rollover then length (m_tasks t)
                else sset_lower_bound (Comparator h) np (m_tasks t))
      in it + length (takeWhile (\<lambda>p. m_next (heap t p) = now_ms) (drop it (m_tasks t))))"

definition getExecuteTask ::
  "u64 \<Rightarrow> u64 \<Rightarrow> nat \<Rightarrow> 'cb timer \<Rightarrow> 'cb timer \<times> 'cb option list" where
  "getExecuteTask now_ms now2 np t =
     (if m_tasks t = [] then (t, [])
      else (let (rollover, t1) = detectClockRollover now_ms t
            in if \<not> rollover \<and> m_next (heap t1 (hd (m_tasks t1))) > now_ms then (t1, [])
               else (let it = expired_end now_ms now2 np rollover t1;
                         expired = take it (m_tasks t1)
                     in run_expired now_ms expired
                          (t1\<lparr>m_tasks := drop it (m_tasks t1)\<rparr>))))"

section \<open>The ordered set is well formed\<close>

interpretation tcmp: comparator "Comparator h" for h :: "nat \<Rightarrow> 'cb timer_task"
  by unfold_locales (auto simp: Comparator_def split: if_splits)

lemma Comparator_cong:
  "m_next (h a) = m_next (h' a) \<Longrightarrow> m_next (h b) = m_next (h' b) \<Longrightarrow>
   Comparator h a b = Comparator h' a b"
  by (simp add: Comparator_def)

lemma Comparator_next_le: "Comparator h a b \<Longrightarrow> m_next (h a) \<le> m_next (h b)"
  by (auto simp: Comparator_def split: if_splits)

lemma sorted_heap_cong:
  assumes "\<And>x. x \<in> set q \<Longrightarrow> m_next (h x) = m_next (h' x)"
  shows "sorted_wrt (Comparator h) q = sorted_wrt (Comparator h') q"
  by (rule sorted_wrt_cong_set) (rule Comparator_cong; rule assms; assumption)

text \<open>
  \<open>timer_ok C t\<close>: the set is sorted by the comparator over the current deadlines, it
  holds handles of \<open>C\<close> only (the tasks created so far), and a task that still has a
  callback is in the set.
\<close>

definition timer_ok :: "nat set \<Rightarrow> 'cb timer \<Rightarrow> bool" where
  "timer_ok C t \<longleftrightarrow>
     sorted_wrt (Comparator (heap t)) (m_tasks t) \<and> set (m_tasks t) \<subseteq> C \<and>
     (\<forall>p \<in> C. m_cb (heap t p) \<noteq> None \<longrightarrow> p \<in> set (m_tasks t))"

lemma timer_okD:
  assumes "timer_ok C t"
  shows "sorted_wrt (Comparator (heap t)) (m_tasks t)" and "set (m_tasks t) \<subseteq> C"
    and "p \<in> C \<Longrightarrow> m_cb (heap t p) \<noteq> None \<Longrightarrow> p \<in> set (m_tasks t)"
  using assms by (auto simp: timer_ok_def)

lemma timer_ok_ctor: "timer_ok {} (Timer_ctor h now)"
  by (simp add: timer_ok_def Timer_ctor_def)

lemma addTimerTask_fields [simp]:
  "heap (fst (addTimerTask p t)) = heap t"
  "m_previouseTime (fst (addTimerTask p t)) = m_previouseTime t"
  "m_tasks (fst (addTimerTask p t)) = sset_insert (Comparator (heap t)) p (m_tasks t)"
  by (simp_all add: addTimerTask_def Let_def)

lemma timer_ok_createTimer:
  assumes "timer_ok C t" and "p \<notin> C"
  shows "timer_ok (insert p C) (fst (createTimer p cb ms recur now t))"
proof -
  let ?h = "(heap t)(p := TimerTask_ctor cb ms recur now)"
  have p: "p \<notin> set (m_tasks t)" using timer_okD(2) [OF assms(1)] assms(2) by blast
  have "sorted_wrt (Comparator ?h) (m_tasks t) = sorted_wrt (Comparator (heap t)) (m_tasks t)"
    by (rule sorted_heap_cong) (use p in auto)
  then have "sorted_wrt (Comparator ?h) (m_tasks t)"
    using timer_okD(1) [OF assms(1)] by blast
  then have "sorted_wrt (Comparator ?h) (sset_insert (Comparator ?h) p (m_tasks t))"
    by (rule tcmp.insert_sorted)
  then show ?thesis
    using assms by (auto simp: timer_ok_def createTimer_def tcmp.set_insert_set)
qed

lemma set_filter_neq: "set (filter (\<lambda>y. y \<noteq> p) q) = set q - {p}"
  by auto

lemma find_in_ok:
  assumes "timer_ok C t" and "sset_find (Comparator (heap t)) p (m_tasks t) = Some it"
  shows "sset_erase it (m_tasks t) = filter (\<lambda>y. y \<noteq> p) (m_tasks t)"
    and "p \<in> set (m_tasks t)"
  using tcmp.erase_find [OF timer_okD(1) [OF assms(1)] assms(2)]
    tcmp.find_Some [OF assms(2)] by auto

lemma Comparator_cb_upd [simp]:
  "Comparator (h(p := (h p)\<lparr>m_cb := c\<rparr>)) = Comparator h"
  by (intro ext Comparator_cong) simp_all

text \<open>A cancelled handle of \<open>C\<close> is found in the set, so the erase is defined.\<close>

lemma cancel_eq:
  assumes "timer_ok C t" and "p \<in> C"
  shows "cancel p t =
    (if m_cb (heap t p) = None then Inr (t, False)
     else Inr (t\<lparr>heap := (heap t)(p := (heap t p)\<lparr>m_cb := None\<rparr>),
                m_tasks := filter (\<lambda>y. y \<noteq> p) (m_tasks t)\<rparr>, True))"
proof (cases "m_cb (heap t p) = None")
  case True
  then show ?thesis by (simp add: cancel_def)
next
  case False
  then have "p \<in> set (m_tasks t)" using timer_okD(3) [OF assms] by blast
  then obtain it where "sset_find (Comparator (heap t)) p (m_tasks t) = Some it"
    using tcmp.find_member [OF timer_okD(1) [OF assms(1)]] by metis
  with False show ?thesis
    using find_in_ok(1) [OF assms(1)] by (simp add: cancel_def Let_def)
qed

lemma timer_ok_cancel:
  assumes "timer_ok C t" and "p \<in> C" and "cancel p t = Inr (t', b)"
  shows "timer_ok C t'"
proof -
  let ?h = "(heap t)(p := (heap t p)\<lparr>m_cb := None\<rparr>)"
  have "sorted_wrt (Comparator ?h) (filter (\<lambda>y. y \<noteq> p) (m_tasks t))"
    using timer_okD(1) [OF assms(1)] by (simp add: sorted_wrt_filter_keep)
  moreover have "set (filter (\<lambda>y. y \<noteq> p) (m_tasks t)) \<subseteq> C"
    using timer_okD(2) [OF assms(1)] by auto
  ultimately have "timer_ok C (t\<lparr>heap := ?h, m_tasks := filter (\<lambda>y. y \<noteq> p) (m_tasks t)\<rparr>)"
    using timer_okD(3) [OF assms(1)] by (simp add: timer_ok_def)
  then show ?thesis
    using assms by (auto simp: cancel_eq split: if_splits)
qed

text \<open>
  Moving a task that is in the set to a new deadline (\<open>refresh\<close>, \<open>reset\<close>): erased
  under the old deadline, inserted under the new one.
\<close>

lemma timer_ok_move:
  assumes ok: "timer_ok C t" and p: "p \<in> set (m_tasks t)"
    and h: "h = (heap t)(p := task)" and q: "q = filter (\<lambda>y. y \<noteq> p) (m_tasks t)"
  shows "sorted_wrt (Comparator h) (sset_insert (Comparator h) p q)"
    and "set (sset_insert (Comparator h) p q) = set (m_tasks t)"
proof -
  have "sorted_wrt (Comparator (heap t)) q"
    using timer_okD(1) [OF ok] by (simp add: q sorted_wrt_filter_keep)
  moreover have "\<And>x. x \<in> set q \<Longrightarrow> m_next (h x) = m_next (heap t x)"
    by (auto simp: h q)
  ultimately have "sorted_wrt (Comparator h) q"
    using sorted_heap_cong by metis
  then show "sorted_wrt (Comparator h) (sset_insert (Comparator h) p q)"
    by (rule tcmp.insert_sorted)
  show "set (sset_insert (Comparator h) p q) = set (m_tasks t)"
    using p by (auto simp: tcmp.set_insert_set q)
qed

lemma timer_ok_moved:
  assumes "timer_ok C t" and "p \<in> set (m_tasks t)" and "m_cb (heap t p) \<noteq> None"
    and "h = (heap t)(p := task)" and "q = filter (\<lambda>y. y \<noteq> p) (m_tasks t)"
    and "heap t' = h" and "m_tasks t' = sset_insert (Comparator h) p q"
  shows "timer_ok C t'"
  unfolding timer_ok_def
proof (intro conjI ballI impI)
  note m = timer_ok_move [OF assms(1,2,4,5)]
  show "sorted_wrt (Comparator (heap t')) (m_tasks t')" using m(1) assms(6,7) by simp
  show "set (m_tasks t') \<subseteq> C" using m(2) assms(7) timer_okD(2) [OF assms(1)] by simp
  fix x assume "x \<in> C" "m_cb (heap t' x) \<noteq> None"
  then have "x \<in> set (m_tasks t)"
    using assms(2,4,6) timer_okD(3) [OF assms(1)] by (cases "x = p") auto
  then show "x \<in> set (m_tasks t')" using m(2) assms(7) by simp
qed

lemma find_iff:
  assumes "timer_ok C t"
  shows "sset_find (Comparator (heap t)) p (m_tasks t) = None \<longleftrightarrow> p \<notin> set (m_tasks t)"
  using tcmp.find_None [OF timer_okD(1) [OF assms]] find_in_ok(2) [OF assms]
  by (cases "sset_find (Comparator (heap t)) p (m_tasks t)") auto

text \<open>
  \<open>refresh\<close> and \<open>reset\<close> on a well-formed set: the handle is erased from the set under
  its old deadline and inserted under the new one.
\<close>

definition move_task :: "nat \<Rightarrow> 'cb timer_task \<Rightarrow> 'cb timer \<Rightarrow> 'cb timer" where
  "move_task p task t =
     (let h = (heap t)(p := task)
      in t\<lparr>heap := h,
           m_tasks := sset_insert (Comparator h) p (filter (\<lambda>y. y \<noteq> p) (m_tasks t))\<rparr>)"

lemma timer_ok_move_task:
  assumes "timer_ok C t" and "p \<in> set (m_tasks t)" and "m_cb (heap t p) \<noteq> None"
  shows "timer_ok C (move_task p task t)"
  by (rule timer_ok_moved [OF assms refl refl]) (simp_all add: move_task_def Let_def)

lemma refresh_eq:
  assumes ok: "timer_ok C t"
  shows "refresh p now t =
    (if m_cb (heap t p) = None \<or> p \<notin> set (m_tasks t) then (t, False)
     else (move_task p ((heap t p)\<lparr>m_next := now + m_ms (heap t p)\<rparr>) t, True))"
proof (cases "sset_find (Comparator (heap t)) p (m_tasks t)")
  case None
  moreover from None have "p \<notin> set (m_tasks t)" using find_iff [OF ok] by blast
  ultimately show ?thesis by (simp add: refresh_def)
next
  case (Some it)
  then show ?thesis
    using find_in_ok [OF ok Some] by (simp add: refresh_def move_task_def Let_def)
qed

definition reset_start :: "nat \<Rightarrow> u64 \<Rightarrow> bool \<Rightarrow> u64 \<Rightarrow> 'cb timer \<Rightarrow> u64" where
  "reset_start p ms from_now now t = (if from_now then now else m_next (heap t p) - ms)"

lemma reset_eq:
  assumes ok: "timer_ok C t"
  shows "reset p ms from_now now t =
    (if ms = m_ms (heap t p) \<and> \<not> from_now then (t, False, True)
     else if m_cb (heap t p) = None \<or> p \<notin> set (m_tasks t) then (t, False, False)
     else (let (t', front) = addTimerTask p
             (t\<lparr>heap := (heap t)(p := (heap t p)\<lparr>m_ms := ms,
                                 m_next := reset_start p ms from_now now t + ms\<rparr>),
                m_tasks := filter (\<lambda>y. y \<noteq> p) (m_tasks t)\<rparr>)
           in (t', front, True)))"
proof (cases "sset_find (Comparator (heap t)) p (m_tasks t)")
  case None
  moreover from None have "p \<notin> set (m_tasks t)" using find_iff [OF ok] by blast
  ultimately show ?thesis by (simp add: reset_def)
next
  case (Some it)
  then show ?thesis
    using find_in_ok [OF ok Some] by (simp add: reset_def reset_start_def Let_def)
qed

lemma timer_ok_refresh: "timer_ok C t \<Longrightarrow> timer_ok C (fst (refresh p now t))"
  by (simp add: refresh_eq timer_ok_move_task)

lemma reset_fst_cases:
  assumes "timer_ok C t"
  shows "fst (reset p ms from_now now t) = t \<or>
    p \<in> set (m_tasks t) \<and> m_cb (heap t p) \<noteq> None \<and>
    heap (fst (reset p ms from_now now t)) = heap (move_task p ((heap t p)\<lparr>m_ms := ms,
        m_next := reset_start p ms from_now now t + ms\<rparr>) t) \<and>
    m_tasks (fst (reset p ms from_now now t)) = m_tasks (move_task p ((heap t p)\<lparr>m_ms := ms,
        m_next := reset_start p ms from_now now t + ms\<rparr>) t)"
  by (simp add: reset_eq [OF assms] move_task_def Let_def case_prod_beta)

lemma timer_ok_cong:
  "heap t' = heap t \<Longrightarrow> m_tasks t' = m_tasks t \<Longrightarrow> timer_ok C t' = timer_ok C t"
  by (simp add: timer_ok_def)

lemma timer_ok_reset:
  assumes "timer_ok C t"
  shows "timer_ok C (fst (reset p ms from_now now t))"
  using reset_fst_cases [OF assms, of p ms from_now now]
proof (elim disjE conjE)
  assume "fst (reset p ms from_now now t) = t"
  then show ?thesis using assms by simp
next
  assume p: "p \<in> set (m_tasks t)" "m_cb (heap t p) \<noteq> None"
    and eq: "heap (fst (reset p ms from_now now t)) = heap (move_task p ((heap t p)\<lparr>m_ms := ms,
        m_next := reset_start p ms from_now now t + ms\<rparr>) t)"
      "m_tasks (fst (reset p ms from_now now t)) = m_tasks (move_task p ((heap t p)\<lparr>m_ms := ms,
        m_next := reset_start p ms from_now now t + ms\<rparr>) t)"
  show ?thesis unfolding timer_ok_cong [OF eq] by (rule timer_ok_move_task [OF assms p])
qed

section \<open>Expiry\<close>

lemma expire_one_heap:
  "heap (expire_one now p t) =
     (heap t)(p := (if m_recurring (heap t p) then (heap t p)\<lparr>m_next := now + m_ms (heap t p)\<rparr>
                    else (heap t p)\<lparr>m_cb := None\<rparr>))"
  by (simp add: expire_one_def Let_def)

lemma expire_one_tasks:
  "set (m_tasks (expire_one now p t)) =
     set (m_tasks t) \<union> (if m_recurring (heap t p) then {p} else {})"
  by (simp add: expire_one_def Let_def tcmp.set_insert_set)

lemma expire_one_sorted:
  assumes s: "sorted_wrt (Comparator (heap t)) (m_tasks t)" and p: "p \<notin> set (m_tasks t)"
  shows "sorted_wrt (Comparator (heap (expire_one now p t))) (m_tasks (expire_one now p t))"
proof (cases "m_recurring (heap t p)")
  case True
  let ?h = "(heap t)(p := (heap t p)\<lparr>m_next := now + m_ms (heap t p)\<rparr>)"
  have "sorted_wrt (Comparator ?h) (m_tasks t) = sorted_wrt (Comparator (heap t)) (m_tasks t)"
    by (rule sorted_heap_cong) (use p in auto)
  with s have "sorted_wrt (Comparator ?h) (sset_insert (Comparator ?h) p (m_tasks t))"
    by (simp add: tcmp.insert_sorted)
  with True show ?thesis by (simp add: expire_one_def Let_def)
next
  case False
  with s show ?thesis by (simp add: expire_one_def Let_def)
qed

lemma run_expired_cbs:
  "distinct ps \<Longrightarrow> snd (run_expired now ps t) = map (\<lambda>p. m_cb (heap t p)) ps"
proof (induction ps arbitrary: t)
  case Nil
  then show ?case by simp
next
  case (Cons p ps)
  then have "snd (run_expired now ps (expire_one now p t)) = map (\<lambda>q. m_cb (heap t q)) ps"
    by (auto simp: expire_one_heap)
  then show ?case by (simp add: case_prod_beta)
qed

definition expired_task :: "u64 \<Rightarrow> 'cb timer_task \<Rightarrow> 'cb timer_task" where
  "expired_task now task =
     (if m_recurring task then task\<lparr>m_next := now + m_ms task\<rparr> else task\<lparr>m_cb := None\<rparr>)"

lemma run_expired_heap:
  "distinct ps \<Longrightarrow> heap (fst (run_expired now ps t)) =
     (\<lambda>p. if p \<in> set ps then expired_task now (heap t p) else heap t p)"
proof (induction ps arbitrary: t)
  case Nil
  then show ?case by simp
next
  case (Cons p ps)
  then show ?case by (auto simp: case_prod_beta expire_one_heap expired_task_def)
qed

lemma run_expired_set:
  "distinct ps \<Longrightarrow> set (m_tasks (fst (run_expired now ps t))) =
     set (m_tasks t) \<union> {p \<in> set ps. m_recurring (heap t p)}"
proof (induction ps arbitrary: t)
  case Nil
  then show ?case by simp
next
  case (Cons p ps)
  then show ?case by (auto simp: case_prod_beta expire_one_heap expire_one_tasks)
qed

lemma run_expired_sorted:
  "distinct ps \<Longrightarrow> set ps \<inter> set (m_tasks t) = {} \<Longrightarrow>
   sorted_wrt (Comparator (heap t)) (m_tasks t) \<Longrightarrow>
   sorted_wrt (Comparator (heap (fst (run_expired now ps t)))) (m_tasks (fst (run_expired now ps t)))"
proof (induction ps arbitrary: t)
  case Nil
  then show ?case by simp
next
  case (Cons p ps)
  have "set ps \<inter> set (m_tasks (expire_one now p t)) = {}"
    using Cons.prems by (auto simp: expire_one_tasks split: if_splits)
  moreover have "sorted_wrt (Comparator (heap (expire_one now p t))) (m_tasks (expire_one now p t))"
    using Cons.prems by (intro expire_one_sorted) auto
  ultimately show ?case using Cons by (simp add: case_prod_beta)
qed

text \<open>
  Taking any prefix of the set out and running it keeps the invariant; this is where a
  one-shot task loses its callback and a recurring task returns to the set.
\<close>

lemma timer_ok_run_expired:
  assumes ok: "timer_ok C t" and u: "heap u = heap t" "m_tasks u = drop n (m_tasks t)"
  shows "timer_ok C (fst (run_expired now (take n (m_tasks t)) u))"
proof -
  let ?ps = "take n (m_tasks t)"
  let ?v = "fst (run_expired now ?ps u)"
  have srt: "sorted_wrt (Comparator (heap t)) (m_tasks t)" by (rule timer_okD(1) [OF ok])
  then have dist: "distinct (?ps @ m_tasks u)" using tcmp.sorted_distinct by (simp add: u)
  have "sorted_wrt (Comparator (heap u)) (m_tasks u)" using srt by (simp add: u sorted_wrt_drop)
  then have s: "sorted_wrt (Comparator (heap ?v)) (m_tasks ?v)"
    using dist by (intro run_expired_sorted) auto
  have un: "set (m_tasks t) = set ?ps \<union> set (m_tasks u)"
    by (metis append_take_drop_id set_append u(2))
  have st: "set (m_tasks ?v) = set (m_tasks u) \<union> {p \<in> set ?ps. m_recurring (heap u p)}"
    using dist by (intro run_expired_set) auto
  have hp: "heap ?v = (\<lambda>p. if p \<in> set ?ps then expired_task now (heap u p) else heap u p)"
    using dist by (intro run_expired_heap) auto
  have "p \<in> set (m_tasks ?v)" if "p \<in> C" "m_cb (heap ?v p) \<noteq> None" for p
  proof (cases "p \<in> set ?ps")
    case True
    with that(2) show ?thesis by (auto simp: hp st expired_task_def split: if_splits)
  next
    case False
    with that have "m_cb (heap t p) \<noteq> None" by (simp add: hp u)
    with that(1) False show ?thesis using timer_okD(3) [OF ok] un by (auto simp: st)
  qed
  moreover have "set (m_tasks ?v) \<subseteq> C" using timer_okD(2) [OF ok] un st by blast
  ultimately show ?thesis using s by (auto simp: timer_ok_def)
qed

lemma detectClockRollover_fields [simp]:
  "heap (snd (detectClockRollover now t)) = heap t"
  "m_tasks (snd (detectClockRollover now t)) = m_tasks t"
  by (simp_all add: detectClockRollover_def)

lemma timer_ok_getExecuteTask:
  assumes "timer_ok C t"
  shows "timer_ok C (fst (getExecuteTask now_ms now2 np t))"
proof -
  let ?d = "detectClockRollover now_ms t"
  have ok: "timer_ok C (snd ?d)" using assms by (simp add: timer_ok_def)
  have "timer_ok C (fst (run_expired now_ms (take n (m_tasks (snd ?d)))
          ((snd ?d)\<lparr>m_tasks := drop n (m_tasks (snd ?d))\<rparr>)))" for n
    by (rule timer_ok_run_expired [OF ok]) simp_all
  then show ?thesis using assms ok
    by (simp add: getExecuteTask_def Let_def case_prod_beta)
qed

lemma getNextExecuteTime_fst [simp]: "fst (getNextExecuteTime now t) = t\<lparr>m_tickled := False\<rparr>"
  by (simp add: getNextExecuteTime_def Let_def split: list.split)

lemma timer_ok_tickled [simp]: "timer_ok C (t\<lparr>m_tickled := b\<rparr>) = timer_ok C t"
  by (simp add: timer_ok_def)

lemma timer_ok_getNextExecuteTime:
  "timer_ok C t \<Longrightarrow> timer_ok C (fst (getNextExecuteTime now t))"
  by simp

section \<open>Runs of operations\<close>

text \<open>
  A client's calls in any order. A handle must come from an earlier creation, and a new
  task and the probe task of \<open>getExecuteTask\<close> must sit at an address no live task has
  (which is what \<open>make_shared\<close> and \<open>new\<close> give).
\<close>

datatype 'cb timer_op =
    Create nat "'cb option" u64 bool u64
  | Cancel nat
  | Refresh nat u64
  | Reset nat u64 bool u64
  | NextTime u64
  | Execute u64 u64 nat

fun op_valid :: "nat set \<Rightarrow> 'cb timer_op \<Rightarrow> bool" where
  "op_valid C (Create p cb ms recurring now) = (p \<notin> C)"
| "op_valid C (Cancel p) = (p \<in> C)"
| "op_valid C (Refresh p now) = (p \<in> C)"
| "op_valid C (Reset p ms from_now now) = (p \<in> C)"
| "op_valid C (NextTime now) = True"
| "op_valid C (Execute now_ms now2 np) = (np \<notin> C)"

fun op_created :: "nat set \<Rightarrow> 'cb timer_op \<Rightarrow> nat set" where
  "op_created C (Create p cb ms recurring now) = insert p C"
| "op_created C _ = C"

fun op_apply :: "'cb timer_op \<Rightarrow> 'cb timer \<Rightarrow> 'cb timer result" where
  "op_apply (Create p cb ms recurring now) t = Inr (fst (createTimer p cb ms recurring now t))"
| "op_apply (Cancel p) t = (case cancel p t of Inl e \<Rightarrow> Inl e | Inr (t', _) \<Rightarrow> Inr t')"
| "op_apply (Refresh p now) t = Inr (fst (refresh p now t))"
| "op_apply (Reset p ms from_now now) t = Inr (fst (reset p ms from_now now t))"
| "op_apply (NextTime now) t = Inr (fst (getNextExecuteTime now t))"
| "op_apply (Execute now_ms now2 np) t = Inr (fst (getExecuteTask now_ms now2 np t))"

fun ops_valid :: "nat set \<Rightarrow> 'cb timer_op list \<Rightarrow> bool" where
  "ops_valid C [] = True"
| "ops_valid C (x # xs) = (op_valid C x \<and> ops_valid (op_created C x) xs)"

fun ops_created :: "nat set \<Rightarrow> 'cb timer_op list \<Rightarrow> nat set" where
  "ops_created C [] = C"
| "ops_created C (x # xs) = ops_created (op_created C x) xs"

fun ops_run :: "'cb timer_op list \<Rightarrow> 'cb timer \<Rightarrow> 'cb timer result" where
  "ops_run [] t = Inr t"
| "ops_run (x # xs) t = bindR (op_apply x t) (ops_run xs)"

lemma op_apply_ok:
  assumes "timer_ok C t" and "op_valid C x"
  shows "\<exists>t'. op_apply x t = Inr t' \<and> timer_ok (op_created C x) t'"
proof (cases x)
  case (Cancel p)
  then obtain t' b where "cancel p t = Inr (t', b)"
    using cancel_eq [OF assms(1), of p] assms(2) by (cases "m_cb (heap t p)") auto
  with Cancel timer_ok_cancel [OF assms(1)] assms(2) show ?thesis by auto
qed (use assms in \<open>auto simp: timer_ok_createTimer timer_ok_refresh timer_ok_reset
      timer_ok_getNextExecuteTime timer_ok_getExecuteTask\<close>)

lemma ops_run_ok:
  "timer_ok C t \<Longrightarrow> ops_valid C xs \<Longrightarrow>
   \<exists>t'. ops_run xs t = Inr t' \<and> timer_ok (ops_created C xs) t'"
proof (induction xs arbitrary: C t)
  case Nil
  then show ?case by simp
next
  case (Cons x xs)
  then obtain t' where "op_apply x t = Inr t'" "timer_ok (op_created C x) t'"
    using op_apply_ok by fastforce
  with Cons show ?case by fastforce
qed

section \<open>Properties\<close>

text \<open>
  C4: Whatever sequence of timer operations a client issues on a new timer, with handles it
  obtained from \<open>createTimer\<close>, no operation ever erases the end iterator of the task
  set, and the invariant holds afterwards: the set is sorted by deadline and address, it
  holds created tasks only, and every task that still has a callback is in it.
\<close>

theorem timer_ops_never_fault:
  fixes ops :: "'cb timer_op list"
  assumes "ops_valid {} ops"
  shows "\<exists>t. ops_run ops (Timer_ctor h now) = Inr t \<and> timer_ok (ops_created {} ops) t"
  by (rule ops_run_ok [OF timer_ok_ctor assms])

theorem timer_ops_never_fault_witness:
  "let ops = [Create 7 (Some ()) 50 True 1000, Create 3 (Some ()) 20 False 1000,
              Execute 1030 1030 9, Cancel 7, Cancel 3]
   in ops_valid {} ops \<and>
      (\<exists>t. ops_run ops (Timer_ctor (\<lambda>_. TimerTask_ctor None 0 False 0) 1000) = Inr t \<and>
           timer_ok (ops_created {} ops) t)"
  unfolding Let_def by (rule conjI, simp, rule timer_ops_never_fault) simp

text \<open>Which tasks a call of \<open>getExecuteTask\<close> takes out of the set.\<close>

definition expired_prefix :: "u64 \<Rightarrow> u64 \<Rightarrow> nat \<Rightarrow> 'cb timer \<Rightarrow> nat list" where
  "expired_prefix now_ms now2 np t =
     (if m_tasks t = [] \<or> (\<not> fst (detectClockRollover now_ms t) \<and>
          m_next (heap t (hd (m_tasks t))) > now_ms) then []
      else take (expired_end now_ms now2 np (fst (detectClockRollover now_ms t)) t) (m_tasks t))"

lemma expired_end_rollover [simp]:
  "expired_end now_ms now2 np r (snd (detectClockRollover now t)) = expired_end now_ms now2 np r t"
  by (simp add: expired_end_def)

lemma getExecuteTask_cbs:
  assumes "timer_ok C t"
  shows "snd (getExecuteTask now_ms now2 np t) =
     map (\<lambda>p. m_cb (heap t p)) (expired_prefix now_ms now2 np t)"
proof -
  have "distinct (m_tasks t)" using timer_okD(1) [OF assms] tcmp.sorted_distinct by blast
  then show ?thesis
    by (simp add: getExecuteTask_def expired_prefix_def Let_def case_prod_beta run_expired_cbs)
qed

lemma hd_deadline_le:
  assumes "sorted_wrt (Comparator h) q" and "p \<in> set q"
  shows "m_next (h (hd q)) \<le> m_next (h p)"
  using assms by (cases q) (auto dest: Comparator_next_le)

text \<open>The probe compares with the live tasks by its clock reading and its address only.\<close>

lemma probe_below:
  assumes "p \<noteq> np"
  shows "Comparator (h(np := TimerTask_ctor None 0 False now2)) p np \<longleftrightarrow>
    m_next (h p) < now2 \<or> (m_next (h p) = now2 \<and> p < np)"
  using assms by (auto simp: Comparator_def TimerTask_ctor_def)

text \<open>
  Without a rollover the loop stops after the tasks below the probe, and the tasks whose
  deadline is exactly the first clock reading.
\<close>

definition is_due :: "u64 \<Rightarrow> u64 \<Rightarrow> nat \<Rightarrow> (nat \<Rightarrow> 'cb timer_task) \<Rightarrow> nat \<Rightarrow> bool" where
  "is_due now_ms now2 np h p \<longleftrightarrow>
     m_next (h p) < now2 \<or> (m_next (h p) = now2 \<and> p < np) \<or> m_next (h p) = now_ms"

lemma expired_end_normal:
  assumes ok: "timer_ok C t" and np: "np \<notin> C" and clock: "now_ms \<le> now2"
  shows "take (expired_end now_ms now2 np False t) (m_tasks t) =
     filter (is_due now_ms now2 np (heap t)) (m_tasks t)"
proof -
  let ?q = "m_tasks t" and ?h = "heap t"
  let ?h' = "(heap t)(np := TimerTask_ctor None 0 False now2)"
  let ?P = "\<lambda>p. Comparator ?h' p np" and ?E = "\<lambda>p. m_next (?h p) = now_ms"
  have srt: "sorted_wrt (Comparator ?h) ?q" by (rule timer_okD(1) [OF ok])
  have npq: "np \<notin> set ?q" using timer_okD(2) [OF ok] np by blast
  have P: "?P p \<longleftrightarrow> m_next (?h p) < now2 \<or> (m_next (?h p) = now2 \<and> p < np)"
    if "p \<in> set ?q" for p
    by (rule probe_below) (use that npq in auto)
  have "take (expired_end now_ms now2 np False t) ?q =
      takeWhile ?P ?q @ takeWhile ?E (dropWhile ?P ?q)"
    unfolding expired_end_def sset_lower_bound_def Let_def by (simp add: take_two_prefixes)
  also have "\<dots> = filter (\<lambda>p. ?P p \<or> ?E p \<and> \<not> ?P p) ?q"
  proof (rule two_prefixes_filter [OF srt])
    fix x y assume xy: "x \<in> set ?q" "y \<in> set ?q" "Comparator ?h x y"
    show "?P x" if "?P y"
      using that xy unfolding P [OF xy(1)] P [OF xy(2)] by (auto simp: Comparator_def split: if_splits)
    show "?E x" if "\<not> ?P x" "\<not> ?P y" "?E y"
      using that clock Comparator_next_le [OF xy(3)]
      unfolding P [OF xy(1)] P [OF xy(2)] by auto
  qed
  also have "\<dots> = filter (is_due now_ms now2 np ?h) ?q"
    by (rule filter_cong) (auto simp: P is_due_def)
  finally show ?thesis .
qed

lemma expired_prefix_normal:
  assumes ok: "timer_ok C t" and np: "np \<notin> C" and clock: "now_ms \<le> now2"
    and nr: "\<not> fst (detectClockRollover now_ms t)"
  shows "expired_prefix now_ms now2 np t =
     (if \<exists>p \<in> set (m_tasks t). m_next (heap t p) \<le> now_ms
      then filter (is_due now_ms now2 np (heap t)) (m_tasks t) else [])"
proof (cases "m_tasks t = []")
  case True
  then show ?thesis by (simp add: expired_prefix_def)
next
  case False
  then have "m_next (heap t (hd (m_tasks t))) > now_ms \<longleftrightarrow>
      \<not> (\<exists>p \<in> set (m_tasks t). m_next (heap t p) \<le> now_ms)"
    using hd_deadline_le [OF timer_okD(1) [OF ok]] by (fastforce simp: not_le)
  then show ?thesis
    using False nr expired_end_normal [OF ok np clock] by (simp add: expired_prefix_def)
qed



text \<open>The set after a call of \<open>getExecuteTask\<close>, through the tasks it took out.\<close>

lemma getExecuteTask_after:
  assumes ok: "timer_ok C t"
    and ps_def: "ps = expired_prefix now_ms now2 np t"
    and t'_def: "t' = fst (getExecuteTask now_ms now2 np t)"
  shows "set (m_tasks t') = {p \<in> set (m_tasks t). p \<notin> set ps \<or> m_recurring (heap t p)}"
    and "heap t' = (\<lambda>p. if p \<in> set ps then expired_task now_ms (heap t p) else heap t p)"
proof -
  have dist: "distinct (m_tasks t)" using timer_okD(1) [OF ok] tcmp.sorted_distinct by blast
  obtain n where n: "ps = take n (m_tasks t)"
    and t': "heap t' = heap (fst (run_expired now_ms ps (t\<lparr>m_previouseTime := now_ms,
                 m_tasks := drop n (m_tasks t)\<rparr>)))"
      "m_tasks t' = m_tasks (fst (run_expired now_ms ps (t\<lparr>m_previouseTime := now_ms,
                 m_tasks := drop n (m_tasks t)\<rparr>)))"
  proof (cases "m_tasks t = [] \<or> (\<not> fst (detectClockRollover now_ms t) \<and>
          m_next (heap t (hd (m_tasks t))) > now_ms)")
    case True
    then have "ps = take 0 (m_tasks t)" by (auto simp: ps_def expired_prefix_def)
    moreover from True have "heap t' = heap t" "m_tasks t' = m_tasks t"
      by (auto simp: t'_def getExecuteTask_def Let_def case_prod_beta)
    ultimately show ?thesis using that [of 0] by simp
  next
    case False
    let ?n = "expired_end now_ms now2 np (fst (detectClockRollover now_ms t)) t"
    have "snd (detectClockRollover now_ms t) = t\<lparr>m_previouseTime := now_ms\<rparr>"
      by (simp add: detectClockRollover_def)
    with False have "t' = fst (run_expired now_ms ps (t\<lparr>m_previouseTime := now_ms,
                 m_tasks := drop ?n (m_tasks t)\<rparr>))" "ps = take ?n (m_tasks t)"
      by (auto simp: t'_def ps_def getExecuteTask_def expired_prefix_def Let_def case_prod_beta
          expired_end_def)
    then show ?thesis using that by blast
  qed
  have d: "distinct ps" using dist n by simp
  show "heap t' = (\<lambda>p. if p \<in> set ps then expired_task now_ms (heap t p) else heap t p)"
    by (rule ext) (simp add: t' run_expired_heap [OF d])
  have "set (m_tasks t) = set ps \<union> set (drop n (m_tasks t))"
    unfolding n by (metis append_take_drop_id set_append)
  moreover have "set ps \<inter> set (drop n (m_tasks t)) = {}"
    unfolding n using dist by (simp add: set_take_disj_set_drop_if_distinct)
  ultimately show "set (m_tasks t') = {p \<in> set (m_tasks t). p \<notin> set ps \<or> m_recurring (heap t p)}"
    by (auto simp: t' run_expired_set [OF d])
qed

text \<open>
  After \<open>getExecuteTask\<close> (both clock readings equal, no rollover) a one-shot task that
  was due is out of the set and has lost its callback, a recurring task that was due is in
  the set again with its deadline one period after now, and every task that was not due is
  still in the set with its object untouched.
\<close>

theorem getExecuteTask_requeues:
  assumes "timer_ok C t" and "np \<notin> C" and "\<not> fst (detectClockRollover now t)"
    and "p \<in> set (m_tasks t)" and "t' = fst (getExecuteTask now now np t)"
  shows "if now < m_next (heap t p) then p \<in> set (m_tasks t') \<and> heap t' p = heap t p
         else if m_recurring (heap t p) then p \<in> set (m_tasks t') \<and>
                heap t' p = (heap t p)\<lparr>m_next := now + m_ms (heap t p)\<rparr>
         else p \<notin> set (m_tasks t') \<and> heap t' p = (heap t p)\<lparr>m_cb := None\<rparr>"
proof -
  have "p \<in> set (expired_prefix now now np t) \<longleftrightarrow> \<not> now < m_next (heap t p)"
    using assms(4) expired_prefix_normal [OF assms(1,2) order_refl assms(3)]
    by (auto simp: is_due_def not_less order_le_less)
  then show ?thesis
    using assms(4) by (auto simp: assms(5) getExecuteTask_after [OF assms(1) refl refl] expired_task_def)
qed

theorem getExecuteTask_requeues_witness:
  "let t = fst (createTimer 7 (Some (1::nat)) 50 True 1000
             (Timer_ctor (\<lambda>_. TimerTask_ctor None 0 False 0) 1000));
       t' = fst (getExecuteTask 1050 1050 9 t)
   in 7 \<in> set (m_tasks t') \<and> heap t' 7 = (heap t 7)\<lparr>m_next := 1100\<rparr>"
proof -
  let ?t = "fst (createTimer 7 (Some (1::nat)) 50 True 1000
             (Timer_ctor (\<lambda>_. TimerTask_ctor None 0 False 0) 1000))"
  have "timer_ok {7} ?t" by (intro timer_ok_createTimer timer_ok_ctor) simp
  from getExecuteTask_requeues [OF this, of 9 1050 7, OF _ _ _ refl] show ?thesis
    by (simp add: Let_def detectClockRollover_def createTimer_def addTimerTask_def Timer_ctor_def
        TimerTask_ctor_def)
qed

text \<open>A cancelled task is never queued again and its callback is never handed out.\<close>

definition is_dead :: "nat \<Rightarrow> 'cb timer \<Rightarrow> bool" where
  "is_dead p t \<longleftrightarrow> m_cb (heap t p) = None \<and> p \<notin> set (m_tasks t)"

lemma is_dead_move_task:
  "is_dead p t \<Longrightarrow> q \<noteq> p \<Longrightarrow> is_dead p (move_task q task t)"
  by (auto simp: is_dead_def move_task_def Let_def tcmp.set_insert_set)

lemma op_apply_dead:
  assumes ok: "timer_ok C t" and v: "op_valid C x" and p: "p \<in> C" and d: "is_dead p t"
    and r: "op_apply x t = Inr t'"
  shows "is_dead p t'"
proof (cases x)
  case (Create q cb ms recur now)
  with v p have "q \<noteq> p" by auto
  with Create r d show ?thesis
    by (auto simp: is_dead_def createTimer_def tcmp.set_insert_set)
next
  case (Cancel q)
  with v r d cancel_eq [OF ok, of q] show ?thesis by (auto simp: is_dead_def split: if_splits)
next
  case (Refresh q now)
  with r d show ?thesis
    by (cases "q = p") (auto simp: refresh_eq [OF ok] is_dead_move_task, simp add: is_dead_def)
next
  case (Reset q ms from_now now)
  with r have t': "t' = fst (reset q ms from_now now t)" by simp
  show ?thesis
    using reset_fst_cases [OF ok, of q ms from_now now] d is_dead_move_task [OF d]
    by (cases "q = p") (auto simp: t' is_dead_def)
next
  case (NextTime now)
  with r d show ?thesis by (auto simp: is_dead_def)
next
  case (Execute now_ms now2 np)
  then have t': "t' = fst (getExecuteTask now_ms now2 np t)" using r by simp
  have "set (expired_prefix now_ms now2 np t) \<subseteq> set (m_tasks t)"
    by (auto simp: expired_prefix_def dest: in_set_takeD)
  then show ?thesis
    using d unfolding t' is_dead_def getExecuteTask_after [OF ok refl refl] by auto
qed

lemma ops_run_dead:
  "timer_ok C t \<Longrightarrow> ops_valid C xs \<Longrightarrow> p \<in> C \<Longrightarrow> is_dead p t \<Longrightarrow> ops_run xs t = Inr t' \<Longrightarrow>
   is_dead p t'"
proof (induction xs arbitrary: C t)
  case Nil
  then show ?case by simp
next
  case (Cons x xs)
  then obtain u where u: "op_apply x t = Inr u" "ops_run xs u = Inr t'"
    by (auto simp: bindR_eq_Inr)
  have "timer_ok (op_created C x) u" using op_apply_ok [OF Cons.prems(1)] Cons.prems(2) u by fastforce
  moreover have "p \<in> op_created C x" using Cons.prems(3) by (cases x) auto
  moreover have "is_dead p u" using op_apply_dead [OF Cons.prems(1) _ Cons.prems(3,4) u(1)] Cons.prems(2) by simp
  ultimately show ?case using Cons.IH u(2) Cons.prems(2) by simp
qed

text \<open>
  C22: Once \<open>cancel\<close> has returned true for a task, no later sequence of timer operations
  brings it back: its callback stays null and it is never in the task set again, so no
  \<open>getExecuteTask\<close> hands it out, and a second \<open>cancel\<close> returns false.
\<close>

theorem cancelled_stays_dead:
  assumes "timer_ok C t" and "p \<in> C" and "cancel p t = Inr (t1, True)"
    and "ops_valid C ops" and "ops_run ops t1 = Inr t2"
  shows "m_cb (heap t2 p) = None \<and> p \<notin> set (m_tasks t2) \<and> cancel p t2 = Inr (t2, False)"
proof -
  have "is_dead p t1"
    using assms(3) by (auto simp: cancel_eq [OF assms(1,2)] is_dead_def split: if_splits)
  moreover have "timer_ok C t1" by (rule timer_ok_cancel [OF assms(1-3)])
  ultimately have "is_dead p t2" using ops_run_dead assms(2,4,5) by metis
  then show ?thesis by (simp add: is_dead_def cancel_def)
qed

theorem cancelled_stays_dead_witness:
  "let t = fst (createTimer 7 (Some (1::nat)) 50 True 1000
             (Timer_ctor (\<lambda>_. TimerTask_ctor None 0 False 0) 1000));
       t1 = t\<lparr>heap := (heap t)(7 := (heap t 7)\<lparr>m_cb := None\<rparr>), m_tasks := []\<rparr>
   in cancel 7 t = Inr (t1, True) \<and> ops_run [Refresh 7 2000] t1 = Inr t1 \<and>
      m_cb (heap t1 7) = None \<and> 7 \<notin> set (m_tasks t1) \<and> cancel 7 t1 = Inr (t1, False)"
proof -
  let ?t = "fst (createTimer 7 (Some (1::nat)) 50 True 1000
             (Timer_ctor (\<lambda>_. TimerTask_ctor None 0 False 0) 1000))"
  let ?t1 = "?t\<lparr>heap := (heap ?t)(7 := (heap ?t 7)\<lparr>m_cb := None\<rparr>), m_tasks := []\<rparr>"
  have ok: "timer_ok {7} ?t" by (intro timer_ok_createTimer timer_ok_ctor) simp
  have c: "cancel 7 ?t = Inr (?t1, True)"
    using cancel_eq [OF ok, of 7]
    by (simp add: createTimer_def addTimerTask_def Timer_ctor_def TimerTask_ctor_def Let_def)
  have r: "ops_run [Refresh 7 2000] ?t1 = Inr ?t1" by (simp add: refresh_def)
  from cancelled_stays_dead [OF ok _ c _ r] c r show ?thesis by (simp add: Let_def)
qed

text \<open>
  \<open>getNextExecuteTime\<close> returns the largest 64-bit value when there is no task, 0 exactly
  when some task is due, and otherwise the exact distance to the earliest deadline.
\<close>

theorem getNextExecuteTime_spec:
  assumes "timer_ok C t"
  defines "r \<equiv> \<lambda>now. snd (getNextExecuteTime now t)"
  shows "if m_tasks t = [] then r now = - 1
         else (r now = 0 \<longleftrightarrow> (\<exists>p \<in> set (m_tasks t). m_next (heap t p) \<le> now)) \<and>
              (r now \<noteq> 0 \<longrightarrow> (\<exists>p \<in> set (m_tasks t). now + r now = m_next (heap t p)) \<and>
                 (\<forall>p \<in> set (m_tasks t). unat now + unat (r now) \<le> unat (m_next (heap t p))))"
proof (cases "m_tasks t")
  case Nil
  then show ?thesis by (simp add: r_def getNextExecuteTime_def)
next
  case (Cons a q)
  let ?d = "m_next (heap t a)"
  have least: "\<forall>p \<in> set (m_tasks t). ?d \<le> m_next (heap t p)"
    using hd_deadline_le [OF timer_okD(1) [OF assms(1)]] Cons by fastforce
  have r: "r now = (if ?d \<le> now then 0 else ?d - now)"
    by (simp add: r_def getNextExecuteTime_def Let_def Cons)
  show ?thesis
  proof (cases "?d \<le> now")
    case True
    with Cons show ?thesis by (auto simp: r)
  next
    case False
    then have le: "now \<le> ?d" by simp
    with False have "r now \<noteq> 0" "now + r now = ?d" by (auto simp: r)
    moreover have "unat now + unat (r now) = unat ?d"
      using False word_sub_le_iff [OF le] le by (simp add: r word_le_nat_alt)
    ultimately show ?thesis using Cons least False by (auto simp: word_le_nat_alt)
  qed
qed

theorem getNextExecuteTime_spec_witness:
  "snd (getNextExecuteTime 1010 (fst (createTimer 7 (Some (1::nat)) 50 True 1000
             (Timer_ctor (\<lambda>_. TimerTask_ctor None 0 False 0) 1000)))) \<noteq> 0"
proof -
  let ?t = "fst (createTimer 7 (Some (1::nat)) 50 True 1000
             (Timer_ctor (\<lambda>_. TimerTask_ctor None 0 False 0) 1000))"
  have "timer_ok {7} ?t" by (intro timer_ok_createTimer timer_ok_ctor) simp
  from getNextExecuteTime_spec [OF this, of 1010] show ?thesis
    by (simp add: createTimer_def addTimerTask_def Timer_ctor_def TimerTask_ctor_def Let_def
        split: if_splits)
qed

text \<open>
  A poll that sleeps for the time \<open>getNextExecuteTime\<close> returned (or longer) finds work:
  with tasks in the set and no rollover, \<open>getExecuteTask\<close> at any later time that is at
  least the reported distance away hands out at least one callback.
\<close>

theorem next_time_suffices:
  assumes "timer_ok C t" and "np \<notin> C" and "m_tasks t \<noteq> []"
    and "unat now + unat (snd (getNextExecuteTime now t)) \<le> unat later"
    and "\<not> fst (detectClockRollover later t)"
  shows "snd (getExecuteTask later later np t) \<noteq> []"
proof -
  obtain a q where aq: "m_tasks t = a # q" using assms(3) by (cases "m_tasks t") auto
  have "m_next (heap t a) \<le> later"
  proof (cases "m_next (heap t a) \<le> now")
    case True
    with assms(4) aq show ?thesis
      by (simp add: getNextExecuteTime_def Let_def word_le_nat_alt)
  next
    case False
    with assms(4) aq show ?thesis
      by (simp add: getNextExecuteTime_def Let_def word_sub_le_iff word_le_nat_alt)
  qed
  then have "a \<in> set (expired_prefix later later np t)"
    using aq expired_prefix_normal [OF assms(1,2) order_refl assms(5)]
    by (auto simp: is_due_def order_le_less)
  then show ?thesis using getExecuteTask_cbs [OF assms(1)] by (metis empty_iff list.set(1) map_is_Nil_conv)
qed

theorem next_time_suffices_witness:
  "snd (getExecuteTask 1050 1050 9 (fst (createTimer 7 (Some (1::nat)) 50 True 1000
             (Timer_ctor (\<lambda>_. TimerTask_ctor None 0 False 0) 1000)))) \<noteq> []"
proof (rule next_time_suffices [where C = "{7}" and now = 1010])
  show "timer_ok {7} (fst (createTimer 7 (Some (1::nat)) 50 True 1000
             (Timer_ctor (\<lambda>_. TimerTask_ctor None 0 False 0) 1000)))"
    by (intro timer_ok_createTimer timer_ok_ctor) simp
qed (simp_all add: createTimer_def addTimerTask_def Timer_ctor_def TimerTask_ctor_def Let_def
    detectClockRollover_def getNextExecuteTime_def)

text \<open>
  \<open>reset(ms, false)\<close> changes the period and never the deadline: the start is computed
  from the new period, so adding the new period gives the old deadline back.
\<close>

theorem reset_keeps_deadline:
  "m_next (heap (fst (reset p ms False now t)) q) = m_next (heap t q)"
  by (auto simp: reset_def Let_def case_prod_beta split: option.splits)

text \<open>
  \<open>reset\<close> of a queued task from now moves its deadline to now plus the new period (when
  that does not wrap), keeps the set well formed and the task queued.
\<close>

theorem reset_from_now_moves:
  assumes "timer_ok C t" and "p \<in> set (m_tasks t)" and "m_cb (heap t p) \<noteq> None"
    and "unat now + unat ms < 2 ^ 64"
  shows "case reset p ms True now t of (t', front, ok) \<Rightarrow>
     ok \<and> timer_ok C t' \<and> p \<in> set (m_tasks t') \<and> m_ms (heap t' p) = ms \<and>
     unat (m_next (heap t' p)) = unat now + unat ms"
proof -
  have "timer_ok C (fst (reset p ms True now t))" by (rule timer_ok_reset [OF assms(1)])
  then show ?thesis
    using assms(2-4)
    by (auto simp: reset_eq [OF assms(1)] reset_start_def case_prod_beta tcmp.set_insert_set
        unat_plus_no_wrap)
qed

theorem reset_from_now_moves_witness:
  "case reset 7 70 True 1010 (fst (createTimer 7 (Some (1::nat)) 50 True 1000
             (Timer_ctor (\<lambda>_. TimerTask_ctor None 0 False 0) 1000))) of (t', front, ok) \<Rightarrow>
     ok \<and> timer_ok {7} t' \<and> 7 \<in> set (m_tasks t') \<and> m_ms (heap t' 7) = 70 \<and>
     unat (m_next (heap t' 7)) = unat (1010::u64) + unat (70::u64)"
proof (rule reset_from_now_moves)
  show "timer_ok {7} (fst (createTimer 7 (Some (1::nat)) 50 True 1000
             (Timer_ctor (\<lambda>_. TimerTask_ctor None 0 False 0) 1000)))"
    by (intro timer_ok_createTimer timer_ok_ctor) simp
qed (simp_all add: createTimer_def addTimerTask_def Timer_ctor_def TimerTask_ctor_def Let_def)

text \<open>
  \<open>createTimer\<close> calls \<open>onTimerInsertedAtFront\<close> exactly when the new task is strictly
  first in the comparator's order and no earlier call is still unanswered, and after the
  call no second one is made until \<open>getNextExecuteTime\<close> has cleared the flag.
\<close>

theorem createTimer_tickles_once:
  assumes "timer_ok C t" and "p \<notin> C"
    and "createTimer p cb ms recurring now t = (t', front)"
  shows "(front \<longleftrightarrow> \<not> m_tickled t \<and>
            (\<forall>q \<in> set (m_tasks t). now + ms < m_next (heap t q) \<or>
               (now + ms = m_next (heap t q) \<and> p < q))) \<and>
         m_tickled t' = (m_tickled t \<or> front)"
proof -
  let ?h = "(heap t)(p := TimerTask_ctor cb ms recurring now)"
  have p: "p \<notin> set (m_tasks t)" using timer_okD(2) [OF assms(1)] assms(2) by blast
  have "sorted_wrt (Comparator ?h) (m_tasks t) = sorted_wrt (Comparator (heap t)) (m_tasks t)"
    by (rule sorted_heap_cong) (use p in auto)
  then have "sorted_wrt (Comparator ?h) (m_tasks t)" using timer_okD(1) [OF assms(1)] by blast
  then have "hd (sset_insert (Comparator ?h) p (m_tasks t)) = p \<longleftrightarrow>
      (\<forall>q \<in> set (m_tasks t). Comparator ?h p q)"
    using p by (rule tcmp.insert_front)
  moreover have "Comparator ?h p q \<longleftrightarrow> now + ms < m_next (heap t q) \<or>
      (now + ms = m_next (heap t q) \<and> p < q)" if "q \<in> set (m_tasks t)" for q
    using that p by (auto simp: Comparator_def TimerTask_ctor_def)
  moreover have "front = (hd (sset_insert (Comparator ?h) p (m_tasks t)) = p \<and> \<not> m_tickled t)"
    and "m_tickled t' = (m_tickled t \<or> front)"
    using assms(3) unfolding createTimer_def addTimerTask_def Let_def by auto
  ultimately show ?thesis by blast
qed

theorem createTimer_tickles_once_witness:
  "snd (createTimer 7 (Some (1::nat)) 50 True 1000
          (Timer_ctor (\<lambda>_. TimerTask_ctor None 0 False 0) 1000))"
  using createTimer_tickles_once [OF timer_ok_ctor, of 7 "Some (1::nat)" 50 True 1000
      "\<lambda>_. TimerTask_ctor None 0 False 0" 1000, OF _ surjective_pairing]
  by (simp add: Timer_ctor_def)

text \<open>
  \<open>detectClockRollover\<close> reports a rollover exactly when the clock fell by more than an
  hour, provided the previous reading was at least an hour after the epoch; below that the
  subtraction wraps and any step backwards is reported.
\<close>

theorem detectClockRollover_hour:
  "fst (detectClockRollover now t) \<longleftrightarrow>
     (if 3600000 \<le> unat (m_previouseTime t) then unat now + 3600000 < unat (m_previouseTime t)
      else unat now < unat (m_previouseTime t))"
proof -
  let ?p = "m_previouseTime t"
  have *: "fst (detectClockRollover now t) \<longleftrightarrow> now < ?p \<and> now < ?p - 3600000"
    by (simp add: detectClockRollover_def)
  show ?thesis
  proof (cases "3600000 \<le> unat ?p")
    case True
    then have "unat (?p - 3600000) = unat ?p - 3600000"
      by (subst unat_sub) (simp_all add: word_le_nat_alt)
    with True show ?thesis by (auto simp: * word_less_nat_alt)
  next
    case False
    then have "unat (?p - 3600000) = unat ?p + 2 ^ 64 - 3600000"
      by (simp add: unat_sub_if_size word_size)
    with False show ?thesis by (auto simp: * word_less_nat_alt)
  qed
qed

end
