(* ===== verification/Fiber.thy ===== *)
theory Fiber
  imports Prelude
begin

text \<open>
  \<open>src/fiber/fiber.h\<close> and \<open>src/fiber/fiber.cc\<close>: the task states, the fiber object and
  its life cycle. What the user function does between two context switches is not in the
  repository; a run of the body up to its next switch is described by \<open>segment\<close>: it
  yields (\<open>Processer::yield\<close>), it returns, or it throws. The saved registers and the
  switches themselves (\<open>m_ctx\<close>, the assembly of \<open>jump_fcontext\<close>) are the subject of
  \<open>Coroutine\<close>, \<open>Arm64\<close> and \<open>X86\<close>.
\<close>

datatype TaskState = Init | Running | Block | Idle | Stop | Done | Execpt

definition ToStringTaskState :: "TaskState \<Rightarrow> string" where
  "ToStringTaskState state =
     (case state of Init \<Rightarrow> ''init'' | Running \<Rightarrow> ''running'' | Block \<Rightarrow> ''block''
      | Idle \<Rightarrow> ''idle'' | Stop \<Rightarrow> ''stop'' | Done \<Rightarrow> ''done'' | Execpt \<Rightarrow> ''execpt'')"

lemma ToStringTaskState_inj: "ToStringTaskState a = ToStringTaskState b \<Longrightarrow> a = b"
  by (cases a; cases b) (simp_all add: ToStringTaskState_def)

record 'fn fiber =
  f_fn :: 'fn
  f_stackSize :: u32
  f_state :: TaskState
  f_id :: u64
  f_yieldCount :: u64
  f_proc :: "nat option"
  f_eptr :: bool

text \<open>The two thread-local counters of \<open>fiber.cc\<close>.\<close>

record fiber_tls =
  s_fiber_id :: u64
  s_fiber_count :: u64

definition Fiber_ctor :: "'fn \<Rightarrow> u64 \<Rightarrow> fiber_tls \<Rightarrow> 'fn fiber \<times> fiber_tls" where
  "Fiber_ctor fn stackSize tls =
     (\<lparr>f_fn = fn, f_stackSize = ucast stackSize, f_state = Running,
       f_id = s_fiber_id tls + 1, f_yieldCount = 0, f_proc = None, f_eptr = False\<rparr>,
      \<lparr>s_fiber_id = s_fiber_id tls + 1, s_fiber_count = s_fiber_count tls + 1\<rparr>)"

definition Fiber_dtor :: "fiber_tls \<Rightarrow> fiber_tls" where
  "Fiber_dtor tls = tls\<lparr>s_fiber_count := s_fiber_count tls - 1\<rparr>"

text \<open>What the body does until control comes back to the processer.\<close>

datatype segment = Yields | Returns | ThrowsExc

text \<open>
  \<open>Fiber::run\<close> starts the body (asserting the running state), swallows any exception
  without recording it (\<open>m_eptr\<close> is never assigned) and marks the fiber done.
  \<open>fiber_segment\<close> is one stay on the processor: the first one enters through \<open>run\<close>,
  a later one resumes inside the body; \<open>Yields\<close> is \<open>Processer::yield\<close>, which marks the
  fiber blocked before it switches out.
\<close>

definition fiber_body_end :: "segment \<Rightarrow> 'fn fiber \<Rightarrow> 'fn fiber" where
  "fiber_body_end seg f =
     (case seg of Yields \<Rightarrow> f\<lparr>f_state := Block\<rparr>
      | Returns \<Rightarrow> f\<lparr>f_state := Done\<rparr>
      | ThrowsExc \<Rightarrow> f\<lparr>f_state := Done\<rparr>)"

definition fiber_run :: "segment \<Rightarrow> 'fn fiber \<Rightarrow> 'fn fiber result" where
  "fiber_run seg f =
     (if f_state f \<noteq> Running then Inl AssertFail else Inr (fiber_body_end seg f))"

lemma fiber_body_end_simps [simp]:
  "f_state (fiber_body_end seg f) = (if seg = Yields then Block else Done)"
  "f_id (fiber_body_end seg f) = f_id f"
  "f_fn (fiber_body_end seg f) = f_fn f"
  "f_eptr (fiber_body_end seg f) = f_eptr f"
  "f_proc (fiber_body_end seg f) = f_proc f"
  by (cases seg; simp add: fiber_body_end_def)+

end
