(* ===== verification/Coroutine.thy ===== *)
theory Coroutine
  imports Prelude
begin

unbundle bit_operations_syntax

text \<open>
  Switching contexts, as \<open>src/fiber/fiber.h\<close> and \<open>fiber.cc\<close> use it through \<open>fcontext.h\<close>: the
  contract of \<open>jump_fcontext\<close> and \<open>make_fcontext\<close> (locale \<open>context_switch\<close>), \<open>Fiber::SwapIn\<close> and
  \<open>Fiber::SwapOut\<close>, and what they amount to: coroutines. \<open>Arm64\<close> and \<open>X86\<close> show that the assembly
  has the contract.

  Memory is cells of eight bytes with addresses that are multiples of eight. A point is where a
  thread of control goes on: the registers a call preserves, the stack pointer and the address.
\<close>

section \<open>What a context switch does\<close>

text \<open>
  \<open>sw_jump ofc nfc vp\<close> and \<open>sw_make stack fn\<close> are the two functions, \<open>sw_cell\<close> and \<open>sw_store\<close> read
  and write memory. \<open>sw_here\<close> is the point at which the caller of \<open>sw_jump\<close> would go on when it
  returned, \<open>sw_now\<close> the point at which the machine is after a jump, \<open>sw_result\<close> the value it
  brings. \<open>sw_frame\<close> is the address of the record that a jump would make on the stack, \<open>sw_area\<close>
  the cells of a record and \<open>sw_stored\<close> the point it holds. \<open>sw_ready\<close> and \<open>sw_fits\<close> say that the
  stack pointer and the address of a record are aligned.
\<close>

record ('m, 'p) switch_ops =
  sw_jump :: "u64 \<Rightarrow> u64 \<Rightarrow> u64 \<Rightarrow> 'm \<Rightarrow> 'm option"
  sw_make :: "u64 \<Rightarrow> u64 \<Rightarrow> 'm \<Rightarrow> ('m \<times> u64) option"
  sw_cell :: "'m \<Rightarrow> u64 \<Rightarrow> u64"
  sw_store :: "u64 \<Rightarrow> u64 \<Rightarrow> 'm \<Rightarrow> 'm"
  sw_here :: "'m \<Rightarrow> 'p"
  sw_now :: "'m \<Rightarrow> 'p"
  sw_result :: "'m \<Rightarrow> u64"
  sw_frame :: "'m \<Rightarrow> u64"
  sw_area :: "u64 \<Rightarrow> u64 set"
  sw_stored :: "(u64 \<Rightarrow> u64) \<Rightarrow> u64 \<Rightarrow> 'p"
  sw_ready :: "'m \<Rightarrow> bool"
  sw_fits :: "u64 \<Rightarrow> bool"

definition aligned :: "u64 \<Rightarrow> bool" where
  "aligned a \<longleftrightarrow> take_bit 3 a = 0"

text \<open>Arithmetic on addresses, for both machines.\<close>

lemma take_bit_sum0:
  assumes "take_bit n (a :: u64) = 0" and "take_bit n b = 0"
  shows "take_bit n (a + b) = 0"
  using assms by transfer (simp add: take_bit_take_bit, metis add_0 take_bit_add take_bit_of_0)

lemma take_bit_diff0:
  assumes "take_bit n (a :: u64) = 0" and "take_bit n b = 0"
  shows "take_bit n (a - b) = 0"
  using assms by transfer (simp add: take_bit_take_bit, metis diff_0_right take_bit_diff take_bit_of_0)

lemma aligned_plus: "aligned a \<Longrightarrow> take_bit 3 b = 0 \<Longrightarrow> aligned (a + b)"
  by (simp add: aligned_def take_bit_sum0)

lemma unat_mask16: "unat ((a :: u64) AND NOT 0xF) = unat a - unat a mod 16"
proof -
  have m: "(0xF :: u64) = mask 4" by (simp add: mask_eq_exp_minus_1)
  have "a AND NOT 0xF = push_bit 4 (drop_bit 4 a)" unfolding m by (auto simp: bit_eq_iff bit_simps)
  then have "a AND NOT 0xF = a - take_bit 4 a" using bits_ident [of 4 a] by (simp add: algebra_simps)
  moreover have "unat (take_bit 4 a) = take_bit 4 (unat a)" by (rule unsigned_take_bit_eq)
  then have t: "unat (take_bit 4 a) = unat a mod 16" by (simp only: take_bit_eq_mod) simp
  moreover have "take_bit 4 a \<le> a" by (simp add: word_le_nat_alt t)
  ultimately show ?thesis by (simp add: unat_sub)
qed

lemma unat_off: "unat (f :: u64) + unat off < 2 ^ 64 \<Longrightarrow> unat (f + off) = unat f + unat off"
  by (simp add: unat_word_ariths)

text \<open>A cell of a record of \<open>n\<close> bytes just below the aligned end of a block.\<close>

lemma cell_inside:
  fixes stack n :: u64
  assumes "unat stack + len < 2 ^ 64" and "stk = stack + of_nat len" and "unat n + 15 \<le> len"
    and "\<exists>off. a = (stk AND NOT 0xF) - n + off \<and> unat off + 8 \<le> unat n"
  shows "unat stack \<le> unat a \<and> unat a + 8 \<le> unat stack + len"
proof -
  let ?f = "(stk AND NOT 0xF) - n"
  have stk: "unat stk = unat stack + len"
    using assms(1,2) unat_off [of stack "of_nat len"] by (simp add: unat_of_nat)
  have "unat stk mod 16 < 16" "unat stk mod 16 \<le> unat stk" by simp_all
  with unat_mask16 [of stk] have m: "unat stk - 15 \<le> unat (stk AND NOT 0xF)" "unat (stk AND NOT 0xF) \<le> unat stk"
    by linarith+
  then have "n \<le> (stk AND NOT 0xF)" using stk assms(3) unfolding word_le_nat_alt by linarith
  then have f: "unat ?f = unat (stk AND NOT 0xF) - unat n" by (rule unat_sub)
  obtain off where off: "a = ?f + off" "unat off + 8 \<le> unat n" using assms(4) by blast
  have b: "unat ?f + unat n \<le> unat stack + len" "unat stack \<le> unat ?f" using f m stk assms(3) by linarith+
  moreover have "unat a = unat ?f + unat off"
    unfolding off(1) by (rule unat_off) (use off(2) b assms(1) in linarith)
  ultimately show ?thesis using off(2) by linarith
qed

section \<open>Fibers over a context switch\<close>

text \<open>
  \<open>tls\<close> is the address of \<open>tls_context\<close>. A fiber \<open>i\<close> is named by the address of its \<open>m_ctx\<close>;
  \<open>vp i\<close> is its \<open>m_vp\<close>.
\<close>

definition SwapIn ::
  "('m, 'p) switch_ops \<Rightarrow> u64 \<Rightarrow> (u64 \<Rightarrow> u64) \<Rightarrow> u64 \<Rightarrow> 'm \<Rightarrow> 'm option" where
  "SwapIn ops tls vp i s = sw_jump ops tls (sw_cell ops s i) (vp i) s"

definition SwapOut ::
  "('m, 'p) switch_ops \<Rightarrow> u64 \<Rightarrow> (u64 \<Rightarrow> u64) \<Rightarrow> u64 \<Rightarrow> 'm \<Rightarrow> 'm option" where
  "SwapOut ops tls vp i s = sw_jump ops i (sw_cell ops s tls) (vp i) s"

text \<open>The constructor: \<open>stk\<close> is \<open>m_stack + m_stackSize\<close>, \<open>fn\<close> the address of \<open>StaticRun\<close>.\<close>

definition Fiber_context ::
  "('m, 'p) switch_ops \<Rightarrow> u64 \<Rightarrow> u64 \<Rightarrow> u64 \<Rightarrow> 'm \<Rightarrow> 'm option" where
  "Fiber_context ops i stk fn s = (case sw_make ops stk fn s of
     None \<Rightarrow> None
   | Some (t, f) \<Rightarrow> Some (sw_store ops i f t))"

section \<open>Coroutines\<close>

text \<open>
  The specification: a thread with a main point and any number of coroutines, at most one of
  which runs (\<open>co_cur\<close>); a suspended one goes on where it was suspended.
\<close>

record 'p coros =
  co_cur :: "u64 option"
  co_main :: 'p
  co_pts :: "u64 \<Rightarrow> 'p option"

definition co_new :: "u64 \<Rightarrow> 'p \<Rightarrow> 'p coros \<Rightarrow> 'p coros option" where
  "co_new i q c = (if co_cur c = Some i then None else Some (c\<lparr>co_pts := (co_pts c)(i := Some q)\<rparr>))"

definition co_in :: "u64 \<Rightarrow> 'p \<Rightarrow> 'p coros \<Rightarrow> ('p coros \<times> 'p) option" where
  "co_in i p c = (case (co_cur c, co_pts c i) of
     (None, Some q) \<Rightarrow> Some (c\<lparr>co_cur := Some i, co_main := p, co_pts := (co_pts c)(i := None)\<rparr>, q)
   | _ \<Rightarrow> None)"

definition co_out :: "'p \<Rightarrow> 'p coros \<Rightarrow> ('p coros \<times> 'p) option" where
  "co_out p c = (case co_cur c of
     None \<Rightarrow> None
   | Some i \<Rightarrow> Some (c\<lparr>co_cur := None, co_pts := (co_pts c)(i := Some p)\<rparr>, co_main c))"

section \<open>How memory represents coroutines\<close>

definition controls :: "u64 \<Rightarrow> u64 set \<Rightarrow> u64 set" where
  "controls tls ctx = insert tls ctx"

text \<open>The records that must not be overwritten.\<close>

definition co_live :: "('m, 'p) switch_ops \<Rightarrow> u64 \<Rightarrow> u64 set \<Rightarrow> 'p coros \<Rightarrow> 'm \<Rightarrow> u64 set" where
  "co_live ops tls ctx c m =
     (\<Union>i \<in> {i. co_pts c i \<noteq> None}. sw_area ops (sw_cell ops m i)) \<union>
     (if co_cur c = None then {} else sw_area ops (sw_cell ops m tls))"

definition co_rep :: "('m, 'p) switch_ops \<Rightarrow> u64 \<Rightarrow> u64 set \<Rightarrow> 'p coros \<Rightarrow> 'm \<Rightarrow> bool" where
  "co_rep ops tls ctx c m \<longleftrightarrow> sw_ready ops m \<and>
     (\<forall>i q. co_pts c i = Some q \<longrightarrow> sw_fits ops (sw_cell ops m i) \<and>
        sw_stored ops (sw_cell ops m) (sw_cell ops m i) = q) \<and>
     (co_cur c \<noteq> None \<longrightarrow> sw_fits ops (sw_cell ops m tls) \<and>
        sw_stored ops (sw_cell ops m) (sw_cell ops m tls) = co_main c) \<and>
     (\<forall>i. co_cur c = Some i \<longrightarrow> i \<in> ctx \<and> co_pts c i = None) \<and> dom (co_pts c) \<subseteq> ctx \<and>
     controls tls ctx \<inter> co_live ops tls ctx c m = {}"

text \<open>The pointers are cells of their own.\<close>

definition co_layout :: "u64 \<Rightarrow> u64 set \<Rightarrow> bool" where
  "co_layout tls ctx \<longleftrightarrow> tls \<notin> ctx \<and> aligned tls \<and> (\<forall>i \<in> ctx. aligned i)"

text \<open>
  Code between two switches leaves the records and the pointers to them alone; it does so when
  it stays on its own stack. \<open>co_room\<close>: the next record fits on it.
\<close>

definition co_user :: "('m, 'p) switch_ops \<Rightarrow> u64 \<Rightarrow> u64 set \<Rightarrow> 'p coros \<Rightarrow> 'm \<Rightarrow> 'm \<Rightarrow> bool" where
  "co_user ops tls ctx c m m' \<longleftrightarrow> sw_ready ops m' \<and>
     (\<forall>a \<in> controls tls ctx \<union> co_live ops tls ctx c m. sw_cell ops m' a = sw_cell ops m a)"

definition co_room :: "('m, 'p) switch_ops \<Rightarrow> u64 \<Rightarrow> u64 set \<Rightarrow> 'p coros \<Rightarrow> 'm \<Rightarrow> u64 \<Rightarrow> bool" where
  "co_room ops tls ctx c m f \<longleftrightarrow> sw_area ops f \<inter> (controls tls ctx \<union> co_live ops tls ctx c m) = {}"

text \<open>
  Everything a thread can do: run code, make fibers (not again while one runs), and switch.
\<close>

inductive co_run ::
  "('m, 'p) switch_ops \<Rightarrow> u64 \<Rightarrow> u64 set \<Rightarrow> (u64 \<Rightarrow> u64) \<Rightarrow> 'p coros \<Rightarrow> 'm \<Rightarrow> bool"
  for ops tls ctx vp where
  start: "sw_ready ops m \<Longrightarrow> co_run ops tls ctx vp \<lparr>co_cur = None, co_main = p, co_pts = (\<lambda>_. None)\<rparr> m"
| user: "co_run ops tls ctx vp c m \<Longrightarrow> co_user ops tls ctx c m m' \<Longrightarrow> co_run ops tls ctx vp c m'"
| make: "co_run ops tls ctx vp c m \<Longrightarrow> Fiber_context ops i stk fn m = Some t \<Longrightarrow>
    i \<in> ctx \<Longrightarrow> co_room ops tls ctx c m (sw_cell ops t i) \<Longrightarrow> co_pts c i = None \<Longrightarrow>
    co_new i (sw_stored ops (sw_cell ops t) (sw_cell ops t i)) c = Some c' \<Longrightarrow>
    co_run ops tls ctx vp c' t"
| swap_in: "co_run ops tls ctx vp c m \<Longrightarrow> co_room ops tls ctx c m (sw_frame ops m) \<Longrightarrow>
    co_in i (sw_here ops m) c = Some (c', q) \<Longrightarrow> SwapIn ops tls vp i m = Some t \<Longrightarrow>
    co_run ops tls ctx vp c' t"
| swap_out: "co_run ops tls ctx vp c m \<Longrightarrow> co_room ops tls ctx c m (sw_frame ops m) \<Longrightarrow>
    co_cur c = Some i \<Longrightarrow>
    co_out (sw_here ops m) c = Some (c', q) \<Longrightarrow> SwapOut ops tls vp i m = Some t \<Longrightarrow>
    co_run ops tls ctx vp c' t"

section \<open>The contract\<close>

locale context_switch =
  fixes ops :: "('m, 'p) switch_ops"
  assumes jump_runs: "sw_ready ops s \<Longrightarrow> sw_fits ops nfc \<Longrightarrow> aligned ofc \<Longrightarrow> \<exists>t. sw_jump ops ofc nfc vp s = Some t"
    and jump_points: "sw_jump ops ofc nfc vp s = Some t \<Longrightarrow> ofc \<notin> sw_area ops (sw_frame ops s) \<Longrightarrow>
      sw_cell ops t ofc = sw_frame ops s"
    and jump_saves: "sw_jump ops ofc nfc vp s = Some t \<Longrightarrow> ofc \<notin> sw_area ops (sw_frame ops s) \<Longrightarrow>
      sw_stored ops (sw_cell ops t) (sw_frame ops s) = sw_here ops s \<and> sw_fits ops (sw_frame ops s)"
    and jump_other: "sw_jump ops ofc nfc vp s = Some t \<Longrightarrow> a \<notin> sw_area ops (sw_frame ops s) \<Longrightarrow> a \<noteq> ofc \<Longrightarrow>
      sw_cell ops t a = sw_cell ops s a"
    and jump_enters: "sw_jump ops ofc nfc vp s = Some t \<Longrightarrow>
      sw_now ops t = sw_stored ops (sw_cell ops t) nfc \<and> sw_result ops t = vp \<and> sw_ready ops t"
    and make_runs: "sw_ready ops s \<Longrightarrow> \<exists>t f. sw_make ops stk fn s = Some (t, f)"
    and make_other: "sw_make ops stk fn s = Some (t, f) \<Longrightarrow> a \<notin> sw_area ops f \<Longrightarrow> sw_cell ops t a = sw_cell ops s a"
    and make_fits: "sw_make ops stk fn s = Some (t, f) \<Longrightarrow> sw_fits ops f \<and> (sw_ready ops t \<longleftrightarrow> sw_ready ops s)"
    and store_cell: "sw_cell ops (sw_store ops a v s) = (sw_cell ops s)(a := v)"
    and store_ready: "sw_ready ops (sw_store ops a v s) \<longleftrightarrow> sw_ready ops s"
    and stored_cong: "(\<And>a. a \<in> sw_area ops f \<Longrightarrow> m a = m' a) \<Longrightarrow> sw_stored ops m f = sw_stored ops m' f"
begin

text \<open>A jump back to a record that nobody touched goes on where the record was made.\<close>

lemma jump_back:
  assumes j: "sw_jump ops ofc nfc vp s = Some t" "ofc \<notin> sw_area ops (sw_frame ops s)"
    and keep: "\<And>a. a \<in> sw_area ops (sw_frame ops s) \<Longrightarrow> sw_cell ops s2 a = sw_cell ops t a"
    and k: "sw_jump ops ofc2 (sw_frame ops s) vp2 s2 = Some t2"
    and d: "sw_area ops (sw_frame ops s) \<inter> sw_area ops (sw_frame ops s2) = {}" "ofc2 \<notin> sw_area ops (sw_frame ops s)"
  shows "sw_now ops t2 = sw_here ops s \<and> sw_result ops t2 = vp2"
proof -
  have "sw_stored ops (sw_cell ops t2) (sw_frame ops s) = sw_stored ops (sw_cell ops t) (sw_frame ops s)"
    proof (rule stored_cong)
    fix a assume a: "a \<in> sw_area ops (sw_frame ops s)"
    with d have "a \<notin> sw_area ops (sw_frame ops s2)" "a \<noteq> ofc2" by auto
    with jump_other [OF k] keep [OF a] show "sw_cell ops t2 a = sw_cell ops t a" by simp
  qed
  with jump_saves [OF j] jump_enters [OF k] show ?thesis by simp
qed

text \<open>Representation is kept by whatever leaves the records and the pointers alone.\<close>

lemma co_live_cong:
  assumes "\<And>a. a \<in> controls tls ctx \<Longrightarrow> sw_cell ops m' a = sw_cell ops m a" and "dom (co_pts c) \<subseteq> ctx"
  shows "co_live ops tls ctx c m' = co_live ops tls ctx c m"
proof -
  have "sw_cell ops m' i = sw_cell ops m i" if "co_pts c i \<noteq> None" for i
    using that assms by (auto simp: controls_def)
  then have "(\<Union>i \<in> {i. co_pts c i \<noteq> None}. sw_area ops (sw_cell ops m' i)) =
      (\<Union>i \<in> {i. co_pts c i \<noteq> None}. sw_area ops (sw_cell ops m i))"
    by (intro SUP_cong) auto
  then show ?thesis using assms(1) by (simp add: co_live_def controls_def)
qed

lemma co_rep_cong:
  assumes r: "co_rep ops tls ctx c m" and ok: "sw_ready ops m'"
    and same: "\<And>a. a \<in> controls tls ctx \<union> co_live ops tls ctx c m \<Longrightarrow> sw_cell ops m' a = sw_cell ops m a"
  shows "co_rep ops tls ctx c m'"
proof -
  have dom: "dom (co_pts c) \<subseteq> ctx" using r by (simp add: co_rep_def)
  have ctl: "sw_cell ops m' tls = sw_cell ops m tls" "i \<in> ctx \<Longrightarrow> sw_cell ops m' i = sw_cell ops m i" for i
    using same by (auto simp: controls_def)
  have "sw_stored ops (sw_cell ops m') (sw_cell ops m i) = sw_stored ops (sw_cell ops m) (sw_cell ops m i)"
    if "co_pts c i = Some q" for i q
    by (rule stored_cong) (use that same in \<open>auto simp: co_live_def\<close>)
  moreover have "sw_stored ops (sw_cell ops m') (sw_cell ops m tls) = sw_stored ops (sw_cell ops m) (sw_cell ops m tls)"
    if "co_cur c \<noteq> None"
    by (rule stored_cong) (use that same in \<open>auto simp: co_live_def\<close>)
  moreover have "co_live ops tls ctx c m' = co_live ops tls ctx c m"
    by (rule co_live_cong) (use same dom in auto)
  moreover have "sw_cell ops m' i = sw_cell ops m i" if "co_pts c i = Some q" for i q
    using that dom ctl(2) by auto
  ultimately show ?thesis using r ok ctl(1) by (auto simp: co_rep_def)
qed

lemma user_rep: "co_rep ops tls ctx c m \<Longrightarrow> co_user ops tls ctx c m m' \<Longrightarrow> co_rep ops tls ctx c m'"
  unfolding co_user_def using co_rep_cong by blast

lemma switch_cells:
  assumes "sw_jump ops ofc nfc vp m = Some t" and "co_room ops tls ctx c m (sw_frame ops m)"
    and "a \<in> controls tls ctx \<union> co_live ops tls ctx c m" and "a \<noteq> ofc"
  shows "sw_cell ops t a = sw_cell ops m a"
  using assms jump_other [OF assms(1)] by (auto simp: co_room_def disjoint_iff)

lemma stored_keeps:
  assumes "sw_jump ops ofc nfc vp m = Some t" and "co_room ops tls ctx c m (sw_frame ops m)"
    and "sw_area ops f \<subseteq> co_live ops tls ctx c m" and "ofc \<notin> co_live ops tls ctx c m"
  shows "sw_stored ops (sw_cell ops t) f = sw_stored ops (sw_cell ops m) f"
  by (rule stored_cong) (use assms switch_cells [OF assms(1,2)] in blast)

lemma live_pt: "co_pts c i = Some q \<Longrightarrow> sw_area ops (sw_cell ops m i) \<subseteq> co_live ops tls ctx c m"
  by (auto simp: co_live_def)

lemma live_main: "co_cur c \<noteq> None \<Longrightarrow> sw_area ops (sw_cell ops m tls) \<subseteq> co_live ops tls ctx c m"
  by (auto simp: co_live_def)

lemma swap_in_rep:
  assumes lay: "co_layout tls ctx" and r: "co_rep ops tls ctx c m"
    and room: "co_room ops tls ctx c m (sw_frame ops m)"
    and i: "co_in i (sw_here ops m) c = Some (c', q)" and t: "SwapIn ops tls vp i m = Some t"
  shows "co_rep ops tls ctx c' t \<and> sw_now ops t = q \<and> sw_result ops t = vp i"
proof -
  let ?f = "sw_frame ops m"
  have c: "co_cur c = None" "co_pts c i = Some q"
    and c': "c' = c\<lparr>co_cur := Some i, co_main := sw_here ops m, co_pts := (co_pts c)(i := None)\<rparr>"
    using i by (auto simp: co_in_def split: option.splits)
  have j: "sw_jump ops tls (sw_cell ops m i) (vp i) m = Some t" using t by (simp add: SwapIn_def)
  have dom: "dom (co_pts c) \<subseteq> ctx" and dis: "controls tls ctx \<inter> co_live ops tls ctx c m = {}"
    using r by (simp_all add: co_rep_def)
  have out: "tls \<notin> sw_area ops ?f" using room by (auto simp: co_room_def controls_def)
  have tl: "tls \<notin> co_live ops tls ctx c m" using dis by (auto simp: controls_def)
  have same: "sw_cell ops t k = sw_cell ops m k" if "k \<in> ctx" for k
    by (rule switch_cells [OF j room]) (use that lay in \<open>auto simp: controls_def co_layout_def\<close>)
  note pt = stored_keeps [OF j room _ tl]
  have new: "sw_cell ops t tls = ?f" "sw_stored ops (sw_cell ops t) ?f = sw_here ops m" "sw_fits ops ?f"
    using jump_points [OF j out] jump_saves [OF j out] by auto
  have pts: "sw_cell ops t k = sw_cell ops m k \<and> sw_stored ops (sw_cell ops t) (sw_cell ops m k) = x \<and>
      sw_fits ops (sw_cell ops m k)" if "co_pts c k = Some x" for k x
    using that same [of k] dom pt [OF live_pt [OF that]] r by (auto simp: co_rep_def)
  have live: "co_live ops tls ctx c' t \<subseteq> co_live ops tls ctx c m \<union> sw_area ops ?f"
  proof
    fix a assume "a \<in> co_live ops tls ctx c' t"
    then consider k x where "co_pts c k = Some x" "a \<in> sw_area ops (sw_cell ops t k)" | "a \<in> sw_area ops (sw_cell ops t tls)"
      by (auto simp: co_live_def c' split: if_splits)
    then show "a \<in> co_live ops tls ctx c m \<union> sw_area ops ?f"
      using pts live_pt [of c _ _ m tls ctx] new(1) by cases (fastforce, simp)
  qed
  have "controls tls ctx \<inter> co_live ops tls ctx c' t = {}"
    using live dis room by (fastforce simp: co_room_def)
  moreover have "i \<in> ctx" using dom c(2) by auto
  moreover have "sw_ready ops t \<and> sw_now ops t = q \<and> sw_result ops t = vp i"
    using jump_enters [OF j] pts [OF c(2)] by simp
  ultimately show ?thesis using new pts dom c' by (auto simp: co_rep_def split: if_splits)
qed

lemma swap_out_rep:
  assumes lay: "co_layout tls ctx" and r: "co_rep ops tls ctx c m"
    and room: "co_room ops tls ctx c m (sw_frame ops m)" and cur: "co_cur c = Some i"
    and o: "co_out (sw_here ops m) c = Some (c', q)" and t: "SwapOut ops tls vp i m = Some t"
  shows "co_rep ops tls ctx c' t \<and> sw_now ops t = q \<and> sw_result ops t = vp i"
proof -
  let ?f = "sw_frame ops m"
  have q: "q = co_main c" and c': "c' = c\<lparr>co_cur := None, co_pts := (co_pts c)(i := Some (sw_here ops m))\<rparr>"
    using o cur by (auto simp: co_out_def)
  have j: "sw_jump ops i (sw_cell ops m tls) (vp i) m = Some t" using t by (simp add: SwapOut_def)
  have dom: "dom (co_pts c) \<subseteq> ctx" and dis: "controls tls ctx \<inter> co_live ops tls ctx c m = {}"
    and i: "i \<in> ctx" "co_pts c i = None"
    using r cur by (simp_all add: co_rep_def)
  have out: "i \<notin> sw_area ops ?f" using room i(1) by (auto simp: co_room_def controls_def)
  have il: "i \<notin> co_live ops tls ctx c m" using dis i(1) by (auto simp: controls_def)
  have same: "sw_cell ops t k = sw_cell ops m k" if "k \<in> ctx" "k \<noteq> i" for k
    by (rule switch_cells [OF j room]) (use that in \<open>auto simp: controls_def\<close>)
  note pt = stored_keeps [OF j room _ il]
  have new: "sw_cell ops t i = ?f" "sw_stored ops (sw_cell ops t) ?f = sw_here ops m" "sw_fits ops ?f"
    using jump_points [OF j out] jump_saves [OF j out] by auto
  have pts: "sw_cell ops t k = sw_cell ops m k \<and> sw_stored ops (sw_cell ops t) (sw_cell ops m k) = x \<and>
      sw_fits ops (sw_cell ops m k)" if "co_pts c k = Some x" for k x
    using that same [of k] i(2) dom pt [OF live_pt [OF that]] r by (fastforce simp: co_rep_def)
  have live: "co_live ops tls ctx c' t \<subseteq> co_live ops tls ctx c m \<union> sw_area ops ?f"
  proof
    fix a assume "a \<in> co_live ops tls ctx c' t"
    then consider k x where "co_pts c k = Some x" "a \<in> sw_area ops (sw_cell ops t k)" | "a \<in> sw_area ops (sw_cell ops t i)"
      by (auto simp: co_live_def c' split: if_splits)
    then show "a \<in> co_live ops tls ctx c m \<union> sw_area ops ?f"
      using pts live_pt [of c _ _ m tls ctx] new(1) by cases (fastforce, simp)
  qed
  have "controls tls ctx \<inter> co_live ops tls ctx c' t = {}"
    using live dis room by (fastforce simp: co_room_def)
  moreover have "sw_stored ops (sw_cell ops t) (sw_cell ops m tls) = co_main c"
    using pt [OF live_main] cur r by (simp add: co_rep_def)
  then have "sw_ready ops t \<and> sw_now ops t = q \<and> sw_result ops t = vp i"
    using jump_enters [OF j] q by simp
  ultimately show ?thesis using new pts dom i c' by (auto simp: co_rep_def split: if_splits)
qed

lemma make_rep:
  assumes r: "co_rep ops tls ctx c m" and t: "Fiber_context ops i stk fn m = Some t" and i: "i \<in> ctx"
    and room: "co_room ops tls ctx c m (sw_cell ops t i)" and none: "co_pts c i = None"
    and n: "co_new i (sw_stored ops (sw_cell ops t) (sw_cell ops t i)) c = Some c'"
    and tls: "tls \<notin> ctx"
  shows "co_rep ops tls ctx c' t"
proof -
  obtain u f where u: "sw_make ops stk fn m = Some (u, f)" "t = sw_store ops i f u"
    using t by (auto simp: Fiber_context_def split: option.splits)
  have f: "sw_cell ops t i = f" by (simp add: u(2) store_cell)
  have cur: "co_cur c \<noteq> Some i"
    and c': "c' = c\<lparr>co_pts := (co_pts c)(i := Some (sw_stored ops (sw_cell ops t) f))\<rparr>"
    using n f by (auto simp: co_new_def split: if_splits)
  have dom: "dom (co_pts c) \<subseteq> ctx" and dis: "controls tls ctx \<inter> co_live ops tls ctx c m = {}"
    using r by (simp_all add: co_rep_def)
  have same: "sw_cell ops t a = sw_cell ops m a" if "a \<in> controls tls ctx \<union> co_live ops tls ctx c m" "a \<noteq> i" for a
    using that make_other [OF u(1), of a] room f by (auto simp: u(2) store_cell co_room_def)
  have il: "i \<notin> co_live ops tls ctx c m" using dis i by (auto simp: controls_def)
  have st: "sw_stored ops (sw_cell ops t) g = sw_stored ops (sw_cell ops m) g"
    if "sw_area ops g \<subseteq> co_live ops tls ctx c m" for g
    by (rule stored_cong) (use that same il in blast)
  have tl: "sw_cell ops t tls = sw_cell ops m tls"
    using same [of tls] i tls by (auto simp: controls_def)
  have pts: "sw_cell ops t k = sw_cell ops m k \<and> sw_stored ops (sw_cell ops t) (sw_cell ops m k) = x \<and>
      sw_fits ops (sw_cell ops m k)" if "co_pts c k = Some x" for k x
    using that same [of k] none dom st [OF live_pt [OF that]] r by (fastforce simp: co_rep_def controls_def)
  have main: "sw_stored ops (sw_cell ops t) (sw_cell ops m tls) = co_main c" if "co_cur c \<noteq> None"
    using that st [OF live_main [OF that]] r by (simp add: co_rep_def)
  have "co_live ops tls ctx c' t \<subseteq> co_live ops tls ctx c m \<union> sw_area ops f"
  proof
    fix a assume "a \<in> co_live ops tls ctx c' t"
    then consider k x where "co_pts c k = Some x" "a \<in> sw_area ops (sw_cell ops t k)" | "a \<in> sw_area ops (sw_cell ops t i)"
      | "co_cur c \<noteq> None" "a \<in> sw_area ops (sw_cell ops t tls)"
      by (auto simp: co_live_def c' split: if_splits)
    then show "a \<in> co_live ops tls ctx c m \<union> sw_area ops f"
      using pts live_pt [of c _ _ m tls ctx] live_main [of c m tls ctx] f tl by cases (fastforce, simp, fastforce)
  qed
  then have "controls tls ctx \<inter> co_live ops tls ctx c' t = {}"
    using dis room f by (fastforce simp: co_room_def)
  moreover have "sw_ready ops t" "sw_fits ops f"
    using make_fits [OF u(1)] r by (simp_all add: u(2) store_ready co_rep_def)
  ultimately show ?thesis using r f pts dom i cur c' tl main by (auto simp: co_rep_def split: if_splits)
qed

lemma run_rep:
  assumes "co_layout tls ctx" and "co_run ops tls ctx vp c m"
  shows "co_rep ops tls ctx c m"
  using assms(2)
proof (induction rule: co_run.induct)
  case (start m p)
  then show ?case by (simp add: co_rep_def co_live_def)
next
  case (user c m m')
  then show ?case by (blast intro: user_rep)
next
  case (make c m i stk fn t c')
  then show ?case using make_rep assms(1) by (auto simp: co_layout_def)
next
  case (swap_in c m i c' q t)
  then show ?case using swap_in_rep [OF assms(1)] by blast
next
  case (swap_out c m i c' q t)
  then show ?case using swap_out_rep [OF assms(1)] by blast
qed

text \<open>The switches succeed and do what the specification says.\<close>

lemma run_swap_in:
  assumes "co_layout tls ctx" and "co_run ops tls ctx vp c m" and "co_room ops tls ctx c m (sw_frame ops m)"
    and i: "co_in i (sw_here ops m) c = Some (c', q)"
  shows "\<exists>t. SwapIn ops tls vp i m = Some t \<and> co_rep ops tls ctx c' t \<and> sw_now ops t = q \<and> sw_result ops t = vp i"
proof -
  have r: "co_rep ops tls ctx c m" by (rule run_rep [OF assms(1,2)])
  obtain x where "co_pts c i = Some x" using i by (auto simp: co_in_def split: option.splits)
  then have "\<exists>t. SwapIn ops tls vp i m = Some t"
    unfolding SwapIn_def using r assms(1) by (intro jump_runs) (auto simp: co_rep_def co_layout_def)
  with swap_in_rep [OF assms(1) r assms(3) i] show ?thesis by blast
qed

lemma run_swap_out:
  assumes "co_layout tls ctx" and "co_run ops tls ctx vp c m" and "co_room ops tls ctx c m (sw_frame ops m)"
    and cur: "co_cur c = Some i" and o: "co_out (sw_here ops m) c = Some (c', q)"
  shows "\<exists>t. SwapOut ops tls vp i m = Some t \<and> co_rep ops tls ctx c' t \<and> sw_now ops t = q \<and> sw_result ops t = vp i"
proof -
  have r: "co_rep ops tls ctx c m" by (rule run_rep [OF assms(1,2)])
  have "\<exists>t. SwapOut ops tls vp i m = Some t"
    unfolding SwapOut_def using r assms(1) cur by (intro jump_runs) (auto simp: co_rep_def co_layout_def)
  with swap_out_rep [OF assms(1) r assms(3) cur o] show ?thesis by blast
qed

end

end
