(* ===== verification/Arm64.thy ===== *)
theory Arm64
  imports Coroutine
begin

unbundle bit_operations_syntax

text \<open>
  \<open>src/fiber/jump_arm64_aapcs_elf_gas.S\<close> and \<open>make_arm64_aapcs_elf_gas.S\<close>, the assembly behind
  \<open>fcontext.h\<close> on 64-bit ARM, instruction by instruction, and its contract as a context switch.
\<close>

section \<open>The machine\<close>

text \<open>
  \<open>a_x\<close> are the registers x0 to x30, \<open>a_d\<close> the lower halves of the vector registers, which is what
  the procedure call standard makes a function preserve.
\<close>

record arm =
  a_x :: "nat \<Rightarrow> u64"
  a_d :: "nat \<Rightarrow> u64"
  a_sp :: u64
  a_pc :: u64
  a_mem :: "u64 \<Rightarrow> u64"

text \<open>The instructions of the two files; a memory operand is a register, or \<open>sp\<close>, with an offset.\<close>

datatype abase = BSp | BX nat

datatype ainstr =
    SubSp u64 | AddSp u64
  | StpD nat nat u64 | StpX nat nat u64 | StrX nat abase u64
  | LdpD nat nat u64 | LdpX nat nat u64 | LdrX nat u64
  | MovFromSp nat | MovToSp nat | MovX nat nat
  | AndX nat u64 | SubX nat u64 | AdrX nat u64 | RetX nat

text \<open>
  An access faults when \<open>sp\<close> is its base and not a multiple of 16; the cells of this memory also
  ask that the address is a multiple of 8.
\<close>

definition arm_addr :: "abase \<Rightarrow> u64 \<Rightarrow> arm \<Rightarrow> u64 option" where
  "arm_addr b off s = (case b of
     BSp \<Rightarrow> if take_bit 4 (a_sp s) = 0 \<and> aligned (a_sp s + off) then Some (a_sp s + off) else None
   | BX r \<Rightarrow> if aligned (a_x s r + off) then Some (a_x s r + off) else None)"

definition store_pair :: "u64 \<Rightarrow> u64 \<Rightarrow> u64 \<Rightarrow> arm \<Rightarrow> arm option" where
  "store_pair v w off s = (case arm_addr BSp off s of
     None \<Rightarrow> None
   | Some a \<Rightarrow> Some (s\<lparr>a_mem := (a_mem s)(a := v, a + 8 := w)\<rparr>))"

definition arm_exec1 :: "ainstr \<Rightarrow> arm \<Rightarrow> arm option" where
  "arm_exec1 i s = (case i of
     SubSp n \<Rightarrow> Some (s\<lparr>a_sp := a_sp s - n\<rparr>)
   | AddSp n \<Rightarrow> Some (s\<lparr>a_sp := a_sp s + n\<rparr>)
   | StpD r q off \<Rightarrow> store_pair (a_d s r) (a_d s q) off s
   | StpX r q off \<Rightarrow> store_pair (a_x s r) (a_x s q) off s
   | StrX r b off \<Rightarrow> (case arm_addr b off s of
       None \<Rightarrow> None
     | Some a \<Rightarrow> Some (s\<lparr>a_mem := (a_mem s)(a := a_x s r)\<rparr>))
   | LdpD r q off \<Rightarrow> (case arm_addr BSp off s of
       None \<Rightarrow> None
     | Some a \<Rightarrow> Some (s\<lparr>a_d := (a_d s)(r := a_mem s a, q := a_mem s (a + 8))\<rparr>))
   | LdpX r q off \<Rightarrow> (case arm_addr BSp off s of
       None \<Rightarrow> None
     | Some a \<Rightarrow> Some (s\<lparr>a_x := (a_x s)(r := a_mem s a, q := a_mem s (a + 8))\<rparr>))
   | LdrX r off \<Rightarrow> (case arm_addr BSp off s of
       None \<Rightarrow> None
     | Some a \<Rightarrow> Some (s\<lparr>a_x := (a_x s)(r := a_mem s a)\<rparr>))
   | MovFromSp r \<Rightarrow> Some (s\<lparr>a_x := (a_x s)(r := a_sp s)\<rparr>)
   | MovToSp r \<Rightarrow> Some (s\<lparr>a_sp := a_x s r\<rparr>)
   | MovX r q \<Rightarrow> Some (s\<lparr>a_x := (a_x s)(r := a_x s q)\<rparr>)
   | AndX r v \<Rightarrow> Some (s\<lparr>a_x := (a_x s)(r := a_x s r AND v)\<rparr>)
   | SubX r v \<Rightarrow> Some (s\<lparr>a_x := (a_x s)(r := a_x s r - v)\<rparr>)
   | AdrX r v \<Rightarrow> Some (s\<lparr>a_x := (a_x s)(r := v)\<rparr>)
   | RetX r \<Rightarrow> Some (s\<lparr>a_pc := a_x s r\<rparr>))"

fun arm_exec :: "ainstr list \<Rightarrow> arm \<Rightarrow> arm option" where
  "arm_exec [] s = Some s"
| "arm_exec (i # is) s = (case arm_exec1 i s of None \<Rightarrow> None | Some t \<Rightarrow> arm_exec is t)"

section \<open>The code\<close>

definition jump_save :: "ainstr list" where
  "jump_save =
     [SubSp 0xb0,
      StpD 8 9 0x00, StpD 10 11 0x10, StpD 12 13 0x20, StpD 14 15 0x30,
      StpX 19 20 0x40, StpX 21 22 0x50, StpX 23 24 0x60, StpX 25 26 0x70, StpX 27 28 0x80, StpX 29 30 0x90,
      StrX 30 BSp 0xa0,
      MovFromSp 4, StrX 4 (BX 0) 0]"

definition jump_load :: "ainstr list" where
  "jump_load =
     [MovToSp 1,
      LdpD 8 9 0x00, LdpD 10 11 0x10, LdpD 12 13 0x20, LdpD 14 15 0x30,
      LdpX 19 20 0x40, LdpX 21 22 0x50, LdpX 23 24 0x60, LdpX 25 26 0x70, LdpX 27 28 0x80, LdpX 29 30 0x90,
      MovX 0 2,
      LdrX 4 0xa0,
      AddSp 0xb0,
      RetX 4]"

text \<open>\<open>finish\<close> is the address of the label in the second file.\<close>

definition make_code :: "u64 \<Rightarrow> ainstr list" where
  "make_code finish =
     [AndX 0 (NOT 0xF), SubX 0 0xb0, StrX 2 (BX 0) 0xa0, AdrX 1 finish, StrX 1 (BX 0) 0x98, RetX 30]"

text \<open>The calls, with the arguments in registers and the return address in x30.\<close>

definition arm_jump :: "u64 \<Rightarrow> u64 \<Rightarrow> u64 \<Rightarrow> arm \<Rightarrow> arm option" where
  "arm_jump ofc nfc vp s =
     arm_exec (jump_save @ jump_load) (s\<lparr>a_x := (a_x s)(0 := ofc, 1 := nfc, 2 := vp, 3 := 0)\<rparr>)"

definition arm_make :: "u64 \<Rightarrow> u64 \<Rightarrow> u64 \<Rightarrow> arm \<Rightarrow> (arm \<times> u64) option" where
  "arm_make finish stk fn s =
     (case arm_exec (make_code finish) (s\<lparr>a_x := (a_x s)(0 := stk, 2 := fn)\<rparr>) of
        None \<Rightarrow> None
      | Some t \<Rightarrow> Some (t, a_x t 0))"

section \<open>Points and records\<close>

text \<open>d8 to d15, x19 to x30, the stack pointer and the address at which to go on.\<close>

type_synonym arm_point = "u64 list \<times> u64 list \<times> u64 \<times> u64"

definition arm_kept :: "arm \<Rightarrow> u64 list \<times> u64 list" where
  "arm_kept s = (map (a_d s) [8, 9, 10, 11, 12, 13, 14, 15],
     map (a_x s) [19, 20, 21, 22, 23, 24, 25, 26, 27, 28, 29, 30])"

definition arm_here :: "arm \<Rightarrow> arm_point" where
  "arm_here s = (fst (arm_kept s), snd (arm_kept s), a_sp s, a_x s 30)"

definition arm_now :: "arm \<Rightarrow> arm_point" where
  "arm_now s = (fst (arm_kept s), snd (arm_kept s), a_sp s, a_pc s)"

definition arm_area :: "u64 \<Rightarrow> u64 set" where
  "arm_area f = set (map ((+) f) [0x00, 0x08, 0x10, 0x18, 0x20, 0x28, 0x30, 0x38, 0x40, 0x48, 0x50, 0x58,
     0x60, 0x68, 0x70, 0x78, 0x80, 0x88, 0x90, 0x98, 0xa0, 0xa8])"

definition arm_stored :: "(u64 \<Rightarrow> u64) \<Rightarrow> u64 \<Rightarrow> arm_point" where
  "arm_stored m f =
     (map (\<lambda>off. m (f + off)) [0x00, 0x08, 0x10, 0x18, 0x20, 0x28, 0x30, 0x38],
      map (\<lambda>off. m (f + off)) [0x40, 0x48, 0x50, 0x58, 0x60, 0x68, 0x70, 0x78, 0x80, 0x88, 0x90, 0x98],
      f + 0xb0, m (f + 0xa0))"

definition arm_fits :: "u64 \<Rightarrow> bool" where
  "arm_fits a \<longleftrightarrow> take_bit 4 a = 0"

definition arm_ops :: "u64 \<Rightarrow> (arm, arm_point) switch_ops" where
  "arm_ops finish = \<lparr>sw_jump = arm_jump, sw_make = arm_make finish, sw_cell = a_mem,
     sw_store = (\<lambda>a v s. s\<lparr>a_mem := (a_mem s)(a := v)\<rparr>), sw_here = arm_here, sw_now = arm_now,
     sw_result = (\<lambda>s. a_x s 0), sw_frame = (\<lambda>s. a_sp s - 0xb0), sw_area = arm_area,
     sw_stored = arm_stored, sw_ready = (\<lambda>s. arm_fits (a_sp s)), sw_fits = arm_fits\<rparr>"

section \<open>Alignment\<close>

lemma fits_aligned: "arm_fits a \<Longrightarrow> aligned a"
proof -
  assume "arm_fits a"
  moreover have "take_bit 3 a = take_bit 3 (take_bit 4 a)" by (simp add: take_bit_take_bit)
  ultimately show ?thesis by (simp add: arm_fits_def aligned_def)
qed

lemma fits_minus: "arm_fits a \<Longrightarrow> arm_fits (a - 0xb0)"
  by (simp add: arm_fits_def take_bit_diff0)

lemma fits_plus: "arm_fits a \<Longrightarrow> arm_fits (a + 0xb0)"
  by (simp add: arm_fits_def take_bit_sum0)

lemma fits_mask: "arm_fits (a AND NOT 0xF)"
proof -
  have "(0xF :: u64) = mask 4" by (simp add: mask_eq_exp_minus_1)
  then show ?thesis by (simp add: arm_fits_def bit_eq_iff bit_simps)
qed

section \<open>What the code does\<close>

definition arm_record :: "arm \<Rightarrow> u64 \<Rightarrow> u64 \<Rightarrow> u64" where
  "arm_record s f = (a_mem s)
     (f := a_d s 8, f + 0x08 := a_d s 9, f + 0x10 := a_d s 10, f + 0x18 := a_d s 11,
      f + 0x20 := a_d s 12, f + 0x28 := a_d s 13, f + 0x30 := a_d s 14, f + 0x38 := a_d s 15,
      f + 0x40 := a_x s 19, f + 0x48 := a_x s 20, f + 0x50 := a_x s 21, f + 0x58 := a_x s 22,
      f + 0x60 := a_x s 23, f + 0x68 := a_x s 24, f + 0x70 := a_x s 25, f + 0x78 := a_x s 26,
      f + 0x80 := a_x s 27, f + 0x88 := a_x s 28, f + 0x90 := a_x s 29, f + 0x98 := a_x s 30,
      f + 0xa0 := a_x s 30)"

lemma arm_exec_append: "arm_exec (is @ js) s = Option.bind (arm_exec is s) (arm_exec js)"
  by (induction "is" arbitrary: s) (auto split: option.splits)

lemma sp_addr: "arm_fits f \<Longrightarrow> a_sp s = f \<Longrightarrow> take_bit 3 off = 0 \<Longrightarrow> arm_addr BSp off s = Some (f + off)"
  by (simp add: arm_addr_def fits_aligned [THEN aligned_plus]) (simp add: arm_fits_def)

lemma exec_save:
  assumes "a_sp s = f + 0xb0" and "arm_fits f" and "aligned (a_x s 0)"
  shows "arm_exec jump_save s =
    Some (s\<lparr>a_sp := f, a_x := (a_x s)(4 := f), a_mem := (arm_record s f)(a_x s 0 := f)\<rparr>)"
  using assms
  by (simp add: jump_save_def arm_exec1_def store_pair_def sp_addr arm_record_def add.commute [of "numeral _" f])
    (simp add: arm_addr_def)

lemma exec_load:
  assumes "a_x s 1 = f" and "arm_fits f"
  shows "\<exists>t. arm_exec jump_load s = Some t \<and> a_mem t = a_mem s \<and> arm_now t = arm_stored (a_mem s) f \<and>
    a_x t 0 = a_x s 2 \<and> a_sp t = f + 0xb0"
  using assms
  by (simp add: jump_load_def arm_exec1_def sp_addr arm_now_def arm_kept_def arm_stored_def
      add.commute [of "numeral _" f])

lemma area_offsets: "a \<notin> arm_area f \<Longrightarrow> arm_record s f a = a_mem s a"
  by (simp add: arm_area_def arm_record_def)

lemma record_at:
  "arm_record s f (f) = a_d s 8"
  "arm_record s f (f + 0x08) = a_d s 9"
  "arm_record s f (f + 0x10) = a_d s 10"
  "arm_record s f (f + 0x18) = a_d s 11"
  "arm_record s f (f + 0x20) = a_d s 12"
  "arm_record s f (f + 0x28) = a_d s 13"
  "arm_record s f (f + 0x30) = a_d s 14"
  "arm_record s f (f + 0x38) = a_d s 15"
  "arm_record s f (f + 0x40) = a_x s 19"
  "arm_record s f (f + 0x48) = a_x s 20"
  "arm_record s f (f + 0x50) = a_x s 21"
  "arm_record s f (f + 0x58) = a_x s 22"
  "arm_record s f (f + 0x60) = a_x s 23"
  "arm_record s f (f + 0x68) = a_x s 24"
  "arm_record s f (f + 0x70) = a_x s 25"
  "arm_record s f (f + 0x78) = a_x s 26"
  "arm_record s f (f + 0x80) = a_x s 27"
  "arm_record s f (f + 0x88) = a_x s 28"
  "arm_record s f (f + 0x90) = a_x s 29"
  "arm_record s f (f + 0x98) = a_x s 30"
  "arm_record s f (f + 0xa0) = a_x s 30"
  by (simp_all add: arm_record_def)

lemma area_other:
  assumes "a \<notin> arm_area f"
  shows "((m :: u64 \<Rightarrow> u64)(a := v)) f = m f"
    and "off \<in> {0x08, 0x10, 0x18, 0x20, 0x28, 0x30, 0x38, 0x40, 0x48, 0x50, 0x58, 0x60, 0x68, 0x70, 0x78,
      0x80, 0x88, 0x90, 0x98, 0xa0} \<Longrightarrow> (m(a := v)) (f + off) = m (f + off)"
  using assms by (auto simp: arm_area_def)

lemma record_stored:
  assumes "a \<notin> arm_area f"
  shows "arm_stored ((arm_record s f)(a := v)) f = (fst (arm_kept s), snd (arm_kept s), f + 0xb0, a_x s 30)"
  by (simp add: arm_stored_def arm_kept_def area_other [OF assms] record_at del: fun_upd_apply)

lemma arm_jump_spec:
  assumes "arm_fits (a_sp s)" and "arm_fits nfc" and "aligned ofc"
  shows "\<exists>t. arm_jump ofc nfc vp s = Some t \<and> a_mem t = (arm_record s (a_sp s - 0xb0))(ofc := a_sp s - 0xb0) \<and>
    arm_now t = arm_stored (a_mem t) nfc \<and> a_x t 0 = vp \<and> arm_fits (a_sp t)"
proof -
  let ?f = "a_sp s - 0xb0"
  let ?s = "s\<lparr>a_x := (a_x s)(0 := ofc, 1 := nfc, 2 := vp, 3 := 0)\<rparr>"
  let ?u = "?s\<lparr>a_sp := ?f, a_x := (a_x ?s)(4 := ?f), a_mem := (arm_record ?s ?f)(ofc := ?f)\<rparr>"
  have u: "arm_exec jump_save ?s = Some ?u"
    using exec_save [of ?s ?f] assms(1,3) fits_minus by simp
  obtain t where t: "arm_exec jump_load ?u = Some t" "a_mem t = a_mem ?u" "arm_now t = arm_stored (a_mem ?u) nfc"
    "a_x t 0 = vp" "a_sp t = nfc + 0xb0"
    using exec_load [of ?u nfc] assms(2) by auto
  have "arm_record ?s ?f = arm_record s ?f" by (simp add: arm_record_def)
  with u t fits_plus [OF assms(2)] show ?thesis by (simp add: arm_jump_def arm_exec_append)
qed

text \<open>A misaligned stack pointer, record or pointer is a fault, so a jump that ends had none.\<close>

lemma arm_jump_ready:
  assumes "arm_jump ofc nfc vp s = Some t"
  shows "arm_fits (a_sp s) \<and> arm_fits nfc \<and> aligned ofc"
proof -
  let ?f = "a_sp s - 0xb0"
  let ?s = "s\<lparr>a_x := (a_x s)(0 := ofc, 1 := nfc, 2 := vp, 3 := 0)\<rparr>"
  obtain u where u: "arm_exec jump_save ?s = Some u" "arm_exec jump_load u = Some t"
    using assms by (auto simp: arm_jump_def arm_exec_append split: bind_splits)
  have "arm_fits ?f"
    using u(1) by (auto simp: jump_save_def arm_exec1_def store_pair_def arm_addr_def arm_fits_def split: if_splits)
  then have sp: "arm_fits (a_sp s)" using fits_plus [of ?f] by simp
  have o: "aligned ofc"
  proof (rule ccontr)
    assume "\<not> aligned ofc"
    then have "arm_exec jump_save ?s = None" using \<open>arm_fits ?f\<close>
      by (simp add: jump_save_def arm_exec1_def store_pair_def sp_addr) (simp add: arm_addr_def)
    with u(1) show False by simp
  qed
  have "a_x u 1 = nfc" using exec_save [of ?s ?f] \<open>arm_fits ?f\<close> o u(1) by auto
  then have "arm_fits nfc"
    using u(2) by (auto simp: jump_load_def arm_exec1_def arm_addr_def arm_fits_def split: if_splits)
  with sp o show ?thesis by simp
qed

lemma arm_make_spec:
  "\<exists>t. arm_make finish stk fn s = Some (t, (stk AND NOT 0xF) - 0xb0) \<and> a_sp t = a_sp s \<and>
     a_mem t = (a_mem s)((stk AND NOT 0xF) - 0xb0 + 0xa0 := fn, (stk AND NOT 0xF) - 0xb0 + 0x98 := finish)"
proof -
  let ?f = "(stk AND NOT 0xF) - 0xb0 :: u64"
  have "aligned ?f" by (rule fits_aligned [OF fits_minus [OF fits_mask]])
  then have "aligned (?f + 0xa0)" and "aligned (?f + 0x98)"
    by (rule aligned_plus; simp)+
  then show ?thesis by (simp add: arm_make_def make_code_def arm_exec1_def arm_addr_def)
qed

lemma arm_stored_cong: "(\<And>a. a \<in> arm_area f \<Longrightarrow> m a = m' a) \<Longrightarrow> arm_stored m f = arm_stored m' f"
  by (simp add: arm_stored_def arm_area_def)

lemma arm_jumpE:
  assumes "arm_jump ofc nfc vp s = Some t"
  shows "arm_fits (a_sp s)" and "a_mem t = (arm_record s (a_sp s - 0xb0))(ofc := a_sp s - 0xb0)"
    and "arm_now t = arm_stored (a_mem t) nfc" and "a_x t 0 = vp" and "arm_fits (a_sp t)"
  using arm_jump_ready [OF assms] arm_jump_spec [of s nfc ofc vp] assms by auto

interpretation arm_switch: context_switch "arm_ops finish" for finish
proof unfold_locales
  fix ofc nfc vp a f stk fn s t m m' v
  note defs = arm_ops_def
  show "sw_ready (arm_ops finish) s \<Longrightarrow> sw_fits (arm_ops finish) nfc \<Longrightarrow> aligned ofc \<Longrightarrow>
      \<exists>t. sw_jump (arm_ops finish) ofc nfc vp s = Some t"
    using arm_jump_spec [of s nfc ofc vp] by (auto simp: defs)
  show "sw_ready (arm_ops finish) s \<Longrightarrow> \<exists>t f. sw_make (arm_ops finish) stk fn s = Some (t, f)"
    using arm_make_spec [of finish stk fn s] by (auto simp: defs)
  show "sw_cell (arm_ops finish) (sw_store (arm_ops finish) a v s) = (sw_cell (arm_ops finish) s)(a := v)"
    "sw_ready (arm_ops finish) (sw_store (arm_ops finish) a v s) \<longleftrightarrow> sw_ready (arm_ops finish) s"
    by (simp_all add: defs)
  show "(\<And>a. a \<in> sw_area (arm_ops finish) f \<Longrightarrow> m a = m' a) \<Longrightarrow>
      sw_stored (arm_ops finish) m f = sw_stored (arm_ops finish) m' f"
    using arm_stored_cong [of f m m'] by (simp add: defs)
  {
    assume j: "sw_jump (arm_ops finish) ofc nfc vp s = Some t"
    then have j': "arm_jump ofc nfc vp s = Some t" by (simp add: defs)
    note e = arm_jumpE [OF j']
    show "ofc \<notin> sw_area (arm_ops finish) (sw_frame (arm_ops finish) s) \<Longrightarrow>
        sw_cell (arm_ops finish) t ofc = sw_frame (arm_ops finish) s"
      using e(2) by (simp add: defs)
    show "ofc \<notin> sw_area (arm_ops finish) (sw_frame (arm_ops finish) s) \<Longrightarrow>
        sw_stored (arm_ops finish) (sw_cell (arm_ops finish) t) (sw_frame (arm_ops finish) s) = sw_here (arm_ops finish) s \<and>
        sw_fits (arm_ops finish) (sw_frame (arm_ops finish) s)"
      using e(1,2) record_stored [of ofc "a_sp s - 0xb0" s] by (simp add: defs arm_here_def fits_minus)
    show "a \<notin> sw_area (arm_ops finish) (sw_frame (arm_ops finish) s) \<Longrightarrow> a \<noteq> ofc \<Longrightarrow>
        sw_cell (arm_ops finish) t a = sw_cell (arm_ops finish) s a"
      using e(2) area_offsets [of a "a_sp s - 0xb0" s] by (simp add: defs)
    show "sw_now (arm_ops finish) t = sw_stored (arm_ops finish) (sw_cell (arm_ops finish) t) nfc \<and>
        sw_result (arm_ops finish) t = vp \<and> sw_ready (arm_ops finish) t"
      using e(3-5) by (simp add: defs)
  }
  {
    assume "sw_make (arm_ops finish) stk fn s = Some (t, f)"
    with arm_make_spec [of finish stk fn s] have "f = (stk AND NOT 0xF) - 0xb0" "a_sp t = a_sp s"
      "a_mem t = (a_mem s)(f + 0xa0 := fn, f + 0x98 := finish)" by (auto simp: defs)
    then show "a \<notin> sw_area (arm_ops finish) f \<Longrightarrow> sw_cell (arm_ops finish) t a = sw_cell (arm_ops finish) s a"
      and "sw_fits (arm_ops finish) f \<and> (sw_ready (arm_ops finish) t \<longleftrightarrow> sw_ready (arm_ops finish) s)"
      using fits_minus [OF fits_mask, of stk] by (auto simp: defs arm_area_def)
  }
qed

section \<open>Properties\<close>

text \<open>
  C9: On 64-bit ARM the switches of fibers are coroutines: whatever a thread has done so far, making
  fibers, switching and running code that stays on its stack, the next \<open>SwapIn\<close> or \<open>SwapOut\<close>
  does not fault, continues exactly at the point at which the target was suspended, with its
  preserved registers and its stack pointer, brings the argument over, and leaves every other
  suspended fiber as it was.
\<close>

theorem arm_coroutines:
  assumes "co_layout tls ctx" and "co_run (arm_ops finish) tls ctx vp c m"
    and "co_room (arm_ops finish) tls ctx c m (a_sp m - 0xb0)"
  shows "(\<forall>i c' q. co_in i (arm_here m) c = Some (c', q) \<longrightarrow>
      (\<exists>t. SwapIn (arm_ops finish) tls vp i m = Some t \<and> arm_now t = q \<and> a_x t 0 = vp i \<and>
         co_rep (arm_ops finish) tls ctx c' t)) \<and>
    (\<forall>i c' q. co_cur c = Some i \<longrightarrow> co_out (arm_here m) c = Some (c', q) \<longrightarrow>
      (\<exists>t. SwapOut (arm_ops finish) tls vp i m = Some t \<and> arm_now t = q \<and> a_x t 0 = vp i \<and>
         co_rep (arm_ops finish) tls ctx c' t))"
  using arm_switch.run_swap_in [OF assms(1,2)] arm_switch.run_swap_out [OF assms(1,2)] assms(3)
  by (fastforce simp: arm_ops_def)

text \<open>
  The first switch to a fiber enters its function with the argument, on the stack of the fiber
  below its aligned end, and with \<open>finish\<close> as the return address.
\<close>

theorem arm_fiber_entry:
  assumes "Fiber_context (arm_ops finish) i stk fn s = Some s1"
    and "a_mem s2 i = a_mem s1 i" and "\<And>a. a \<in> arm_area (a_mem s1 i) \<Longrightarrow> a_mem s2 a = a_mem s1 a"
    and "i \<notin> arm_area (a_mem s1 i)" and "tls \<notin> arm_area (a_mem s1 i)"
    and "arm_area (a_sp s2 - 0xb0) \<inter> arm_area (a_mem s1 i) = {}"
    and "SwapIn (arm_ops finish) tls vp i s2 = Some t"
  shows "a_pc t = fn \<and> a_x t 0 = vp i \<and> a_x t 30 = finish \<and> a_sp t = (stk AND NOT 0xF)"
proof -
  let ?f = "(stk AND NOT 0xF) - 0xb0 :: u64"
  obtain u where u: "a_mem u = (a_mem s)(?f + 0xa0 := fn, ?f + 0x98 := finish)" "arm_make finish stk fn s = Some (u, ?f)"
    using arm_make_spec [of finish stk fn s] by blast
  have s1: "s1 = u\<lparr>a_mem := (a_mem u)(i := ?f)\<rparr>" using assms(1) u(2) by (simp add: Fiber_context_def arm_ops_def)
  then have f: "a_mem s1 i = ?f" by simp
  have j: "arm_jump tls ?f (vp i) s2 = Some t" using assms(2,7) f by (simp add: SwapIn_def arm_ops_def)
  have same: "a_mem t a = a_mem u a" if "a \<in> arm_area ?f" for a
  proof -
    have "a \<notin> arm_area (a_sp s2 - 0xb0)" "a \<noteq> tls" "a \<noteq> i" using that assms(4,5,6) f by auto
    then show ?thesis using arm_jumpE(2) [OF j] area_offsets [of a "a_sp s2 - 0xb0" s2] assms(3) that f
      by (simp add: s1)
  qed
  have in_area: "?f + 0x98 \<in> arm_area ?f" "?f + 0xa0 \<in> arm_area ?f" by (simp_all add: arm_area_def del: diff_add_eq)
  have "a_mem t (?f + 0x98) = finish" "a_mem t (?f + 0xa0) = fn"
    using same [OF in_area(1)] same [OF in_area(2)] u(1) by auto
  moreover have "arm_now t = arm_stored (a_mem t) ?f" "a_x t 0 = vp i" using arm_jumpE(3,4) [OF j] by auto
  ultimately show ?thesis by (simp add: arm_now_def arm_kept_def arm_stored_def)
qed

lemma record_inside:
  assumes "191 \<le> len" and "unat stack + len < 2 ^ 64" and "stk = stack + of_nat len"
    and "a \<in> arm_area ((stk AND NOT 0xF) - 0xb0)"
  shows "unat stack \<le> unat a \<and> unat a + 8 \<le> unat stack + len"
proof (rule cell_inside [OF assms(2,3), where n = "0xb0"])
  show "\<exists>off. a = (stk AND NOT 0xF) - 0xb0 + off \<and> unat off + 8 \<le> unat (0xb0 :: u64)"
    using assms(4) by (auto simp: arm_area_def)
qed (use assms(1) in simp)

text \<open>
  C37: The record of a new fiber lies inside its block when the block has at least 191 bytes (\<open>createFiber\<close>
  gives 16384), and nothing but the record and \<open>m_ctx\<close> is written.
\<close>

theorem arm_context_in_block:
  assumes "191 \<le> len" and "unat stack + len < 2 ^ 64"
    and "Fiber_context (arm_ops finish) i (stack + of_nat len) fn s = Some t"
  shows "(\<forall>a \<in> arm_area (a_mem t i). unat stack \<le> unat a \<and> unat a + 8 \<le> unat stack + len) \<and>
    (\<forall>a. a \<in> insert i (arm_area (a_mem t i)) \<or> a_mem t a = a_mem s a)"
proof -
  let ?f = "((stack + of_nat len) AND NOT 0xF) - 0xb0 :: u64"
  obtain u where u: "a_mem u = (a_mem s)(?f + 0xa0 := fn, ?f + 0x98 := finish)"
    "arm_make finish (stack + of_nat len) fn s = Some (u, ?f)"
    using arm_make_spec [of finish "stack + of_nat len" fn s] by blast
  have t: "t = u\<lparr>a_mem := (a_mem u)(i := ?f)\<rparr>" using assms(3) u(2) by (simp add: Fiber_context_def arm_ops_def)
  have "a_mem t a = a_mem s a" if "a \<noteq> i" "a \<notin> arm_area ?f" for a
    using that by (simp add: t u(1) arm_area_def)
  then show ?thesis using record_inside [OF assms(1,2) refl] t by auto
qed

section \<open>A thread with one fiber\<close>

definition demo_arm :: arm where
  "demo_arm = \<lparr>a_x = (\<lambda>r. of_nat r), a_d = (\<lambda>r. of_nat r), a_sp = 0x10000, a_pc = 0, a_mem = (\<lambda>_. 0)\<rparr>"

definition demo_co :: "arm_point coros" where
  "demo_co = \<lparr>co_cur = None, co_main = ([], [], 0, 0), co_pts = (\<lambda>_. None)\<rparr>"

lemma demo_layout: "co_layout 0x100 {0x200}"
  by (simp add: co_layout_def aligned_def)

definition demo_made :: arm where
  "demo_made = demo_arm\<lparr>a_x := (a_x demo_arm)(2 := 0x4000, 0 := 0x7f50, 1 := 0x9000), a_pc := 30,
     a_mem := (a_mem demo_arm)(0x7ff0 := 0x4000, 0x7fe8 := 0x9000, 0x200 := 0x7f50)\<rparr>"

lemma demo_make: "Fiber_context (arm_ops 0x9000) 0x200 0x8000 0x4000 demo_arm = Some demo_made"
  by (simp add: Fiber_context_def arm_ops_def arm_make_def make_code_def arm_exec1_def arm_addr_def
      aligned_def demo_arm_def demo_made_def)

lemma demo_cells [simp]: "a_mem demo_made 0x200 = 0x7f50" "a_sp demo_made = 0x10000" "a_sp demo_arm = 0x10000"
  by (simp_all add: demo_made_def demo_arm_def)

definition demo_co1 :: "arm_point coros" where
  "demo_co1 = demo_co\<lparr>co_pts := (\<lambda>_. None)(0x200 := Some (arm_stored (a_mem demo_made) 0x7f50))\<rparr>"

lemma demo_run: "co_run (arm_ops 0x9000) 0x100 {0x200} vp demo_co1 demo_made"
proof (rule co_run.make)
  show "co_run (arm_ops 0x9000) 0x100 {0x200} vp demo_co demo_arm"
    unfolding demo_co_def by (rule co_run.start) (simp add: arm_ops_def arm_fits_def)
  show "Fiber_context (arm_ops 0x9000) 0x200 0x8000 0x4000 demo_arm = Some demo_made" by (rule demo_make)
  show "co_room (arm_ops 0x9000) 0x100 {0x200} demo_co demo_arm (sw_cell (arm_ops 0x9000) demo_made 0x200)"
    by (simp add: co_room_def co_live_def controls_def demo_co_def arm_ops_def arm_area_def)
qed (simp_all add: demo_co_def demo_co1_def co_new_def arm_ops_def)

lemma demo_room: "co_room (arm_ops 0x9000) 0x100 {0x200} demo_co1 demo_made (a_sp demo_made - 0xb0)"
  by (simp add: co_room_def co_live_def controls_def demo_co1_def demo_co_def arm_ops_def arm_area_def)

lemma arm_coroutines_witness:
  "\<exists>t. SwapIn (arm_ops 0x9000) 0x100 (\<lambda>_. 7) 0x200 demo_made = Some t \<and>
     arm_now t = arm_stored (a_mem demo_made) 0x7f50 \<and> a_x t 0 = 7"
proof -
  have "\<exists>c'. co_in 0x200 (arm_here demo_made) demo_co1 = Some (c', arm_stored (a_mem demo_made) 0x7f50)"
    by (simp add: co_in_def demo_co1_def demo_co_def)
  with arm_coroutines [OF demo_layout demo_run demo_room, of "\<lambda>_. 7"] show ?thesis by blast
qed

lemma arm_fiber_entry_witness:
  "\<exists>t. SwapIn (arm_ops 0x9000) 0x100 (\<lambda>_. 7) 0x200 demo_made = Some t \<and>
     a_pc t = 0x4000 \<and> a_x t 0 = 7 \<and> a_x t 30 = 0x9000 \<and> a_sp t = 0x8000"
proof -
  have "\<exists>t. SwapIn (arm_ops 0x9000) 0x100 (\<lambda>_. 7) 0x200 demo_made = Some t"
    using arm_jump_spec [of demo_made "0x7f50" "0x100" 7]
    by (auto simp: SwapIn_def arm_ops_def arm_fits_def aligned_def)
  then obtain t where t: "SwapIn (arm_ops 0x9000) 0x100 (\<lambda>_. 7) 0x200 demo_made = Some t" by blast
  have "a_pc t = 0x4000 \<and> a_x t 0 = 7 \<and> a_x t 30 = 0x9000 \<and> a_sp t = (0x8000 AND NOT 0xF)"
    by (rule arm_fiber_entry [OF demo_make refl refl _ _ _ t]) (simp_all add: arm_area_def)
  with t show ?thesis by simp
qed

lemma arm_context_in_block_witness:
  "\<exists>t. Fiber_context (arm_ops 0x9000) 0x200 (0x4000 + of_nat 16384) 0x4000 demo_arm = Some t \<and>
     (\<forall>a \<in> arm_area (a_mem t 0x200). 0x4000 \<le> unat a \<and> unat a + 8 \<le> 0x8000)"
proof -
  have t: "Fiber_context (arm_ops 0x9000) 0x200 (0x4000 + of_nat 16384) 0x4000 demo_arm = Some demo_made"
    using demo_make by simp
  from arm_context_in_block [OF _ _ this] show ?thesis using t by simp
qed

end
