(* ===== verification/X86.thy ===== *)
theory X86
  imports Coroutine
begin

unbundle bit_operations_syntax

text \<open>
  \<open>jump_x86_64_sysv_elf_gas.S\<close> and \<open>make_x86_64_sysv_elf_gas.S\<close> of the copy of Boost, which the build
  takes on x86-64 (\<open>src/doc\<close> has them with notes of the authors of this library), instruction by
  instruction, and their contract as a context switch.
\<close>

section \<open>The machine\<close>

datatype xreg = RAX | RBX | RCX | RDX | RSI | RDI | RBP | RSP | R8 | R12 | R13 | R14 | R15

record x86 =
  x_reg :: "xreg \<Rightarrow> u64"
  x_mxcsr :: u32
  x_fcw :: "16 word"
  x_zf :: bool
  x_pc :: u64
  x_mem :: "u64 \<Rightarrow> u64"

text \<open>
  The instructions of the two files. \<open>LeaX d b r\<close> is \<open>leaq d(b), r\<close>, \<open>StoreX r d b\<close> is
  \<open>movq r, d(b)\<close>; the four that move control words are \<open>stmxcsr (b)\<close>, \<open>fnstcw 4(b)\<close>, \<open>ldmxcsr (b)\<close>
  and \<open>fldcw 4(b)\<close>; \<open>JeX n\<close> jumps over \<open>n\<close> instructions.
\<close>

datatype xinstr =
    PushX xreg | PopX xreg | LeaX u64 xreg xreg | LeaLabel u64 xreg
  | CmpZero xreg | JeX nat
  | StMxcsr xreg | FnStcw xreg | LdMxcsr xreg | FldCw xreg
  | StoreX xreg u64 xreg | MovRR xreg xreg | AndImm u64 xreg | JmpReg xreg | RetI

definition x_load :: "u64 \<Rightarrow> x86 \<Rightarrow> u64 option" where
  "x_load a s = (if aligned a then Some (x_mem s a) else None)"

definition x_store :: "u64 \<Rightarrow> u64 \<Rightarrow> x86 \<Rightarrow> x86 option" where
  "x_store a v s = (if aligned a then Some (s\<lparr>x_mem := (x_mem s)(a := v)\<rparr>) else None)"

text \<open>The control words are the low half of a cell and the 16 bits above it.\<close>

definition put_mxcsr :: "u32 \<Rightarrow> u64 \<Rightarrow> u64" where
  "put_mxcsr m c = (c AND NOT 0xFFFFFFFF) OR ucast m"

definition put_fcw :: "16 word \<Rightarrow> u64 \<Rightarrow> u64" where
  "put_fcw w c = (c AND NOT 0xFFFF00000000) OR push_bit 32 (ucast w)"

definition x_exec1 :: "xinstr \<Rightarrow> x86 \<Rightarrow> x86 option" where
  "x_exec1 i s = (let g = x_reg s in case i of
     PushX r \<Rightarrow> (case x_store (g RSP - 8) (g r) s of
       None \<Rightarrow> None
     | Some t \<Rightarrow> Some (t\<lparr>x_reg := g(RSP := g RSP - 8)\<rparr>))
   | PopX r \<Rightarrow> (case x_load (g RSP) s of
       None \<Rightarrow> None
     | Some v \<Rightarrow> Some (s\<lparr>x_reg := g(RSP := g RSP + 8, r := v)\<rparr>))
   | LeaX d b r \<Rightarrow> Some (s\<lparr>x_reg := g(r := g b + d)\<rparr>)
   | LeaLabel a r \<Rightarrow> Some (s\<lparr>x_reg := g(r := a)\<rparr>)
   | CmpZero r \<Rightarrow> Some (s\<lparr>x_zf := (g r = 0)\<rparr>)
   | JeX n \<Rightarrow> Some s
   | StMxcsr b \<Rightarrow> (case x_load (g b) s of
       None \<Rightarrow> None
     | Some c \<Rightarrow> x_store (g b) (put_mxcsr (x_mxcsr s) c) s)
   | FnStcw b \<Rightarrow> (case x_load (g b) s of
       None \<Rightarrow> None
     | Some c \<Rightarrow> x_store (g b) (put_fcw (x_fcw s) c) s)
   | LdMxcsr b \<Rightarrow> (case x_load (g b) s of
       None \<Rightarrow> None
     | Some c \<Rightarrow> Some (s\<lparr>x_mxcsr := ucast c\<rparr>))
   | FldCw b \<Rightarrow> (case x_load (g b) s of
       None \<Rightarrow> None
     | Some c \<Rightarrow> Some (s\<lparr>x_fcw := ucast (drop_bit 32 c)\<rparr>))
   | StoreX r d b \<Rightarrow> x_store (g b + d) (g r) s
   | MovRR r q \<Rightarrow> Some (s\<lparr>x_reg := g(q := g r)\<rparr>)
   | AndImm v r \<Rightarrow> Some (s\<lparr>x_reg := g(r := g r AND v)\<rparr>)
   | JmpReg r \<Rightarrow> Some (s\<lparr>x_pc := g r\<rparr>)
   | RetI \<Rightarrow> (case x_load (g RSP) s of
       None \<Rightarrow> None
     | Some v \<Rightarrow> Some (s\<lparr>x_pc := v, x_reg := g(RSP := g RSP + 8)\<rparr>)))"

function x_exec :: "xinstr list \<Rightarrow> x86 \<Rightarrow> x86 option" where
  "x_exec [] s = Some s"
| "x_exec (i # is) s = (case x_exec1 i s of
     None \<Rightarrow> None
   | Some t \<Rightarrow> (case i of
       JeX n \<Rightarrow> x_exec (if x_zf t then drop n is else is) t
     | _ \<Rightarrow> x_exec is t))"
  by pat_completeness auto
termination by (relation "measure (\<lambda>(is, s). length is)") auto

section \<open>The code\<close>

definition x_jump_save :: "xinstr list" where
  "x_jump_save =
     [PushX RBP, PushX RBX, PushX R15, PushX R14, PushX R13, PushX R12,
      LeaX (- 8) RSP RSP,
      CmpZero RCX, JeX 2, StMxcsr RSP, FnStcw RSP,
      StoreX RSP 0 RDI]"

definition x_jump_load :: "xinstr list" where
  "x_jump_load =
     [MovRR RSI RSP,
      CmpZero RCX, JeX 2, LdMxcsr RSP, FldCw RSP,
      LeaX 8 RSP RSP,
      PopX R12, PopX R13, PopX R14, PopX R15, PopX RBX, PopX RBP,
      PopX R8,
      MovRR RDX RAX, MovRR RDX RDI,
      JmpReg R8]"

definition x_make_code :: "u64 \<Rightarrow> xinstr list" where
  "x_make_code finish =
     [MovRR RDI RAX, AndImm (- 16) RAX, LeaX (- 0x48) RAX RAX, StoreX RDX 0x38 RAX,
      StMxcsr RAX, FnStcw RAX, LeaLabel finish RCX, StoreX RCX 0x40 RAX, RetI]"

text \<open>
  The calls, with the arguments in registers and the return address on top of the stack. The
  fibers leave \<open>preserve_fpu\<close> at its default, false.
\<close>

definition x_jump :: "bool \<Rightarrow> u64 \<Rightarrow> u64 \<Rightarrow> u64 \<Rightarrow> x86 \<Rightarrow> x86 option" where
  "x_jump fpu ofc nfc vp s =
     x_exec (x_jump_save @ x_jump_load) (s\<lparr>x_reg := (x_reg s)(RDI := ofc, RSI := nfc, RDX := vp, RCX := of_bool fpu)\<rparr>)"

definition x_make :: "u64 \<Rightarrow> u64 \<Rightarrow> u64 \<Rightarrow> x86 \<Rightarrow> (x86 \<times> u64) option" where
  "x_make finish stk fn s =
     (case x_exec (x_make_code finish) (s\<lparr>x_reg := (x_reg s)(RDI := stk, RDX := fn)\<rparr>) of
        None \<Rightarrow> None
      | Some t \<Rightarrow> Some (t, x_reg t RAX))"

section \<open>Points and records\<close>

type_synonym x86_point = "u64 list \<times> u64 \<times> u64"

definition x_kept :: "x86 \<Rightarrow> u64 list" where
  "x_kept s = map (x_reg s) [R12, R13, R14, R15, RBX, RBP]"

definition x_here :: "x86 \<Rightarrow> x86_point" where
  "x_here s = (x_kept s, x_reg s RSP + 8, x_mem s (x_reg s RSP))"

definition x_now :: "x86 \<Rightarrow> x86_point" where
  "x_now s = (x_kept s, x_reg s RSP, x_pc s)"

definition x_area :: "u64 \<Rightarrow> u64 set" where
  "x_area f = set (map ((+) f) [0x00, 0x08, 0x10, 0x18, 0x20, 0x28, 0x30, 0x38, 0x40])"

definition x_stored :: "(u64 \<Rightarrow> u64) \<Rightarrow> u64 \<Rightarrow> x86_point" where
  "x_stored m f = (map (\<lambda>off. m (f + off)) [0x08, 0x10, 0x18, 0x20, 0x28, 0x30], f + 0x40, m (f + 0x38))"

definition x_ops :: "u64 \<Rightarrow> (x86, x86_point) switch_ops" where
  "x_ops finish = \<lparr>sw_jump = x_jump False, sw_make = x_make finish, sw_cell = x_mem,
     sw_store = (\<lambda>a v s. s\<lparr>x_mem := (x_mem s)(a := v)\<rparr>), sw_here = x_here, sw_now = x_now,
     sw_result = (\<lambda>s. x_reg s RAX), sw_frame = (\<lambda>s. x_reg s RSP - 0x38), sw_area = x_area,
     sw_stored = x_stored, sw_ready = (\<lambda>s. aligned (x_reg s RSP)), sw_fits = aligned\<rparr>"

section \<open>What the code does\<close>

definition x_record :: "x86 \<Rightarrow> u64 \<Rightarrow> u64 \<Rightarrow> u64" where
  "x_record s f = (x_mem s)
     (f + 0x30 := x_reg s RBP, f + 0x28 := x_reg s RBX, f + 0x20 := x_reg s R15, f + 0x18 := x_reg s R14,
      f + 0x10 := x_reg s R13, f + 0x08 := x_reg s R12)"

lemma aligned_num: "aligned f \<Longrightarrow> take_bit 3 (numeral w :: u64) = 0 \<Longrightarrow> aligned (f + numeral w)"
  by (rule aligned_plus)

text \<open>One instruction at the head of the code.\<close>

lemma x_steps:
  "aligned (x_reg s RSP - 8) \<Longrightarrow> x_exec (PushX r # is) s =
     x_exec is (s\<lparr>x_mem := (x_mem s)(x_reg s RSP - 8 := x_reg s r), x_reg := (x_reg s)(RSP := x_reg s RSP - 8)\<rparr>)"
  "aligned (x_reg s RSP) \<Longrightarrow> x_exec (PopX r # is) s =
     x_exec is (s\<lparr>x_reg := (x_reg s)(RSP := x_reg s RSP + 8, r := x_mem s (x_reg s RSP))\<rparr>)"
  "x_exec (LeaX d b r # is) s = x_exec is (s\<lparr>x_reg := (x_reg s)(r := x_reg s b + d)\<rparr>)"
  "x_exec (LeaLabel a r # is) s = x_exec is (s\<lparr>x_reg := (x_reg s)(r := a)\<rparr>)"
  "x_exec (CmpZero r # is) s = x_exec is (s\<lparr>x_zf := (x_reg s r = 0)\<rparr>)"
  "x_exec (JeX n # is) s = x_exec (if x_zf s then drop n is else is) s"
  "aligned (x_reg s b + d) \<Longrightarrow> x_exec (StoreX r d b # is) s =
     x_exec is (s\<lparr>x_mem := (x_mem s)(x_reg s b + d := x_reg s r)\<rparr>)"
  "aligned (x_reg s b) \<Longrightarrow> x_exec (StMxcsr b # is) s =
     x_exec is (s\<lparr>x_mem := (x_mem s)(x_reg s b := put_mxcsr (x_mxcsr s) (x_mem s (x_reg s b)))\<rparr>)"
  "aligned (x_reg s b) \<Longrightarrow> x_exec (FnStcw b # is) s =
     x_exec is (s\<lparr>x_mem := (x_mem s)(x_reg s b := put_fcw (x_fcw s) (x_mem s (x_reg s b)))\<rparr>)"
  "x_exec (MovRR r q # is) s = x_exec is (s\<lparr>x_reg := (x_reg s)(q := x_reg s r)\<rparr>)"
  "x_exec (AndImm v r # is) s = x_exec is (s\<lparr>x_reg := (x_reg s)(r := x_reg s r AND v)\<rparr>)"
  "x_exec (JmpReg r # is) s = x_exec is (s\<lparr>x_pc := x_reg s r\<rparr>)"
  "aligned (x_reg s RSP) \<Longrightarrow> x_exec (RetI # is) s =
     x_exec is (s\<lparr>x_pc := x_mem s (x_reg s RSP), x_reg := (x_reg s)(RSP := x_reg s RSP + 8)\<rparr>)"
  by (simp_all add: x_exec1_def x_store_def x_load_def Let_def)

lemma x_faults:
  "\<not> aligned (x_reg s RSP - 8) \<Longrightarrow> x_exec (PushX r # is) s = None"
  "\<not> aligned (x_reg s RSP) \<Longrightarrow> x_exec (PopX r # is) s = None"
  "\<not> aligned (x_reg s b + d) \<Longrightarrow> x_exec (StoreX r d b # is) s = None"
  "\<not> aligned (x_reg s RSP) \<Longrightarrow> x_exec (RetI # is) s = None"
  by (simp_all add: x_exec1_def x_store_def x_load_def Let_def)

declare x_exec.simps(2) [simp del]

lemma exec_x_save:
  assumes "x_reg s RSP = f + 0x38" and "x_reg s RCX = 0" and "aligned f" and "aligned (x_reg s RDI)"
  shows "x_exec (x_jump_save @ rest) s =
    x_exec rest (s\<lparr>x_reg := (x_reg s)(RSP := f), x_zf := True, x_mem := (x_record s f)(x_reg s RDI := f)\<rparr>)"
  using assms
  by (simp add: x_jump_save_def x_steps aligned_num x_record_def add.commute [of "numeral _" f])

lemma exec_x_load:
  assumes "x_reg s RSI = f" and "x_reg s RCX = 0" and "aligned f"
  shows "\<exists>t. x_exec x_jump_load s = Some t \<and> x_mem t = x_mem s \<and> x_now t = x_stored (x_mem s) f \<and>
    x_reg t RAX = x_reg s RDX \<and> x_reg t RDI = x_reg s RDX \<and> x_reg t RSP = f + 0x40"
  using assms
  by (simp add: x_jump_load_def x_steps aligned_num x_now_def x_kept_def x_stored_def add.commute [of "numeral _" f])

lemma x_jump_spec:
  assumes "aligned (x_reg s RSP)" and "aligned nfc" and "aligned ofc"
  shows "\<exists>t. x_jump False ofc nfc vp s = Some t \<and> x_mem t = (x_record s (x_reg s RSP - 0x38))(ofc := x_reg s RSP - 0x38) \<and>
    x_now t = x_stored (x_mem t) nfc \<and> x_reg t RAX = vp \<and> x_reg t RDI = vp \<and> x_reg t RSP = nfc + 0x40"
proof -
  let ?f = "x_reg s RSP - 0x38"
  let ?s = "s\<lparr>x_reg := (x_reg s)(RDI := ofc, RSI := nfc, RDX := vp, RCX := of_bool False)\<rparr>"
  let ?u = "?s\<lparr>x_reg := (x_reg ?s)(RSP := ?f), x_zf := True, x_mem := (x_record ?s ?f)(ofc := ?f)\<rparr>"
  have f: "aligned ?f" using assms(1) take_bit_diff0 [of 3 "x_reg s RSP" "0x38"] by (simp add: aligned_def)
  have u: "x_exec (x_jump_save @ x_jump_load) ?s = x_exec x_jump_load ?u"
    by (subst exec_x_save [where f = ?f]) (use f assms(3) in simp_all)
  obtain t where t: "x_exec x_jump_load ?u = Some t" "x_mem t = x_mem ?u" "x_now t = x_stored (x_mem ?u) nfc"
    "x_reg t RAX = vp" "x_reg t RDI = vp" "x_reg t RSP = nfc + 0x40"
    using exec_x_load [of ?u nfc] assms(2) by auto
  have "x_record ?s ?f = x_record s ?f" by (simp add: x_record_def)
  with u t show ?thesis by (simp add: x_jump_def)
qed

text \<open>A misaligned stack pointer, record or pointer is outside the model.\<close>

lemma x_jump_ready:
  assumes "x_jump False ofc nfc vp s = Some t"
  shows "aligned (x_reg s RSP) \<and> aligned nfc \<and> aligned ofc"
proof -
  let ?f = "x_reg s RSP - 0x38"
  let ?s = "s\<lparr>x_reg := (x_reg s)(RDI := ofc, RSI := nfc, RDX := vp, RCX := of_bool False)\<rparr>"
  have run: "x_exec (x_jump_save @ x_jump_load) ?s = Some t" using assms by (simp add: x_jump_def)
  have "aligned (x_reg s RSP - 8)"
    using run by (cases "aligned (x_reg s RSP - 8)") (simp_all add: x_jump_save_def x_faults)
  then have sp: "aligned (x_reg s RSP)" using aligned_num [of "x_reg s RSP - 8" "num.Bit0 (num.Bit0 (num.Bit0 num.One))"] by simp
  then have f: "aligned ?f" using take_bit_diff0 [of 3 "x_reg s RSP" "0x38"] by (simp add: aligned_def)
  have stuck: "x_exec (x_jump_save @ rest) u = None"
    if "\<not> aligned (x_reg u RDI)" "x_reg u RSP = g + 0x38" "aligned g" "x_reg u RCX = 0" for u g rest
    using that by (simp add: x_jump_save_def x_steps x_faults aligned_num add.commute [of "numeral _" g])
  have o: "aligned ofc" using stuck [of ?s ?f x_jump_load] f run by fastforce
  let ?u = "?s\<lparr>x_reg := (x_reg ?s)(RSP := ?f), x_zf := True, x_mem := (x_record ?s ?f)(ofc := ?f)\<rparr>"
  have "x_exec x_jump_load ?u = Some t"
    using run by (subst (asm) exec_x_save [where f = ?f]) (use f o in simp_all)
  then have "aligned (nfc + 8)"
    by (cases "aligned (nfc + 8)") (simp_all add: x_jump_load_def x_steps x_faults)
  then have "aligned nfc" using take_bit_diff0 [of 3 "nfc + 8" 8] by (simp add: aligned_def)
  with sp o show ?thesis by simp
qed

lemma x_jumpE:
  assumes "x_jump False ofc nfc vp s = Some t"
  shows "aligned (x_reg s RSP - 0x38)" and "x_mem t = (x_record s (x_reg s RSP - 0x38))(ofc := x_reg s RSP - 0x38)"
    and "x_now t = x_stored (x_mem t) nfc" and "x_reg t RAX = vp" and "x_reg t RDI = vp" and "aligned (x_reg t RSP)"
    and "x_reg t RSP = nfc + 0x40"
  using x_jump_ready [OF assms] x_jump_spec [of s nfc ofc vp] assms aligned_num [of nfc]
    take_bit_diff0 [of 3 "x_reg s RSP" "0x38"] by (auto simp: aligned_def)

lemma x_record_other: "a \<notin> x_area f \<Longrightarrow> x_record s f a = x_mem s a"
  by (simp add: x_area_def x_record_def)

lemma x_record_at:
  "x_record s f (f + 0x08) = x_reg s R12" "x_record s f (f + 0x10) = x_reg s R13"
  "x_record s f (f + 0x18) = x_reg s R14" "x_record s f (f + 0x20) = x_reg s R15"
  "x_record s f (f + 0x28) = x_reg s RBX" "x_record s f (f + 0x30) = x_reg s RBP"
  "x_record s f (f + 0x38) = x_mem s (f + 0x38)"
  by (simp_all add: x_record_def)

lemma x_area_other:
  assumes "a \<notin> x_area f" and "off \<in> {0x08, 0x10, 0x18, 0x20, 0x28, 0x30, 0x38}"
  shows "((m :: u64 \<Rightarrow> u64)(a := v)) (f + off) = m (f + off)"
  using assms by (auto simp: x_area_def)

lemma x_record_stored:
  assumes "a \<notin> x_area f" and "x_reg s RSP = f + 0x38"
  shows "x_stored ((x_record s f)(a := v)) f = x_here s"
  by (simp add: x_stored_def x_here_def x_kept_def x_area_other [OF assms(1)] x_record_at assms(2) del: fun_upd_apply)

definition x_fresh :: "u64 \<Rightarrow> u64 \<Rightarrow> x86 \<Rightarrow> u64 \<Rightarrow> u64 \<Rightarrow> u64" where
  "x_fresh finish fn s f = (x_mem s)(f + 0x38 := fn,
     f := put_fcw (x_fcw s) (put_mxcsr (x_mxcsr s) (x_mem s f)), f + 0x40 := finish)"

lemma mask16_minus: "(stk :: u64) AND - 16 = stk AND NOT 0xF"
  by simp

lemma aligned_fresh: "aligned ((stk AND - 16) - 0x48)"
proof -
  have m: "(- 16 :: u64) = NOT (mask 4)" by (simp add: mask_eq_exp_minus_1)
  have "take_bit 3 (stk AND - 16) = 0" unfolding m by (simp add: bit_eq_iff bit_simps)
  then show ?thesis using take_bit_diff0 [of 3 "stk AND - 16" "0x48"] by (simp add: aligned_def)
qed

lemma x_make_run:
  assumes "aligned f" and "(stk AND - 16) + (- 0x48) = f"
  shows "x_exec (x_make_code finish) (s\<lparr>x_reg := (x_reg s)(RDI := stk, RDX := fn)\<rparr>) =
    (if aligned (x_reg s RSP)
     then Some (s\<lparr>x_reg := (x_reg s)(RDI := stk, RDX := fn, RAX := f, RCX := finish, RSP := x_reg s RSP + 8),
       x_pc := x_fresh finish fn s f (x_reg s RSP), x_mem := x_fresh finish fn s f\<rparr>)
     else None)"
  using assms by (simp add: x_make_code_def x_steps x_faults aligned_num x_fresh_def)

lemma x_makeE:
  assumes "x_make finish stk fn s = Some (t, f)"
  shows "f = (stk AND - 16) - 0x48" and "aligned f" and "aligned (x_reg s RSP)"
    and "x_reg t RSP = x_reg s RSP + 8" and "x_mem t = x_fresh finish fn s f"
  using assms x_make_run [where stk = stk and f = "(stk AND - 16) - 0x48" and s = s and fn = fn and finish = finish]
    aligned_fresh [of stk]
  by (auto simp: x_make_def split: if_splits)

lemma x_make_runs: "aligned (x_reg s RSP) \<Longrightarrow> \<exists>t. x_make finish stk fn s = Some (t, (stk AND - 16) - 0x48)"
  using x_make_run [where stk = stk and f = "(stk AND - 16) - 0x48" and s = s and fn = fn and finish = finish]
    aligned_fresh [of stk] by (simp add: x_make_def)

lemma x_stored_cong: "(\<And>a. a \<in> x_area f \<Longrightarrow> m a = m' a) \<Longrightarrow> x_stored m f = x_stored m' f"
  by (simp add: x_stored_def x_area_def)

lemma x_fresh_other: "a \<notin> x_area f \<Longrightarrow> x_fresh finish fn s f a = x_mem s a"
  by (simp add: x_area_def x_fresh_def)

interpretation x86_switch: context_switch "x_ops finish" for finish
proof unfold_locales
  fix ofc nfc vp a f stk fn s t m m' v
  note defs = x_ops_def
  show "sw_ready (x_ops finish) s \<Longrightarrow> sw_fits (x_ops finish) nfc \<Longrightarrow> aligned ofc \<Longrightarrow>
      \<exists>t. sw_jump (x_ops finish) ofc nfc vp s = Some t"
    using x_jump_spec [of s nfc ofc vp] by (auto simp: defs)
  show "sw_ready (x_ops finish) s \<Longrightarrow> \<exists>t f. sw_make (x_ops finish) stk fn s = Some (t, f)"
    using x_make_runs [of s finish stk fn] by (auto simp: defs)
  show "sw_cell (x_ops finish) (sw_store (x_ops finish) a v s) = (sw_cell (x_ops finish) s)(a := v)"
    "sw_ready (x_ops finish) (sw_store (x_ops finish) a v s) \<longleftrightarrow> sw_ready (x_ops finish) s"
    by (simp_all add: defs)
  show "(\<And>a. a \<in> sw_area (x_ops finish) f \<Longrightarrow> m a = m' a) \<Longrightarrow>
      sw_stored (x_ops finish) m f = sw_stored (x_ops finish) m' f"
    using x_stored_cong [of f m m'] by (simp add: defs)
  {
    assume "sw_jump (x_ops finish) ofc nfc vp s = Some t"
    then have j: "x_jump False ofc nfc vp s = Some t" by (simp add: defs)
    note e = x_jumpE [OF j]
    show "ofc \<notin> sw_area (x_ops finish) (sw_frame (x_ops finish) s) \<Longrightarrow>
        sw_cell (x_ops finish) t ofc = sw_frame (x_ops finish) s"
      using e(2) by (simp add: defs)
    show "ofc \<notin> sw_area (x_ops finish) (sw_frame (x_ops finish) s) \<Longrightarrow>
        sw_stored (x_ops finish) (sw_cell (x_ops finish) t) (sw_frame (x_ops finish) s) = sw_here (x_ops finish) s \<and>
        sw_fits (x_ops finish) (sw_frame (x_ops finish) s)"
      using e(1,2) x_record_stored [of ofc "x_reg s RSP - 0x38" s] by (simp add: defs)
    show "a \<notin> sw_area (x_ops finish) (sw_frame (x_ops finish) s) \<Longrightarrow> a \<noteq> ofc \<Longrightarrow>
        sw_cell (x_ops finish) t a = sw_cell (x_ops finish) s a"
      using e(2) x_record_other [of a "x_reg s RSP - 0x38" s] by (simp add: defs)
    show "sw_now (x_ops finish) t = sw_stored (x_ops finish) (sw_cell (x_ops finish) t) nfc \<and>
        sw_result (x_ops finish) t = vp \<and> sw_ready (x_ops finish) t"
      using e(3,4,6) by (simp add: defs)
  }
  {
    assume "sw_make (x_ops finish) stk fn s = Some (t, f)"
    then have "x_make finish stk fn s = Some (t, f)" by (simp add: defs)
    note e = x_makeE [OF this]
    show "a \<notin> sw_area (x_ops finish) f \<Longrightarrow> sw_cell (x_ops finish) t a = sw_cell (x_ops finish) s a"
      using e(5) x_fresh_other [of a f finish fn s] by (simp add: defs)
    show "sw_fits (x_ops finish) f \<and> (sw_ready (x_ops finish) t \<longleftrightarrow> sw_ready (x_ops finish) s)"
      using e(2-4) aligned_num [of "x_reg s RSP"] by (simp add: defs)
  }
qed

section \<open>Properties\<close>

text \<open>
  C8: On x86-64 as well the switches of fibers are coroutines: \<open>SwapIn\<close> and \<open>SwapOut\<close> do not fault,
  continue exactly where the target was suspended, with rbx, rbp, r12 to r15 and the stack
  pointer, bring the argument over, and leave every other suspended fiber as it was.
\<close>

theorem x86_coroutines:
  assumes "co_layout tls ctx" and "co_run (x_ops finish) tls ctx vp c m"
    and "co_room (x_ops finish) tls ctx c m (x_reg m RSP - 0x38)"
  shows "(\<forall>i c' q. co_in i (x_here m) c = Some (c', q) \<longrightarrow>
      (\<exists>t. SwapIn (x_ops finish) tls vp i m = Some t \<and> x_now t = q \<and> x_reg t RAX = vp i \<and>
         co_rep (x_ops finish) tls ctx c' t)) \<and>
    (\<forall>i c' q. co_cur c = Some i \<longrightarrow> co_out (x_here m) c = Some (c', q) \<longrightarrow>
      (\<exists>t. SwapOut (x_ops finish) tls vp i m = Some t \<and> x_now t = q \<and> x_reg t RAX = vp i \<and>
         co_rep (x_ops finish) tls ctx c' t))"
  using x86_switch.run_swap_in [OF assms(1,2)] x86_switch.run_swap_out [OF assms(1,2)] assms(3)
  by (fastforce simp: x_ops_def)

text \<open>
  The first switch to a fiber enters its function with the argument in rdi, on the stack of the
  fiber with the alignment that the calling convention asks for at an entry, and with \<open>finish\<close>
  as the return address on top.
\<close>

theorem x86_fiber_entry:
  assumes "Fiber_context (x_ops finish) i stk fn s = Some s1"
    and "x_mem s2 i = x_mem s1 i" and "\<And>a. a \<in> x_area (x_mem s1 i) \<Longrightarrow> x_mem s2 a = x_mem s1 a"
    and "i \<notin> x_area (x_mem s1 i)" and "tls \<notin> x_area (x_mem s1 i)"
    and "x_area (x_reg s2 RSP - 0x38) \<inter> x_area (x_mem s1 i) = {}"
    and "SwapIn (x_ops finish) tls vp i s2 = Some t"
  shows "x_pc t = fn \<and> x_reg t RDI = vp i \<and> x_reg t RSP = (stk AND NOT 0xF) - 8 \<and>
    x_mem t (x_reg t RSP) = finish"
proof -
  obtain u f where u: "x_make finish stk fn s = Some (u, f)" and s1: "s1 = u\<lparr>x_mem := (x_mem u)(i := f)\<rparr>"
    using assms(1) by (auto simp: Fiber_context_def x_ops_def split: option.splits)
  note e = x_makeE [OF u]
  have f: "x_mem s1 i = f" by (simp add: s1)
  have j: "x_jump False tls f (vp i) s2 = Some t" using assms(2,7) f by (simp add: SwapIn_def x_ops_def)
  note ej = x_jumpE [OF j]
  have same: "x_mem t a = x_mem u a" if "a \<in> x_area f" for a
  proof -
    have "a \<notin> x_area (x_reg s2 RSP - 0x38)" "a \<noteq> tls" "a \<noteq> i" using that assms(4,5,6) f by auto
    then show ?thesis using ej(2) x_record_other [of a "x_reg s2 RSP - 0x38" s2] assms(3) that f by (simp add: s1)
  qed
  have "f + 0x38 \<in> x_area f" "f + 0x40 \<in> x_area f" by (simp_all add: x_area_def)
  then have "x_mem t (f + 0x38) = fn" "x_mem t (f + 0x40) = finish"
    using same e(5) by (simp_all add: x_fresh_def)
  moreover have "x_pc t = x_mem t (f + 0x38)" using ej(3) by (simp add: x_now_def x_stored_def)
  moreover have "f + 0x40 = (stk AND NOT 0xF) - 8" using e(1) by simp
  ultimately show ?thesis using ej(5,7) by metis
qed

text \<open>
  The record of a new fiber lies inside its block when the block has at least 87 bytes, and
  nothing but the record and \<open>m_ctx\<close> is written.
\<close>

theorem x86_context_in_block:
  assumes "87 \<le> len" and "unat stack + len < 2 ^ 64"
    and "Fiber_context (x_ops finish) i (stack + of_nat len) fn s = Some t"
  shows "(\<forall>a \<in> x_area (x_mem t i). unat stack \<le> unat a \<and> unat a + 8 \<le> unat stack + len) \<and>
    (\<forall>a. a \<in> insert i (x_area (x_mem t i)) \<or> x_mem t a = x_mem s a)"
proof -
  obtain u f where u: "x_make finish (stack + of_nat len) fn s = Some (u, f)"
    and t: "t = u\<lparr>x_mem := (x_mem u)(i := f)\<rparr>"
    using assms(3) by (auto simp: Fiber_context_def x_ops_def split: option.splits)
  note e = x_makeE [OF u]
  have "x_mem t a = x_mem s a" if "a \<noteq> i" "a \<notin> x_area f" for a
    using that e(5) x_fresh_other [of a f finish fn s] by (simp add: t)
  moreover have "unat stack \<le> unat a \<and> unat a + 8 \<le> unat stack + len" if "a \<in> x_area f" for a
  proof (rule cell_inside [OF assms(2) refl, where n = "0x48"])
    have "\<exists>off. a = f + off \<and> unat off \<le> 0x40" using that by (auto simp: x_area_def intro: exI [of _ 0])
    then show "\<exists>off. a = (stack + of_nat len AND NOT 0xF) - 0x48 + off \<and> unat off + 8 \<le> unat (0x48 :: u64)"
      using e(1) by auto
  qed (use assms(1) in simp)
  ultimately show ?thesis using t by auto
qed

section \<open>A thread with one fiber\<close>

definition demo_x86 :: x86 where
  "demo_x86 = \<lparr>x_reg = (\<lambda>_. 0)(RSP := 0x10000), x_mxcsr = 0x1f80, x_fcw = 0x37f, x_zf = False, x_pc = 0,
     x_mem = (\<lambda>_. 0)\<rparr>"

definition x86_demo_co :: "x86_point coros" where
  "x86_demo_co = \<lparr>co_cur = None, co_main = ([], 0, 0), co_pts = (\<lambda>_. None)\<rparr>"

lemma x86_demo_make:
  "\<exists>t. Fiber_context (x_ops 0x9000) 0x200 0x8000 0x4000 demo_x86 = Some t \<and> x_mem t 0x200 = 0x7fb8 \<and>
     x_reg t RSP = 0x10008 \<and> x_mem t 0x100 = 0"
  using x_make_run [of "0x7fb8" "0x8000" "0x9000" demo_x86 "0x4000"]
  by (simp add: Fiber_context_def x_ops_def x_make_def aligned_def demo_x86_def x_fresh_def)

lemma x86_demo_run:
  assumes t: "Fiber_context (x_ops 0x9000) 0x200 0x8000 0x4000 demo_x86 = Some t" and c: "x_mem t 0x200 = 0x7fb8"
  shows "co_run (x_ops 0x9000) 0x100 {0x200} vp
    (x86_demo_co\<lparr>co_pts := (\<lambda>_. None)(0x200 := Some (x_stored (x_mem t) 0x7fb8))\<rparr>) t"
proof (rule co_run.make [OF _ t])
  show "co_run (x_ops 0x9000) 0x100 {0x200} vp x86_demo_co demo_x86"
    unfolding x86_demo_co_def by (rule co_run.start) (simp add: x_ops_def aligned_def demo_x86_def)
  show "co_room (x_ops 0x9000) 0x100 {0x200} x86_demo_co demo_x86 (sw_cell (x_ops 0x9000) t 0x200)"
    using c by (simp add: co_room_def co_live_def controls_def x86_demo_co_def x_ops_def x_area_def)
qed (use c in \<open>simp_all add: x86_demo_co_def co_new_def x_ops_def\<close>)

lemma x86_coroutines_witness:
  "\<exists>m t. Fiber_context (x_ops 0x9000) 0x200 0x8000 0x4000 demo_x86 = Some m \<and>
     SwapIn (x_ops 0x9000) 0x100 (\<lambda>_. 7) 0x200 m = Some t \<and> x_now t = x_stored (x_mem m) 0x7fb8 \<and> x_reg t RAX = 7"
proof -
  obtain m where m: "Fiber_context (x_ops 0x9000) 0x200 0x8000 0x4000 demo_x86 = Some m" "x_mem m 0x200 = 0x7fb8"
    "x_reg m RSP = 0x10008" using x86_demo_make by blast
  let ?c = "x86_demo_co\<lparr>co_pts := (\<lambda>_. None)(0x200 := Some (x_stored (x_mem m) 0x7fb8))\<rparr>"
  have lay: "co_layout 0x100 {0x200}" by (simp add: co_layout_def aligned_def)
  have room: "co_room (x_ops 0x9000) 0x100 {0x200} ?c m (x_reg m RSP - 0x38)"
    using m(2,3) by (simp add: co_room_def co_live_def controls_def x86_demo_co_def x_ops_def x_area_def)
  have "\<exists>c'. co_in 0x200 (x_here m) ?c = Some (c', x_stored (x_mem m) 0x7fb8)"
    by (simp add: co_in_def x86_demo_co_def)
  with x86_coroutines [OF lay x86_demo_run [OF m(1,2)] room, of "\<lambda>_. 7"] m(1) show ?thesis by blast
qed

lemma x86_fiber_entry_witness:
  "\<exists>m t. Fiber_context (x_ops 0x9000) 0x200 0x8000 0x4000 demo_x86 = Some m \<and>
     SwapIn (x_ops 0x9000) 0x100 (\<lambda>_. 7) 0x200 m = Some t \<and> x_pc t = 0x4000 \<and> x_reg t RDI = 7 \<and>
     x_mem t (x_reg t RSP) = 0x9000"
proof -
  obtain m where m: "Fiber_context (x_ops 0x9000) 0x200 0x8000 0x4000 demo_x86 = Some m" "x_mem m 0x200 = 0x7fb8"
    "x_reg m RSP = 0x10008" using x86_demo_make by blast
  have "\<exists>t. SwapIn (x_ops 0x9000) 0x100 (\<lambda>_. 7) 0x200 m = Some t"
    using x_jump_spec [of m "0x7fb8" "0x100" 7] m(2,3)
    by (auto simp: SwapIn_def x_ops_def aligned_def)
  then obtain t where t: "SwapIn (x_ops 0x9000) 0x100 (\<lambda>_. 7) 0x200 m = Some t" by blast
  have "x_pc t = 0x4000 \<and> x_reg t RDI = 7 \<and> x_reg t RSP = (0x8000 AND NOT 0xF) - 8 \<and> x_mem t (x_reg t RSP) = 0x9000"
    by (rule x86_fiber_entry [OF m(1) refl refl _ _ _ t]) (use m(2,3) in \<open>simp_all add: x_area_def\<close>)
  with m(1) t show ?thesis by blast
qed

lemma x86_context_in_block_witness:
  "\<exists>t. Fiber_context (x_ops 0x9000) 0x200 (0x4000 + of_nat 16384) 0x4000 demo_x86 = Some t \<and>
     (\<forall>a \<in> x_area (x_mem t 0x200). 0x4000 \<le> unat a \<and> unat a + 8 \<le> 0x8000)"
proof -
  obtain t where t: "Fiber_context (x_ops 0x9000) 0x200 (0x4000 + of_nat 16384) 0x4000 demo_x86 = Some t"
    using x86_demo_make by auto
  from x86_context_in_block [OF _ _ this] show ?thesis using t by simp
qed

end
