(* ===== verification/Poller.thy ===== *)
theory Poller
  imports Timer Fiber
begin

text \<open>
  \<open>src/fiber/poller.h\<close>, \<open>src/fiber/poller.cc\<close> and the wrapper \<open>src/wraplib/epoll.h\<close>:
  the file-descriptor contexts, the operations that register, remove and cancel events, and
  the loop of the poller thread. The kernel is a parameter: the return value of every
  \<open>epoll_ctl\<close> call (and \<open>errno\<close> where the code reads it) is an argument, and every call is
  recorded in \<open>ctl_log\<close>, newest first. The vector \<open>m_fdContexts\<close> holds one context per
  descriptor, so the pointer of a context is its index. A call of
  \<open>Scheduler::createFiber(cb)\<close> is reported as an element of the list of created fibers.
\<close>

unbundle bit_operations_syntax

section \<open>Constants of \<open>sys/epoll.h\<close> and the event enumeration\<close>

definition EPOLLIN :: u32 where "EPOLLIN = 1"
definition EPOLLOUT :: u32 where "EPOLLOUT = 4"
definition EPOLLERR :: u32 where "EPOLLERR = 8"
definition EPOLLHUP :: u32 where "EPOLLHUP = 16"
definition EPOLLET :: u32 where "EPOLLET = 2147483648"
definition EEXIST :: int where "EEXIST = 17"

definition EV_NONE :: u32 where "EV_NONE = 0"
definition EV_READ :: u32 where "EV_READ = 1"
definition EV_WRITE :: u32 where "EV_WRITE = 4"

lemmas event_consts = EPOLLIN_def EPOLLOUT_def EPOLLERR_def EPOLLHUP_def EPOLLET_def
  EV_NONE_def EV_READ_def EV_WRITE_def

section \<open>Data\<close>

record 'cb event_ctx =
  ev_scheduler :: bool
  ev_cb :: "'cb option"

record 'cb fd_context =
  fc_read :: "'cb event_ctx"
  fc_write :: "'cb event_ctx"
  fc_fd :: int
  fc_events :: u32

datatype ctl_op = CTL_ADD | CTL_DEL | CTL_MOD

record ctl_call =
  ctl_op :: ctl_op
  ctl_fd :: int
  ctl_events :: u32
  ctl_rt :: int

record 'cb poller =
  pl_timer :: "'cb timer"
  pl_state :: TaskState
  m_pendingEventCount :: u64
  m_fdContexts :: "'cb fd_context list"
  m_pipe0 :: int
  pipe_bytes :: nat
  ctl_log :: "ctl_call list"

section \<open>File-descriptor contexts\<close>

definition EventContext_new :: "'cb event_ctx" where
  "EventContext_new = \<lparr>ev_scheduler = False, ev_cb = None\<rparr>"

definition FdContext_new :: "int \<Rightarrow> 'cb fd_context" where
  "FdContext_new i =
     \<lparr>fc_read = EventContext_new, fc_write = EventContext_new, fc_fd = i, fc_events = EV_NONE\<rparr>"

definition getContext :: "u32 \<Rightarrow> 'cb fd_context \<Rightarrow> 'cb event_ctx result" where
  "getContext event ctx =
     (if event = EV_READ then Inr (fc_read ctx)
      else if event = EV_WRITE then Inr (fc_write ctx)
      else Inl AssertFail)"

text \<open>Assigning through the reference that \<open>getContext\<close> returns.\<close>

definition putContext :: "u32 \<Rightarrow> 'cb event_ctx \<Rightarrow> 'cb fd_context \<Rightarrow> 'cb fd_context result" where
  "putContext event e ctx =
     (if event = EV_READ then Inr (ctx\<lparr>fc_read := e\<rparr>)
      else if event = EV_WRITE then Inr (ctx\<lparr>fc_write := e\<rparr>)
      else Inl AssertFail)"

definition resetContext :: "'cb event_ctx \<Rightarrow> 'cb event_ctx" where
  "resetContext e = e\<lparr>ev_cb := None, ev_scheduler := False\<rparr>"

text \<open>\<open>(Event)((char)events_ & ~(char)event)\<close>: both operands pass through a signed char.\<close>

definition clear_event :: "u32 \<Rightarrow> u32 \<Rightarrow> u32" where
  "clear_event events event =
     (scast (ucast events :: u8)) AND (NOT (scast (ucast event :: u8)))"

definition triggerEvent ::
  "u32 \<Rightarrow> 'cb fd_context \<Rightarrow> ('cb fd_context \<times> 'cb option) result" where
  "triggerEvent event ctx =
     (let ctx' = ctx\<lparr>fc_events := clear_event (fc_events ctx) event\<rparr>
      in bindR (getContext event ctx') (\<lambda>e.
           if \<not> ev_scheduler e then Inl NullDeref else Inr (ctx', ev_cb e)))"

section \<open>Construction, resize and wake-up\<close>

definition resize :: "nat \<Rightarrow> 'cb fd_context list \<Rightarrow> 'cb fd_context list" where
  "resize n cs = take n cs @ map (\<lambda>i. FdContext_new (int i)) [length cs..<n]"

definition epoll_log :: "ctl_op \<Rightarrow> int \<Rightarrow> u32 \<Rightarrow> int \<Rightarrow> 'cb poller \<Rightarrow> 'cb poller" where
  "epoll_log op fd ev rt pl =
     pl\<lparr>ctl_log := \<lparr>ctl_op = op, ctl_fd = fd, ctl_events = ev, ctl_rt = rt\<rparr> # ctl_log pl\<rparr>"

text \<open>\<open>rt_pipe\<close> and \<open>rt_add\<close>: what \<open>pipe2\<close> and the first \<open>epoll_ctl\<close> return.\<close>

definition Poller_ctor ::
  "int \<Rightarrow> int \<Rightarrow> int \<Rightarrow> 'cb timer \<Rightarrow> 'cb poller result" where
  "Poller_ctor rt_pipe rt_add pipe0 t =
     (if rt_pipe = - 1 then Inl AssertFail
      else if \<not> rt_add \<ge> 0 then Inl AssertFail
      else Inr (epoll_log CTL_ADD pipe0 (EPOLLIN OR EPOLLET) rt_add
             \<lparr>pl_timer = t, pl_state = Init, m_pendingEventCount = 0,
              m_fdContexts = resize 64 [], m_pipe0 = pipe0, pipe_bytes = 0, ctl_log = []\<rparr>))"

definition stopping :: "'cb poller \<Rightarrow> bool" where
  "stopping pl = (pl_state pl = Stop)"

text \<open>
  \<open>notify\<close> writes one byte to the non-blocking pipe and asserts that it was written; \<open>cap\<close>
  is the capacity of the pipe.
\<close>

definition notify :: "nat \<Rightarrow> 'cb poller \<Rightarrow> 'cb poller result" where
  "notify cap pl =
     (let rt = (if pipe_bytes pl < cap then 1 else - 1 :: int)
      in if rt \<ge> 1 then Inr (pl\<lparr>pipe_bytes := Suc (pipe_bytes pl)\<rparr>) else Inl AssertFail)"

text \<open>\<open>onTimerInsertedAtFront\<close>, called by \<open>Timer::addTimerTask\<close> for a task at the front.\<close>

definition onTimerInsertedAtFront :: "nat \<Rightarrow> bool \<Rightarrow> 'cb poller \<Rightarrow> 'cb poller result" where
  "onTimerInsertedAtFront cap front pl = (if front then notify cap pl else Inr pl)"

definition pl_createTimer ::
  "nat \<Rightarrow> nat \<Rightarrow> 'cb option \<Rightarrow> u64 \<Rightarrow> bool \<Rightarrow> u64 \<Rightarrow> 'cb poller \<Rightarrow> 'cb poller result" where
  "pl_createTimer cap p cb ms recurring now pl =
     (let (t, front) = createTimer p cb ms recurring now (pl_timer pl)
      in onTimerInsertedAtFront cap front (pl\<lparr>pl_timer := t\<rparr>))"

section \<open>Registering and removing events\<close>

definition addEvent ::
  "int \<Rightarrow> u32 \<Rightarrow> 'cb option \<Rightarrow> int \<Rightarrow> 'cb poller \<Rightarrow> ('cb poller \<times> int) result" where
  "addEvent fd event cb rt pl =
     bindR (if int (length (m_fdContexts pl)) < fd
            then (if fd * 2 \<ge> 2 ^ 31 then Inl IntOverflow
                  else Inr (pl\<lparr>m_fdContexts := resize (nat (fd * 2)) (m_fdContexts pl)\<rparr>))
            else Inr pl) (\<lambda>pl1.
     bindR (at (m_fdContexts pl1) fd) (\<lambda>fd_ctx.
       let op = (if fc_events fd_ctx \<noteq> 0 then CTL_MOD else CTL_ADD);
           pl2 = epoll_log op fd (EPOLLET OR event OR fc_events fd_ctx) rt pl1
       in if rt \<noteq> 0 then Inr (pl2, rt)
          else bindR (putContext event \<lparr>ev_scheduler = True, ev_cb = cb\<rparr>
                        (fd_ctx\<lparr>fc_events := fc_events fd_ctx OR event\<rparr>)) (\<lambda>fd_ctx'.
               Inr (pl2\<lparr>m_pendingEventCount := m_pendingEventCount pl2 + 1,
                        m_fdContexts := (m_fdContexts pl2)[nat fd := fd_ctx']\<rparr>, 0))))"

definition delEvent ::
  "int \<Rightarrow> u32 \<Rightarrow> int \<Rightarrow> int \<Rightarrow> 'cb poller \<Rightarrow> ('cb poller \<times> bool) result" where
  "delEvent fd event rt errno pl =
     (if int (length (m_fdContexts pl)) < fd then Inr (pl, False)
      else bindR (at (m_fdContexts pl) fd) (\<lambda>fd_ctx.
        if fc_events fd_ctx AND event = 0 then Inr (pl, False)
        else (let new_event = fc_events fd_ctx AND NOT event;
                  op = (if new_event \<noteq> 0 then CTL_MOD else CTL_DEL);
                  pl1 = epoll_log op fd (EPOLLET OR new_event) rt pl
              in if rt \<noteq> 0 \<and> errno \<noteq> EEXIST then Inr (pl1, False)
                 else bindR (getContext event fd_ctx) (\<lambda>e.
                      bindR (putContext event (resetContext e)
                               (fd_ctx\<lparr>fc_events := new_event\<rparr>)) (\<lambda>fd_ctx'.
                      Inr (pl1\<lparr>m_pendingEventCount := m_pendingEventCount pl1 - 1,
                               m_fdContexts := (m_fdContexts pl1)[nat fd := fd_ctx']\<rparr>,
                           True))))))"

text \<open>The operations that trigger report the fibers they create.\<close>

definition cancelEvent ::
  "int \<Rightarrow> u32 \<Rightarrow> int \<Rightarrow> 'cb poller \<Rightarrow> ('cb poller \<times> 'cb option list \<times> bool) result" where
  "cancelEvent fd event rt pl =
     (if int (length (m_fdContexts pl)) < fd then Inr (pl, [], False)
      else bindR (at (m_fdContexts pl) fd) (\<lambda>fd_ctx.
        if fc_events fd_ctx AND event = 0 then Inr (pl, [], False)
        else (let new_event = fc_events fd_ctx AND NOT event;
                  op = (if new_event \<noteq> 0 then CTL_MOD else CTL_DEL);
                  pl1 = epoll_log op fd (EPOLLET OR new_event) rt pl
              in if rt \<noteq> 0 then Inr (pl1, [], False)
                 else bindR (triggerEvent event fd_ctx) (\<lambda>(fd_ctx', cb).
                      Inr (pl1\<lparr>m_fdContexts := (m_fdContexts pl1)[nat fd := fd_ctx'],
                               m_pendingEventCount := m_pendingEventCount pl1 - 1\<rparr>,
                           [cb], True)))))"

text \<open>Trigger an event of a context if its bit is in \<open>flags\<close>, and count it down.\<close>

definition trigger_if ::
  "u32 \<Rightarrow> u32 \<Rightarrow> 'cb fd_context \<times> u64 \<Rightarrow>
     (('cb fd_context \<times> u64) \<times> 'cb option list) result" where
  "trigger_if flags event s =
     (if flags AND event = 0 then Inr (s, [])
      else bindR (triggerEvent event (fst s)) (\<lambda>(ctx', cb).
             Inr ((ctx', snd s - 1), [cb])))"

definition cancelAll ::
  "int \<Rightarrow> int \<Rightarrow> 'cb poller \<Rightarrow> ('cb poller \<times> 'cb option list \<times> bool) result" where
  "cancelAll fd rt pl =
     (if int (length (m_fdContexts pl)) < fd then Inr (pl, [], False)
      else bindR (at (m_fdContexts pl) fd) (\<lambda>fd_ctx.
        let pl1 = epoll_log CTL_DEL fd 0 rt pl
        in if rt \<noteq> 0 then Inr (pl1, [], False)
           else bindR (trigger_if (fc_events fd_ctx) EV_READ
                         (fd_ctx, m_pendingEventCount pl1)) (\<lambda>(s1, out1).
                bindR (trigger_if (fc_events (fst s1)) EV_WRITE s1) (\<lambda>(s2, out2).
                Inr (pl1\<lparr>m_fdContexts := (m_fdContexts pl1)[nat fd := fst s2],
                         m_pendingEventCount := snd s2\<rparr>, out1 @ out2, True)))))"

section \<open>The poller thread\<close>

text \<open>
  An \<open>epoll_event\<close>: its mask and its data word, which holds the descriptor of the pipe or
  the pointer to a context. \<open>low32\<close> gives the value \<open>data.fd\<close> reads out of a pointer.
\<close>

datatype epoll_data = DataFd int | DataPtr nat

record epoll_event =
  ee_events :: u32
  ee_data :: epoll_data

definition data_fd :: "(nat \<Rightarrow> int) \<Rightarrow> epoll_data \<Rightarrow> int" where
  "data_fd low32 d = (case d of DataFd x \<Rightarrow> x | DataPtr i \<Rightarrow> low32 i)"

text \<open>The events the loop takes to have happened, from the mask the kernel reported.\<close>

definition real_events :: "u32 \<Rightarrow> u32" where
  "real_events events =
     (let ev = (if events AND (EPOLLERR OR EPOLLHUP) \<noteq> 0
                then events OR (EPOLLIN OR EPOLLOUT) else events);
          r0 = EV_NONE;
          r1 = (if ev AND EPOLLOUT \<noteq> 0 then r0 OR EV_READ else r0);
          r2 = (if ev AND EPOLLIN \<noteq> 0 then r1 OR EV_WRITE else r1)
      in r2)"

text \<open>The body of the loop over the reported events, for one event.\<close>

definition handle_event ::
  "(nat \<Rightarrow> int) \<Rightarrow> epoll_event \<Rightarrow> int \<Rightarrow> 'cb poller \<Rightarrow> ('cb poller \<times> 'cb option list) result" where
  "handle_event low32 event rt pl =
     (if data_fd low32 (ee_data event) = m_pipe0 pl then Inr (pl\<lparr>pipe_bytes := 0\<rparr>, [])
      else case ee_data event of
        DataFd x \<Rightarrow> Inl NullDeref
      | DataPtr i \<Rightarrow>
          bindR (at (m_fdContexts pl) (int i)) (\<lambda>fd_ctx.
            let real = real_events (ee_events event)
            in if fc_events fd_ctx AND real = EV_NONE then Inr (pl, [])
               else (let left_events = fc_events fd_ctx AND NOT real;
                         op = (if left_events \<noteq> 0 then CTL_MOD else CTL_DEL);
                         pl1 = epoll_log op (fc_fd fd_ctx) (EPOLLET OR left_events) rt pl
                     in if rt \<noteq> 0 then Inr (pl1, [])
                        else bindR (trigger_if real EV_READ
                                      (fd_ctx, m_pendingEventCount pl1)) (\<lambda>(s1, out1).
                             bindR (trigger_if real EV_WRITE s1) (\<lambda>(s2, out2).
                             Inr (pl1\<lparr>m_fdContexts := (m_fdContexts pl1)[i := fst s2],
                                      m_pendingEventCount := snd s2\<rparr>, out1 @ out2))))))"

fun handle_events ::
  "(nat \<Rightarrow> int) \<Rightarrow> (epoll_event \<times> int) list \<Rightarrow> 'cb poller \<Rightarrow> ('cb poller \<times> 'cb option list) result" where
  "handle_events low32 [] pl = Inr (pl, [])"
| "handle_events low32 ((ev, rt) # evs) pl =
     bindR (handle_event low32 ev rt pl) (\<lambda>(pl1, out1).
     bindR (handle_events low32 evs pl1) (\<lambda>(pl2, out2).
     Inr (pl2, out1 @ out2)))"

definition MAX_TIMEOUT :: u64 where "MAX_TIMEOUT = 3000"

definition poll_timeout :: "u64 \<Rightarrow> u64" where
  "poll_timeout next_timeout =
     (let n1 = (if next_timeout > MAX_TIMEOUT then MAX_TIMEOUT else next_timeout)
      in if n1 = 0 then MAX_TIMEOUT else n1)"

text \<open>The loop that hands the expired callbacks to the scheduler, unless the poller stops.\<close>

fun create_expired :: "(nat \<Rightarrow> bool) \<Rightarrow> nat \<Rightarrow> 'cb option list \<Rightarrow> 'cb option list" where
  "create_expired stopped k [] = []"
| "create_expired stopped k (cb # cbs) =
     (if \<not> stopped k then cb # create_expired stopped (Suc k) cbs
      else create_expired stopped (Suc k) cbs)"

text \<open>
  What one turn of the loop observes: the clock readings, whether both stop flags are set
  at the two checks, what \<open>stopping()\<close> says before each expired callback, the address of
  the probe task, and the result of \<open>epoll_wait\<close> for the timeout it is given (an \<open>errno\<close>, or the events with the
  return value of the \<open>epoll_ctl\<close> call each may cause).
\<close>

record turn =
  now_next :: u64
  stop1 :: bool
  stop2 :: bool
  stop_cbs :: "nat \<Rightarrow> bool"
  now_exec :: u64
  now_probe :: u64
  probe :: nat
  waited :: "u64 \<Rightarrow> int + (epoll_event \<times> int) list"

text \<open>One turn: the new poller, the fibers created, and whether it broke out.\<close>

definition poller_turn ::
  "(nat \<Rightarrow> int) \<Rightarrow> turn \<Rightarrow> 'cb poller \<Rightarrow> ('cb poller \<times> 'cb option list \<times> bool) result" where
  "poller_turn low32 tn pl =
     (let (t1, next_timeout) = getNextExecuteTime (now_next tn) (pl_timer pl);
          pl1 = pl\<lparr>pl_timer := t1\<rparr>
      in if stop1 tn then Inr (pl1, [], True)
         else case waited tn (poll_timeout next_timeout) of
           Inl e \<Rightarrow>
             (if e = EINTR then Inr (pl1, [], False)
              else if stop2 tn then Inr (pl1, [], True)
              else (let (t2, cbs) = getExecuteTask (now_exec tn) (now_probe tn) (probe tn) t1
                    in Inr (pl1\<lparr>pl_timer := t2\<rparr>, create_expired (stop_cbs tn) 0 cbs, False)))
         | Inr evs \<Rightarrow>
             (if stop2 tn then Inr (pl1, [], True)
              else (let (t2, cbs) = getExecuteTask (now_exec tn) (now_probe tn) (probe tn) t1
                    in bindR (handle_events low32 evs (pl1\<lparr>pl_timer := t2\<rparr>)) (\<lambda>(pl2, out).
                       Inr (pl2, create_expired (stop_cbs tn) 0 cbs @ out, False)))))"

text \<open>The loop over a list of turns; the boolean says that it has broken out.\<close>

fun poller_loop ::
  "(nat \<Rightarrow> int) \<Rightarrow> turn list \<Rightarrow> 'cb poller \<Rightarrow> ('cb poller \<times> 'cb option list \<times> bool) result" where
  "poller_loop low32 [] pl = Inr (pl, [], False)"
| "poller_loop low32 (tn # tns) pl =
     bindR (poller_turn low32 tn pl) (\<lambda>(pl1, out1, broke).
       if broke then Inr (pl1, out1, True)
       else bindR (poller_loop low32 tns pl1) (\<lambda>(pl2, out2, b2).
            Inr (pl2, out1 @ out2, b2)))"

definition networkPoller ::
  "(nat \<Rightarrow> int) \<Rightarrow> turn list \<Rightarrow> 'cb poller \<Rightarrow> ('cb poller \<times> 'cb option list \<times> bool) result" where
  "networkPoller low32 tns pl = poller_loop low32 tns (pl\<lparr>pl_state := Running\<rparr>)"

section \<open>The invariant: registered events, contexts and the kernel's interest agree\<close>

text \<open>
  What the kernel watches for a descriptor, from the successful \<open>epoll_ctl\<close> calls: the mask
  of the last \<open>ADD\<close> or \<open>MOD\<close>, nothing after a \<open>DEL\<close>.
\<close>

fun interest :: "ctl_call list \<Rightarrow> int \<Rightarrow> u32 option" where
  "interest [] fd = None"
| "interest (c # log) fd =
     (if ctl_fd c = fd \<and> ctl_rt c = 0
      then (case ctl_op c of CTL_DEL \<Rightarrow> None | _ \<Rightarrow> Some (ctl_events c))
      else interest log fd)"

text \<open>
  A legal history for every descriptor but the pipe: \<open>ADD\<close> for a descriptor that is not
  watched, \<open>MOD\<close> for one that is (the kernel answers anything else with an error).
\<close>

fun log_legal :: "int \<Rightarrow> ctl_call list \<Rightarrow> bool" where
  "log_legal p0 [] = True"
| "log_legal p0 (c # log) =
     ((ctl_fd c \<noteq> p0 \<longrightarrow> (ctl_op c = CTL_ADD \<longrightarrow> interest log (ctl_fd c) = None) \<and>
                        (ctl_op c = CTL_MOD \<longrightarrow> interest log (ctl_fd c) \<noteq> None)) \<and>
      log_legal p0 log)"

definition ctx_ok :: "int \<Rightarrow> u32 option \<Rightarrow> int \<Rightarrow> 'cb fd_context \<Rightarrow> bool" where
  "ctx_ok p0 watched i ctx \<longleftrightarrow>
     fc_fd ctx = i \<and> fc_events ctx \<in> {0, 1, 4, 5} \<and>
     (fc_events ctx \<in> {1, 5} \<longrightarrow> ev_scheduler (fc_read ctx)) \<and>
     (fc_events ctx \<in> {4, 5} \<longrightarrow> ev_scheduler (fc_write ctx)) \<and>
     (i \<noteq> p0 \<longrightarrow> watched = (if fc_events ctx = 0 then None else Some (EPOLLET OR fc_events ctx)))"

definition poller_ok :: "'cb poller \<Rightarrow> bool" where
  "poller_ok pl \<longleftrightarrow>
     (\<forall>i < length (m_fdContexts pl).
        ctx_ok (m_pipe0 pl) (interest (ctl_log pl) (int i)) (int i) (m_fdContexts pl ! i)) \<and>
     (\<forall>fd \<ge> int (length (m_fdContexts pl)). fd \<noteq> m_pipe0 pl \<longrightarrow> interest (ctl_log pl) fd = None) \<and>
     log_legal (m_pipe0 pl) (ctl_log pl)"

lemma poller_okD:
  assumes "poller_ok pl" and "0 \<le> fd" and "fd < int (length (m_fdContexts pl))"
  shows "ctx_ok (m_pipe0 pl) (interest (ctl_log pl) fd) fd (m_fdContexts pl ! nat fd)"
  using assms by (auto simp: poller_ok_def dest!: spec [of _ "nat fd"])

lemma poller_ok_cong:
  "m_fdContexts pl' = m_fdContexts pl \<Longrightarrow> m_pipe0 pl' = m_pipe0 pl \<Longrightarrow> ctl_log pl' = ctl_log pl \<Longrightarrow>
   poller_ok pl' = poller_ok pl"
  by (simp add: poller_ok_def)

lemma length_resize [simp]: "length (resize n cs) = n"
  by (simp add: resize_def)

lemma nth_resize:
  "i < n \<Longrightarrow> resize n cs ! i = (if i < length cs then cs ! i else FdContext_new (int i))"
  by (auto simp: resize_def nth_append)

lemma ctx_ok_new: "ctx_ok p0 None i (FdContext_new i)"
  by (simp add: ctx_ok_def FdContext_new_def EV_NONE_def)

lemma poller_ok_resize:
  assumes "poller_ok pl" and "length (m_fdContexts pl) \<le> n"
  shows "poller_ok (pl\<lparr>m_fdContexts := resize n (m_fdContexts pl)\<rparr>)"
proof -
  have "ctx_ok (m_pipe0 pl) (interest (ctl_log pl) (int i)) (int i) (resize n (m_fdContexts pl) ! i)"
    if "i < n" for i
  proof (cases "i < length (m_fdContexts pl)")
    case True
    with assms(1) that show ?thesis by (simp add: nth_resize poller_ok_def)
  next
    case False
    then have "int i \<noteq> m_pipe0 pl \<Longrightarrow> interest (ctl_log pl) (int i) = None"
      using assms(1) by (auto simp: poller_ok_def)
    then show ?thesis using False that
      by (simp add: nth_resize ctx_ok_def FdContext_new_def EV_NONE_def)
  qed
  then show ?thesis using assms by (auto simp: poller_ok_def)
qed

lemma interest_other:
  "ctl_fd c \<noteq> fd \<or> ctl_rt c \<noteq> 0 \<Longrightarrow> interest (c # log) fd = interest log fd"
  by auto

text \<open>One call on a descriptor and the matching update of its context.\<close>

lemma poller_ok_update:
  assumes ok: "poller_ok pl" and fd: "0 \<le> fd" "fd < int (length (m_fdContexts pl))" "fd \<noteq> m_pipe0 pl"
    and c: "ctl_fd c = fd" "ctl_op c = CTL_ADD \<Longrightarrow> interest (ctl_log pl) fd = None"
      "ctl_op c = CTL_MOD \<Longrightarrow> interest (ctl_log pl) fd \<noteq> None"
    and ctx: "ctx_ok (m_pipe0 pl) (interest (c # ctl_log pl) fd) fd ctx"
    and pl': "m_fdContexts pl' = (m_fdContexts pl)[nat fd := ctx]" "m_pipe0 pl' = m_pipe0 pl"
      "ctl_log pl' = c # ctl_log pl"
  shows "poller_ok pl'"
  unfolding poller_ok_def
proof (intro conjI allI impI)
  fix i assume i: "i < length (m_fdContexts pl')"
  show "ctx_ok (m_pipe0 pl') (interest (ctl_log pl') (int i)) (int i) (m_fdContexts pl' ! i)"
  proof (cases "int i = fd")
    case True
    with ctx i show ?thesis by (auto simp: pl' nat_eq_iff)
  next
    case False
    then have "interest (c # ctl_log pl) (int i) = interest (ctl_log pl) (int i)"
      using c(1) by (intro interest_other) auto
    moreover have "nat fd \<noteq> i" using False fd(1) by auto
    ultimately show ?thesis using ok i by (simp add: pl' poller_ok_def)
  qed
next
  fix x assume x: "int (length (m_fdContexts pl')) \<le> x" "x \<noteq> m_pipe0 pl'"
  then have "interest (c # ctl_log pl) x = interest (ctl_log pl) x"
    using c(1) fd(2) by (intro interest_other) (auto simp: pl')
  then show "interest (ctl_log pl') x = None" using ok x by (simp add: pl' poller_ok_def)
next
  show "log_legal (m_pipe0 pl') (ctl_log pl')"
    using ok c by (simp add: pl' poller_ok_def)
qed

text \<open>The masks a context can have, and what the bit operations make of them.\<close>

lemma event_bits [simp]:
  "e \<in> {0, 1, 4, 5} \<Longrightarrow> clear_event e EV_READ = (if e \<in> {1, 5} then e - 1 else e)"
  "e \<in> {0, 1, 4, 5} \<Longrightarrow> clear_event e EV_WRITE = (if e \<in> {4, 5} then e - 4 else e)"
  by (auto simp: clear_event_def event_consts)

lemma ctx_ok_events:
  "ctx_ok p0 w i ctx \<Longrightarrow> fc_events ctx \<in> {0, 1, 4, 5}"
  by (simp add: ctx_ok_def)

lemma or_event:
  "e \<in> {0, 1, 4, 5} \<Longrightarrow> e OR EV_READ = (if e \<in> {1, 5} then e else e + 1)"
  "e \<in> {0, 1, 4, 5} \<Longrightarrow> e OR EV_WRITE = (if e \<in> {4, 5} then e else e + 4)"
  by (auto simp: event_consts)

lemma and_not_event:
  "e \<in> {0, 1, 4, 5} \<Longrightarrow> e AND NOT EV_READ = (if e \<in> {1, 5} then e - 1 else e)"
  "e \<in> {0, 1, 4, 5} \<Longrightarrow> e AND NOT EV_WRITE = (if e \<in> {4, 5} then e - 4 else e)"
  by (auto simp: event_consts)

lemma and_event:
  "e \<in> {0, 1, 4, 5} \<Longrightarrow> e AND EV_READ = 0 \<longleftrightarrow> e \<notin> {1, 5}"
  "e \<in> {0, 1, 4, 5} \<Longrightarrow> e AND EV_WRITE = 0 \<longleftrightarrow> e \<notin> {4, 5}"
  by (auto simp: event_consts)

lemma et_or_event: "EPOLLET OR (event OR e) = EPOLLET OR event OR e" for e event :: u32
  by (simp add: or.assoc)

text \<open>A failed call leaves the contexts as they were.\<close>

lemma poller_ok_failed:
  assumes ok: "poller_ok pl" and fd: "0 \<le> fd" "fd < int (length (m_fdContexts pl))" "fd \<noteq> m_pipe0 pl"
    and c: "op = CTL_ADD \<Longrightarrow> interest (ctl_log pl) fd = None"
      "op = CTL_MOD \<Longrightarrow> interest (ctl_log pl) fd \<noteq> None"
    and rt: "rt \<noteq> 0"
  shows "poller_ok (epoll_log op fd ev rt pl)"
proof (rule poller_ok_update [OF ok fd, where ctx = "m_fdContexts pl ! nat fd"])
  show "ctx_ok (m_pipe0 pl) (interest (\<lparr>ctl_op = op, ctl_fd = fd, ctl_events = ev, ctl_rt = rt\<rparr> #
      ctl_log pl) fd) fd (m_fdContexts pl ! nat fd)"
    using poller_okD [OF ok fd(1,2)] rt by simp
qed (use c in \<open>simp_all add: epoll_log_def\<close>)

text \<open>The state after a successful call that leaves context \<open>ctx\<close> at \<open>fd\<close>.\<close>

lemma poller_ok_success:
  assumes ok: "poller_ok pl" and fd: "0 \<le> fd" "fd < int (length (m_fdContexts pl))" "fd \<noteq> m_pipe0 pl"
    and c: "op = CTL_ADD \<Longrightarrow> interest (ctl_log pl) fd = None"
      "op = CTL_MOD \<Longrightarrow> interest (ctl_log pl) fd \<noteq> None"
    and ctx: "ctx_ok (m_pipe0 pl) (if op = CTL_DEL then None else Some ev) fd ctx"
  shows "poller_ok ((epoll_log op fd ev 0 pl)\<lparr>m_fdContexts := (m_fdContexts pl)[nat fd := ctx],
            m_pendingEventCount := n\<rparr>)"
proof (rule poller_ok_update [OF ok fd])
  show "ctx_ok (m_pipe0 pl) (interest (\<lparr>ctl_op = op, ctl_fd = fd, ctl_events = ev, ctl_rt = 0\<rparr> #
      ctl_log pl) fd) fd ctx"
    using ctx by (cases op) simp_all
qed (use c in \<open>simp_all add: epoll_log_def\<close>)

definition watched_ctx :: "int \<Rightarrow> 'cb poller \<Rightarrow> 'cb fd_context" where
  "watched_ctx fd pl = m_fdContexts pl ! nat fd"

text \<open>Descriptors a client may use, and the two events.\<close>

definition fd_usable :: "int \<Rightarrow> 'cb poller \<Rightarrow> bool" where
  "fd_usable fd pl \<longleftrightarrow> 0 \<le> fd \<and> fd < int (length (m_fdContexts pl)) \<and> fd \<noteq> m_pipe0 pl"

lemma at_usable: "fd_usable fd pl \<Longrightarrow> at (m_fdContexts pl) fd = Inr (watched_ctx fd pl)"
  by (simp add: fd_usable_def watched_ctx_def)

lemma usable_ctx_ok:
  "poller_ok pl \<Longrightarrow> fd_usable fd pl \<Longrightarrow>
   ctx_ok (m_pipe0 pl) (interest (ctl_log pl) fd) fd (watched_ctx fd pl)"
  by (simp add: fd_usable_def watched_ctx_def poller_okD)

lemma usable_interest:
  assumes "poller_ok pl" and "fd_usable fd pl"
  shows "interest (ctl_log pl) fd =
     (if fc_events (watched_ctx fd pl) = 0 then None else Some (EPOLLET OR fc_events (watched_ctx fd pl)))"
  using usable_ctx_ok [OF assms] assms(2) by (simp add: ctx_ok_def fd_usable_def)

definition ctx_add :: "u32 \<Rightarrow> 'cb option \<Rightarrow> 'cb fd_context \<Rightarrow> 'cb fd_context" where
  "ctx_add event cb ctx =
     (if event = EV_READ
      then ctx\<lparr>fc_events := fc_events ctx OR event, fc_read := \<lparr>ev_scheduler = True, ev_cb = cb\<rparr>\<rparr>
      else ctx\<lparr>fc_events := fc_events ctx OR event, fc_write := \<lparr>ev_scheduler = True, ev_cb = cb\<rparr>\<rparr>)"

lemma ctx_add_events [simp]: "fc_events (ctx_add event cb ctx) = fc_events ctx OR event"
  by (simp add: ctx_add_def)

lemma addEvent_eq:
  assumes "fd_usable fd pl" and "event \<in> {EV_READ, EV_WRITE}"
  shows "addEvent fd event cb rt pl =
     (let ctx = watched_ctx fd pl;
          pl1 = epoll_log (if fc_events ctx \<noteq> 0 then CTL_MOD else CTL_ADD) fd
                   (EPOLLET OR event OR fc_events ctx) rt pl
      in Inr (if rt \<noteq> 0 then (pl1, rt)
          else (pl1\<lparr>m_fdContexts := (m_fdContexts pl)[nat fd := ctx_add event cb ctx],
                    m_pendingEventCount := m_pendingEventCount pl + 1\<rparr>, 0)))"
proof -
  have "\<not> int (length (m_fdContexts pl)) < fd" using assms(1) by (simp add: fd_usable_def)
  then show ?thesis
    using assms(2) at_usable [OF assms(1)]
    by (auto simp: addEvent_def Let_def putContext_def ctx_add_def epoll_log_def
        EV_READ_def EV_WRITE_def)
qed

lemma addEvent_ok:
  assumes ok: "poller_ok pl" and fd: "fd_usable fd pl" and ev: "event \<in> {EV_READ, EV_WRITE}"
    and r: "addEvent fd event cb rt pl = Inr (pl', r)"
  shows "poller_ok pl'"
proof -
  let ?ctx = "watched_ctx fd pl"
  note fd' = fd [unfolded fd_usable_def]
  have c: "ctx_ok (m_pipe0 pl) (interest (ctl_log pl) fd) fd ?ctx" by (rule usable_ctx_ok [OF ok fd])
  note e = ctx_ok_events [OF c]
  have c': "ctx_ok (m_pipe0 pl) (Some (EPOLLET OR event OR fc_events ?ctx)) fd (ctx_add event cb ?ctx)"
  proof -
    have m: "EPOLLET OR event OR fc_events ?ctx = EPOLLET OR fc_events (ctx_add event cb ?ctx)"
      by (simp add: ctx_add_def or.assoc) (metis or.commute)
    have "fc_events ?ctx = 0 \<or> fc_events ?ctx = 1 \<or> fc_events ?ctx = 4 \<or> fc_events ?ctx = 5"
      using e by auto
    then show ?thesis
      unfolding m using c ev by (elim disjE) (auto simp: ctx_ok_def ctx_add_def event_consts)
  qed
  show ?thesis
    using r fd' usable_interest [OF ok fd] c'
    by (auto simp: addEvent_eq [OF fd ev] Let_def intro!: poller_ok_failed [OF ok] poller_ok_success [OF ok] c'
        split: if_splits)
qed

text \<open>Removing an event: the masks agree, and the context keeps its shape.\<close>

definition side :: "u32 \<Rightarrow> 'cb fd_context \<Rightarrow> 'cb event_ctx" where
  "side event ctx = (if event = EV_READ then fc_read ctx else fc_write ctx)"

lemma ctx_ok_scheduler:
  assumes "ctx_ok p0 w i ctx" and "event \<in> {EV_READ, EV_WRITE}" and "fc_events ctx AND event \<noteq> 0"
  shows "ev_scheduler (side event ctx)"
proof -
  have "fc_events ctx = 0 \<or> fc_events ctx = 1 \<or> fc_events ctx = 4 \<or> fc_events ctx = 5"
    using ctx_ok_events [OF assms(1)] by simp
  then show ?thesis
    using assms by (elim disjE) (auto simp: ctx_ok_def side_def event_consts)
qed

lemma triggerEvent_eq:
  assumes "event \<in> {EV_READ, EV_WRITE}" and "ev_scheduler (side event ctx)"
  shows "triggerEvent event ctx =
     Inr (ctx\<lparr>fc_events := clear_event (fc_events ctx) event\<rparr>, ev_cb (side event ctx))"
  using assms
  by (auto simp: triggerEvent_def getContext_def side_def Let_def EV_READ_def EV_WRITE_def)

lemma clear_event_and_not:
  "e \<in> {0, 1, 4, 5} \<Longrightarrow> event \<in> {EV_READ, EV_WRITE} \<Longrightarrow> clear_event e event = e AND NOT event"
  by (auto simp: clear_event_def event_consts)

lemma ctx_ok_removed:
  assumes c: "ctx_ok p0 w i ctx" and ev: "event \<in> {EV_READ, EV_WRITE}"
    and ctx': "fc_fd ctx' = fc_fd ctx" "fc_events ctx' = fc_events ctx AND NOT event"
      "event \<noteq> EV_READ \<Longrightarrow> fc_read ctx' = fc_read ctx" "event \<noteq> EV_WRITE \<Longrightarrow> fc_write ctx' = fc_write ctx"
    and op: "op = (if fc_events ctx AND NOT event \<noteq> 0 then CTL_MOD else CTL_DEL)"
  shows "ctx_ok p0 (if op = CTL_DEL then None else Some (EPOLLET OR (fc_events ctx AND NOT event))) i ctx'"
proof -
  have "fc_events ctx = 0 \<or> fc_events ctx = 1 \<or> fc_events ctx = 4 \<or> fc_events ctx = 5"
    using ctx_ok_events [OF c] by simp
  then show ?thesis
    using c ev ctx' by (elim disjE) (auto simp: ctx_ok_def op event_consts)
qed

text \<open>The calls that \<open>delEvent\<close> and \<open>cancelEvent\<close> issue are legal.\<close>

lemma removal_legal:
  assumes "poller_ok pl" and "fd_usable fd pl"
    and "fc_events (watched_ctx fd pl) AND event \<noteq> 0"
    and "op = (if n \<noteq> (0::u32) then CTL_MOD else CTL_DEL)"
  shows "op \<noteq> CTL_ADD" and "interest (ctl_log pl) fd \<noteq> None"
  using assms usable_interest [OF assms(1,2)] by auto

lemma cancelEvent_eq:
  assumes ok: "poller_ok pl" and fd: "fd_usable fd pl" and ev: "event \<in> {EV_READ, EV_WRITE}"
  shows "cancelEvent fd event rt pl =
     (let ctx = watched_ctx fd pl;
          new_event = fc_events ctx AND NOT event;
          pl1 = epoll_log (if new_event \<noteq> 0 then CTL_MOD else CTL_DEL) fd (EPOLLET OR new_event) rt pl
      in if fc_events ctx AND event = 0 then Inr (pl, [], False)
         else if rt \<noteq> 0 then Inr (pl1, [], False)
         else Inr (pl1\<lparr>m_fdContexts := (m_fdContexts pl)[nat fd := ctx\<lparr>fc_events := new_event\<rparr>],
                       m_pendingEventCount := m_pendingEventCount pl - 1\<rparr>,
                   [ev_cb (side event ctx)], True))"
proof -
  let ?ctx = "watched_ctx fd pl"
  note c = usable_ctx_ok [OF ok fd]
  have "\<not> int (length (m_fdContexts pl)) < fd" using fd by (simp add: fd_usable_def)
  moreover have "triggerEvent event ?ctx = Inr (?ctx\<lparr>fc_events := fc_events ?ctx AND NOT event\<rparr>,
      ev_cb (side event ?ctx))" if "fc_events ?ctx AND event \<noteq> 0"
    using triggerEvent_eq [OF ev ctx_ok_scheduler [OF c ev that]]
      clear_event_and_not [OF ctx_ok_events [OF c] ev] by simp
  ultimately show ?thesis
    by (simp add: cancelEvent_def Let_def at_usable [OF fd] epoll_log_def)
qed

lemma cancelEvent_ok:
  assumes ok: "poller_ok pl" and fd: "fd_usable fd pl" and ev: "event \<in> {EV_READ, EV_WRITE}"
    and r: "cancelEvent fd event rt pl = Inr (pl', out, b)"
  shows "poller_ok pl'"
proof -
  let ?ctx = "watched_ctx fd pl"
  note fd' = fd [unfolded fd_usable_def]
  have c: "ctx_ok (m_pipe0 pl) (interest (ctl_log pl) fd) fd ?ctx" by (rule usable_ctx_ok [OF ok fd])
  have c': "ctx_ok (m_pipe0 pl) (if (if fc_events ?ctx AND NOT event \<noteq> 0 then CTL_MOD else CTL_DEL) = CTL_DEL
        then None else Some (EPOLLET OR (fc_events ?ctx AND NOT event))) fd
      (?ctx\<lparr>fc_events := fc_events ?ctx AND NOT event\<rparr>)"
    by (rule ctx_ok_removed [OF c ev]) simp_all
  consider "pl' = pl" | "fc_events ?ctx AND event \<noteq> 0" "rt \<noteq> 0"
      "pl' = epoll_log (if fc_events ?ctx AND NOT event \<noteq> 0 then CTL_MOD else CTL_DEL) fd
               (EPOLLET OR (fc_events ?ctx AND NOT event)) rt pl"
    | "fc_events ?ctx AND event \<noteq> 0"
      "pl' = (epoll_log (if fc_events ?ctx AND NOT event \<noteq> 0 then CTL_MOD else CTL_DEL) fd
               (EPOLLET OR (fc_events ?ctx AND NOT event)) 0 pl)
        \<lparr>m_fdContexts := (m_fdContexts pl)[nat fd := ?ctx\<lparr>fc_events := fc_events ?ctx AND NOT event\<rparr>],
         m_pendingEventCount := m_pendingEventCount pl - 1\<rparr>"
    using r unfolding cancelEvent_eq [OF ok fd ev] Let_def
    by (cases "fc_events ?ctx AND event = 0"; cases "rt = 0") auto
  then show ?thesis
  proof cases
    case 1
    with ok show ?thesis by simp
  next
    case 2
    note l = removal_legal [OF ok fd 2(1) refl]
    show ?thesis unfolding 2(3) by (rule poller_ok_failed [OF ok]) (use fd' l 2 in auto)
  next
    case 3
    note l = removal_legal [OF ok fd 3(1) refl]
    show ?thesis unfolding 3(2) by (rule poller_ok_success [OF ok _ _ _ _ _ c']) (use fd' l in auto)
  qed
qed

definition ctx_del :: "u32 \<Rightarrow> 'cb fd_context \<Rightarrow> 'cb fd_context" where
  "ctx_del event ctx =
     (if event = EV_READ
      then ctx\<lparr>fc_events := fc_events ctx AND NOT event, fc_read := EventContext_new\<rparr>
      else ctx\<lparr>fc_events := fc_events ctx AND NOT event, fc_write := EventContext_new\<rparr>)"

lemma resetContext_eq [simp]: "resetContext e = EventContext_new"
  by (simp add: resetContext_def EventContext_new_def)

lemma delEvent_eq:
  assumes fd: "fd_usable fd pl" and ev: "event \<in> {EV_READ, EV_WRITE}"
  shows "delEvent fd event rt errno pl =
     (let ctx = watched_ctx fd pl;
          new_event = fc_events ctx AND NOT event;
          pl1 = epoll_log (if new_event \<noteq> 0 then CTL_MOD else CTL_DEL) fd (EPOLLET OR new_event) rt pl
      in if fc_events ctx AND event = 0 then Inr (pl, False)
         else if rt \<noteq> 0 \<and> errno \<noteq> EEXIST then Inr (pl1, False)
         else Inr (pl1\<lparr>m_fdContexts := (m_fdContexts pl)[nat fd := ctx_del event ctx],
                       m_pendingEventCount := m_pendingEventCount pl - 1\<rparr>, True))"
proof -
  have "\<not> int (length (m_fdContexts pl)) < fd" using fd by (simp add: fd_usable_def)
  moreover have "bindR (getContext event ctx) (\<lambda>e. bindR (putContext event (resetContext e)
        (ctx\<lparr>fc_events := fc_events ctx AND NOT event\<rparr>)) f) = f (ctx_del event ctx)"
    for ctx :: "'a fd_context" and f :: "'a fd_context \<Rightarrow> ('a poller \<times> bool) result"
    using ev by (auto simp: getContext_def putContext_def ctx_del_def EV_READ_def EV_WRITE_def)
  ultimately show ?thesis
    by (simp add: delEvent_def Let_def at_usable [OF fd] epoll_log_def)
qed

text \<open>
  \<open>EEXIST\<close> is an answer to \<open>ADD\<close> only, and \<open>delEvent\<close> issues \<open>MOD\<close> or \<open>DEL\<close>.
\<close>

lemma delEvent_ok:
  assumes ok: "poller_ok pl" and fd: "fd_usable fd pl" and ev: "event \<in> {EV_READ, EV_WRITE}"
    and errno: "rt \<noteq> 0 \<Longrightarrow> errno \<noteq> EEXIST"
    and r: "delEvent fd event rt errno pl = Inr (pl', b)"
  shows "poller_ok pl'"
proof -
  let ?ctx = "watched_ctx fd pl"
  let ?n = "fc_events ?ctx AND NOT event"
  let ?op = "if ?n \<noteq> 0 then CTL_MOD else CTL_DEL"
  note fd' = fd [unfolded fd_usable_def]
  have c: "ctx_ok (m_pipe0 pl) (interest (ctl_log pl) fd) fd ?ctx" by (rule usable_ctx_ok [OF ok fd])
  have c': "ctx_ok (m_pipe0 pl) (if ?op = CTL_DEL then None else Some (EPOLLET OR ?n)) fd
      (ctx_del event ?ctx)"
    by (rule ctx_ok_removed [OF c ev]) (use ev in \<open>simp_all add: ctx_del_def\<close>)
  consider "pl' = pl" | "fc_events ?ctx AND event \<noteq> 0" "rt \<noteq> 0"
      "pl' = epoll_log ?op fd (EPOLLET OR ?n) rt pl"
    | "fc_events ?ctx AND event \<noteq> 0"
      "pl' = (epoll_log ?op fd (EPOLLET OR ?n) 0 pl)
        \<lparr>m_fdContexts := (m_fdContexts pl)[nat fd := ctx_del event ?ctx],
         m_pendingEventCount := m_pendingEventCount pl - 1\<rparr>"
    using r errno unfolding delEvent_eq [OF fd ev] Let_def
    by (cases "fc_events ?ctx AND event = 0"; cases "rt = 0") auto
  then show ?thesis
  proof cases
    case 1
    with ok show ?thesis by simp
  next
    case 2
    note l = removal_legal [OF ok fd 2(1) refl]
    show ?thesis unfolding 2(3) by (rule poller_ok_failed [OF ok]) (use fd' l 2 in auto)
  next
    case 3
    note l = removal_legal [OF ok fd 3(1) refl]
    show ?thesis unfolding 3(2) by (rule poller_ok_success [OF ok _ _ _ _ _ c']) (use fd' l in auto)
  qed
qed

text \<open>
  Triggering the sides named by a mask whose bits all have a scheduler: the bits are
  cleared, the callbacks handed out, reading side first.
\<close>

definition out_of :: "u32 \<Rightarrow> 'cb fd_context \<Rightarrow> 'cb option list" where
  "out_of flags ctx =
     (if flags AND EV_READ \<noteq> 0 then [ev_cb (fc_read ctx)] else []) @
     (if flags AND EV_WRITE \<noteq> 0 then [ev_cb (fc_write ctx)] else [])"

definition n_of :: "u32 \<Rightarrow> u64" where
  "n_of flags = (if flags AND EV_READ \<noteq> 0 then 1 else 0) + (if flags AND EV_WRITE \<noteq> 0 then 1 else 0)"

lemma trigger_both:
  assumes "fc_events ctx \<in> {0, 1, 4, 5}"
    and "flags AND EV_READ \<noteq> 0 \<Longrightarrow> ev_scheduler (fc_read ctx)"
    and "flags AND EV_WRITE \<noteq> 0 \<Longrightarrow> ev_scheduler (fc_write ctx)"
    and "flags \<in> {0, 1, 4, 5}"
  shows "bindR (trigger_if flags EV_READ (ctx, n)) (\<lambda>(s1, out1).
         bindR (trigger_if flags EV_WRITE s1) (\<lambda>(s2, out2). f s2 (out1 @ out2))) =
     f (ctx\<lparr>fc_events := fc_events ctx AND NOT flags\<rparr>, n - n_of flags) (out_of flags ctx)"
proof -
  have t: "triggerEvent EV_READ c = Inr (c\<lparr>fc_events := clear_event (fc_events c) EV_READ\<rparr>, ev_cb (fc_read c))"
    if "ev_scheduler (fc_read c)" for c :: "'a fd_context"
    using that by (subst triggerEvent_eq) (simp_all add: side_def)
  have t': "triggerEvent EV_WRITE c = Inr (c\<lparr>fc_events := clear_event (fc_events c) EV_WRITE\<rparr>, ev_cb (fc_write c))"
    if "ev_scheduler (fc_write c)" for c :: "'a fd_context"
    using that by (subst triggerEvent_eq) (simp_all add: side_def EV_READ_def EV_WRITE_def)
  obtain r w i e where ctx: "ctx = \<lparr>fc_read = r, fc_write = w, fc_fd = i, fc_events = e\<rparr>"
    by (cases ctx)
  have "e = 0 \<or> e = 1 \<or> e = 4 \<or> e = 5" "flags = 0 \<or> flags = 1 \<or> flags = 4 \<or> flags = 5"
    using assms(1,4) by (auto simp: ctx)
  then show ?thesis
    using assms(2,3) unfolding ctx
    by (elim disjE) (simp_all add: trigger_if_def t [unfolded EV_READ_def] t' [unfolded EV_WRITE_def]
        out_of_def n_of_def EV_READ_def EV_WRITE_def clear_event_def)
qed

text \<open>The same for \<open>cancelAll\<close>, which reads the second bit after the first was cleared.\<close>

lemma trigger_all:
  assumes c: "ctx_ok p0 w i ctx"
  shows "bindR (trigger_if (fc_events ctx) EV_READ (ctx, n)) (\<lambda>(s1, out1).
         bindR (trigger_if (fc_events (fst s1)) EV_WRITE s1) (\<lambda>(s2, out2). f s2 (out1 @ out2))) =
     f (ctx\<lparr>fc_events := 0\<rparr>, n - n_of (fc_events ctx)) (out_of (fc_events ctx) ctx)"
proof -
  have t: "triggerEvent EV_READ c = Inr (c\<lparr>fc_events := clear_event (fc_events c) EV_READ\<rparr>, ev_cb (fc_read c))"
    if "ev_scheduler (fc_read c)" for c :: "'a fd_context"
    using that by (subst triggerEvent_eq) (simp_all add: side_def)
  have t': "triggerEvent EV_WRITE c = Inr (c\<lparr>fc_events := clear_event (fc_events c) EV_WRITE\<rparr>, ev_cb (fc_write c))"
    if "ev_scheduler (fc_write c)" for c :: "'a fd_context"
    using that by (subst triggerEvent_eq) (simp_all add: side_def EV_READ_def EV_WRITE_def)
  obtain r1 w1 i1 e where ctx: "ctx = \<lparr>fc_read = r1, fc_write = w1, fc_fd = i1, fc_events = e\<rparr>"
    by (cases ctx)
  have "e = 0 \<or> e = 1 \<or> e = 4 \<or> e = 5"
    using ctx_ok_events [OF c] by (auto simp: ctx)
  then show ?thesis
    using c unfolding ctx by (elim disjE) (simp_all add: ctx_ok_def trigger_if_def t [unfolded EV_READ_def]
        t' [unfolded EV_WRITE_def] out_of_def n_of_def EV_READ_def EV_WRITE_def clear_event_def)
qed

lemma cancelAll_eq:
  assumes ok: "poller_ok pl" and fd: "fd_usable fd pl"
  shows "cancelAll fd rt pl =
     (let ctx = watched_ctx fd pl; pl1 = epoll_log CTL_DEL fd 0 rt pl
      in Inr (if rt \<noteq> 0 then (pl1, [], False)
          else (pl1\<lparr>m_fdContexts := (m_fdContexts pl)[nat fd := ctx\<lparr>fc_events := 0\<rparr>],
                   m_pendingEventCount := m_pendingEventCount pl - n_of (fc_events ctx)\<rparr>,
                out_of (fc_events ctx) ctx, True)))"
proof -
  have "\<not> int (length (m_fdContexts pl)) < fd" using fd by (simp add: fd_usable_def)
  then show ?thesis
    by (simp add: cancelAll_def Let_def at_usable [OF fd] epoll_log_def
        trigger_all [OF usable_ctx_ok [OF ok fd], where f = "\<lambda>s2 out. Inr (pl\<lparr>ctl_log :=
          \<lparr>ctl_op = CTL_DEL, ctl_fd = fd, ctl_events = 0, ctl_rt = 0\<rparr> # ctl_log pl,
          m_fdContexts := (m_fdContexts pl)[nat fd := fst s2],
          m_pendingEventCount := snd s2\<rparr>, out, True)"])
qed

lemma cancelAll_ok:
  assumes ok: "poller_ok pl" and fd: "fd_usable fd pl"
    and r: "cancelAll fd rt pl = Inr (pl', out, b)"
  shows "poller_ok pl'"
proof -
  note fd' = fd [unfolded fd_usable_def]
  have c: "ctx_ok (m_pipe0 pl) (interest (ctl_log pl) fd) fd (watched_ctx fd pl)"
    by (rule usable_ctx_ok [OF ok fd])
  have c': "ctx_ok (m_pipe0 pl) (if CTL_DEL = CTL_DEL then None else Some 0) fd
      ((watched_ctx fd pl)\<lparr>fc_events := 0\<rparr>)"
    using c by (simp add: ctx_ok_def)
  show ?thesis
  proof (cases "rt = 0")
    case True
    then have "pl' = (epoll_log CTL_DEL fd 0 0 pl)
        \<lparr>m_fdContexts := (m_fdContexts pl)[nat fd := (watched_ctx fd pl)\<lparr>fc_events := 0\<rparr>],
         m_pendingEventCount := m_pendingEventCount pl - n_of (fc_events (watched_ctx fd pl))\<rparr>"
      using r by (simp add: cancelAll_eq [OF ok fd] Let_def)
    then show ?thesis
      by (simp only:) (rule poller_ok_success [OF ok _ _ _ _ _ c'], use fd' in auto)
  next
    case False
    then have "pl' = epoll_log CTL_DEL fd 0 rt pl"
      using r by (simp add: cancelAll_eq [OF ok fd] Let_def)
    then show ?thesis
      by (simp only:) (rule poller_ok_failed [OF ok], use fd' False in auto)
  qed
qed

text \<open>
  An event report that the loop can serve: it names a context that is not the pipe's, and
  what the loop makes of the mask is either disjoint from the registered events or
  contained in them.
\<close>

definition report_ok :: "(nat \<Rightarrow> int) \<Rightarrow> epoll_event \<Rightarrow> 'cb poller \<Rightarrow> bool" where
  "report_ok low32 ev pl \<longleftrightarrow> (case ee_data ev of
     DataFd x \<Rightarrow> x = m_pipe0 pl
   | DataPtr i \<Rightarrow> low32 i \<noteq> m_pipe0 pl \<and> fd_usable (int i) pl \<and>
       (let e = fc_events (watched_ctx (int i) pl); r = real_events (ee_events ev)
        in e AND r = 0 \<or> r AND NOT e = 0))"

lemma real_events_range: "real_events ev \<in> {0, 1, 4, 5}"
  by (simp add: real_events_def Let_def EV_NONE_def EV_READ_def EV_WRITE_def)

lemma handle_event_eq:
  assumes ok: "poller_ok pl" and rep: "report_ok low32 ev pl" and d: "ee_data ev = DataPtr i"
  shows "handle_event low32 ev rt pl =
     (let ctx = watched_ctx (int i) pl; r = real_events (ee_events ev);
          left_events = fc_events ctx AND NOT r;
          pl1 = epoll_log (if left_events \<noteq> 0 then CTL_MOD else CTL_DEL) (int i)
                   (EPOLLET OR left_events) rt pl
      in Inr (if fc_events ctx AND r = 0 then (pl, [])
          else if rt \<noteq> 0 then (pl1, [])
          else (pl1\<lparr>m_fdContexts := (m_fdContexts pl)[i := ctx\<lparr>fc_events := left_events\<rparr>],
                   m_pendingEventCount := m_pendingEventCount pl - n_of r\<rparr>, out_of r ctx)))"
proof -
  let ?ctx = "watched_ctx (int i) pl" and ?r = "real_events (ee_events ev)"
  have u: "fd_usable (int i) pl" and p: "low32 i \<noteq> m_pipe0 pl"
    and dis: "fc_events ?ctx AND ?r = 0 \<or> ?r AND NOT (fc_events ?ctx) = 0"
    using rep by (simp_all add: report_ok_def d Let_def)
  note c = usable_ctx_ok [OF ok u]
  have fdi: "fc_fd ?ctx = int i" using c by (simp add: ctx_ok_def)
  have both: "bindR (trigger_if ?r EV_READ (?ctx, n)) (\<lambda>(s1, out1).
         bindR (trigger_if ?r EV_WRITE s1) (\<lambda>(s2, out2).
           Inr (q\<lparr>m_fdContexts := cs[i := fst s2], m_pendingEventCount := snd s2\<rparr>, out1 @ out2))) =
     Inr (q\<lparr>m_fdContexts := cs[i := ?ctx\<lparr>fc_events := fc_events ?ctx AND NOT ?r\<rparr>],
            m_pendingEventCount := n - n_of ?r\<rparr>, out_of ?r ?ctx)"
    if nz: "fc_events ?ctx AND ?r \<noteq> 0" for n cs and q :: "'a poller"
  proof (subst trigger_both [OF ctx_ok_events [OF c] _ _ real_events_range, where f =
        "\<lambda>s2 out. Inr (q\<lparr>m_fdContexts := cs[i := fst s2], m_pendingEventCount := snd s2\<rparr>, out)"])
    have sub: "?r AND NOT (fc_events ?ctx) = 0" using dis nz by simp
    have e: "fc_events ?ctx = 0 \<or> fc_events ?ctx = 1 \<or> fc_events ?ctx = 4 \<or> fc_events ?ctx = 5"
      using ctx_ok_events [OF c] by auto
    have r: "?r = 0 \<or> ?r = 1 \<or> ?r = 4 \<or> ?r = 5" using real_events_range by auto
    show "?r AND EV_READ \<noteq> 0 \<Longrightarrow> ev_scheduler (fc_read ?ctx)"
      using sub e r c by (elim disjE) (simp_all add: ctx_ok_def EV_READ_def)
    show "?r AND EV_WRITE \<noteq> 0 \<Longrightarrow> ev_scheduler (fc_write ?ctx)"
      using sub e r c by (elim disjE) (simp_all add: ctx_ok_def EV_WRITE_def)
  qed simp
  have at_i: "at (m_fdContexts pl) (int i) = Inr ?ctx" by (rule at_usable [OF u])
  show ?thesis
    by (simp add: handle_event_def d data_fd_def p at_i Let_def EV_NONE_def fdi both epoll_log_def)
qed

lemma handle_event_ok:
  assumes ok: "poller_ok pl" and rep: "report_ok low32 ev pl"
    and r: "handle_event low32 ev rt pl = Inr (pl', out)"
  shows "poller_ok pl'"
proof (cases "ee_data ev")
  case (DataFd x)
  with rep r have "pl' = pl\<lparr>pipe_bytes := 0\<rparr>"
    by (simp add: report_ok_def handle_event_def data_fd_def)
  then show ?thesis using ok by (simp add: poller_ok_def)
next
  case (DataPtr i)
  let ?ctx = "watched_ctx (int i) pl" and ?r = "real_events (ee_events ev)"
  let ?left = "fc_events ?ctx AND NOT ?r"
  let ?op = "if ?left \<noteq> 0 then CTL_MOD else CTL_DEL"
  have u: "fd_usable (int i) pl"
    using rep by (simp add: report_ok_def DataPtr)
  note fd' = u [unfolded fd_usable_def]
  note c = usable_ctx_ok [OF ok u]
  have e: "fc_events ?ctx = 0 \<or> fc_events ?ctx = 1 \<or> fc_events ?ctx = 4 \<or> fc_events ?ctx = 5"
    using ctx_ok_events [OF c] by auto
  have r': "?r = 0 \<or> ?r = 1 \<or> ?r = 4 \<or> ?r = 5" using real_events_range by auto
  have c': "ctx_ok (m_pipe0 pl) (if ?op = CTL_DEL then None else Some (EPOLLET OR ?left)) (int i)
      (?ctx\<lparr>fc_events := ?left\<rparr>)"
    using e r' c by (elim disjE) (simp_all add: ctx_ok_def)
  consider "pl' = pl" | "fc_events ?ctx AND ?r \<noteq> 0" "rt \<noteq> 0"
      "pl' = epoll_log ?op (int i) (EPOLLET OR ?left) rt pl"
    | "fc_events ?ctx AND ?r \<noteq> 0"
      "pl' = (epoll_log ?op (int i) (EPOLLET OR ?left) 0 pl)
        \<lparr>m_fdContexts := (m_fdContexts pl)[nat (int i) := ?ctx\<lparr>fc_events := ?left\<rparr>],
         m_pendingEventCount := m_pendingEventCount pl - n_of ?r\<rparr>"
    using r unfolding handle_event_eq [OF ok rep DataPtr] Let_def
    by (cases "fc_events ?ctx AND ?r = 0"; cases "rt = 0") auto
  then show ?thesis
  proof cases
    case 1
    with ok show ?thesis by simp
  next
    case 2
    note l = removal_legal [OF ok u 2(1) refl]
    show ?thesis unfolding 2(3) by (rule poller_ok_failed [OF ok]) (use fd' l 2 in auto)
  next
    case 3
    note l = removal_legal [OF ok u 3(1) refl]
    show ?thesis unfolding 3(2) by (rule poller_ok_success [OF ok _ _ _ _ _ c']) (use fd' l in auto)
  qed
qed

section \<open>Operations and reachable states\<close>

text \<open>
  Everything that changes a poller, with what the kernel answers; a report of
  \<open>epoll_wait\<close> is an operation of the poller thread, \<open>TimerTick\<close> stands for a change of
  the timers.
\<close>

datatype 'cb poller_op =
    AddEvent int u32 "'cb option" int
  | DelEvent int u32 int int
  | CancelEvent int u32 int
  | CancelAll int int
  | Report epoll_event int
  | Wakeup nat
  | TimerTick "'cb timer"

definition poller_do ::
  "(nat \<Rightarrow> int) \<Rightarrow> 'cb poller_op \<Rightarrow> 'cb poller \<Rightarrow> ('cb poller \<times> 'cb option list) result" where
  "poller_do low32 op pl = (case op of
     AddEvent fd ev cb rt \<Rightarrow> bindR (addEvent fd ev cb rt pl) (\<lambda>(pl', r). Inr (pl', []))
   | DelEvent fd ev rt errno \<Rightarrow> bindR (delEvent fd ev rt errno pl) (\<lambda>(pl', b). Inr (pl', []))
   | CancelEvent fd ev rt \<Rightarrow> bindR (cancelEvent fd ev rt pl) (\<lambda>(pl', out, b). Inr (pl', out))
   | CancelAll fd rt \<Rightarrow> bindR (cancelAll fd rt pl) (\<lambda>(pl', out, b). Inr (pl', out))
   | Report ev rt \<Rightarrow> handle_event low32 ev rt pl
   | Wakeup cap \<Rightarrow> bindR (notify cap pl) (\<lambda>pl'. Inr (pl', []))
   | TimerTick t \<Rightarrow> Inr (pl\<lparr>pl_timer := t\<rparr>, []))"

text \<open>
  What clients and kernel owe: a descriptor that is not the pipe's; for \<open>addEvent\<close> not the
  one equal to the number of contexts, which the code neither grows for nor has; a pipe
  with room for a byte; reports as in \<open>report_ok\<close>.
\<close>

definition poller_op_ok :: "(nat \<Rightarrow> int) \<Rightarrow> 'cb poller_op \<Rightarrow> 'cb poller \<Rightarrow> bool" where
  "poller_op_ok low32 op pl = (case op of
     AddEvent fd ev cb rt \<Rightarrow> 0 \<le> fd \<and> fd < 2 ^ 30 \<and> fd \<noteq> int (length (m_fdContexts pl)) \<and>
        fd \<noteq> m_pipe0 pl \<and> ev \<in> {EV_READ, EV_WRITE}
   | DelEvent fd ev rt errno \<Rightarrow> fd_usable fd pl \<and> ev \<in> {EV_READ, EV_WRITE} \<and> (rt = 0 \<or> errno \<noteq> EEXIST)
   | CancelEvent fd ev rt \<Rightarrow> fd_usable fd pl \<and> ev \<in> {EV_READ, EV_WRITE}
   | CancelAll fd rt \<Rightarrow> fd_usable fd pl
   | Report ev rt \<Rightarrow> report_ok low32 ev pl
   | Wakeup cap \<Rightarrow> pipe_bytes pl < cap
   | TimerTick t \<Rightarrow> True)"

text \<open>A client that does not register an event twice.\<close>

definition op_fresh :: "'cb poller_op \<Rightarrow> 'cb poller \<Rightarrow> bool" where
  "op_fresh op pl = (case op of
     AddEvent fd ev cb rt \<Rightarrow> fd_usable fd pl \<longrightarrow> fc_events (watched_ctx fd pl) AND ev = 0
   | _ \<Rightarrow> True)"

inductive poller_step ::
  "(nat \<Rightarrow> int) \<Rightarrow> 'cb poller \<Rightarrow> 'cb poller_op \<Rightarrow> 'cb option list \<Rightarrow> 'cb poller \<Rightarrow> bool" where
  do: "poller_op_ok low32 op pl \<Longrightarrow> poller_do low32 op pl = Inr (pl', out) \<Longrightarrow>
       poller_step low32 pl op out pl'"

inductive_cases poller_stepE: "poller_step low32 pl op out pl'"

text \<open>The states a poller can reach; with \<open>fresh\<close>, without registering an event twice.\<close>

inductive poller_reach :: "bool \<Rightarrow> (nat \<Rightarrow> int) \<Rightarrow> 'cb poller \<Rightarrow> bool" for fresh low32 where
  start: "Poller_ctor rt_pipe rt_add pipe0 t = Inr pl \<Longrightarrow> poller_reach fresh low32 pl"
| step: "poller_reach fresh low32 pl \<Longrightarrow> poller_step low32 pl op out pl' \<Longrightarrow>
         (fresh \<longrightarrow> op_fresh op pl) \<Longrightarrow> poller_reach fresh low32 pl'"

lemma addEvent_grow:
  assumes "int (length (m_fdContexts pl)) < fd" and "fd < 2 ^ 30"
  shows "addEvent fd event cb rt pl =
     addEvent fd event cb rt (pl\<lparr>m_fdContexts := resize (nat (fd * 2)) (m_fdContexts pl)\<rparr>)"
  using assms by (simp add: addEvent_def)

lemma grow_usable:
  assumes "int (length (m_fdContexts pl)) < fd" and "fd \<noteq> m_pipe0 pl"
  shows "fd_usable fd (pl\<lparr>m_fdContexts := resize (nat (fd * 2)) (m_fdContexts pl)\<rparr>)"
  using assms by (simp add: fd_usable_def)

lemma grow_ok:
  "poller_ok pl \<Longrightarrow> int (length (m_fdContexts pl)) < fd \<Longrightarrow>
   poller_ok (pl\<lparr>m_fdContexts := resize (nat (fd * 2)) (m_fdContexts pl)\<rparr>)"
  by (rule poller_ok_resize) (auto simp: nat_mult_distrib)

lemma usable_or_grow:
  assumes "0 \<le> fd" and "fd \<noteq> int (length (m_fdContexts pl))" and "fd \<noteq> m_pipe0 pl"
  obtains (usable) "fd_usable fd pl" | (grow) "int (length (m_fdContexts pl)) < fd"
  using assms by (fastforce simp: fd_usable_def)

lemma poller_do_ok:
  assumes ok: "poller_ok pl" and val: "poller_op_ok low32 op pl"
    and r: "poller_do low32 op pl = Inr (pl', out)"
  shows "poller_ok pl'"
proof (cases op)
  case (AddEvent fd ev cb rt)
  from r obtain b where a: "addEvent fd ev cb rt pl = Inr (pl', b)"
    by (auto simp: AddEvent poller_do_def bindR_eq_Inr)
  have v: "0 \<le> fd" "fd < 2 ^ 30" "fd \<noteq> int (length (m_fdContexts pl))" "fd \<noteq> m_pipe0 pl"
    "ev \<in> {EV_READ, EV_WRITE}"
    using val by (simp_all add: AddEvent poller_op_ok_def)
  show ?thesis
  proof (rule usable_or_grow [OF v(1,3,4)])
    assume "fd_usable fd pl"
    then show ?thesis by (rule addEvent_ok [OF ok _ v(5) a])
  next
    assume g: "int (length (m_fdContexts pl)) < fd"
    show ?thesis
      by (rule addEvent_ok [OF grow_ok [OF ok g] grow_usable [OF g v(4)] v(5)
            a [unfolded addEvent_grow [OF g v(2)]]])
  qed
next
  case (DelEvent fd ev rt errno)
  with r val show ?thesis
    by (auto simp: poller_do_def poller_op_ok_def bindR_eq_Inr elim!: delEvent_ok [OF ok, rotated -1])
next
  case (CancelEvent fd ev rt)
  with r val show ?thesis
    by (auto simp: poller_do_def poller_op_ok_def bindR_eq_Inr elim!: cancelEvent_ok [OF ok, rotated -1])
next
  case (CancelAll fd rt)
  with r val show ?thesis
    by (auto simp: poller_do_def poller_op_ok_def bindR_eq_Inr elim!: cancelAll_ok [OF ok, rotated -1])
next
  case (Report ev rt)
  with r val show ?thesis
    by (auto simp: poller_do_def poller_op_ok_def elim!: handle_event_ok [OF ok, rotated -1])
next
  case (Wakeup cap)
  with r val ok show ?thesis
    by (auto simp: poller_do_def poller_op_ok_def notify_def poller_ok_def)
next
  case (TimerTick t)
  with r ok show ?thesis by (auto simp: poller_do_def poller_ok_def)
qed

text \<open>In a good state a valid operation succeeds.\<close>

lemma poller_do_total:
  assumes ok: "poller_ok pl" and val: "poller_op_ok low32 op pl"
  shows "\<exists>pl' out. poller_do low32 op pl = Inr (pl', out)"
proof (cases op)
  case (AddEvent fd ev cb rt)
  have v: "0 \<le> fd" "fd < 2 ^ 30" "fd \<noteq> int (length (m_fdContexts pl))" "fd \<noteq> m_pipe0 pl"
    "ev \<in> {EV_READ, EV_WRITE}"
    using val by (simp_all add: AddEvent poller_op_ok_def)
  have "\<exists>pl' b. addEvent fd ev cb rt pl = Inr (pl', b)"
  proof (rule usable_or_grow [OF v(1,3,4)])
    assume "fd_usable fd pl"
    then show ?thesis using v(5) by (simp add: addEvent_eq Let_def)
  next
    assume g: "int (length (m_fdContexts pl)) < fd"
    show ?thesis
      using addEvent_eq [OF grow_usable [OF g v(4)] v(5)] by (simp add: addEvent_grow [OF g v(2)] Let_def)
  qed
  then show ?thesis by (auto simp: AddEvent poller_do_def)
next
  case (DelEvent fd ev rt errno)
  with val show ?thesis by (auto simp: poller_do_def poller_op_ok_def delEvent_eq Let_def)
next
  case (CancelEvent fd ev rt)
  with val show ?thesis by (auto simp: poller_do_def poller_op_ok_def cancelEvent_eq [OF ok] Let_def)
next
  case (CancelAll fd rt)
  with val show ?thesis by (auto simp: poller_do_def poller_op_ok_def cancelAll_eq [OF ok] Let_def)
next
  case (Report ev rt)
  show ?thesis
  proof (cases "ee_data ev")
    case (DataFd x)
    with Report val show ?thesis
      by (auto simp: poller_do_def poller_op_ok_def report_ok_def handle_event_def data_fd_def)
  next
    case (DataPtr i)
    with Report val show ?thesis
      by (auto simp: poller_do_def poller_op_ok_def handle_event_eq [OF ok _ DataPtr] Let_def)
  qed
next
  case (Wakeup cap)
  with val show ?thesis by (simp add: poller_do_def poller_op_ok_def notify_def)
next
  case (TimerTick t)
  then show ?thesis by (simp add: poller_do_def)
qed

lemma Poller_ctor_ok: "Poller_ctor rt_pipe rt_add pipe0 t = Inr pl \<Longrightarrow> poller_ok pl"
  by (auto simp: Poller_ctor_def poller_ok_def epoll_log_def nth_resize ctx_ok_def FdContext_new_def
      EV_NONE_def split: if_splits)

lemma poller_reach_ok: "poller_reach fresh low32 pl \<Longrightarrow> poller_ok pl"
proof (induction rule: poller_reach.induct)
  case (start rt_pipe rt_add pipe0 t pl)
  then show ?case by (rule Poller_ctor_ok)
next
  case (step pl op out pl')
  then show ?case by (auto elim!: poller_stepE dest: poller_do_ok)
qed

text \<open>The number of registered events, and what an operation does to it.\<close>

definition registered :: "'cb fd_context list \<Rightarrow> u64" where
  "registered cs = sum_list (map (\<lambda>c. n_of (fc_events c)) cs)"

lemma registered_update:
  assumes "i < length cs"
  shows "registered (cs[i := c]) = registered cs - n_of (fc_events (cs ! i)) + n_of (fc_events c)"
proof -
  have "cs = take i cs @ cs ! i # drop (Suc i) cs" using assms by (rule id_take_nth_drop)
  then have "registered cs = sum_list (map (\<lambda>c. n_of (fc_events c)) (take i cs)) +
      (n_of (fc_events (cs ! i)) + sum_list (map (\<lambda>c. n_of (fc_events c)) (drop (Suc i) cs)))"
    unfolding registered_def
    by (metis (no_types, lifting) list.simps(9) map_append sum_list.Cons sum_list_append)
  then show ?thesis
    using assms by (simp add: registered_def upd_conv_take_nth_drop)
qed

lemma registered_resize:
  "length cs \<le> n \<Longrightarrow> registered (resize n cs) = registered cs"
  by (simp add: registered_def resize_def FdContext_new_def EV_NONE_def n_of_def o_def)

lemma n_of_add:
  "e \<in> {0, 1, 4, 5} \<Longrightarrow> event \<in> {EV_READ, EV_WRITE} \<Longrightarrow> e AND event = 0 \<Longrightarrow>
   n_of (e OR event) = n_of e + 1"
  by (auto simp: n_of_def EV_READ_def EV_WRITE_def)

lemma n_of_remove:
  "e \<in> {0, 1, 4, 5} \<Longrightarrow> event \<in> {EV_READ, EV_WRITE} \<Longrightarrow> e AND event \<noteq> 0 \<Longrightarrow>
   n_of (e AND NOT event) = n_of e - 1"
  by (auto simp: n_of_def EV_READ_def EV_WRITE_def)

lemma n_of_subset:
  assumes "e \<in> {0, 1, 4, 5}" and "r \<in> {0, 1, 4, 5}" and "r AND NOT e = 0"
  shows "n_of (e AND NOT r) = n_of e - n_of r"
proof -
  have "e = 0 \<or> e = 1 \<or> e = 4 \<or> e = 5" "r = 0 \<or> r = 1 \<or> r = 4 \<or> r = 5"
    using assms by auto
  then show ?thesis
    using assms(3) by (elim disjE) (simp_all add: n_of_def EV_READ_def EV_WRITE_def)
qed

lemma n_of_0 [simp]: "n_of 0 = 0"
  by (simp add: n_of_def)

definition pending_ok :: "'cb poller \<Rightarrow> bool" where
  "pending_ok pl \<longleftrightarrow> m_pendingEventCount pl = registered (m_fdContexts pl)"

lemma pending_ok_update:
  assumes "pending_ok pl" and "i < length (m_fdContexts pl)"
    and "n_of (fc_events c) = n_of (fc_events (m_fdContexts pl ! i)) + d"
    and "m_fdContexts pl' = (m_fdContexts pl)[i := c]"
    and "m_pendingEventCount pl' = m_pendingEventCount pl + d"
  shows "pending_ok pl'"
  using assms by (simp add: pending_ok_def registered_update)

lemma pending_ok_same:
  "pending_ok pl \<Longrightarrow> m_fdContexts pl' = m_fdContexts pl \<Longrightarrow>
   m_pendingEventCount pl' = m_pendingEventCount pl \<Longrightarrow> pending_ok pl'"
  by (simp add: pending_ok_def)

lemma epoll_log_fields [simp]:
  "m_fdContexts (epoll_log op fd ev rt pl) = m_fdContexts pl"
  "m_pendingEventCount (epoll_log op fd ev rt pl) = m_pendingEventCount pl"
  "m_pipe0 (epoll_log op fd ev rt pl) = m_pipe0 pl"
  "pl_timer (epoll_log op fd ev rt pl) = pl_timer pl"
  "pipe_bytes (epoll_log op fd ev rt pl) = pipe_bytes pl"
  by (simp_all add: epoll_log_def)

lemma addEvent_pending:
  assumes ok: "poller_ok pl" and p: "pending_ok pl" and fd: "fd_usable fd pl"
    and ev: "event \<in> {EV_READ, EV_WRITE}" and fr: "fc_events (watched_ctx fd pl) AND event = 0"
    and r: "addEvent fd event cb rt pl = Inr (pl', b)"
  shows "pending_ok pl'"
proof (cases "rt = 0")
  case True
  have n: "n_of (fc_events (ctx_add event cb (watched_ctx fd pl))) = n_of (fc_events (watched_ctx fd pl)) + 1"
    using n_of_add [OF ctx_ok_events [OF usable_ctx_ok [OF ok fd]] ev fr] by simp
  show ?thesis
    by (rule pending_ok_update [OF p, where i = "nat fd" and d = 1])
      (use r True fd n in \<open>auto simp: addEvent_eq [OF fd ev] Let_def fd_usable_def watched_ctx_def\<close>)
next
  case False
  with r p show ?thesis by (auto simp: addEvent_eq [OF fd ev] Let_def pending_ok_def)
qed

lemma poller_do_pending:
  assumes ok: "poller_ok pl" and p: "pending_ok pl" and val: "poller_op_ok low32 op pl"
    and fr: "op_fresh op pl" and r: "poller_do low32 op pl = Inr (pl', out)"
  shows "pending_ok pl'"
proof (cases op)
  case (AddEvent fd ev cb rt)
  from r obtain b where a: "addEvent fd ev cb rt pl = Inr (pl', b)"
    by (auto simp: AddEvent poller_do_def bindR_eq_Inr)
  have v: "0 \<le> fd" "fd < 2 ^ 30" "fd \<noteq> int (length (m_fdContexts pl))" "fd \<noteq> m_pipe0 pl"
    "ev \<in> {EV_READ, EV_WRITE}"
    using val by (simp_all add: AddEvent poller_op_ok_def)
  show ?thesis
  proof (rule usable_or_grow [OF v(1,3,4)])
    assume u: "fd_usable fd pl"
    with fr show ?thesis
      by (intro addEvent_pending [OF ok p u v(5) _ a]) (simp add: op_fresh_def AddEvent)
  next
    assume g: "int (length (m_fdContexts pl)) < fd"
    let ?pl = "pl\<lparr>m_fdContexts := resize (nat (fd * 2)) (m_fdContexts pl)\<rparr>"
    have "pending_ok ?pl" using p g by (simp add: pending_ok_def registered_resize nat_mult_distrib)
    moreover have "fc_events (watched_ctx fd ?pl) = 0"
    proof -
      have "nat fd < nat (fd * 2)" "\<not> nat fd < length (m_fdContexts pl)" using g by linarith+
      then show ?thesis by (simp add: watched_ctx_def nth_resize FdContext_new_def EV_NONE_def)
    qed
    ultimately show ?thesis
      using addEvent_pending [OF grow_ok [OF ok g] _ grow_usable [OF g v(4)] v(5) _
            a [unfolded addEvent_grow [OF g v(2)]]] by simp
  qed
next
  case (DelEvent fd ev rt errno)
  then have fd: "fd_usable fd pl" and ev: "ev \<in> {EV_READ, EV_WRITE}" and e: "rt = 0 \<or> errno \<noteq> EEXIST"
    using val by (simp_all add: poller_op_ok_def)
  note n = n_of_remove [OF ctx_ok_events [OF usable_ctx_ok [OF ok fd]] ev]
  obtain b where d: "delEvent fd ev rt errno pl = Inr (pl', b)"
    using r by (auto simp: DelEvent poller_do_def bindR_eq_Inr)
  show ?thesis
  proof (cases "fc_events (watched_ctx fd pl) AND ev \<noteq> 0 \<and> rt = 0")
    case True
    show ?thesis
      by (rule pending_ok_update [OF p, where i = "nat fd" and d = "- 1" and
            c = "ctx_del ev (watched_ctx fd pl)"])
        (use d True fd n e in \<open>auto simp: delEvent_eq [OF fd ev] Let_def fd_usable_def
            watched_ctx_def ctx_del_def\<close>)
  next
    case False
    with d e show ?thesis
      by (intro pending_ok_same [OF p]) (auto simp: delEvent_eq [OF fd ev] Let_def split: if_splits)
  qed
next
  case (CancelEvent fd ev rt)
  then have fd: "fd_usable fd pl" and ev: "ev \<in> {EV_READ, EV_WRITE}"
    using val by (simp_all add: poller_op_ok_def)
  note n = n_of_remove [OF ctx_ok_events [OF usable_ctx_ok [OF ok fd]] ev]
  obtain o' b where d: "cancelEvent fd ev rt pl = Inr (pl', o', b)"
    using r by (auto simp: CancelEvent poller_do_def bindR_eq_Inr)
  show ?thesis
  proof (cases "fc_events (watched_ctx fd pl) AND ev \<noteq> 0 \<and> rt = 0")
    case True
    show ?thesis
      by (rule pending_ok_update [OF p, where i = "nat fd" and d = "- 1" and
            c = "(watched_ctx fd pl)\<lparr>fc_events := fc_events (watched_ctx fd pl) AND NOT ev\<rparr>"])
        (use d True fd n in \<open>auto simp: cancelEvent_eq [OF ok fd ev] Let_def fd_usable_def
            watched_ctx_def\<close>)
  next
    case False
    with d show ?thesis
      by (intro pending_ok_same [OF p]) (auto simp: cancelEvent_eq [OF ok fd ev] Let_def split: if_splits)
  qed
next
  case (CancelAll fd rt)
  then have fd: "fd_usable fd pl"
    using val by (simp add: poller_op_ok_def)
  obtain o' b where d: "cancelAll fd rt pl = Inr (pl', o', b)"
    using r by (auto simp: CancelAll poller_do_def bindR_eq_Inr)
  show ?thesis
  proof (cases "rt = 0")
    case True
    show ?thesis
      by (rule pending_ok_update [OF p, where i = "nat fd" and d = "- n_of (fc_events (watched_ctx fd pl))" and
            c = "(watched_ctx fd pl)\<lparr>fc_events := 0\<rparr>"])
        (use d True fd in \<open>auto simp: cancelAll_eq [OF ok fd] Let_def fd_usable_def watched_ctx_def\<close>)
  next
    case False
    with d show ?thesis
      by (intro pending_ok_same [OF p]) (auto simp: cancelAll_eq [OF ok fd] Let_def)
  qed
next
  case (Report ev rt)
  then have rep: "report_ok low32 ev pl" and h: "handle_event low32 ev rt pl = Inr (pl', out)"
    using val r by (simp_all add: poller_op_ok_def poller_do_def)
  show ?thesis
  proof (cases "ee_data ev")
    case (DataFd x)
    with rep h show ?thesis
      by (intro pending_ok_same [OF p]) (auto simp: report_ok_def handle_event_def data_fd_def)
  next
    case (DataPtr i)
    let ?ctx = "watched_ctx (int i) pl" and ?r = "real_events (ee_events ev)"
    have u: "fd_usable (int i) pl" and sub: "fc_events ?ctx AND ?r = 0 \<or> ?r AND NOT (fc_events ?ctx) = 0"
      using rep by (simp_all add: report_ok_def DataPtr Let_def)
    note n = n_of_subset [OF ctx_ok_events [OF usable_ctx_ok [OF ok u]] real_events_range]
    note h' = h [unfolded handle_event_eq [OF ok rep DataPtr] Let_def]
    show ?thesis
    proof (cases "fc_events ?ctx AND ?r \<noteq> 0 \<and> rt = 0")
      case True
      show ?thesis
        by (rule pending_ok_update [OF p, where i = i and d = "- n_of ?r" and
              c = "?ctx\<lparr>fc_events := fc_events ?ctx AND NOT ?r\<rparr>"])
          (use h' True u sub n in \<open>auto simp: fd_usable_def watched_ctx_def\<close>)
    next
      case False
      with h' show ?thesis by (intro pending_ok_same [OF p]) (auto split: if_splits)
    qed
  qed
next
  case (Wakeup cap)
  with r show ?thesis
    by (intro pending_ok_same [OF p]) (auto simp: poller_do_def notify_def Let_def split: if_splits)
next
  case (TimerTick t)
  with r show ?thesis by (intro pending_ok_same [OF p]) (auto simp: poller_do_def)
qed

lemma Poller_ctor_pending: "Poller_ctor rt_pipe rt_add pipe0 t = Inr pl \<Longrightarrow> pending_ok pl"
  by (auto simp: Poller_ctor_def pending_ok_def epoll_log_def registered_def resize_def n_of_def
      FdContext_new_def EV_NONE_def o_def split: if_splits)

section \<open>A concrete poller\<close>

definition demo_poller :: "nat poller" where
  "demo_poller = projr (Poller_ctor 0 0 3 (Timer_ctor (\<lambda>_. TimerTask_ctor None 0 False 0) 0))"

definition demo_read :: "nat poller" where
  "demo_read = fst (projr (addEvent 5 EV_READ (Some 7) 0 demo_poller))"

lemma demo_poller_eq: "Poller_ctor 0 0 3 (Timer_ctor (\<lambda>_. TimerTask_ctor None 0 False 0) 0) = Inr demo_poller"
  by (simp add: demo_poller_def Poller_ctor_def)

lemma demo_poller_fields [simp]:
  "m_fdContexts demo_poller = resize 64 []" "m_pipe0 demo_poller = 3" "pipe_bytes demo_poller = 0"
  "m_pendingEventCount demo_poller = 0"
  by (simp_all add: demo_poller_def Poller_ctor_def epoll_log_def)

lemma demo_usable: "0 \<le> fd \<Longrightarrow> fd < 64 \<Longrightarrow> fd \<noteq> 3 \<Longrightarrow> fd_usable fd demo_poller"
  by (simp add: fd_usable_def)

lemma demo_watched: "0 \<le> fd \<Longrightarrow> fd < 64 \<Longrightarrow> watched_ctx fd demo_poller = FdContext_new fd"
  by (simp add: watched_ctx_def nth_resize)

lemma demo_read_eq: "addEvent 5 EV_READ (Some 7) 0 demo_poller = Inr (demo_read, 0)"
  by (simp add: demo_read_def addEvent_eq [OF demo_usable] Let_def)

lemma demo_read_fields [simp]:
  "m_fdContexts demo_read = (resize 64 [])[5 := (FdContext_new 5)\<lparr>fc_events := 1,
      fc_read := \<lparr>ev_scheduler = True, ev_cb = Some 7\<rparr>\<rparr>]"
  "m_pipe0 demo_read = 3" "pipe_bytes demo_read = 0"
  by (simp_all add: demo_read_def addEvent_eq [OF demo_usable] Let_def demo_watched
      ctx_add_def EV_READ_def EV_NONE_def FdContext_new_def)

lemma demo_read_watched: "watched_ctx 5 demo_read = (FdContext_new 5)\<lparr>fc_events := 1,
      fc_read := \<lparr>ev_scheduler = True, ev_cb = Some 7\<rparr>\<rparr>"
  by (simp add: watched_ctx_def)

lemma demo_reach: "poller_reach fresh low32 demo_poller"
  by (rule poller_reach.start [OF demo_poller_eq])

lemma demo_read_reach: "poller_reach fresh low32 demo_read"
proof (rule poller_reach.step [OF demo_reach])
  show "poller_step low32 demo_poller (AddEvent 5 EV_READ (Some 7) 0) [] demo_read"
    by (rule poller_step.do) (simp_all add: poller_op_ok_def poller_do_def demo_read_eq)
  show "fresh \<longrightarrow> op_fresh (AddEvent 5 EV_READ (Some 7) 0) demo_poller"
    by (simp add: op_fresh_def demo_watched FdContext_new_def EV_NONE_def)
qed

section \<open>Properties\<close>





text \<open>
  As long as clients do not register an event that is already registered,
  \<open>m_pendingEventCount\<close> is exactly the number of registered events.
\<close>

theorem pending_count_exact:
  assumes "poller_reach True low32 pl"
  shows "m_pendingEventCount pl = registered (m_fdContexts pl)"
proof -
  from assms have "poller_ok pl \<and> pending_ok pl"
  proof (induction rule: poller_reach.induct)
    case (start rt_pipe rt_add pipe0 t pl)
    then show ?case by (simp add: Poller_ctor_ok Poller_ctor_pending)
  next
    case (step pl op out pl')
    then show ?case by (auto elim!: poller_stepE dest: poller_do_ok poller_do_pending)
  qed
  then show ?thesis by (simp add: pending_ok_def)
qed

lemma pending_count_exact_witness:
  "m_pendingEventCount demo_read = registered (m_fdContexts demo_read)"
  by (rule pending_count_exact [OF demo_read_reach [of True int]])

text \<open>Registering an event twice counts it twice.\<close>

lemma readd_overcounts:
  assumes "poller_ok pl" and "fd_usable fd pl" and "event \<in> {EV_READ, EV_WRITE}"
    and "fc_events (watched_ctx fd pl) AND event \<noteq> 0"
    and "addEvent fd event cb 0 pl = Inr (pl', r)"
  shows "registered (m_fdContexts pl') = registered (m_fdContexts pl) \<and>
    m_pendingEventCount pl' = m_pendingEventCount pl + 1"
proof -
  have "fc_events (watched_ctx fd pl) = 0 \<or> fc_events (watched_ctx fd pl) = 1 \<or>
      fc_events (watched_ctx fd pl) = 4 \<or> fc_events (watched_ctx fd pl) = 5"
    using ctx_ok_events [OF usable_ctx_ok [OF assms(1,2)]] by auto
  then have "fc_events (watched_ctx fd pl) OR event = fc_events (watched_ctx fd pl)"
    using assms(3,4) by (elim disjE) (auto simp: EV_READ_def EV_WRITE_def)
  then show ?thesis
    using assms(2,5) by (auto simp: addEvent_eq [OF assms(2,3)] Let_def fd_usable_def
        registered_update watched_ctx_def)
qed

text \<open>
  Registering an event that was not registered and then cancelling it runs its callback
  in exactly one fiber, and leaves the registered events and the pending count as they were.
\<close>

theorem add_then_cancel:
  assumes "poller_reach fresh low32 pl" and "fd_usable fd pl" and "event \<in> {EV_READ, EV_WRITE}"
    and "fc_events (watched_ctx fd pl) AND event = 0"
    and "addEvent fd event cb 0 pl = Inr (pl1, 0)"
    and "cancelEvent fd event 0 pl1 = Inr (pl2, out, cancelled)"
  shows "cancelled \<and> out = [cb] \<and> m_pendingEventCount pl2 = m_pendingEventCount pl \<and>
    map fc_events (m_fdContexts pl2) = map fc_events (m_fdContexts pl) \<and>
    interest (ctl_log pl2) fd = interest (ctl_log pl) fd"
proof -
  have ok: "poller_ok pl" by (rule poller_reach_ok [OF assms(1)])
  have ok1: "poller_ok pl1" by (rule addEvent_ok [OF ok assms(2,3,5)])
  have u1: "fd_usable fd pl1" and w1: "watched_ctx fd pl1 = ctx_add event cb (watched_ctx fd pl)"
    and m1: "m_fdContexts pl1 = (m_fdContexts pl)[nat fd := ctx_add event cb (watched_ctx fd pl)]"
    and p1: "m_pendingEventCount pl1 = m_pendingEventCount pl + 1"
    using assms(2,5) by (auto simp: addEvent_eq [OF assms(2,3)] Let_def fd_usable_def watched_ctx_def)
  let ?e = "fc_events (watched_ctx fd pl)"
  have e: "?e = 0 \<or> ?e = 1 \<or> ?e = 4 \<or> ?e = 5"
    using ctx_ok_events [OF usable_ctx_ok [OF ok assms(2)]] by auto
  have b: "fc_events (ctx_add event cb (watched_ctx fd pl)) AND event \<noteq> 0"
    "fc_events (ctx_add event cb (watched_ctx fd pl)) AND NOT event = ?e"
    "ev_cb (side event (ctx_add event cb (watched_ctx fd pl))) = cb"
    using e assms(3,4) by (elim disjE; auto simp: ctx_add_def side_def EV_READ_def EV_WRITE_def)+
  have c: "cancelled" "out = [cb]"
    "m_fdContexts pl2 = (m_fdContexts pl1)[nat fd := (watched_ctx fd pl1)\<lparr>fc_events := ?e\<rparr>]"
    "m_pendingEventCount pl2 = m_pendingEventCount pl1 - 1"
    using assms(6) b by (auto simp: cancelEvent_eq [OF ok1 u1 assms(3)] Let_def w1)
  have ok2: "poller_ok pl2" by (rule cancelEvent_ok [OF ok1 u1 assms(3,6)])
  have m2: "m_fdContexts pl2 = (m_fdContexts pl)[nat fd := (watched_ctx fd pl1)\<lparr>fc_events := ?e\<rparr>]"
    by (simp add: c(3) m1)
  have p: "m_pipe0 pl2 = m_pipe0 pl"
    using assms(5,6) b by (auto simp: addEvent_eq [OF assms(2,3)] cancelEvent_eq [OF ok1 u1 assms(3)] Let_def w1)
  have u2: "fd_usable fd pl2" using assms(2) by (simp add: fd_usable_def m2 p)
  have "fc_events (watched_ctx fd pl2) = ?e"
  proof -
    have "nat fd < length (m_fdContexts pl)" using assms(2) by (auto simp: fd_usable_def)
    then show ?thesis by (simp add: watched_ctx_def m2)
  qed
  then have "interest (ctl_log pl2) fd = interest (ctl_log pl) fd"
    by (simp add: usable_interest [OF ok2 u2] usable_interest [OF ok assms(2)])
  moreover have "map fc_events (m_fdContexts pl2) = map fc_events (m_fdContexts pl)"
  proof -
    have "nat fd < length (m_fdContexts pl)" using assms(2) by (auto simp: fd_usable_def)
    then show ?thesis
      by (intro nth_equalityI) (simp_all add: m2 nth_list_update watched_ctx_def)
  qed
  ultimately show ?thesis using c p1 by simp
qed

lemma add_then_cancel_witness:
  "\<exists>pl2. cancelEvent 5 EV_READ 0 demo_read = Inr (pl2, [Some 7], True) \<and>
     map fc_events (m_fdContexts pl2) = map fc_events (m_fdContexts demo_poller)"
proof -
  have u: "fd_usable 5 demo_read" by (simp add: fd_usable_def)
  obtain pl2 out b where c: "cancelEvent 5 EV_READ 0 demo_read = Inr (pl2, out, b)"
    using cancelEvent_eq [OF poller_reach_ok [OF demo_read_reach] u, of EV_READ 0]
    by (simp add: Let_def demo_read_watched EV_READ_def)
  have "b \<and> out = [Some 7] \<and> m_pendingEventCount pl2 = m_pendingEventCount demo_poller \<and>
    map fc_events (m_fdContexts pl2) = map fc_events (m_fdContexts demo_poller) \<and>
    interest (ctl_log pl2) 5 = interest (ctl_log demo_poller) 5"
    by (rule add_then_cancel [OF demo_reach _ _ _ demo_read_eq c])
      (simp_all add: demo_usable demo_watched FdContext_new_def EV_NONE_def)
  with c show ?thesis by (intro exI [of _ pl2] conjI) simp_all
qed

text \<open>
  The loop tests \<open>EPOLLOUT\<close> for \<open>READ\<close> and \<open>EPOLLIN\<close> for \<open>WRITE\<close>: when the kernel reports
  a descriptor readable, with no error and no hang-up, and only \<open>READ\<close> is registered, the
  loop creates no fiber and leaves the registration as it is; the waiting callback is lost
  until another report.
\<close>

theorem readable_report_ignored:
  assumes "poller_reach fresh low32 pl" and "fd_usable (int i) pl" and "low32 i \<noteq> m_pipe0 pl"
    and "fc_events (watched_ctx (int i) pl) = EV_READ"
    and "event AND EPOLLOUT = 0" and "event AND (EPOLLERR OR EPOLLHUP) = 0"
  shows "handle_event low32 \<lparr>ee_events = event, ee_data = DataPtr i\<rparr> rt pl = Inr (pl, [])"
proof -
  have r: "real_events event AND EV_READ = 0"
    using assms(5,6) by (simp add: real_events_def Let_def EV_NONE_def EV_READ_def EV_WRITE_def)
  have ok: "poller_ok pl" by (rule poller_reach_ok [OF assms(1)])
  have rep: "report_ok low32 \<lparr>ee_events = event, ee_data = DataPtr i\<rparr> pl"
    using assms(2-4) r by (simp add: report_ok_def Let_def and.commute)
  show ?thesis
    using handle_event_eq [OF ok rep, of i rt] assms(4) r by (simp add: Let_def and.commute)
qed

lemma readable_report_ignored_witness:
  "handle_event (\<lambda>_. 99) \<lparr>ee_events = EPOLLIN, ee_data = DataPtr 5\<rparr> 0 demo_read = Inr (demo_read, [])"
  by (rule readable_report_ignored [OF demo_read_reach])
    (simp_all add: fd_usable_def demo_read_watched event_consts)

lemma and_of_subset:
  fixes event :: u32
  assumes "event AND NOT s = 0" and "s AND m = 0"
  shows "event AND m = 0"
proof -
  have "bit event n \<longrightarrow> bit s n" if "n < 32" for n
    using assms(1) that by (simp add: bit_eq_iff bit_simps)
  with assms(2) show ?thesis by (auto simp: bit_eq_iff bit_simps)
qed

lemma one_sided_report:
  assumes "poller_reach fresh low32 pl" and "fd_usable (int i) pl" and "low32 i \<noteq> m_pipe0 pl"
    and "fc_events (watched_ctx (int i) pl) = s" and "s = EV_READ \<or> s = EV_WRITE"
    and "ee_data ev = DataPtr i" and "ee_events ev AND NOT s = 0"
  shows "handle_event low32 ev rt pl = Inr (pl, [])"
proof -
  have q: "ee_events ev AND (EPOLLERR OR EPOLLHUP) = 0"
    using assms(5) by (intro and_of_subset [OF assms(7)]) (auto simp: event_consts)
  have o: "s = EV_READ \<longrightarrow> ee_events ev AND EPOLLOUT = 0" "s = EV_WRITE \<longrightarrow> ee_events ev AND EPOLLIN = 0"
    using and_of_subset [OF assms(7)] by (auto simp: event_consts)
  have r: "s AND real_events (ee_events ev) = 0"
    using assms(5) q o by (auto simp: real_events_def Let_def EV_NONE_def EV_READ_def EV_WRITE_def)
  have ok: "poller_ok pl" by (rule poller_reach_ok [OF assms(1)])
  have rep: "report_ok low32 ev pl" using assms(2-4,6) r by (simp add: report_ok_def Let_def)
  show ?thesis using handle_event_eq [OF ok rep assms(6), of rt] assms(4) r by (simp add: Let_def)
qed

text \<open>
  C23: nobody who waits for one side of a descriptor is woken by it. In every state the poller can
  reach, when exactly one of \<open>READ\<close> and \<open>WRITE\<close> is registered, so that the kernel watches
  \<open>EPOLLIN\<close> or \<open>EPOLLOUT\<close> alone, any number of reports of what it watches creates no fiber and
  changes nothing: the loop takes \<open>EPOLLIN\<close> for \<open>WRITE\<close> and \<open>EPOLLOUT\<close> for \<open>READ\<close>. Only an error, a
  hang-up or a timer ends such a wait.
\<close>

theorem one_sided_never_woken:
  assumes "poller_reach fresh low32 pl" and "fd_usable (int i) pl" and "low32 i \<noteq> m_pipe0 pl"
    and "fc_events (watched_ctx (int i) pl) = s" and "s = EV_READ \<or> s = EV_WRITE"
    and "\<And>ev rt. (ev, rt) \<in> set evs \<Longrightarrow> ee_data ev = DataPtr i \<and> ee_events ev AND NOT s = 0"
  shows "handle_events low32 evs pl = Inr (pl, [])"
  using assms(6)
proof (induction evs)
  case (Cons x evs)
  obtain ev rt where x: "x = (ev, rt)" by (cases x)
  have "handle_event low32 ev rt pl = Inr (pl, [])"
    by (rule one_sided_report [OF assms(1-5)]) (use Cons.prems [of ev rt] x in auto)
  moreover have "handle_events low32 evs pl = Inr (pl, [])"
    by (rule Cons.IH) (use Cons.prems in auto)
  ultimately show ?case by (simp add: x)
qed simp

lemma one_sided_never_woken_witness:
  "handle_events (\<lambda>_. 99) [(\<lparr>ee_events = EPOLLIN, ee_data = DataPtr 5\<rparr>, 0), (\<lparr>ee_events = EPOLLIN, ee_data = DataPtr 5\<rparr>, 0)]
     demo_read = Inr (demo_read, [])"
  by (rule one_sided_never_woken [OF demo_read_reach, of 5 _ EV_READ])
    (auto simp: fd_usable_def demo_read_watched event_consts)

text \<open>
  An error or hang-up, which the kernel reports for every watched descriptor, makes the
  loop trigger both sides whether they are registered or not: if only \<open>READ\<close> is registered
  and the other side was never used, the loop calls through a null scheduler.
\<close>

theorem hangup_null_scheduler:
  assumes "poller_reach fresh low32 pl" and "fd_usable (int i) pl" and "low32 i \<noteq> m_pipe0 pl"
    and "fc_events (watched_ctx (int i) pl) = EV_READ"
    and "\<not> ev_scheduler (fc_write (watched_ctx (int i) pl))"
    and "event AND EPOLLHUP \<noteq> 0"
  shows "handle_event low32 \<lparr>ee_events = event, ee_data = DataPtr i\<rparr> 0 pl = Inl NullDeref"
proof -
  have ok: "poller_ok pl" by (rule poller_reach_ok [OF assms(1)])
  have rd: "ev_scheduler (fc_read (watched_ctx (int i) pl))"
    using usable_ctx_ok [OF ok assms(2)] assms(4) by (simp add: ctx_ok_def EV_READ_def)
  have h: "event AND (EPOLLERR OR EPOLLHUP) \<noteq> 0"
  proof
    assume "event AND (EPOLLERR OR EPOLLHUP) = 0"
    moreover have "(event AND (EPOLLERR OR EPOLLHUP)) AND EPOLLHUP = event AND EPOLLHUP"
      by (simp add: and.assoc event_consts)
    ultimately show False using assms(6) by simp
  qed
  have o: "(event OR (EPOLLIN OR EPOLLOUT)) AND EPOLLOUT \<noteq> 0"
    "(event OR (EPOLLIN OR EPOLLOUT)) AND EPOLLIN \<noteq> 0"
    by (simp_all add: bit.conj_disj_distrib2 event_consts or_eq_0_iff)
  have r: "real_events event = 5"
    using h o by (simp add: real_events_def Let_def EV_NONE_def EV_READ_def EV_WRITE_def)
  obtain r1 w1 i1 e where ctx: "watched_ctx (int i) pl =
      \<lparr>fc_read = r1, fc_write = w1, fc_fd = i1, fc_events = e\<rparr>"
    by (cases "watched_ctx (int i) pl")
  show ?thesis
    using at_usable [OF assms(2)] assms(3-5) rd
    by (simp add: handle_event_def data_fd_def Let_def r ctx trigger_if_def triggerEvent_def getContext_def
        EV_NONE_def EV_READ_def EV_WRITE_def)
qed

lemma hangup_null_scheduler_witness:
  "handle_event (\<lambda>_. 99) \<lparr>ee_events = EPOLLHUP, ee_data = DataPtr 5\<rparr> 0 demo_read = Inl NullDeref"
  by (rule hangup_null_scheduler [OF demo_read_reach])
    (simp_all add: fd_usable_def demo_read_watched event_consts FdContext_new_def EventContext_new_def)

text \<open>
  C38: \<open>addEvent\<close> grows the contexts only for a descriptor greater than their number: for the
  one equal to it, it reads past the end of the vector; for a greater one it doubles the
  descriptor and registers the event.
\<close>

theorem addEvent_boundary:
  "addEvent (int (length (m_fdContexts pl))) event cb rt pl = Inl OutOfBounds \<and>
   (int (length (m_fdContexts pl)) < fd \<and> fd < 2 ^ 30 \<and> event = EV_READ \<longrightarrow>
     (\<exists>pl'. addEvent fd event cb 0 pl = Inr (pl', 0) \<and> length (m_fdContexts pl') = nat (2 * fd) \<and>
        fc_events (watched_ctx fd pl') = EV_READ \<and> ev_cb (fc_read (watched_ctx fd pl')) = cb))"
proof (intro conjI impI)
  show "addEvent (int (length (m_fdContexts pl))) event cb rt pl = Inl OutOfBounds"
    by (simp add: addEvent_def)
next
  assume a: "int (length (m_fdContexts pl)) < fd \<and> fd < 2 ^ 30 \<and> event = EV_READ"
  then have n: "\<not> nat fd < length (m_fdContexts pl)" "nat fd < nat (fd * 2)" by linarith+
  then have "at (resize (nat (fd * 2)) (m_fdContexts pl)) fd = Inr (FdContext_new fd)"
    using a by (simp add: nth_resize)
  then show "\<exists>pl'. addEvent fd event cb 0 pl = Inr (pl', 0) \<and> length (m_fdContexts pl') = nat (2 * fd) \<and>
        fc_events (watched_ctx fd pl') = EV_READ \<and> ev_cb (fc_read (watched_ctx fd pl')) = cb"
    using a n by (simp add: addEvent_def putContext_def epoll_log_def Let_def watched_ctx_def
        FdContext_new_def EV_NONE_def EV_READ_def mult.commute)
qed

lemma addEvent_boundary_witness:
  "addEvent 64 EV_READ (Some 1) 0 demo_poller = Inl OutOfBounds \<and>
   (\<exists>pl'. addEvent 65 EV_READ (Some 1) 0 demo_poller = Inr (pl', 0) \<and> length (m_fdContexts pl') = 130)"
  using addEvent_boundary [of demo_poller EV_READ "Some 1" 0 65] by auto

text \<open>
  The time given to \<open>epoll_wait\<close> is between 1 and 3000 milliseconds and never exceeds
  the time to the next task, except that a task that is due now waits the whole 3 seconds.
\<close>

theorem poll_timeout_spec:
  "1 \<le> poll_timeout n \<and> poll_timeout n \<le> 3000 \<and> (poll_timeout n \<le> n \<or> n = 0) \<and> poll_timeout 0 = 3000"
  by (auto simp: poll_timeout_def MAX_TIMEOUT_def Let_def word_le_nat_alt word_less_nat_alt unat_eq_0
      Suc_le_eq intro: gr0I)

end
