(* ===== verification/BoundedFifo.thy ===== *)
theory BoundedFifo
  imports Prelude
begin

text \<open>
  The contract of a bounded first-in first-out queue, as the processers use it
  (\<open>boost::lockfree::spsc_queue\<close>, which is not part of the repository) and as
  \<open>LockFreeList\<close> provides it: \<open>push\<close> fails exactly when the queue is full, \<open>pop\<close> exactly
  when it is empty, both return, and elements come out in the order they went in.
\<close>

record ('a, 'q) queue_ops =
  q_push :: "'a \<Rightarrow> 'q \<Rightarrow> ('q \<times> bool) run"
  q_pop :: "'q \<Rightarrow> ('q \<times> 'a option) run"

locale bounded_fifo =
  fixes ops :: "('a, 'q) queue_ops"
    and rep :: "'q \<Rightarrow> 'a list \<Rightarrow> bool"
    and cap :: nat
  assumes push_room: "rep q xs \<Longrightarrow> length xs < cap \<Longrightarrow>
      \<exists>q'. q_push ops x q = Some (Inr (q', True)) \<and> rep q' (xs @ [x])"
    and push_full: "rep q xs \<Longrightarrow> length xs = cap \<Longrightarrow> q_push ops x q = Some (Inr (q, False))"
    and pop_some: "rep q (x # xs) \<Longrightarrow> \<exists>q'. q_pop ops q = Some (Inr (q', Some x)) \<and> rep q' xs"
    and pop_none: "rep q [] \<Longrightarrow> q_pop ops q = Some (Inr (q, None))"
    and rep_bound: "rep q xs \<Longrightarrow> length xs \<le> cap"
begin

lemma push_accepts: "rep q xs \<Longrightarrow> \<exists>q' b. q_push ops x q = Some (Inr (q', b))"
  using push_room [of q xs x] push_full [of q xs x] rep_bound [of q xs] by fastforce

end

text \<open>A history of pushes and pops, with the accepted and the delivered elements.\<close>

datatype 'a queue_op = QPush 'a | QPop

fun queue_run ::
  "('a, 'q) queue_ops \<Rightarrow> 'a queue_op list \<Rightarrow> 'q \<Rightarrow> ('q \<times> 'a list \<times> 'a list) run" where
  "queue_run ops [] q = Some (Inr (q, [], []))"
| "queue_run ops (QPush x # hs) q =
     bindO (q_push ops x q) (\<lambda>(q1, b).
     bindO (queue_run ops hs q1) (\<lambda>(q2, ins, outs).
     Some (Inr (q2, if b then x # ins else ins, outs))))"
| "queue_run ops (QPop # hs) q =
     bindO (q_pop ops q) (\<lambda>(q1, r).
     bindO (queue_run ops hs q1) (\<lambda>(q2, ins, outs).
     Some (Inr (q2, ins, case r of None \<Rightarrow> outs | Some x \<Rightarrow> x # outs))))"

text \<open>What a full queue refuses and an empty queue delivers, on lists.\<close>

fun fifo_spec :: "nat \<Rightarrow> 'a queue_op list \<Rightarrow> 'a list \<Rightarrow> 'a list \<times> 'a list \<times> 'a list" where
  "fifo_spec cap [] xs = (xs, [], [])"
| "fifo_spec cap (QPush x # hs) xs =
     (if length xs < cap
      then (let (ys, ins, outs) = fifo_spec cap hs (xs @ [x]) in (ys, x # ins, outs))
      else fifo_spec cap hs xs)"
| "fifo_spec cap (QPop # hs) xs =
     (case xs of [] \<Rightarrow> fifo_spec cap hs []
      | x # xs' \<Rightarrow> (let (ys, ins, outs) = fifo_spec cap hs xs' in (ys, ins, x # outs)))"

lemma fifo_spec_order:
  "fifo_spec cap hs xs = (ys, ins, outs) \<Longrightarrow> xs @ ins = outs @ ys"
  by (induction cap hs xs arbitrary: ys ins outs rule: fifo_spec.induct)
    (auto split: if_splits list.splits prod.splits)

lemma fifo_spec_bound:
  "fifo_spec cap hs xs = (ys, ins, outs) \<Longrightarrow> length xs \<le> cap \<Longrightarrow> length ys \<le> cap"
proof (induction cap hs xs arbitrary: ys ins outs rule: fifo_spec.induct)
  case (2 cap x hs xs)
  then show ?case by (auto split: if_splits prod.splits)
next
  case (3 cap hs xs)
  then show ?case by (auto split: list.splits prod.splits)
qed simp

context bounded_fifo begin

lemma run_refines:
  "rep q xs \<Longrightarrow> fifo_spec cap hs xs = (ys, ins, outs) \<Longrightarrow>
   \<exists>q'. queue_run ops hs q = Some (Inr (q', ins, outs)) \<and> rep q' ys"
proof (induction hs arbitrary: q xs ys ins outs)
  case Nil
  then show ?case by simp
next
  case (Cons h hs)
  show ?case
  proof (cases h)
    case (QPush x)
    show ?thesis
    proof (cases "length xs < cap")
      case True
      obtain q1 where q1: "q_push ops x q = Some (Inr (q1, True))" "rep q1 (xs @ [x])"
        using push_room [OF Cons.prems(1) True] by blast
      obtain ins' where s: "fifo_spec cap hs (xs @ [x]) = (ys, ins', outs)" "ins = x # ins'"
        using Cons.prems(2) True by (auto simp: QPush split: prod.splits)
      show ?thesis using Cons.IH [OF q1(2) s(1)] q1(1) s(2) by (auto simp: QPush)
    next
      case False
      then have "length xs = cap" using rep_bound [OF Cons.prems(1)] by simp
      then have "q_push ops x q = Some (Inr (q, False))" by (rule push_full [OF Cons.prems(1)])
      with Cons.IH [OF Cons.prems(1)] Cons.prems(2) False show ?thesis by (auto simp: QPush)
    qed
  next
    case QPop
    show ?thesis
    proof (cases xs)
      case Nil
      with Cons.prems(1) have "q_pop ops q = Some (Inr (q, None))" by (simp add: pop_none)
      with Cons.IH [OF Cons.prems(1)] Cons.prems(2) Nil show ?thesis by (auto simp: QPop)
    next
      case (Cons x xs')
      then obtain q1 where q1: "q_pop ops q = Some (Inr (q1, Some x))" "rep q1 xs'"
        using pop_some Cons.prems(1) by blast
      obtain outs' where s: "fifo_spec cap hs xs' = (ys, ins, outs')" "outs = x # outs'"
        using Cons.prems(2) Cons by (auto simp: QPop split: prod.splits)
      show ?thesis using Cons.IH [OF q1(2) s(1)] q1(1) s(2) by (auto simp: QPop)
    qed
  qed
qed

end

end
