(* ===== verification/LockFreeList.thy ===== *)
theory LockFreeList
  imports BoundedFifo
begin

text \<open>
  \<open>src/thread/lockfreelist.h\<close>: the linked queue over a pool of nodes, in which every link is
  a pair of a version and a pointer, compared and swapped as one 128-bit value. The nodes
  live in the array \<open>m_freeList\<close>, a pointer is an index into it, the null pointer is
  \<open>None\<close>. The operations are modelled as one thread executes them, every retry loop
  included; the interleaving of several threads is not modelled here.
\<close>

section \<open>Data\<close>

datatype dptr = DP (dp_id: u64) (dp_ptr: "nat option")

definition NULLDP :: dptr where "NULLDP = DP 0 None"

record 'a lf_node =
  lf_next :: dptr
  lf_data :: "'a option"

record 'a lf_list =
  lf_id :: u64
  lf_max :: nat
  lf_in :: dptr
  lf_out :: dptr
  lf_head :: dptr
  lf_nodes :: "'a lf_node list"

text \<open>Following a pointer, and assigning to the node it points to.\<close>

definition deref :: "nat option \<Rightarrow> 'a lf_list \<Rightarrow> 'a lf_node result" where
  "deref p s = (case p of None \<Rightarrow> Inl NullDeref | Some i \<Rightarrow> at (lf_nodes s) (int i))"

definition set_next :: "nat option \<Rightarrow> dptr \<Rightarrow> 'a lf_list \<Rightarrow> 'a lf_list result" where
  "set_next p d s = (case p of None \<Rightarrow> Inl NullDeref
     | Some i \<Rightarrow> bindR (at (lf_nodes s) (int i)) (\<lambda>n.
         Inr (s\<lparr>lf_nodes := (lf_nodes s)[i := n\<lparr>lf_next := d\<rparr>]\<rparr>)))"

definition set_data :: "nat \<Rightarrow> 'a \<Rightarrow> 'a lf_list \<Rightarrow> 'a lf_list" where
  "set_data i x s = s\<lparr>lf_nodes := (lf_nodes s)[i := (lf_nodes s ! i)\<lparr>lf_data := Some x\<rparr>]\<rparr>"

text \<open>The compare-and-swap instructions on the head of the free list, tail, head and links.\<close>

definition cas_head :: "dptr \<Rightarrow> dptr \<Rightarrow> 'a lf_list \<Rightarrow> 'a lf_list \<times> bool" where
  "cas_head old new s = (if lf_head s = old then (s\<lparr>lf_head := new\<rparr>, True) else (s, False))"

definition cas_in :: "dptr \<Rightarrow> dptr \<Rightarrow> 'a lf_list \<Rightarrow> 'a lf_list" where
  "cas_in old new s = (if lf_in s = old then s\<lparr>lf_in := new\<rparr> else s)"

definition cas_out :: "dptr \<Rightarrow> dptr \<Rightarrow> 'a lf_list \<Rightarrow> 'a lf_list \<times> bool" where
  "cas_out old new s = (if lf_out s = old then (s\<lparr>lf_out := new\<rparr>, True) else (s, False))"

definition cas_next :: "nat option \<Rightarrow> dptr \<Rightarrow> dptr \<Rightarrow> 'a lf_list \<Rightarrow> ('a lf_list \<times> bool) result" where
  "cas_next p old new s =
     bindR (deref p s) (\<lambda>n. if lf_next n = old then bindR (set_next p new s) (\<lambda>s'. Inr (s', True))
                            else Inr (s, False))"

section \<open>Operations\<close>

definition alloc_body :: "'a lf_list \<Rightarrow> ('a lf_list + 'a lf_list \<times> dptr option) result" where
  "alloc_body s =
     (let old_head = lf_head s
      in if old_head = NULLDP then Inr (Inr (s, None))
         else bindR (deref (dp_ptr (lf_head s)) s) (\<lambda>n.
           let (s', swapped) = cas_head old_head (lf_next n) s
           in if swapped then Inr (Inr (s', Some old_head)) else Inr (Inl s')))"

definition AllocNode :: "'a lf_list \<Rightarrow> ('a lf_list \<times> nat option) run" where
  "AllocNode s =
     bindO (loop alloc_body s) (\<lambda>(s1, r). case r of
       None \<Rightarrow> Some (Inr (s1, None))
     | Some old_head \<Rightarrow>
         Some (bindR (set_next (dp_ptr old_head) NULLDP s1) (\<lambda>s2. Inr (s2, dp_ptr old_head))))"

definition release_body ::
  "nat option \<Rightarrow> dptr \<Rightarrow> 'a lf_list \<Rightarrow> ('a lf_list + 'a lf_list) result" where
  "release_body node new_node s =
     (let old_head = lf_head s
      in bindR (set_next node old_head s) (\<lambda>s1.
         let (s2, swapped) = cas_head old_head new_node s1
         in if swapped then Inr (Inr s2) else Inr (Inl s2)))"

definition ReleaseNode :: "nat option \<Rightarrow> 'a lf_list \<Rightarrow> 'a lf_list run" where
  "ReleaseNode node s =
     (case node of None \<Rightarrow> Some (Inl AssertFail)
      | Some i \<Rightarrow>
         if \<not> i < lf_max s then Some (Inl AssertFail)
         else (let i0 = lf_id s;
                   s1 = s\<lparr>lf_id := lf_id s + 1\<rparr>
               in loop (release_body node (DP i0 node)) s1))"

definition push_body ::
  "dptr \<Rightarrow> 'a lf_list \<Rightarrow> ('a lf_list + 'a lf_list \<times> dptr) result" where
  "push_body new_node s =
     (let inp = lf_in s;
          node_tail = dp_ptr inp
      in bindR (deref node_tail s) (\<lambda>n.
         let next = lf_next n;
             s1 = (if next \<noteq> NULLDP then cas_in inp next s else s)
         in bindR (cas_next (dp_ptr inp) NULLDP new_node s1) (\<lambda>(s2, swapped).
            if swapped then Inr (Inr (s2, inp)) else Inr (Inl s2))))"

definition lf_push :: "'a \<Rightarrow> 'a lf_list \<Rightarrow> ('a lf_list \<times> bool) run" where
  "lf_push data s =
     bindO (AllocNode s) (\<lambda>(s1, node). case node of
       None \<Rightarrow> Some (Inr (s1, False))
     | Some i \<Rightarrow>
         bindO (Some (set_next node NULLDP (set_data i data s1))) (\<lambda>s2.
         let i0 = lf_id s2;
             s3 = s2\<lparr>lf_id := lf_id s2 + 1\<rparr>;
             new_node = DP i0 node
         in bindO (loop (push_body new_node) s3) (\<lambda>(s4, inp).
            Some (Inr (cas_in inp new_node s4, True)))))"

text \<open>\<open>data = ...\<close> is assigned before the swap, so a failed swap has already overwritten it.\<close>

definition pop_body ::
  "'a lf_list \<Rightarrow> ('a lf_list + 'a lf_list \<times> ('a option \<times> dptr) option) result" where
  "pop_body s =
     (let out = lf_out s;
          inp = lf_in s
      in bindR (deref (dp_ptr out) s) (\<lambda>n.
         let next = lf_next n
         in if next = NULLDP then Inr (Inr (s, None))
            else if inp = out then Inr (Inl (cas_in inp next s))
            else bindR (deref (dp_ptr next) s) (\<lambda>m.
              let (s1, swapped) = cas_out out next s
              in if swapped then Inr (Inr (s1, Some (lf_data m, out))) else Inr (Inl s1))))"

definition lf_pop :: "'a lf_list \<Rightarrow> ('a lf_list \<times> 'a option) run" where
  "lf_pop s =
     bindO (loop pop_body s) (\<lambda>(s1, r). case r of
       None \<Rightarrow> Some (Inr (s1, None))
     | Some (data, cur) \<Rightarrow>
         bindO (ReleaseNode (dp_ptr cur) s1) (\<lambda>s2. Some (Inr (s2, data))))"

text \<open>
  \<open>i < m_max - 1\<close> with \<open>m_max = 0\<close> wraps around and the loop leaves the empty array.
\<close>

definition InitInternalNodeList :: "nat \<Rightarrow> 'a lf_list result" where
  "InitInternalNodeList n =
     (if n = 0 then Inl OutOfBounds
      else Inr \<lparr>lf_id = of_nat (n - 1), lf_max = n, lf_in = NULLDP, lf_out = NULLDP,
                lf_head = DP 0 (Some 0),
                lf_nodes = map (\<lambda>i. \<lparr>lf_next = (if i < n - 1 then DP (of_nat (i + 1)) (Some (i + 1)) else NULLDP),
                                     lf_data = None\<rparr>) [0..<n]\<rparr>)"

definition LockFreeList_ctor :: "nat \<Rightarrow> 'a lf_list run" where
  "LockFreeList_ctor capacity =
     bindO (Some (InitInternalNodeList capacity)) (\<lambda>s.
     bindO (AllocNode s) (\<lambda>(s1, tmp).
       if tmp = None then Some (Inl AssertFail)
       else Some (Inr (s1\<lparr>lf_in := DP 0 tmp, lf_out := DP 0 tmp\<rparr>))))"

section \<open>Paths through the links\<close>

fun path :: "'a lf_node list \<Rightarrow> dptr \<Rightarrow> nat list \<Rightarrow> bool" where
  "path ns d [] = (d = NULLDP)"
| "path ns d (x # xs) = (dp_ptr d = Some x \<and> x < length ns \<and> path ns (lf_next (ns ! x)) xs)"

lemma path_frame: "i \<notin> set xs \<Longrightarrow> path (ns[i := n]) d xs = path ns d xs"
  by (induction xs arbitrary: d) auto

lemma path_bounds: "path ns d xs \<Longrightarrow> i \<in> set xs \<Longrightarrow> i < length ns"
  by (induction xs arbitrary: d) auto

lemma path_end: "path ns d (xs @ [x]) \<Longrightarrow> lf_next (ns ! x) = NULLDP \<and> x < length ns"
  by (induction xs arbitrary: d) auto

lemma path_extend:
  "path ns d (xs @ [x]) \<Longrightarrow> x \<notin> set xs \<Longrightarrow> y \<noteq> x \<Longrightarrow> y \<notin> set xs \<Longrightarrow> y < length ns \<Longrightarrow>
   lf_next (ns ! y) = NULLDP \<Longrightarrow>
   path (ns[x := (ns ! x)\<lparr>lf_next := DP i (Some y)\<rparr>]) d (xs @ [x, y])"
proof (induction xs arbitrary: d)
  case Nil
  then show ?case by simp
next
  case (Cons a xs)
  then show ?case by auto
qed

lemma path_nonempty: "path ns d (x # xs) \<Longrightarrow> d \<noteq> NULLDP"
  by (auto simp: NULLDP_def)

lemma path_NULL: "path ns NULLDP xs \<longleftrightarrow> xs = []"
  by (cases xs) (auto simp: NULLDP_def)

lemma path_data:
  "i < length ns \<Longrightarrow> path (ns[i := (ns ! i)\<lparr>lf_data := x\<rparr>]) d xs = path ns d xs"
proof (induction xs arbitrary: d)
  case (Cons a xs)
  then show ?case by (cases "a = i") auto
qed simp

text \<open>
  The queue \<open>q\<close> a list stands for: \<open>m_out\<close> leads through the dummy node and the nodes of
  the elements, \<open>m_in\<close> points to the last of them, \<open>m_head\<close> leads through the free nodes,
  and together these are all nodes, each once.
\<close>

definition lf_shape :: "'a lf_list \<Rightarrow> nat list \<Rightarrow> nat list \<Rightarrow> bool" where
  "lf_shape s qs fs \<longleftrightarrow>
     qs \<noteq> [] \<and> path (lf_nodes s) (lf_out s) qs \<and> path (lf_nodes s) (lf_head s) fs \<and>
     distinct (qs @ fs) \<and> length (qs @ fs) = lf_max s \<and> length (lf_nodes s) = lf_max s \<and>
     dp_ptr (lf_in s) = Some (last qs)"

definition lf_rep :: "'a lf_list \<Rightarrow> 'a list \<Rightarrow> bool" where
  "lf_rep s q \<longleftrightarrow> (\<exists>qs fs. lf_shape s qs fs \<and>
     map (\<lambda>i. lf_data (lf_nodes s ! i)) (tl qs) = map Some q)"

section \<open>The operations on well-formed lists\<close>

lemma deref_Some [simp]: "i < length (lf_nodes s) \<Longrightarrow> deref (Some i) s = Inr (lf_nodes s ! i)"
  by (simp add: deref_def)

lemma set_next_Some [simp]:
  "i < length (lf_nodes s) \<Longrightarrow>
   set_next (Some i) d s = Inr (s\<lparr>lf_nodes := (lf_nodes s)[i := (lf_nodes s ! i)\<lparr>lf_next := d\<rparr>]\<rparr>)"
  by (simp add: set_next_def)

lemma node_overwrite [simp]:
  "(n :: 'a lf_node)\<lparr>lf_data := d, lf_next := e\<rparr> = \<lparr>lf_next = e, lf_data = d\<rparr>"
  by (cases n) simp

lemma DP_not_NULL [simp]: "DP i (Some p) \<noteq> NULLDP"
  by (simp add: NULLDP_def)

lemma dp_ptr_not_NULL: "dp_ptr d = Some p \<Longrightarrow> d \<noteq> NULLDP"
  by (auto simp: NULLDP_def)

lemma AllocNode_head:
  assumes h: "dp_ptr (lf_head s) = Some f" "f < length (lf_nodes s)"
  shows "AllocNode s = Some (Inr (s\<lparr>lf_head := lf_next (lf_nodes s ! f),
      lf_nodes := (lf_nodes s)[f := (lf_nodes s ! f)\<lparr>lf_next := NULLDP\<rparr>]\<rparr>, Some f))"
proof -
  have "alloc_body s = Inr (Inr (s\<lparr>lf_head := lf_next (lf_nodes s ! f)\<rparr>, Some (lf_head s)))"
    using h dp_ptr_not_NULL [OF h(1)] by (simp add: alloc_body_def Let_def cas_head_def)
  from loop_steps(2) [where body = alloc_body, OF this] show ?thesis
    using h by (simp add: AllocNode_def)
qed

lemma AllocNode_free:
  assumes "lf_shape s qs (f # fs)"
  shows "AllocNode s = Some (Inr (s\<lparr>lf_head := lf_next (lf_nodes s ! f),
      lf_nodes := (lf_nodes s)[f := (lf_nodes s ! f)\<lparr>lf_next := NULLDP\<rparr>]\<rparr>, Some f))"
  using assms by (intro AllocNode_head) (auto simp: lf_shape_def)

lemma AllocNode_exhausted:
  assumes "lf_shape s qs []"
  shows "AllocNode s = Some (Inr (s, None))"
proof -
  have "alloc_body s = Inr (Inr (s, None))"
    using assms by (simp add: lf_shape_def alloc_body_def Let_def)
  from loop_steps(2) [where body = alloc_body, OF this] show ?thesis by (simp add: AllocNode_def)
qed

lemma lf_push_full:
  assumes "lf_shape s qs []"
  shows "lf_push x s = Some (Inr (s, False))"
  by (simp add: lf_push_def AllocNode_exhausted [OF assms])

text \<open>The state after a successful push of \<open>x\<close> into node \<open>f\<close> behind node \<open>l\<close>.\<close>

definition pushed :: "'a \<Rightarrow> nat \<Rightarrow> nat \<Rightarrow> 'a lf_list \<Rightarrow> 'a lf_list" where
  "pushed x f l s = s\<lparr>lf_id := lf_id s + 1, lf_in := DP (lf_id s) (Some f),
     lf_head := lf_next (lf_nodes s ! f),
     lf_nodes := (let ns = (lf_nodes s)[f := \<lparr>lf_next = NULLDP, lf_data = Some x\<rparr>]
                  in ns[l := (ns ! l)\<lparr>lf_next := DP (lf_id s) (Some f)\<rparr>])\<rparr>"

lemma lf_push_room:
  assumes sh: "lf_shape s qs (f # fs)"
  shows "lf_push x s = Some (Inr (pushed x f (last qs) s, True))"
proof -
  obtain qs' l where qs: "qs = qs' @ [l]" using sh by (metis lf_shape_def rev_exhaust)
  have f: "f < length (lf_nodes s)" "f \<noteq> l" and l: "l < length (lf_nodes s)"
      "lf_next (lf_nodes s ! l) = NULLDP" "dp_ptr (lf_in s) = Some l"
    using sh path_end [of "lf_nodes s" "lf_out s" qs' l] by (auto simp: lf_shape_def qs)
  let ?ns = "(lf_nodes s)[f := \<lparr>lf_next = NULLDP, lf_data = Some x\<rparr>]"
  let ?s3 = "s\<lparr>lf_head := lf_next (lf_nodes s ! f), lf_nodes := ?ns, lf_id := lf_id s + 1\<rparr>"
  let ?new = "DP (lf_id s) (Some f)"
  have "?ns ! l = lf_nodes s ! l" using f l by simp
  then have "push_body ?new ?s3 = Inr (Inr (?s3\<lparr>lf_nodes := ?ns[l := (?ns ! l)\<lparr>lf_next := ?new\<rparr>]\<rparr>, lf_in s))"
    using f l by (simp add: push_body_def cas_next_def Let_def)
  note body = loop_steps(2) [of "push_body ?new", OF this]
  have "set_next (Some f) NULLDP (set_data f x (s\<lparr>lf_head := lf_next (lf_nodes s ! f),
      lf_nodes := (lf_nodes s)[f := (lf_nodes s ! f)\<lparr>lf_next := NULLDP\<rparr>]\<rparr>)) =
    Inr (s\<lparr>lf_head := lf_next (lf_nodes s ! f), lf_nodes := ?ns\<rparr>)"
    using f(1) by (simp add: set_data_def)
  then show ?thesis
    using body by (simp add: lf_push_def AllocNode_free [OF sh] Let_def cas_in_def pushed_def qs)
qed

lemma pushed_shape:
  assumes sh: "lf_shape s qs (f # fs)"
  shows "lf_shape (pushed x f (last qs) s) (qs @ [f]) fs"
proof -
  obtain qs' l where qs: "qs = qs' @ [l]" using sh by (metis lf_shape_def rev_exhaust)
  note s = sh [unfolded lf_shape_def qs]
  let ?ns = "(lf_nodes s)[f := \<lparr>lf_next = NULLDP, lf_data = Some x\<rparr>]"
  let ?new = "DP (lf_id s) (Some f)"
  have f: "f < length (lf_nodes s)" "f \<notin> set qs'" "f \<noteq> l" "f \<notin> set fs" "l \<notin> set fs" "l \<notin> set qs'"
    using s by auto
  have "path ?ns (lf_out s) (qs' @ [l])" using s f by (simp add: path_frame)
  then have "path (?ns[l := (?ns ! l)\<lparr>lf_next := ?new\<rparr>]) (lf_out s) (qs' @ [l, f])"
    by (rule path_extend) (use f in simp_all)
  moreover have "path (?ns[l := (?ns ! l)\<lparr>lf_next := ?new\<rparr>]) (lf_next (lf_nodes s ! f)) fs"
    using s f by (simp add: path_frame)
  ultimately show ?thesis
    using s f by (auto simp: lf_shape_def pushed_def qs Let_def)
qed

lemma pushed_data:
  assumes sh: "lf_shape s qs (f # fs)" and q: "map (\<lambda>i. lf_data (lf_nodes s ! i)) (tl qs) = map Some q"
  shows "map (\<lambda>i. lf_data (lf_nodes (pushed x f (last qs) s) ! i)) (tl (qs @ [f])) = map Some (q @ [x])"
proof -
  have d: "lf_data (lf_nodes (pushed x f (last qs) s) ! i) =
      (if i = f then Some x else lf_data (lf_nodes s ! i))" if "i \<in> set (qs @ [f])" for i
  proof -
    have "i < length (lf_nodes s)" "f < length (lf_nodes s)" "last qs < length (lf_nodes s)" "last qs \<noteq> f"
      using sh that path_bounds [of "lf_nodes s" "lf_out s" qs "last qs"]
      by (auto simp: lf_shape_def dest: path_bounds)
    then show ?thesis by (auto simp: pushed_def Let_def nth_list_update)
  qed
  have qs: "qs \<noteq> []" "f \<notin> set qs" using sh by (auto simp: lf_shape_def)
  have "map (\<lambda>i. lf_data (lf_nodes (pushed x f (last qs) s) ! i)) (tl qs) =
      map (\<lambda>i. lf_data (lf_nodes s ! i)) (tl qs)"
    using qs d by (intro map_cong) (auto dest: list.set_sel(2))
  then show ?thesis using q qs d by simp
qed

text \<open>The state after a successful pop that leaves \<open>y\<close> as the dummy and frees node \<open>o\<close>.\<close>

definition popped :: "nat \<Rightarrow> 'a lf_list \<Rightarrow> 'a lf_list" where
  "popped k s = s\<lparr>lf_id := lf_id s + 1, lf_out := lf_next (lf_nodes s ! k),
     lf_head := DP (lf_id s) (Some k),
     lf_nodes := (lf_nodes s)[k := (lf_nodes s ! k)\<lparr>lf_next := lf_head s\<rparr>]\<rparr>"

lemma lf_pop_some:
  assumes sh: "lf_shape s (k # y # qs) fs"
  shows "lf_pop s = Some (Inr (popped k s, lf_data (lf_nodes s ! y)))"
proof -
  note s = sh [unfolded lf_shape_def]
  have k: "k < length (lf_nodes s)" "dp_ptr (lf_out s) = Some k" "k < lf_max s" "k \<noteq> y"
    and y: "dp_ptr (lf_next (lf_nodes s ! k)) = Some y" "y < length (lf_nodes s)"
    using s by auto
  have "lf_in s \<noteq> lf_out s"
  proof
    assume "lf_in s = lf_out s"
    with s k have "last (y # qs) = k" by simp
    then have "k \<in> set (y # qs)" using last_in_set [of "y # qs"] by auto
    with s show False by simp
  qed
  let ?s1 = "s\<lparr>lf_out := lf_next (lf_nodes s ! k)\<rparr>"
  have "pop_body s = Inr (Inr (?s1, Some (lf_data (lf_nodes s ! y), lf_out s)))"
    using k y dp_ptr_not_NULL [OF y(1)] \<open>lf_in s \<noteq> lf_out s\<close>
    by (simp add: pop_body_def Let_def cas_out_def)
  note body = loop_steps(2) [of pop_body, OF this]
  have "release_body (Some k) (DP (lf_id s) (Some k)) (?s1\<lparr>lf_id := lf_id s + 1\<rparr>) = Inr (Inr (popped k s))"
    using k by (simp add: release_body_def Let_def cas_head_def popped_def)
  then have "ReleaseNode (Some k) ?s1 = Some (Inr (popped k s))"
    using k by (simp add: ReleaseNode_def loop_steps(2))
  with body k show ?thesis by (simp add: lf_pop_def)
qed

lemma lf_pop_none:
  assumes sh: "lf_shape s [k] fs"
  shows "lf_pop s = Some (Inr (s, None))"
proof -
  have "pop_body s = Inr (Inr (s, None))"
    using sh by (auto simp: lf_shape_def pop_body_def Let_def)
  from loop_steps(2) [where body = pop_body, OF this] show ?thesis by (simp add: lf_pop_def)
qed

lemma popped_shape:
  assumes sh: "lf_shape s (k # y # qs) fs"
  shows "lf_shape (popped k s) (y # qs) (k # fs)"
proof -
  note s = sh [unfolded lf_shape_def]
  have "k \<notin> set (y # qs)" "k \<notin> set fs" "k < length (lf_nodes s)" using s by auto
  then show ?thesis
    using s by (auto simp: lf_shape_def popped_def path_frame nth_list_update)
qed

lemma popped_data:
  assumes sh: "lf_shape s (k # y # qs) fs"
  shows "map (\<lambda>i. lf_data (lf_nodes (popped k s) ! i)) qs = map (\<lambda>i. lf_data (lf_nodes s ! i)) qs"
proof (rule map_cong [OF refl])
  fix i assume "i \<in> set qs"
  with sh have "i \<noteq> k" by (auto simp: lf_shape_def)
  then show "lf_data (lf_nodes (popped k s) ! i) = lf_data (lf_nodes s ! i)"
    by (simp add: popped_def)
qed

lemma lf_shape_length: "lf_shape s qs fs \<Longrightarrow> length qs + length fs = lf_max s"
  by (simp add: lf_shape_def)

lemma lf_rep_length: "lf_rep s q \<Longrightarrow> length q < lf_max s"
proof -
  assume "lf_rep s q"
  then obtain qs fs where sh: "lf_shape s qs fs"
    and q: "map (\<lambda>i. lf_data (lf_nodes s ! i)) (tl qs) = map Some q"
    by (auto simp: lf_rep_def)
  have "length q = length qs - 1" using arg_cong [OF q, of length] by simp
  with sh show ?thesis by (cases qs) (auto simp: lf_shape_def)
qed

section \<open>The contract\<close>

definition lf_ops :: "('a, 'a lf_list) queue_ops" where
  "lf_ops = \<lparr>q_push = lf_push, q_pop = lf_pop\<rparr>"

definition lf_rep_of :: "nat \<Rightarrow> 'a lf_list \<Rightarrow> 'a list \<Rightarrow> bool" where
  "lf_rep_of n s q \<longleftrightarrow> lf_max s = n \<and> lf_rep s q"

lemma lf_push_rep:
  assumes "lf_rep_of n s q" and "length q < n - 1"
  shows "\<exists>s'. lf_push x s = Some (Inr (s', True)) \<and> lf_rep_of n s' (q @ [x])"
proof -
  obtain qs fs where sh: "lf_shape s qs fs"
    and q: "map (\<lambda>i. lf_data (lf_nodes s ! i)) (tl qs) = map Some q" and n: "lf_max s = n"
    using assms by (auto simp: lf_rep_of_def lf_rep_def)
  have "length q = length qs - 1" using arg_cong [OF q, of length] by simp
  then have "fs \<noteq> []" using sh n assms(2) by (auto simp: lf_shape_def)
  then obtain f fs' where fs: "fs = f # fs'" by (cases fs) auto
  note sh' = sh [unfolded fs]
  have "lf_max (pushed x f (last qs) s) = n" by (simp add: pushed_def n)
  then have "lf_rep_of n (pushed x f (last qs) s) (q @ [x])"
    using pushed_shape [OF sh'] pushed_data [OF sh' q] unfolding lf_rep_of_def lf_rep_def by blast
  with lf_push_room [OF sh'] show ?thesis by blast
qed

lemma lf_push_rep_full:
  assumes "lf_rep_of n s q" and "length q = n - 1"
  shows "lf_push x s = Some (Inr (s, False))"
proof -
  obtain qs fs where sh: "lf_shape s qs fs"
    and q: "map (\<lambda>i. lf_data (lf_nodes s ! i)) (tl qs) = map Some q" and n: "lf_max s = n"
    using assms by (auto simp: lf_rep_of_def lf_rep_def)
  have "length q = length qs - 1" using arg_cong [OF q, of length] by simp
  moreover have "length qs \<ge> 1" using sh by (cases qs) (simp_all add: lf_shape_def)
  ultimately have "length fs = 0"
    using lf_shape_length [OF sh] n assms(2) by linarith
  with sh show ?thesis by (simp add: lf_push_full)
qed

lemma lf_pop_rep:
  assumes "lf_rep_of n s (x # q)"
  shows "\<exists>s'. lf_pop s = Some (Inr (s', Some x)) \<and> lf_rep_of n s' q"
proof -
  obtain qs fs where sh: "lf_shape s qs fs"
    and q: "map (\<lambda>i. lf_data (lf_nodes s ! i)) (tl qs) = map Some (x # q)" and n: "lf_max s = n"
    using assms by (auto simp: lf_rep_of_def lf_rep_def)
  obtain k y r where qs: "qs = k # y # r"
    using q by (cases qs; cases "tl qs") auto
  note sh' = sh [unfolded qs]
  have "map (\<lambda>i. lf_data (lf_nodes (popped k s) ! i)) (tl (y # r)) = map Some q"
    using popped_data [OF sh'] q by (simp only: list.sel) (simp add: qs)
  moreover have "lf_max (popped k s) = n" by (simp add: popped_def n)
  ultimately have "lf_rep_of n (popped k s) q"
    using popped_shape [OF sh'] unfolding lf_rep_of_def lf_rep_def by blast
  with lf_pop_some [OF sh'] q show ?thesis by (auto simp: qs)
qed

lemma lf_pop_rep_empty:
  assumes "lf_rep_of n s []"
  shows "lf_pop s = Some (Inr (s, None))"
proof -
  obtain qs fs where sh: "lf_shape s qs fs" and "tl qs = []"
    using assms by (auto simp: lf_rep_of_def lf_rep_def)
  then obtain k where "qs = [k]" by (cases qs) (auto simp: lf_shape_def)
  with sh show ?thesis using lf_pop_none by blast
qed

interpretation lfq: bounded_fifo lf_ops "lf_rep_of n" "n - 1" for n
proof
  fix q :: "'a lf_list" and xs x
  show "lf_rep_of n q xs \<Longrightarrow> length xs < n - 1 \<Longrightarrow>
      \<exists>q'. q_push lf_ops x q = Some (Inr (q', True)) \<and> lf_rep_of n q' (xs @ [x])"
    by (simp add: lf_ops_def lf_push_rep)
  show "lf_rep_of n q xs \<Longrightarrow> length xs = n - 1 \<Longrightarrow> q_push lf_ops x q = Some (Inr (q, False))"
    by (simp add: lf_ops_def lf_push_rep_full)
  show "lf_rep_of n q (x # xs) \<Longrightarrow> \<exists>q'. q_pop lf_ops q = Some (Inr (q', Some x)) \<and> lf_rep_of n q' xs"
    by (simp add: lf_ops_def lf_pop_rep)
  show "lf_rep_of n q [] \<Longrightarrow> q_pop lf_ops q = Some (Inr (q, None))"
    by (simp add: lf_ops_def lf_pop_rep_empty)
  show "lf_rep_of n q xs \<Longrightarrow> length xs \<le> n - 1"
    using lf_rep_length [of q xs] by (auto simp: lf_rep_of_def)
qed

section \<open>Construction\<close>

lemma path_chain:
  assumes "length ns = n" and "\<And>i. i < n \<Longrightarrow>
      lf_next (ns ! i) = (if i < n - 1 then DP (of_nat (i + 1)) (Some (i + 1)) else NULLDP)"
  shows "k < n \<Longrightarrow> dp_ptr d = Some k \<Longrightarrow> path ns d [k..<n]"
proof (induction "n - k" arbitrary: k d)
  case 0
  then show ?case by simp
next
  case (Suc m)
  have u: "[k..<n] = k # [Suc k..<n]" using Suc.prems(1) by (simp add: upt_conv_Cons)
  show ?case
  proof (cases "Suc k < n")
    case True
    have "path ns (DP (of_nat (Suc k)) (Some (Suc k))) [Suc k..<n]"
      by (rule Suc.hyps(1)) (use Suc.hyps(2) True in auto)
    with Suc.prems assms True show ?thesis by (simp add: u)
  next
    case False
    then have e: "[Suc k..<n] = []" and "\<not> k < n - 1" by simp_all
    with Suc.prems assms(2) [OF Suc.prems(1)] assms(1) show ?thesis by (simp add: u)
  qed
qed

lemma LockFreeList_ctor_rep:
  assumes "0 < n"
  shows "\<exists>s. LockFreeList_ctor n = Some (Inr s) \<and> lf_rep_of n s []"
proof -
  obtain s0 :: "'a lf_list" where s0: "InitInternalNodeList n = Inr s0" "lf_max s0 = n"
      "lf_head s0 = DP 0 (Some 0)" "length (lf_nodes s0) = n"
    and nx: "\<And>i. i < n \<Longrightarrow> lf_next (lf_nodes s0 ! i) =
      (if i < n - 1 then DP (of_nat (i + 1)) (Some (i + 1)) else NULLDP)"
    using assms by (simp add: InitInternalNodeList_def)
  let ?s1 = "s0\<lparr>lf_head := lf_next (lf_nodes s0 ! 0),
      lf_nodes := (lf_nodes s0)[0 := (lf_nodes s0 ! 0)\<lparr>lf_next := NULLDP\<rparr>],
      lf_in := DP 0 (Some 0), lf_out := DP 0 (Some 0)\<rparr>"
  have "AllocNode s0 = Some (Inr (s0\<lparr>lf_head := lf_next (lf_nodes s0 ! 0),
      lf_nodes := (lf_nodes s0)[0 := (lf_nodes s0 ! 0)\<lparr>lf_next := NULLDP\<rparr>]\<rparr>, Some 0))"
    by (rule AllocNode_head) (use s0 assms in simp_all)
  then have c: "LockFreeList_ctor n = Some (Inr ?s1)" by (simp add: LockFreeList_ctor_def s0(1))
  have "path (lf_nodes s0) (lf_head s0) [0..<n]"
    by (rule path_chain [OF s0(4) nx]) (use assms s0 in simp_all)
  then have "path (lf_nodes s0) (lf_next (lf_nodes s0 ! 0)) [1..<n]"
    using assms by (simp add: upt_conv_Cons)
  then have "path (lf_nodes ?s1) (lf_head ?s1) [1..<n]"
    using assms s0 by (simp add: path_frame)
  then have "lf_shape ?s1 [0] [1..<n]"
    using assms s0 by (auto simp: lf_shape_def)
  then have "lf_rep_of n ?s1 []" unfolding lf_rep_of_def lf_rep_def using s0(2) by force
  with c show ?thesis by blast
qed

section \<open>Properties\<close>

text \<open>
  C15: a list of capacity \<open>n > 0\<close>, whatever sequence of pushes and pops it goes through,
  accepts and delivers exactly what a first-in first-out queue of \<open>n - 1\<close> places does; every
  retry loop ends, no null pointer is followed and no node is lost: the nodes of the queue
  and the free nodes are again all nodes of the pool.
\<close>

theorem lf_list_is_bounded_fifo:
  assumes "0 < n" and "LockFreeList_ctor n = Some (Inr s)"
    and "fifo_spec (n - 1) hs [] = (ys, ins, outs)"
  shows "\<exists>s'. queue_run lf_ops hs s = Some (Inr (s', ins, outs)) \<and> lf_rep_of n s' ys"
proof -
  obtain s1 :: "'a lf_list" where "LockFreeList_ctor n = Some (Inr s1)" "lf_rep_of n s1 []"
    using LockFreeList_ctor_rep [OF assms(1)] by blast
  with assms(2) have "lf_rep_of n s []" by simp
  from lfq.run_refines [OF this assms(3)] show ?thesis .
qed

lemma lf_list_is_bounded_fifo_witness:
  "\<exists>s s'. LockFreeList_ctor 3 = Some (Inr s) \<and>
     queue_run lf_ops [QPush (1::nat), QPush 2, QPush 3, QPop, QPush 4, QPop] s =
       Some (Inr (s', [1, 2, 4], [1, 2]))"
proof -
  obtain s :: "nat lf_list" where s: "LockFreeList_ctor 3 = Some (Inr s)"
    using LockFreeList_ctor_rep [of 3] by auto
  have "\<exists>s'. queue_run lf_ops [QPush (1::nat), QPush 2, QPush 3, QPop, QPush 4, QPop] s =
       Some (Inr (s', [1, 2, 4], [1, 2])) \<and> lf_rep_of 3 s' [4]"
    by (rule lf_list_is_bounded_fifo [OF _ s]) simp_all
  with s show ?thesis by blast
qed

text \<open>
  Elements leave a list in the order in which they were accepted, each at most once, and
  never more than \<open>n - 1\<close> are inside.
\<close>

theorem lf_list_order:
  assumes "0 < n" and "LockFreeList_ctor n = Some (Inr s)"
    and "queue_run lf_ops hs s = Some (Inr (s', ins, outs))"
  shows "\<exists>ys. ins = outs @ ys \<and> length ys \<le> n - 1 \<and> lf_rep_of n s' ys"
proof -
  obtain s1 :: "'a lf_list" where "LockFreeList_ctor n = Some (Inr s1)" "lf_rep_of n s1 []"
    using LockFreeList_ctor_rep [OF assms(1)] by blast
  with assms(2) have r: "lf_rep_of n s []" by simp
  obtain ys i o' where sp: "fifo_spec (n - 1) hs [] = (ys, i, o')" by (metis prod_cases3)
  from lfq.run_refines [OF r sp] assms(3) have "i = ins" "o' = outs" "lf_rep_of n s' ys" by auto
  with fifo_spec_order [OF sp] fifo_spec_bound [OF sp] show ?thesis by auto
qed

lemma lf_list_order_witness:
  "\<exists>s s' ys. LockFreeList_ctor 2 = Some (Inr s) \<and>
     queue_run lf_ops [QPush (1::nat), QPop, QPush 2] s = Some (Inr (s', [1, 2], [1])) \<and>
     [1, 2] = [1] @ ys \<and> length ys \<le> 1"
proof -
  obtain s :: "nat lf_list" where s: "LockFreeList_ctor 2 = Some (Inr s)" "lf_rep_of 2 s []"
    using LockFreeList_ctor_rep [of 2] by auto
  obtain s' where q: "queue_run lf_ops [QPush (1::nat), QPop, QPush 2] s = Some (Inr (s', [1, 2], [1]))"
    using lfq.run_refines [OF s(2), of "[QPush 1, QPop, QPush 2]" "[2]" "[1, 2]" "[1]"] by auto
  have "\<exists>ys. [1, 2] = [1] @ ys \<and> length ys \<le> 2 - 1 \<and> lf_rep_of 2 s' ys"
    by (rule lf_list_order [OF _ s(1) q]) simp
  with s(1) q show ?thesis by auto
qed

text \<open>
  A list of capacity 0 cannot be built: \<open>m_max - 1\<close> wraps around and the loop over the
  nodes leaves the array.
\<close>

theorem lf_list_capacity_zero:
  "(LockFreeList_ctor n :: 'a lf_list run) = Some (Inl OutOfBounds) \<longleftrightarrow> n = 0"
proof
  assume l: "(LockFreeList_ctor n :: 'a lf_list run) = Some (Inl OutOfBounds)"
  show "n = 0"
  proof (rule ccontr)
    assume "n \<noteq> 0"
    then obtain s :: "'a lf_list" where "LockFreeList_ctor n = Some (Inr s)" using LockFreeList_ctor_rep [of n] by auto
    with l show False by simp
  qed
qed (simp add: LockFreeList_ctor_def InitInternalNodeList_def)

end
