(* ===== verification/LockFreeConc.thy ===== *)
theory LockFreeConc
  imports LockFreeList
begin

text \<open>
  \<open>src/thread/lockfreelist.h\<close> with several threads: every access of \<open>push\<close> and \<open>pop\<close> to shared
  memory is one step, an atomic instruction or a plain read or write, and the steps of the threads
  interleave in any order. With one thread that pushes and one that pops the list is a bounded
  FIFO queue whatever the order; with more it is not.
\<close>

section \<open>Program counters and steps\<close>

text \<open>
  Where a thread is, with its local variables. \<open>Alloc...\<close> is \<open>AllocNode\<close> (lines 173 to 197):
  before \<open>m_head\<close> is read; before \<open>m_head.vals[1]\<close> is read again; before the link of that node
  is read; before the swap; before the link of the node is cleared. \<open>Fill...\<close> are lines 75, 76
  and 82. \<open>Link...\<close> is the loop of \<open>push\<close> (lines 88 to 115) and the swap behind it: before
  \<open>m_in\<close> is read; before the link of the tail is read; before \<open>m_in\<close> is helped on; before the
  swap of the link; before the swap of \<open>m_in\<close>. \<open>Pop...\<close> is the loop of \<open>pop\<close> (126 to 153):
  before \<open>m_out\<close>, \<open>m_in\<close> and the link are read; before \<open>m_in\<close> is helped on; before the element
  is read; before the swap of \<open>m_out\<close>. \<open>Rel...\<close> is \<open>ReleaseNode\<close> (200 to 222).
\<close>

datatype 'a lpc =
    Resting
  | AllocRead 'a | AllocAgain 'a dptr | AllocNext 'a dptr "nat option" | AllocSwap 'a dptr dptr
  | AllocClear 'a "nat option"
  | FillData 'a "nat option" | FillNext 'a "nat option" | FillId 'a "nat option"
  | LinkIn 'a dptr | LinkNext 'a dptr dptr | LinkHelp 'a dptr dptr dptr | LinkSwap 'a dptr dptr
  | LinkTail 'a dptr dptr
  | PopOut | PopIn dptr | PopNext dptr dptr | PopHelp dptr dptr dptr | PopData dptr dptr
  | PopSwap dptr dptr "'a option"
  | RelId "'a option" "nat option" | RelRead "'a option" dptr | RelLink "'a option" dptr dptr
  | RelSwap "'a option" dptr dptr

text \<open>What can be seen of a step: an element is linked or refused, taken or found missing, its node freed.\<close>

datatype 'a lf_event = Linked 'a | Refused 'a | Taken "'a option" | NoElement | Freed

definition conc_start :: "'a queue_op \<Rightarrow> 'a lpc" where
  "conc_start op = (case op of QPush x \<Rightarrow> AllocRead x | QPop \<Rightarrow> PopOut)"

definition alloc_step :: "'a lpc \<Rightarrow> 'a lf_list \<Rightarrow> ('a lf_list \<times> 'a lpc \<times> 'a lf_event list) result" where
  "alloc_step pc s = (case pc of
     AllocRead x \<Rightarrow>
       if lf_head s = NULLDP then Inr (s, Resting, [Refused x]) else Inr (s, AllocAgain x (lf_head s), [])
   | AllocAgain x old \<Rightarrow> Inr (s, AllocNext x old (dp_ptr (lf_head s)), [])
   | AllocNext x old h \<Rightarrow> bindR (deref h s) (\<lambda>n. Inr (s, AllocSwap x old (lf_next n), []))
   | AllocSwap x old next \<Rightarrow>
       (let (s', ok) = cas_head old next s
        in Inr (s', if ok then AllocClear x (dp_ptr old) else AllocRead x, []))
   | AllocClear x p \<Rightarrow> bindR (set_next p NULLDP s) (\<lambda>s'. Inr (s', FillData x p, []))
   | FillData x p \<Rightarrow>
       (case p of None \<Rightarrow> Inl NullDeref
        | Some i \<Rightarrow> if i < length (lf_nodes s) then Inr (set_data i x s, FillNext x p, []) else Inl OutOfBounds)
   | FillNext x p \<Rightarrow> bindR (set_next p NULLDP s) (\<lambda>s'. Inr (s', FillId x p, []))
   | FillId x p \<Rightarrow> Inr (s\<lparr>lf_id := lf_id s + 1\<rparr>, LinkIn x (DP (lf_id s) p), [])
   | _ \<Rightarrow> Inr (s, pc, []))"

definition link_step :: "'a lpc \<Rightarrow> 'a lf_list \<Rightarrow> ('a lf_list \<times> 'a lpc \<times> 'a lf_event list) result" where
  "link_step pc s = (case pc of
     LinkIn x new \<Rightarrow> Inr (s, LinkNext x new (lf_in s), [])
   | LinkNext x new inp \<Rightarrow> bindR (deref (dp_ptr inp) s) (\<lambda>n.
       Inr (s, if lf_next n \<noteq> NULLDP then LinkHelp x new inp (lf_next n) else LinkSwap x new inp, []))
   | LinkHelp x new inp next \<Rightarrow> Inr (cas_in inp next s, LinkSwap x new inp, [])
   | LinkSwap x new inp \<Rightarrow> bindR (cas_next (dp_ptr inp) NULLDP new s) (\<lambda>(s', ok).
       Inr (s', if ok then LinkTail x new inp else LinkIn x new, if ok then [Linked x] else []))
   | LinkTail x new inp \<Rightarrow> Inr (cas_in inp new s, Resting, [])
   | _ \<Rightarrow> Inr (s, pc, []))"

definition pop_step :: "'a lpc \<Rightarrow> 'a lf_list \<Rightarrow> ('a lf_list \<times> 'a lpc \<times> 'a lf_event list) result" where
  "pop_step pc s = (case pc of
     PopOut \<Rightarrow> Inr (s, PopIn (lf_out s), [])
   | PopIn out \<Rightarrow> Inr (s, PopNext out (lf_in s), [])
   | PopNext out inp \<Rightarrow> bindR (deref (dp_ptr out) s) (\<lambda>n.
       if lf_next n = NULLDP then Inr (s, Resting, [NoElement])
       else Inr (s, if inp = out then PopHelp out inp (lf_next n) else PopData out (lf_next n), []))
   | PopHelp out inp next \<Rightarrow> Inr (cas_in inp next s, PopOut, [])
   | PopData out next \<Rightarrow> bindR (deref (dp_ptr next) s) (\<lambda>n. Inr (s, PopSwap out next (lf_data n), []))
   | PopSwap out next d \<Rightarrow>
       (let (s', ok) = cas_out out next s
        in Inr (s', if ok then RelId d (dp_ptr out) else PopOut, if ok then [Taken d] else []))
   | _ \<Rightarrow> Inr (s, pc, []))"

definition rel_step :: "'a lpc \<Rightarrow> 'a lf_list \<Rightarrow> ('a lf_list \<times> 'a lpc \<times> 'a lf_event list) result" where
  "rel_step pc s = (case pc of
     RelId d cur \<Rightarrow>
       (case cur of None \<Rightarrow> Inl AssertFail
        | Some i \<Rightarrow> if i < lf_max s then Inr (s\<lparr>lf_id := lf_id s + 1\<rparr>, RelRead d (DP (lf_id s) cur), [])
                   else Inl AssertFail)
   | RelRead d new \<Rightarrow> Inr (s, RelLink d new (lf_head s), [])
   | RelLink d new old \<Rightarrow> bindR (set_next (dp_ptr new) old s) (\<lambda>s'. Inr (s', RelSwap d new old, []))
   | RelSwap d new old \<Rightarrow>
       (let (s', ok) = cas_head old new s
        in Inr (s', if ok then Resting else RelRead d new, if ok then [Freed] else []))
   | _ \<Rightarrow> Inr (s, pc, []))"

definition conc_step :: "'a lpc \<Rightarrow> 'a lf_list \<Rightarrow> ('a lf_list \<times> 'a lpc \<times> 'a lf_event list) result" where
  "conc_step pc s = (case pc of
     Resting \<Rightarrow> Inr (s, Resting, [])
   | AllocRead _ \<Rightarrow> alloc_step pc s | AllocAgain _ _ \<Rightarrow> alloc_step pc s | AllocNext _ _ _ \<Rightarrow> alloc_step pc s
   | AllocSwap _ _ _ \<Rightarrow> alloc_step pc s | AllocClear _ _ \<Rightarrow> alloc_step pc s | FillData _ _ \<Rightarrow> alloc_step pc s
   | FillNext _ _ \<Rightarrow> alloc_step pc s | FillId _ _ \<Rightarrow> alloc_step pc s
   | LinkIn _ _ \<Rightarrow> link_step pc s | LinkNext _ _ _ \<Rightarrow> link_step pc s | LinkHelp _ _ _ _ \<Rightarrow> link_step pc s
   | LinkSwap _ _ _ \<Rightarrow> link_step pc s | LinkTail _ _ _ \<Rightarrow> link_step pc s
   | PopOut \<Rightarrow> pop_step pc s | PopIn _ \<Rightarrow> pop_step pc s | PopNext _ _ \<Rightarrow> pop_step pc s
   | PopHelp _ _ _ \<Rightarrow> pop_step pc s | PopData _ _ \<Rightarrow> pop_step pc s | PopSwap _ _ _ \<Rightarrow> pop_step pc s
   | RelId _ _ \<Rightarrow> rel_step pc s | RelRead _ _ \<Rightarrow> rel_step pc s | RelLink _ _ _ \<Rightarrow> rel_step pc s
   | RelSwap _ _ _ \<Rightarrow> rel_step pc s)"

lemmas conc_defs = alloc_step_def link_step_def pop_step_def rel_step_def conc_step_def

section \<open>Threads\<close>

record 'a lf_conf =
  lc_list :: "'a lf_list"
  lc_pcs :: "'a lpc list"
  lc_log :: "'a lf_event list"

datatype 'a lf_move = Calls nat "'a queue_op" | Goes nat

text \<open>A call of a thread that is still busy, or of a thread that does not exist, does nothing.\<close>

definition lf_move :: "'a lf_move \<Rightarrow> 'a lf_conf \<Rightarrow> 'a lf_conf result" where
  "lf_move m c = (case m of
     Calls i op \<Rightarrow>
       Inr (if i < length (lc_pcs c) \<and> lc_pcs c ! i = Resting
            then c\<lparr>lc_pcs := (lc_pcs c)[i := conc_start op]\<rparr> else c)
   | Goes i \<Rightarrow>
       if i < length (lc_pcs c)
       then bindR (conc_step (lc_pcs c ! i) (lc_list c)) (\<lambda>(s, pc, ev).
              Inr \<lparr>lc_list = s, lc_pcs = (lc_pcs c)[i := pc], lc_log = lc_log c @ ev\<rparr>)
       else Inr c)"

fun lf_moves :: "'a lf_move list \<Rightarrow> 'a lf_conf \<Rightarrow> 'a lf_conf result" where
  "lf_moves [] c = Inr c"
| "lf_moves (m # ms) c = bindR (lf_move m c) (lf_moves ms)"

definition lf_conf_init :: "nat \<Rightarrow> 'a lf_list \<Rightarrow> 'a lf_conf" where
  "lf_conf_init threads s = \<lparr>lc_list = s, lc_pcs = replicate threads Resting, lc_log = []\<rparr>"

fun linked :: "'a lf_event list \<Rightarrow> 'a list" where
  "linked [] = []"
| "linked (e # es) = (case e of Linked x \<Rightarrow> x # linked es | _ \<Rightarrow> linked es)"

fun taken :: "'a lf_event list \<Rightarrow> 'a option list" where
  "taken [] = []"
| "taken (e # es) = (case e of Taken d \<Rightarrow> d # taken es | _ \<Rightarrow> taken es)"

fun freed :: "'a lf_event list \<Rightarrow> nat" where
  "freed [] = 0"
| "freed (e # es) = (case e of Freed \<Rightarrow> Suc (freed es) | _ \<Rightarrow> freed es)"

lemma log_append [simp]:
  "linked (es @ fs) = linked es @ linked fs" "taken (es @ fs) = taken es @ taken fs"
  "freed (es @ fs) = freed es + freed fs"
  by (induction es) (auto split: lf_event.splits)

section \<open>One thread that pushes and one that pops\<close>

text \<open>The links along a path, the one that leads to its first node included.\<close>

fun links :: "'a lf_node list \<Rightarrow> dptr \<Rightarrow> nat list \<Rightarrow> dptr list" where
  "links ns d [] = []"
| "links ns d (x # xs) = d # links ns (lf_next (ns ! x)) xs"

lemma links_frame: "i \<notin> set xs \<Longrightarrow> links (ns[i := n]) d xs = links ns d xs"
  by (induction xs arbitrary: d) auto

lemma links_ptr: "path ns d xs \<Longrightarrow> l \<in> set (links ns d xs) \<Longrightarrow> \<exists>x \<in> set xs. dp_ptr l = Some x"
  by (induction xs arbitrary: d) auto

lemma links_data: "i < length ns \<Longrightarrow> links (ns[i := (ns ! i)\<lparr>lf_data := x\<rparr>]) d xs = links ns d xs"
proof (induction xs arbitrary: d)
  case (Cons a xs)
  then show ?case by (cases "a = i") auto
qed simp

text \<open>Two links of one path that lead to the same node are the same.\<close>

lemma links_inj:
  "path ns d xs \<Longrightarrow> distinct xs \<Longrightarrow> l \<in> set (links ns d xs) \<Longrightarrow> m \<in> set (links ns d xs) \<Longrightarrow>
   dp_ptr l = dp_ptr m \<Longrightarrow> l = m"
proof (induction xs arbitrary: d)
  case (Cons x xs)
  have no: "dp_ptr k \<noteq> Some x" if "k \<in> set (links ns (lf_next (ns ! x)) xs)" for k
    using links_ptr [OF _ that] Cons.prems(1,2) by auto
  show ?case using Cons.prems Cons.IH no [of l] no [of m] by auto
qed simp

lemma links_extend:
  "path ns d (xs @ [x]) \<Longrightarrow> x \<notin> set xs \<Longrightarrow> x < length ns \<Longrightarrow>
   links (ns[x := (ns ! x)\<lparr>lf_next := l\<rparr>]) d (xs @ [x, y]) = links ns d (xs @ [x]) @ [l]"
proof (induction xs arbitrary: d)
  case (Cons a xs)
  then show ?case by auto
qed simp

lemma links_next:
  "path ns d xs \<Longrightarrow> l \<in> set (links ns d xs) \<Longrightarrow> dp_ptr l = Some x \<Longrightarrow> lf_next (ns ! x) \<noteq> NULLDP \<Longrightarrow>
   lf_next (ns ! x) \<in> set (links ns d xs)"
proof (induction xs arbitrary: d)
  case (Cons a xs)
  then show ?case by (cases xs) auto
qed simp

text \<open>
  The shape of the list: the dummy and the queued nodes \<open>qs\<close>, the free nodes \<open>fs\<close>, and the nodes
  \<open>own\<close> a thread has in its hands are all nodes, each once; \<open>m_in\<close> is one of the links of the queue.
\<close>

definition conc_shape :: "'a lf_list \<Rightarrow> nat list \<Rightarrow> nat list \<Rightarrow> nat list \<Rightarrow> bool" where
  "conc_shape s qs fs own \<longleftrightarrow>
     qs \<noteq> [] \<and> path (lf_nodes s) (lf_out s) qs \<and> path (lf_nodes s) (lf_head s) fs \<and>
     distinct (qs @ fs @ own) \<and> length (qs @ fs @ own) = lf_max s \<and> length (lf_nodes s) = lf_max s \<and>
     (\<forall>i \<in> set own. i < lf_max s) \<and> lf_in s \<in> set (links (lf_nodes s) (lf_out s) qs)"

definition node_of :: "nat option \<Rightarrow> nat list" where
  "node_of p = (case p of None \<Rightarrow> [] | Some i \<Rightarrow> [i])"

lemma node_of_simps [simp]: "node_of None = []" "node_of (Some i) = [i]"
  by (simp_all add: node_of_def)

definition push_owns :: "'a lpc \<Rightarrow> nat list" where
  "push_owns pc = (case pc of
     AllocClear x p \<Rightarrow> node_of p | FillData x p \<Rightarrow> node_of p | FillNext x p \<Rightarrow> node_of p
   | FillId x p \<Rightarrow> node_of p | LinkIn x new \<Rightarrow> node_of (dp_ptr new) | LinkNext x new inp \<Rightarrow> node_of (dp_ptr new)
   | LinkHelp x new inp next \<Rightarrow> node_of (dp_ptr new) | LinkSwap x new inp \<Rightarrow> node_of (dp_ptr new) | _ \<Rightarrow> [])"

definition pop_owns :: "'a lpc \<Rightarrow> nat list" where
  "pop_owns pc = (case pc of
     RelId d cur \<Rightarrow> node_of cur | RelRead d new \<Rightarrow> node_of (dp_ptr new)
   | RelLink d new old \<Rightarrow> node_of (dp_ptr new) | RelSwap d new old \<Rightarrow> node_of (dp_ptr new) | _ \<Rightarrow> [])"

definition tail_link :: "'a lf_list \<Rightarrow> nat list \<Rightarrow> bool" where
  "tail_link s qs \<longleftrightarrow> dp_ptr (lf_in s) = Some (last qs)"

text \<open>A new node is filled in: it holds the element and ends the list.\<close>

definition filled :: "'a lf_list \<Rightarrow> 'a \<Rightarrow> dptr \<Rightarrow> bool" where
  "filled s x new \<longleftrightarrow> (\<exists>i. dp_ptr new = Some i \<and> lf_nodes s ! i = \<lparr>lf_next = NULLDP, lf_data = Some x\<rparr>)"

text \<open>What the pushing thread knows at each place.\<close>

definition push_ok :: "'a lf_list \<Rightarrow> nat list \<Rightarrow> nat list \<Rightarrow> 'a lpc \<Rightarrow> bool" where
  "push_ok s qs fs pc = (case pc of
     Resting \<Rightarrow> tail_link s qs
   | AllocRead x \<Rightarrow> tail_link s qs
   | AllocAgain x old \<Rightarrow> tail_link s qs \<and> old \<in> set (links (lf_nodes s) (lf_head s) fs)
   | AllocNext x old h \<Rightarrow> tail_link s qs \<and> old \<in> set (links (lf_nodes s) (lf_head s) fs) \<and>
       (\<exists>i \<in> set fs. h = Some i) \<and> (lf_head s = old \<longrightarrow> h = dp_ptr old)
   | AllocSwap x old next \<Rightarrow> tail_link s qs \<and> old \<in> set (links (lf_nodes s) (lf_head s) fs) \<and>
       (lf_head s = old \<longrightarrow> (\<forall>i. dp_ptr old = Some i \<longrightarrow> next = lf_next (lf_nodes s ! i)))
   | AllocClear x p \<Rightarrow> tail_link s qs \<and> p \<noteq> None
   | FillData x p \<Rightarrow> tail_link s qs \<and> p \<noteq> None
   | FillNext x p \<Rightarrow> tail_link s qs \<and> (\<exists>i. p = Some i \<and> lf_data (lf_nodes s ! i) = Some x)
   | FillId x p \<Rightarrow> tail_link s qs \<and> filled s x (DP 0 p)
   | LinkIn x new \<Rightarrow> tail_link s qs \<and> filled s x new
   | LinkNext x new inp \<Rightarrow> tail_link s qs \<and> filled s x new \<and> inp = lf_in s
   | LinkSwap x new inp \<Rightarrow> tail_link s qs \<and> filled s x new \<and> inp = lf_in s
   | LinkTail x new inp \<Rightarrow> dp_ptr new = Some (last qs) \<and> new \<in> set (links (lf_nodes s) (lf_out s) qs) \<and>
       (lf_in s = new \<or> lf_in s = inp \<and> (\<exists>i. dp_ptr inp = Some i \<and> lf_next (lf_nodes s ! i) = new))
   | _ \<Rightarrow> False)"

text \<open>What the popping thread knows at each place.\<close>

definition first_link :: "'a lf_list \<Rightarrow> nat list \<Rightarrow> dptr" where
  "first_link s qs = lf_next (lf_nodes s ! hd qs)"

definition pop_ok :: "'a lf_list \<Rightarrow> nat list \<Rightarrow> 'a lpc \<Rightarrow> bool" where
  "pop_ok s qs pc = (case pc of
     Resting \<Rightarrow> True
   | PopOut \<Rightarrow> True
   | PopIn out \<Rightarrow> out = lf_out s
   | PopNext out inp \<Rightarrow> out = lf_out s \<and> (inp \<noteq> out \<longrightarrow> lf_in s \<noteq> out)
   | PopHelp out inp next \<Rightarrow> out = lf_out s \<and> inp = out \<and> next = first_link s qs \<and> next \<noteq> NULLDP
   | PopData out next \<Rightarrow> out = lf_out s \<and> lf_in s \<noteq> out \<and> next = first_link s qs \<and> next \<noteq> NULLDP
   | PopSwap out next d \<Rightarrow> out = lf_out s \<and> lf_in s \<noteq> out \<and> next = first_link s qs \<and> next \<noteq> NULLDP \<and>
       (\<forall>i. dp_ptr next = Some i \<longrightarrow> d = lf_data (lf_nodes s ! i))
   | RelId d cur \<Rightarrow> cur \<noteq> None
   | RelRead d new \<Rightarrow> dp_ptr new \<noteq> None
   | RelLink d new old \<Rightarrow> dp_ptr new \<noteq> None
   | RelSwap d new old \<Rightarrow> \<exists>i. dp_ptr new = Some i \<and> lf_next (lf_nodes s ! i) = old
   | _ \<Rightarrow> False)"

definition log_step_ok :: "nat \<Rightarrow> 'a lf_event list \<Rightarrow> 'a lf_event \<Rightarrow> bool" where
  "log_step_ok n es e = (case e of
     NoElement \<Rightarrow> length (taken es) = length (linked es)
   | Refused x \<Rightarrow> length (linked es) = freed es + (n - 1)
   | _ \<Rightarrow> True)"

definition hist_ok :: "nat \<Rightarrow> 'a lf_event list \<Rightarrow> bool" where
  "hist_ok n es \<longleftrightarrow> (\<forall>es1 e es2. es = es1 @ e # es2 \<longrightarrow> log_step_ok n es1 e)"

lemma log_step_ok_simps [simp]:
  "log_step_ok n es (Linked x)" "log_step_ok n es (Taken d)" "log_step_ok n es Freed"
  "log_step_ok n es NoElement \<longleftrightarrow> length (taken es) = length (linked es)"
  "log_step_ok n es (Refused x) \<longleftrightarrow> length (linked es) = freed es + (n - 1)"
  by (simp_all add: log_step_ok_def)

lemma hist_ok_snoc [simp]: "hist_ok n (es @ [x]) \<longleftrightarrow> hist_ok n es \<and> log_step_ok n es x"
proof (intro iffI conjI)
  assume a: "hist_ok n (es @ [x])"
  show "log_step_ok n es x" using a by (simp add: hist_ok_def)
  show "hist_ok n es" unfolding hist_ok_def
  proof (intro allI impI)
    fix es1 e es2 assume "es = es1 @ e # es2"
    then have "es @ [x] = es1 @ e # (es2 @ [x])" by simp
    with a show "log_step_ok n es1 e" unfolding hist_ok_def by blast
  qed
next
  assume a: "hist_ok n es \<and> log_step_ok n es x"
  show "hist_ok n (es @ [x])" unfolding hist_ok_def
  proof (intro allI impI)
    fix es1 e es2 assume "es @ [x] = es1 @ e # es2"
    with a show "log_step_ok n es1 e" by (cases es2 rule: rev_cases) (auto simp: hist_ok_def)
  qed
qed

text \<open>
  The log against the queue: what was linked is what was taken and what is queued, a taken
  element's node is freed or in the hands of the popping thread, and the negative answers were true.
\<close>

definition conc_log ::
  "nat \<Rightarrow> 'a lf_list \<Rightarrow> nat list \<Rightarrow> nat list \<Rightarrow> 'a lf_event list \<Rightarrow> bool" where
  "conc_log n s qs own es \<longleftrightarrow>
     (\<exists>ys q. linked es = ys @ q \<and> taken es = map Some ys \<and>
        map (\<lambda>i. lf_data (lf_nodes s ! i)) (tl qs) = map Some q) \<and>
     length (taken es) = freed es + length own \<and>
     hist_ok n es"

definition conc_inv :: "nat \<Rightarrow> 'a lf_conf \<Rightarrow> bool" where
  "conc_inv n c \<longleftrightarrow> (\<exists>qs fs pp cp. lc_pcs c = [pp, cp] \<and>
     conc_shape (lc_list c) qs fs (push_owns pp @ pop_owns cp) \<and>
     push_ok (lc_list c) qs fs pp \<and> pop_ok (lc_list c) qs cp \<and>
     conc_log n (lc_list c) qs (pop_owns cp) (lc_log c) \<and> lf_max (lc_list c) = n)"

lemma conc_shapeD:
  assumes "conc_shape s qs fs own"
  shows "qs \<noteq> []" "path (lf_nodes s) (lf_out s) qs" "path (lf_nodes s) (lf_head s) fs" "distinct (qs @ fs @ own)"
    "length (lf_nodes s) = lf_max s" "length qs + length fs + length own = lf_max s"
    "lf_in s \<in> set (links (lf_nodes s) (lf_out s) qs)" "\<And>i. i \<in> set (qs @ fs @ own) \<Longrightarrow> i < length (lf_nodes s)"
  using assms by (auto simp: conc_shape_def dest: path_bounds)

lemma hd_link: "path ns d qs \<Longrightarrow> qs \<noteq> [] \<Longrightarrow> d \<in> set (links ns d qs)" "path ns d qs \<Longrightarrow> qs \<noteq> [] \<Longrightarrow> dp_ptr d = Some (hd qs)"
  by (cases qs; simp)+

lemma last_next: "path ns d qs \<Longrightarrow> qs \<noteq> [] \<Longrightarrow> lf_next (ns ! last qs) = NULLDP"
  using path_end [of ns d "butlast qs" "last qs"] by simp

lemma pop_ok_mono:
  assumes "pop_ok s qs pc" and "lf_out s' = lf_out s"
    and "first_link s qs \<noteq> NULLDP \<Longrightarrow> first_link s' qs' = first_link s qs"
    and "lf_in s \<noteq> lf_out s \<Longrightarrow> lf_in s' \<noteq> lf_out s"
    and "\<And>i. dp_ptr (first_link s qs) = Some i \<Longrightarrow> lf_data (lf_nodes s' ! i) = lf_data (lf_nodes s ! i)"
    and "\<And>i. i \<in> set (pop_owns pc) \<Longrightarrow> lf_nodes s' ! i = lf_nodes s ! i"
  shows "pop_ok s' qs' pc"
  using assms by (cases pc) (auto simp: pop_ok_def pop_owns_def)

lemma own_write:
  assumes "conc_shape s qs fs own" and "i \<in> set own" and "s' = s\<lparr>lf_nodes := (lf_nodes s)[i := n]\<rparr>"
  shows "conc_shape s' qs fs own" and "links (lf_nodes s') d qs = links (lf_nodes s) d qs"
    and "links (lf_nodes s') d fs = links (lf_nodes s) d fs"
    and "\<And>j. j \<noteq> i \<Longrightarrow> lf_nodes s' ! j = lf_nodes s ! j" and "lf_nodes s' ! i = n"
    and "first_link s' qs = first_link s qs"
proof -
  have i: "i \<notin> set qs" "i \<notin> set fs" "i < length (lf_nodes s)" "hd qs \<noteq> i"
    using assms(1,2) conc_shapeD [OF assms(1)] by (auto simp: disjoint_iff)
  show "conc_shape s' qs fs own" "links (lf_nodes s') d qs = links (lf_nodes s) d qs"
    "links (lf_nodes s') d fs = links (lf_nodes s) d fs" "\<And>j. j \<noteq> i \<Longrightarrow> lf_nodes s' ! j = lf_nodes s ! j"
    "lf_nodes s' ! i = n" "first_link s' qs = first_link s qs"
    using assms(1,3) i by (simp_all add: conc_shape_def path_frame links_frame first_link_def)
qed

text \<open>The state and the log of the popping thread after a write to a node of the pushing one.\<close>

lemma own_write_pop:
  assumes sh: "conc_shape s qs fs (ps @ pop_owns cp)" and "i \<in> set ps" and w: "s' = s\<lparr>lf_nodes := (lf_nodes s)[i := n]\<rparr>"
    and "pop_ok s qs cp" and "conc_log m s qs (pop_owns cp) es"
  shows "pop_ok s' qs cp" and "conc_log m s' qs (pop_owns cp) es" and "tail_link s qs \<Longrightarrow> tail_link s' qs"
proof -
  have i: "i \<in> set (ps @ pop_owns cp)" "i \<notin> set qs" "i \<notin> set (pop_owns cp)"
    using conc_shapeD(4) [OF sh] assms(2) by auto
  note o = own_write [OF sh i(1) w]
  have q: "lf_nodes s' ! j = lf_nodes s ! j" if "j \<in> set qs" for j using o(4) i(2) that by metis
  have "x \<in> set qs" if "dp_ptr (first_link s qs) = Some x" for x
    using that conc_shapeD(1,2) [OF sh] by (cases qs; cases "tl qs") (auto simp: first_link_def NULLDP_def)
  note fst_q = this
  have "lf_nodes s' ! j = lf_nodes s ! j" if "j \<in> set (pop_owns cp)" for j using o(4) i(3) that by metis
  then show "pop_ok s' qs cp"
    by (intro pop_ok_mono [OF assms(4)]) (simp_all add: o(6) q fst_q, simp_all add: w)
  have m: "map (\<lambda>i. lf_data (lf_nodes s' ! i)) (tl qs) = map (\<lambda>i. lf_data (lf_nodes s ! i)) (tl qs)"
    using q by (intro map_cong) (auto dest: list.set_sel(2) [OF conc_shapeD(1) [OF sh]])
  from assms(5) show "conc_log m s' qs (pop_owns cp) es" unfolding conc_log_def m .
  show "tail_link s qs \<Longrightarrow> tail_link s' qs" by (simp add: tail_link_def w)
qed

section \<open>The steps of the pushing thread\<close>

definition conc_good ::
  "nat \<Rightarrow> 'a lf_list \<Rightarrow> nat list \<Rightarrow> nat list \<Rightarrow> 'a lpc \<Rightarrow> 'a lpc \<Rightarrow> 'a lf_event list \<Rightarrow> bool" where
  "conc_good n s qs fs pp cp es \<longleftrightarrow>
     conc_shape s qs fs (push_owns pp @ pop_owns cp) \<and> push_ok s qs fs pp \<and> pop_ok s qs cp \<and>
     conc_log n s qs (pop_owns cp) es \<and> lf_max s = n"

lemma conc_goodD:
  assumes "conc_good n s qs fs pp cp es"
  shows "conc_shape s qs fs (push_owns pp @ pop_owns cp)" "push_ok s qs fs pp" "pop_ok s qs cp"
    "conc_log n s qs (pop_owns cp) es" "lf_max s = n"
  using assms by (simp_all add: conc_good_def)

lemma conc_log_event:
  assumes "conc_log n s qs own es"
  shows "conc_log n s qs own (es @ [NoElement]) \<longleftrightarrow> length (taken es) = length (linked es)"
    and "conc_log n s qs own (es @ [Refused x]) \<longleftrightarrow> length (linked es) = freed es + (n - 1)"
  using assms by (simp_all add: conc_log_def)

text \<open>A step that only moves the program counter of the pushing thread.\<close>

lemma push_only_pc:
  assumes "conc_good n s qs fs pp cp es" and "conc_step pp s = Inr (s, pp', [])"
    and "push_owns pp' = push_owns pp" and "push_ok s qs fs pp'"
  shows "\<exists>s' pp' ev qs' fs'. conc_step pp s = Inr (s', pp', ev) \<and> conc_good n s' qs' fs' pp' cp (es @ ev)"
  using assms unfolding conc_good_def by (intro exI [of _ s] exI [of _ pp'] exI [of _ "[]"] exI [of _ qs] exI [of _ fs]) simp

lemma push_own_write:
  assumes g: "conc_good n s qs fs pp cp es" and "i \<in> set (push_owns pp)"
    and w: "s' = s\<lparr>lf_nodes := (lf_nodes s)[i := m]\<rparr>" and "conc_step pp s = Inr (s', pp', [])"
    and "push_owns pp' = push_owns pp" and "tail_link s qs"
    and "tail_link s' qs \<Longrightarrow> lf_nodes s' ! i = m \<Longrightarrow> push_ok s' qs fs pp'"
  shows "\<exists>s' pp' ev qs' fs'. conc_step pp s = Inr (s', pp', ev) \<and> conc_good n s' qs' fs' pp' cp (es @ ev)"
proof -
  note d = conc_goodD [OF g]
  have i: "i \<in> set (push_owns pp @ pop_owns cp)" using assms(2) by simp
  note o = own_write(1,5) [OF d(1) i w]
  note p = own_write_pop [OF d(1) assms(2) w d(3,4)]
  have "lf_max s' = n" using d(5) w by simp
  then have "conc_good n s' qs fs pp' cp (es @ [])"
    unfolding conc_good_def using o p assms(5-7) by simp
  with assms(4) show ?thesis by blast
qed

lemma push_AllocRead:
  assumes g: "conc_good n s qs fs (AllocRead x) cp es"
  shows "\<exists>s' pp' ev qs' fs'. conc_step (AllocRead x) s = Inr (s', pp', ev) \<and> conc_good n s' qs' fs' pp' cp (es @ ev)"
proof (cases "lf_head s = NULLDP")
  case False
  note d = conc_goodD [OF g]
  have "fs \<noteq> []" using False conc_shapeD(3) [OF d(1)] by (cases fs) auto
  then have "lf_head s \<in> set (links (lf_nodes s) (lf_head s) fs)"
    using hd_link(1) [OF conc_shapeD(3) [OF d(1)]] by blast
  with False d(2) show ?thesis
    by (intro push_only_pc [OF g, where pp' = "AllocAgain x (lf_head s)"])
      (simp_all add: conc_defs push_owns_def push_ok_def)
next
  case True
  note d = conc_goodD [OF g]
  have fs: "fs = []" using True conc_shapeD(3) [OF d(1)] by (simp add: path_NULL)
  obtain ys q where l: "linked es = ys @ q" "taken es = map Some ys" "length (taken es) = freed es + length (pop_owns cp)"
    and m: "map (\<lambda>i. lf_data (lf_nodes s ! i)) (tl qs) = map Some q"
    using d(4) by (auto simp: conc_log_def)
  have "length q = length qs - 1" using arg_cong [OF m, of length] by simp
  moreover have "length qs > 0" "length qs + length (pop_owns cp) = n"
    using conc_shapeD(1,6) [OF d(1)] d(5) fs by (simp_all add: push_owns_def)
  moreover have "length ys = freed es + length (pop_owns cp)" using l(2,3) by simp
  moreover have "length (linked es) = length ys + length q" using l(1) by simp
  ultimately have "length (linked es) = freed es + (n - 1)" by linarith
  then have "conc_log n s qs (pop_owns cp) (es @ [Refused x])" by (simp add: conc_log_event(2) [OF d(4)])
  then have "conc_good n s qs fs Resting cp (es @ [Refused x])"
    using d by (simp add: conc_good_def push_owns_def push_ok_def)
  with True show ?thesis by (auto simp: conc_defs)
qed

lemma push_AllocSwap:
  assumes g: "conc_good n s qs fs (AllocSwap x old next) cp es"
  shows "\<exists>s' pp' ev qs' fs'. conc_step (AllocSwap x old next) s = Inr (s', pp', ev) \<and>
    conc_good n s' qs' fs' pp' cp (es @ ev)"
proof (cases "lf_head s = old")
  case False
  with conc_goodD [OF g] show ?thesis
    by (intro push_only_pc [OF g, where pp' = "AllocRead x"])
      (simp_all add: conc_defs push_owns_def push_ok_def cas_head_def)
next
  case True
  note d = conc_goodD [OF g]
  have "fs \<noteq> []" using d(2) by (cases fs) (auto simp: push_ok_def)
  then obtain f fs' where fs: "fs = f # fs'" by (cases fs) auto
  have f: "dp_ptr old = Some f" using conc_shapeD(3) [OF d(1)] True by (simp add: fs)
  with True d(2) have n: "next = lf_next (lf_nodes s ! f)" by (simp add: push_ok_def)
  let ?s = "s\<lparr>lf_head := next\<rparr>"
  have "conc_shape ?s qs fs' (push_owns (AllocClear x (Some f)) @ pop_owns cp)"
    using d(1) n by (auto simp: conc_shape_def push_owns_def fs)
  moreover have "push_ok ?s qs fs' (AllocClear x (Some f))"
    using d(2) by (simp add: push_ok_def tail_link_def)
  moreover have "pop_ok ?s qs cp" by (rule pop_ok_mono [OF d(3)]) (simp_all add: first_link_def)
  moreover have "conc_log n ?s qs (pop_owns cp) es" using d(4) by (simp add: conc_log_def)
  ultimately have "conc_good n ?s qs fs' (AllocClear x (Some f)) cp (es @ [])"
    using d(5) by (simp add: conc_good_def)
  moreover have "conc_step (AllocSwap x old next) s = Inr (?s, AllocClear x (Some f), [])"
    using True f by (simp add: conc_defs cas_head_def)
  ultimately show ?thesis by blast
qed


text \<open>Linking the new node behind the last one.\<close>

lemma push_LinkSwap:
  assumes g: "conc_good n s qs fs (LinkSwap x new inp) cp es"
  shows "\<exists>s' pp' ev qs' fs'. conc_step (LinkSwap x new inp) s = Inr (s', pp', ev) \<and>
    conc_good n s' qs' fs' pp' cp (es @ ev)"
proof -
  note d = conc_goodD [OF g]
  note sh = conc_shapeD [OF d(1)]
  obtain qs0 l where qs: "qs = qs0 @ [l]" using sh(1) by (metis rev_exhaust)
  obtain i where i: "dp_ptr new = Some i" "lf_nodes s ! i = \<lparr>lf_next = NULLDP, lf_data = Some x\<rparr>"
    using d(2) by (auto simp: push_ok_def filled_def)
  have inp: "inp = lf_in s" "dp_ptr inp = Some l" using d(2) by (simp_all add: push_ok_def tail_link_def qs)
  have own: "push_owns (LinkSwap x new inp) = [i]" by (simp add: push_owns_def i)
  have dis: "l \<notin> set qs0" "i \<notin> set qs" "i \<notin> set fs" "i \<noteq> l" "l \<notin> set fs" "l \<notin> set (pop_owns cp)" "i \<notin> set (pop_owns cp)"
    and b: "l < length (lf_nodes s)" "i < length (lf_nodes s)"
    using sh(4) sh(8) [of l] sh(8) [of i] by (auto simp: own qs)
  have ln: "lf_next (lf_nodes s ! l) = NULLDP" using last_next [OF sh(2,1)] by (simp add: qs)
  let ?ns = "(lf_nodes s)[l := (lf_nodes s ! l)\<lparr>lf_next := new\<rparr>]"
  let ?s = "s\<lparr>lf_nodes := ?ns\<rparr>"
  obtain k where new: "new = DP k (Some i)" using i(1) by (cases new) auto
  have path: "path ?ns (lf_out s) (qs @ [i])"
    using path_extend [of "lf_nodes s" "lf_out s" qs0 l i k] sh(2) dis b i(2) by (simp add: qs new)
  have lks: "links ?ns (lf_out s) (qs @ [i]) = links (lf_nodes s) (lf_out s) qs @ [new]"
    using links_extend [of "lf_nodes s" "lf_out s" qs0 l new i] sh(2) dis b by (simp add: qs)
  have n: "lf_nodes ?s ! j = lf_nodes s ! j" if "j \<noteq> l" for j using that by simp
  have dat: "lf_data (?ns ! j) = lf_data (lf_nodes s ! j)" for j by (cases "j = l") (simp_all add: b)
  have "conc_shape ?s (qs @ [i]) fs (push_owns (LinkTail x new inp) @ pop_owns cp)"
    using d(1) path lks dis i(1) by (auto simp: conc_shape_def own path_frame push_owns_def)
  moreover have "push_ok ?s (qs @ [i]) fs (LinkTail x new inp)"
    using inp i b by (simp add: push_ok_def lks)
  moreover have "pop_ok ?s (qs @ [i]) cp"
  proof (rule pop_ok_mono [OF d(3)])
    assume "first_link s qs \<noteq> NULLDP"
    then have "hd qs \<noteq> l" using ln by (auto simp: first_link_def)
    then show "first_link ?s (qs @ [i]) = first_link s qs" using sh(1) by (simp add: first_link_def)
  next
    show "lf_nodes ?s ! j = lf_nodes s ! j" if "j \<in> set (pop_owns cp)" for j
      using n [of j] that dis(6) by metis
  qed (simp_all add: dat)
  moreover have "conc_log n ?s (qs @ [i]) (pop_owns cp) (es @ [Linked x])"
  proof -
    obtain ys q where l: "linked es = ys @ q" "taken es = map Some ys"
      and m: "map (\<lambda>i. lf_data (lf_nodes s ! i)) (tl qs) = map Some q"
      and r: "length (taken es) = freed es + length (pop_owns cp)" "hist_ok n es"
      using d(4) by (auto simp: conc_log_def)
    have "map (\<lambda>i. lf_data (lf_nodes ?s ! i)) (tl (qs @ [i])) = map Some (q @ [x])"
      using m sh(1) i(2) by (simp add: dat)
    with l r show ?thesis unfolding conc_log_def by (intro conjI exI [of _ ys] exI [of _ "q @ [x]"]) simp_all
  qed
  ultimately have "conc_good n ?s (qs @ [i]) fs (LinkTail x new inp) cp (es @ [Linked x])"
    using d(5) by (simp add: conc_good_def)
  moreover have "conc_step (LinkSwap x new inp) s = Inr (?s, LinkTail x new inp, [Linked x])"
    using inp b ln by (simp add: conc_defs cas_next_def)
  ultimately show ?thesis by blast
qed

text \<open>While \<open>m_in\<close> lags behind the new node, that node is not the dummy.\<close>

lemma lag_not_first:
  assumes "conc_shape s qs fs own" and "dp_ptr new = Some (last qs)" and "dp_ptr (lf_in s) = Some i"
    and "lf_next (lf_nodes s ! i) = new"
  shows "new \<noteq> lf_out s"
proof
  note sh = conc_shapeD [OF assms(1)]
  assume new: "new = lf_out s"
  with assms(2) have "hd qs = last qs" using hd_link(2) [OF sh(2,1)] by simp
  with sh(1,4) have "qs = [last qs]" by (cases qs) (auto split: if_splits)
  then have "lf_in s = lf_out s" using sh(7) by (cases qs) auto
  with new assms(2-4) have "lf_next (lf_nodes s ! last qs) = new" by simp
  with last_next [OF sh(2,1)] assms(2) show False by (simp add: NULLDP_def)
qed

lemma push_LinkTail:
  assumes g: "conc_good n s qs fs (LinkTail x new inp) cp es"
  shows "\<exists>s' pp' ev qs' fs'. conc_step (LinkTail x new inp) s = Inr (s', pp', ev) \<and>
    conc_good n s' qs' fs' pp' cp (es @ ev)"
proof -
  note d = conc_goodD [OF g]
  let ?s = "cas_in inp new s"
  have f: "lf_nodes ?s = lf_nodes s" "lf_out ?s = lf_out s" "lf_head ?s = lf_head s" "lf_max ?s = lf_max s"
    and new: "lf_in ?s = new"
    using d(2) by (auto simp: cas_in_def push_ok_def)
  have p: "new \<in> set (links (lf_nodes s) (lf_out s) qs)" "dp_ptr new = Some (last qs)"
    using d(2) by (simp_all add: push_ok_def)
  have q: "new \<noteq> lf_out s" if "lf_in s \<noteq> lf_out s"
    using d(2) that lag_not_first [OF d(1) p(2)] by (auto simp: push_ok_def)
  have "conc_shape ?s qs fs (push_owns Resting @ pop_owns cp)"
    using d(1) p by (simp add: conc_shape_def f new push_owns_def)
  moreover have "push_ok ?s qs fs Resting" using p by (simp add: push_ok_def tail_link_def new)
  moreover have "pop_ok ?s qs cp" by (rule pop_ok_mono [OF d(3)]) (simp_all add: f new q first_link_def)
  moreover have "conc_log n ?s qs (pop_owns cp) es" using d(4) by (simp add: conc_log_def f)
  ultimately have "conc_good n ?s qs fs Resting cp (es @ [])" using d(5) by (simp add: conc_good_def f)
  moreover have "conc_step (LinkTail x new inp) s = Inr (?s, Resting, [])" by (simp add: conc_defs)
  ultimately show ?thesis by blast
qed

lemma push_LinkNext:
  assumes g: "conc_good n s qs fs (LinkNext x new inp) cp es"
  shows "\<exists>s' pp' ev qs' fs'. conc_step (LinkNext x new inp) s = Inr (s', pp', ev) \<and>
    conc_good n s' qs' fs' pp' cp (es @ ev)"
proof -
  note d = conc_goodD [OF g]
  note sh = conc_shapeD [OF d(1)]
  have "dp_ptr inp = Some (last qs)" "last qs < length (lf_nodes s)" "lf_next (lf_nodes s ! last qs) = NULLDP"
    using d(2) sh(8) [of "last qs"] sh(1) last_next [OF sh(2,1)] by (auto simp: push_ok_def tail_link_def)
  with d(2) show ?thesis
    by (intro push_only_pc [OF g, where pp' = "LinkSwap x new inp"])
      (simp_all add: conc_defs push_owns_def push_ok_def)
qed

lemma push_step_ok:
  assumes g: "conc_good n s qs fs pp cp es"
  shows "\<exists>s' pp' ev qs' fs'. conc_step pp s = Inr (s', pp', ev) \<and> conc_good n s' qs' fs' pp' cp (es @ ev)"
proof -
  note d = conc_goodD [OF g]
  note sh = conc_shapeD [OF d(1)]
  show ?thesis
  proof (cases pp)
    case Resting
    with d show ?thesis by (intro push_only_pc [OF g, where pp' = Resting]) (simp_all add: conc_defs)
  next
    case (AllocRead x)
    show ?thesis using push_AllocRead [OF g [unfolded AllocRead]] unfolding AllocRead .
  next
    case (AllocAgain x old)
    with d(2) have o: "old \<in> set (links (lf_nodes s) (lf_head s) fs)" "tail_link s qs" by (simp_all add: push_ok_def)
    then have "fs \<noteq> []" by (cases fs) auto
    then have "dp_ptr (lf_head s) = Some (hd fs)" "hd fs \<in> set fs" using hd_link(2) [OF sh(3)] by simp_all
    with o AllocAgain show ?thesis
      by (intro push_only_pc [OF g, where pp' = "AllocNext x old (dp_ptr (lf_head s))"])
        (auto simp: conc_defs push_owns_def push_ok_def)
  next
    case (AllocNext x old h)
    with d(2) obtain i where i: "h = Some i" "i \<in> set fs" by (auto simp: push_ok_def)
    then have "i < length (lf_nodes s)" using sh(8) by simp
    with i d(2) AllocNext show ?thesis
      by (intro push_only_pc [OF g, where pp' = "AllocSwap x old (lf_next (lf_nodes s ! i))"])
        (auto simp: conc_defs push_owns_def push_ok_def)
  next
    case (AllocSwap x old nxt)
    show ?thesis using push_AllocSwap [OF g [unfolded AllocSwap]] unfolding AllocSwap .
  next
    case (AllocClear x p)
    with d(2) obtain i where i: "p = Some i" by (auto simp: push_ok_def)
    then have "i < length (lf_nodes s)" using sh(8) by (simp add: AllocClear push_owns_def)
    with i d(2) AllocClear show ?thesis
      by (intro push_own_write [OF g _ refl, where i = i and pp' = "FillData x p" and m = "(lf_nodes s ! i)\<lparr>lf_next := NULLDP\<rparr>"])
        (simp_all add: conc_defs push_owns_def push_ok_def)
  next
    case (FillData x p)
    with d(2) obtain i where i: "p = Some i" by (auto simp: push_ok_def)
    then have "i < length (lf_nodes s)" using sh(8) by (simp add: FillData push_owns_def)
    with i d(2) FillData show ?thesis
      by (intro push_own_write [OF g _ refl, where i = i and pp' = "FillNext x p" and m = "(lf_nodes s ! i)\<lparr>lf_data := Some x\<rparr>"])
        (simp_all add: conc_defs push_owns_def push_ok_def set_data_def)
  next
    case (FillNext x p)
    with d(2) obtain i where i: "p = Some i" by (auto simp: push_ok_def)
    then have "i < length (lf_nodes s)" using sh(8) by (simp add: FillNext push_owns_def)
    with i d(2) FillNext show ?thesis
      by (intro push_own_write [OF g _ refl, where i = i and pp' = "FillId x p" and m = "(lf_nodes s ! i)\<lparr>lf_next := NULLDP\<rparr>"])
        (simp_all add: conc_defs push_owns_def push_ok_def filled_def lf_node.equality)
  next
    case (FillId x p)
    let ?s = "s\<lparr>lf_id := lf_id s + 1\<rparr>" and ?pp = "LinkIn x (DP (lf_id s) p)"
    have "pop_ok ?s qs cp" by (rule pop_ok_mono [OF d(3)]) (simp_all add: first_link_def)
    then have "conc_good n ?s qs fs ?pp cp (es @ [])"
      using d FillId by (simp add: conc_good_def conc_shape_def push_owns_def push_ok_def tail_link_def filled_def conc_log_def)
    moreover have "conc_step pp s = Inr (?s, ?pp, [])" by (simp add: FillId conc_defs)
    ultimately show ?thesis by blast
  next
    case (LinkIn x new)
    with d(2) show ?thesis
      by (intro push_only_pc [OF g, where pp' = "LinkNext x new (lf_in s)"])
        (simp_all add: conc_defs push_owns_def push_ok_def)
  next
    case (LinkNext x new inp)
    show ?thesis using push_LinkNext [OF g [unfolded LinkNext]] unfolding LinkNext .
  next
    case (LinkSwap x new inp)
    show ?thesis using push_LinkSwap [OF g [unfolded LinkSwap]] unfolding LinkSwap .
  next
    case (LinkTail x new inp)
    show ?thesis using push_LinkTail [OF g [unfolded LinkTail]] unfolding LinkTail .
  qed (use d(2) in \<open>simp_all add: push_ok_def\<close>)
qed


section \<open>The steps of the popping thread\<close>

lemma push_ok_mono:
  assumes "push_ok s qs fs pc" and sh: "conc_shape s qs fs own" and "lf_in s' = lf_in s" and "last qs' = last qs"
    and "\<And>l. l \<in> set (links (lf_nodes s) (lf_out s) qs) \<Longrightarrow> dp_ptr l = Some (last qs) \<Longrightarrow>
      l \<in> set (links (lf_nodes s') (lf_out s') qs')"
    and "set (links (lf_nodes s) (lf_head s) fs) \<subseteq> set (links (lf_nodes s') (lf_head s') fs')" and "set fs \<subseteq> set fs'"
    and "lf_head s' = lf_head s \<or> lf_head s' \<notin> set (links (lf_nodes s) (lf_head s) fs)"
    and same: "\<And>i. i \<in> set (qs @ fs @ push_owns pc) \<Longrightarrow> lf_nodes s' ! i = lf_nodes s ! i"
  shows "push_ok s' qs' fs' pc"
proof (cases pc)
  case (AllocSwap x old nxt)
  with assms(1) have o: "old \<in> set (links (lf_nodes s) (lf_head s) fs)" by (simp add: push_ok_def)
  then obtain i where "dp_ptr old = Some i" "i \<in> set fs" using links_ptr [OF conc_shapeD(3) [OF sh] o] by blast
  with AllocSwap assms(1,3,4,6,8) same [of i] o show ?thesis by (auto simp: push_ok_def tail_link_def)
next
  case (LinkTail x new inp)
  have "i \<in> set qs" if "dp_ptr (lf_in s) = Some i" for i
    using that links_ptr [OF conc_shapeD(2) [OF sh] conc_shapeD(7) [OF sh]] by auto
  with LinkTail assms(1,3-5) same show ?thesis by (auto simp: push_ok_def)
next
  case (FillNext x p)
  with assms(1) obtain i where "p = Some i" "lf_data (lf_nodes s ! i) = Some x" by (auto simp: push_ok_def)
  with FillNext assms(1,3,4) same [of i] show ?thesis by (simp add: push_ok_def tail_link_def push_owns_def)
next
  case (FillId x p)
  with assms(1) obtain i where "p = Some i" by (auto simp: push_ok_def filled_def)
  with FillId assms(1,3,4) same [of i] show ?thesis by (simp add: push_ok_def tail_link_def push_owns_def filled_def)
next
  case (LinkIn x new)
  with assms(1) obtain i where "dp_ptr new = Some i" by (auto simp: push_ok_def filled_def)
  with LinkIn assms(1,3,4) same [of i] show ?thesis by (simp add: push_ok_def tail_link_def push_owns_def filled_def)
next
  case (LinkNext x new inp)
  with assms(1) obtain i where "dp_ptr new = Some i" by (auto simp: push_ok_def filled_def)
  with LinkNext assms(1,3,4) same [of i] show ?thesis by (simp add: push_ok_def tail_link_def push_owns_def filled_def)
next
  case (LinkSwap x new inp)
  with assms(1) obtain i where "dp_ptr new = Some i" by (auto simp: push_ok_def filled_def)
  with LinkSwap assms(1,3,4) same [of i] show ?thesis by (simp add: push_ok_def tail_link_def push_owns_def filled_def)
qed (use assms in \<open>auto simp: push_ok_def tail_link_def\<close>)

lemma pop_only_pc:
  assumes "conc_good n s qs fs pp cp es" and "conc_step cp s = Inr (s, cp', [])"
    and "pop_owns cp' = pop_owns cp" and "pop_ok s qs cp'"
  shows "\<exists>s' cp' ev qs' fs'. conc_step cp s = Inr (s', cp', ev) \<and> conc_good n s' qs' fs' pp cp' (es @ ev)"
  using assms unfolding conc_good_def by (intro exI [of _ s] exI [of _ cp'] exI [of _ "[]"] exI [of _ qs] exI [of _ fs]) simp

lemma pop_PopNext:
  assumes g: "conc_good n s qs fs pp (PopNext out inp) es"
  shows "\<exists>s' cp' ev qs' fs'. conc_step (PopNext out inp) s = Inr (s', cp', ev) \<and> conc_good n s' qs' fs' pp cp' (es @ ev)"
proof -
  note d = conc_goodD [OF g]
  note sh = conc_shapeD [OF d(1)]
  have out: "dp_ptr out = Some (hd qs)" using d(3) hd_link(2) [OF sh(2,1)] by (simp add: pop_ok_def)
  have b: "hd qs < length (lf_nodes s)" using sh(1) sh(8) [of "hd qs"] by simp
  show ?thesis
  proof (cases "first_link s qs = NULLDP")
    case False
    show ?thesis
    proof (cases "inp = out")
      case True
      with False out b d(3) show ?thesis
        by (intro pop_only_pc [OF g, where cp' = "PopHelp out inp (first_link s qs)"])
          (simp_all add: conc_defs pop_owns_def pop_ok_def first_link_def)
    next
      case inp: False
      with False out b d(3) show ?thesis
        by (intro pop_only_pc [OF g, where cp' = "PopData out (first_link s qs)"])
          (auto simp: conc_defs pop_owns_def pop_ok_def first_link_def)
    qed
  next
    case True
    with sh(1,2) have "tl qs = []" by (cases qs; cases "tl qs") (auto simp: first_link_def NULLDP_def)
    with d(4) have "length (taken es) = length (linked es)" by (auto simp: conc_log_def)
    then have "conc_log n s qs (pop_owns Resting) (es @ [NoElement])"
      using conc_log_event(1) [OF d(4)] by (simp add: pop_owns_def)
    then have "conc_good n s qs fs pp Resting (es @ [NoElement])"
      using d by (simp add: conc_good_def pop_owns_def pop_ok_def)
    moreover have "conc_step (PopNext out inp) s = Inr (s, Resting, [NoElement])"
      using True out b by (simp add: conc_defs first_link_def)
    ultimately show ?thesis by blast
  qed
qed

text \<open>When \<open>m_in\<close> is helped on, the pushing thread is about to do the same.\<close>

lemma pop_PopHelp:
  assumes g: "conc_good n s qs fs pp (PopHelp out inp next) es"
  shows "\<exists>s' cp' ev qs' fs'. conc_step (PopHelp out inp next) s = Inr (s', cp', ev) \<and>
    conc_good n s' qs' fs' pp cp' (es @ ev)"
proof -
  note d = conc_goodD [OF g]
  note sh = conc_shapeD [OF d(1)]
  have p: "out = lf_out s" "inp = out" "next = first_link s qs" "next \<noteq> NULLDP"
    using d(3) by (auto simp: pop_ok_def)
  let ?s = "cas_in inp next s"
  have st: "conc_step (PopHelp out inp next) s = Inr (?s, PopOut, [])" by (simp add: conc_defs)
  have "conc_good n ?s qs fs pp PopOut (es @ [])"
  proof (cases "lf_in s = lf_out s")
    case False
    then have "?s = s" using p by (simp add: cas_in_def)
    with d show ?thesis by (simp add: conc_good_def pop_owns_def pop_ok_def)
  next
    case True
    have hd: "dp_ptr (lf_in s) = Some (hd qs)" using True hd_link(2) [OF sh(2,1)] by simp
    have ne: "hd qs \<noteq> last qs" using p(3,4) last_next [OF sh(2,1)] by (auto simp: first_link_def)
    then obtain x new inp' where pp: "pp = LinkTail x new inp'"
      using d(2) hd by (cases pp) (auto simp: push_ok_def tail_link_def)
    then have new: "next = new" "new \<in> set (links (lf_nodes s) (lf_out s) qs)" "dp_ptr new = Some (last qs)"
      using d(2) hd ne p(3) by (auto simp: push_ok_def first_link_def)
    have s: "?s = s\<lparr>lf_in := new\<rparr>" using True p new by (simp add: cas_in_def)
    show ?thesis unfolding s
      using d new by (simp add: conc_good_def conc_shape_def push_owns_def pop_owns_def pp push_ok_def pop_ok_def conc_log_def)
  qed
  with st show ?thesis by blast
qed


text \<open>Taking the first element.\<close>

lemma pop_PopSwap:
  assumes g: "conc_good n s qs fs pp (PopSwap out next dt) es"
  shows "\<exists>s' cp' ev qs' fs'. conc_step (PopSwap out next dt) s = Inr (s', cp', ev) \<and>
    conc_good n s' qs' fs' pp cp' (es @ ev)"
proof -
  note d = conc_goodD [OF g]
  note sh = conc_shapeD [OF d(1)]
  have p: "out = lf_out s" "lf_in s \<noteq> out" "next = first_link s qs" "next \<noteq> NULLDP"
    "\<And>i. dp_ptr next = Some i \<Longrightarrow> dt = lf_data (lf_nodes s ! i)"
    using d(3) by (auto simp: pop_ok_def)
  obtain k y qs1 where qs: "qs = k # y # qs1"
    using sh(1,2) p(3,4) by (cases qs; cases "tl qs") (auto simp: first_link_def)
  have ln: "lf_next (lf_nodes s ! k) = next" "dp_ptr next = Some y" "dp_ptr out = Some k"
    using p(1,3) sh(2) by (auto simp: first_link_def qs)
  let ?s = "s\<lparr>lf_out := next\<rparr>"
  have own: "pop_owns (PopSwap out next dt) = []" "pop_owns (RelId dt (Some k)) = [k]" by (simp_all add: pop_owns_def)
  have "conc_shape ?s (y # qs1) fs (push_owns pp @ pop_owns (RelId dt (Some k)))"
    using d(1) p(1,2) ln(1) sh(8) [of k] by (auto simp: conc_shape_def pop_owns_def qs)
  moreover have "push_ok ?s (y # qs1) fs pp"
  proof (rule push_ok_mono [OF d(2,1)])
    fix l assume "l \<in> set (links (lf_nodes s) (lf_out s) qs)" "dp_ptr l = Some (last qs)"
    moreover have "last qs \<noteq> k" using sh(4) last_in_set [of "y # qs1"] by (auto simp: qs)
    ultimately show "l \<in> set (links (lf_nodes ?s) (lf_out ?s) (y # qs1))"
      using ln p(1) by (auto simp: qs)
  qed (simp_all add: qs)
  moreover have "pop_ok ?s (y # qs1) (RelId dt (Some k))" by (simp add: pop_ok_def)
  moreover have "conc_log n ?s (y # qs1) (pop_owns (RelId dt (Some k))) (es @ [Taken dt])"
  proof -
    obtain ys q where l: "linked es = ys @ q" "taken es = map Some ys"
      and m: "map (\<lambda>i. lf_data (lf_nodes s ! i)) (tl qs) = map Some q"
      and r: "length (taken es) = freed es" "hist_ok n es"
      using d(4) by (auto simp: conc_log_def own)
    obtain x q' where q: "q = x # q'" "lf_data (lf_nodes s ! y) = Some x"
      using m by (cases q) (auto simp: qs)
    have "dt = Some x" using p(5) [OF ln(2)] q(2) by simp
    with l m r q show ?thesis unfolding conc_log_def own
      by (intro conjI exI [of _ "ys @ [x]"] exI [of _ q']) (simp_all add: qs)
  qed
  ultimately have "conc_good n ?s (y # qs1) fs pp (RelId dt (Some k)) (es @ [Taken dt])"
    using d(5) by (simp add: conc_good_def)
  moreover have "conc_step (PopSwap out next dt) s = Inr (?s, RelId dt (Some k), [Taken dt])"
    using p(1) ln(3) by (simp add: conc_defs cas_out_def)
  ultimately show ?thesis by blast
qed

text \<open>Giving the old dummy back.\<close>

lemma pop_RelLink:
  assumes g: "conc_good n s qs fs pp (RelLink dt new old) es"
  shows "\<exists>s' cp' ev qs' fs'. conc_step (RelLink dt new old) s = Inr (s', cp', ev) \<and>
    conc_good n s' qs' fs' pp cp' (es @ ev)"
proof -
  note d = conc_goodD [OF g]
  note sh = conc_shapeD [OF d(1)]
  obtain k where k: "dp_ptr new = Some k" using d(3) by (auto simp: pop_ok_def)
  have own: "pop_owns (RelLink dt new old) = [k]" "pop_owns (RelSwap dt new old) = [k]"
    using k by (simp_all add: pop_owns_def)
  have b: "k < length (lf_nodes s)" "k \<notin> set qs" "k \<notin> set fs" "k \<notin> set (push_owns pp)"
    using sh(4) sh(8) [of k] by (auto simp: own)
  let ?s = "s\<lparr>lf_nodes := (lf_nodes s)[k := (lf_nodes s ! k)\<lparr>lf_next := old\<rparr>]\<rparr>"
  have k': "k \<in> set (push_owns pp @ pop_owns (RelLink dt new old))" by (simp add: own)
  note o = own_write [OF d(1) k' refl, where n = "(lf_nodes s ! k)\<lparr>lf_next := old\<rparr>"]
  have same: "lf_nodes ?s ! i = lf_nodes s ! i" if "i \<in> set (qs @ fs @ push_owns pp)" for i
    using o(4) [of i] that b by fastforce
  have "push_ok ?s qs fs pp"
    by (rule push_ok_mono [OF d(2,1)]) (use o(2,3) same in simp_all)
  moreover have "pop_ok ?s qs (RelSwap dt new old)" using k b(1) by (simp add: pop_ok_def)
  moreover have "map (\<lambda>i. lf_data (lf_nodes ?s ! i)) (tl qs) = map (\<lambda>i. lf_data (lf_nodes s ! i)) (tl qs)"
    using same by (intro map_cong) (auto dest: list.set_sel(2) [OF sh(1)])
  then have "conc_log n ?s qs (pop_owns (RelSwap dt new old)) es"
    using d(4) unfolding conc_log_def own by metis
  ultimately have "conc_good n ?s qs fs pp (RelSwap dt new old) (es @ [])"
    using o(1) d(5) by (simp add: conc_good_def own)
  moreover have "conc_step (RelLink dt new old) s = Inr (?s, RelSwap dt new old, [])"
    using k b(1) by (simp add: conc_defs)
  ultimately show ?thesis by blast
qed

lemma pop_RelSwap:
  assumes g: "conc_good n s qs fs pp (RelSwap dt new old) es"
  shows "\<exists>s' cp' ev qs' fs'. conc_step (RelSwap dt new old) s = Inr (s', cp', ev) \<and>
    conc_good n s' qs' fs' pp cp' (es @ ev)"
proof (cases "lf_head s = old")
  case False
  with conc_goodD [OF g] show ?thesis
    by (intro pop_only_pc [OF g, where cp' = "RelRead dt new"])
      (auto simp: conc_defs cas_head_def pop_owns_def pop_ok_def)
next
  case True
  note d = conc_goodD [OF g]
  note sh = conc_shapeD [OF d(1)]
  obtain k where k: "dp_ptr new = Some k" "lf_next (lf_nodes s ! k) = old" using d(3) by (auto simp: pop_ok_def)
  have own: "pop_owns (RelSwap dt new old) = [k]" "pop_owns Resting = []" using k by (simp_all add: pop_owns_def)
  have b: "k < length (lf_nodes s)" "k \<notin> set fs" using sh(4) sh(8) [of k] by (auto simp: own)
  let ?s = "s\<lparr>lf_head := new\<rparr>"
  have "conc_shape ?s qs (k # fs) (push_owns pp @ pop_owns Resting)"
    using d(1) k b True by (auto simp: conc_shape_def own)
  moreover have "push_ok ?s qs (k # fs) pp"
  proof (rule push_ok_mono [OF d(2,1)])
    show "lf_head ?s = lf_head s \<or> lf_head ?s \<notin> set (links (lf_nodes s) (lf_head s) fs)"
      using links_ptr [OF sh(3), of new] k(1) b(2) by auto
  qed (use k True in auto)
  moreover have "pop_ok ?s qs Resting" by (simp add: pop_ok_def)
  moreover have "conc_log n ?s qs (pop_owns Resting) (es @ [Freed])"
    using d(4) by (auto simp: conc_log_def own)
  ultimately have "conc_good n ?s qs (k # fs) pp Resting (es @ [Freed])"
    using d(5) by (simp add: conc_good_def)
  moreover have "conc_step (RelSwap dt new old) s = Inr (?s, Resting, [Freed])"
    using True by (simp add: conc_defs cas_head_def)
  ultimately show ?thesis by blast
qed

lemma pop_step_ok:
  assumes g: "conc_good n s qs fs pp cp es"
  shows "\<exists>s' cp' ev qs' fs'. conc_step cp s = Inr (s', cp', ev) \<and> conc_good n s' qs' fs' pp cp' (es @ ev)"
proof -
  note d = conc_goodD [OF g]
  note sh = conc_shapeD [OF d(1)]
  show ?thesis
  proof (cases cp)
    case Resting
    with d show ?thesis by (intro pop_only_pc [OF g, where cp' = Resting]) (simp_all add: conc_defs)
  next
    case PopOut
    then show ?thesis
      by (intro pop_only_pc [OF g, where cp' = "PopIn (lf_out s)"]) (simp_all add: conc_defs pop_owns_def pop_ok_def)
  next
    case (PopIn out)
    with d(3) show ?thesis
      by (intro pop_only_pc [OF g, where cp' = "PopNext out (lf_in s)"]) (simp_all add: conc_defs pop_owns_def pop_ok_def)
  next
    case (PopNext out inp)
    show ?thesis using pop_PopNext [OF g [unfolded PopNext]] unfolding PopNext .
  next
    case (PopHelp out inp nxt)
    show ?thesis using pop_PopHelp [OF g [unfolded PopHelp]] unfolding PopHelp .
  next
    case (PopData out nxt)
    with d(3) have p: "nxt = first_link s qs" "nxt \<noteq> NULLDP" by (auto simp: pop_ok_def)
    then obtain y where y: "dp_ptr nxt = Some y" "y \<in> set qs"
      using sh(1,2) by (cases qs; cases "tl qs") (auto simp: first_link_def)
    then have "y < length (lf_nodes s)" using sh(8) by simp
    with y d(3) PopData show ?thesis
      by (intro pop_only_pc [OF g, where cp' = "PopSwap out nxt (lf_data (lf_nodes s ! y))"])
        (auto simp: conc_defs pop_owns_def pop_ok_def)
  next
    case (PopSwap out nxt dt)
    show ?thesis using pop_PopSwap [OF g [unfolded PopSwap]] unfolding PopSwap .
  next
    case (RelId dt cur)
    with d(3) obtain k where k: "cur = Some k" by (auto simp: pop_ok_def)
    then have b: "k < lf_max s" using sh(5) sh(8) [of k] RelId by (simp add: pop_owns_def)
    let ?s = "s\<lparr>lf_id := lf_id s + 1\<rparr>" and ?cp = "RelRead dt (DP (lf_id s) (Some k))"
    have own: "pop_owns ?cp = pop_owns cp" using RelId k by (simp add: pop_owns_def)
    have "push_ok ?s qs fs pp" by (rule push_ok_mono [OF d(2,1)]) simp_all
    then have "conc_good n ?s qs fs pp ?cp (es @ [])"
      using d unfolding conc_good_def own by (simp add: conc_shape_def pop_ok_def conc_log_def)
    moreover have "conc_step cp s = Inr (?s, ?cp, [])" using b by (simp add: RelId k conc_defs)
    ultimately show ?thesis by blast
  next
    case (RelRead dt new)
    with d(3) show ?thesis
      by (intro pop_only_pc [OF g, where cp' = "RelLink dt new (lf_head s)"])
        (simp_all add: conc_defs pop_owns_def pop_ok_def)
  next
    case (RelLink dt new old)
    show ?thesis using pop_RelLink [OF g [unfolded RelLink]] unfolding RelLink .
  next
    case (RelSwap dt new old)
    show ?thesis using pop_RelSwap [OF g [unfolded RelSwap]] unfolding RelSwap .
  qed (use d(3) in \<open>simp_all add: pop_ok_def\<close>)
qed


section \<open>Properties\<close>

text \<open>The list as the constructor leaves it.\<close>

definition lf_fresh :: "nat \<Rightarrow> 'a lf_list" where
  "lf_fresh n = \<lparr>lf_id = of_nat (n - 1), lf_max = n, lf_in = DP 0 (Some 0), lf_out = DP 0 (Some 0),
     lf_head = (if 1 < n then DP 1 (Some 1) else NULLDP),
     lf_nodes = map (\<lambda>i. \<lparr>lf_next = (if 0 < i \<and> i < n - 1 then DP (of_nat (i + 1)) (Some (i + 1)) else NULLDP),
       lf_data = None\<rparr>) [0..<n]\<rparr>"

lemma ctor_fresh:
  assumes "0 < n"
  shows "LockFreeList_ctor n = Some (Inr (lf_fresh n))"
proof -
  let ?f = "\<lambda>i. \<lparr>lf_next = (if i < n - 1 then DP (of_nat (i + 1)) (Some (i + 1)) else NULLDP), lf_data = None :: 'a option\<rparr>"
  obtain s0 :: "'a lf_list" where s0: "InitInternalNodeList n = Inr s0" "lf_nodes s0 = map ?f [0..<n]"
    "lf_head s0 = DP 0 (Some 0)" "lf_max s0 = n" "lf_id s0 = of_nat (n - 1)"
    using assms by (simp add: InitInternalNodeList_def)
  have a: "AllocNode s0 = Some (Inr (s0\<lparr>lf_head := lf_next (lf_nodes s0 ! 0),
      lf_nodes := (lf_nodes s0)[0 := (lf_nodes s0 ! 0)\<lparr>lf_next := NULLDP\<rparr>]\<rparr>, Some 0))"
    by (rule AllocNode_head) (use s0 assms in simp_all)
  have nodes: "(map ?f [0..<n])[0 := (?f 0)\<lparr>lf_next := NULLDP\<rparr>] = lf_nodes (lf_fresh n)"
    by (rule nth_equalityI) (auto simp: lf_fresh_def nth_list_update)
  have "s0\<lparr>lf_head := lf_next (lf_nodes s0 ! 0), lf_nodes := (lf_nodes s0)[0 := (lf_nodes s0 ! 0)\<lparr>lf_next := NULLDP\<rparr>],
      lf_in := DP 0 (Some 0), lf_out := DP 0 (Some 0)\<rparr> = lf_fresh n"
  proof (rule lf_list.equality)
    show "lf_nodes (s0\<lparr>lf_head := lf_next (lf_nodes s0 ! 0), lf_nodes := (lf_nodes s0)[0 := (lf_nodes s0 ! 0)\<lparr>lf_next := NULLDP\<rparr>],
        lf_in := DP 0 (Some 0), lf_out := DP 0 (Some 0)\<rparr>) = lf_nodes (lf_fresh n)"
      using nodes assms by (simp add: s0(2))
  qed (use s0 assms in \<open>auto simp: lf_fresh_def\<close>)
  with a show ?thesis by (simp add: LockFreeList_ctor_def s0(1))
qed

lemma path_fresh_chain:
  assumes "n = length ns" and "\<And>i. 0 < i \<Longrightarrow> i < n \<Longrightarrow>
      lf_next (ns ! i) = (if i < n - 1 then DP (of_nat (i + 1)) (Some (i + 1)) else NULLDP)"
  shows "0 < k \<Longrightarrow> k \<le> n \<Longrightarrow> path ns (if k < n then DP (of_nat k) (Some k) else NULLDP) [k..<n]"
proof (induction "n - k" arbitrary: k)
  case 0
  then show ?case by simp
next
  case (Suc m)
  then have "k < n" by simp
  moreover from Suc have "path ns (if Suc k < n then DP (of_nat (Suc k)) (Some (Suc k)) else NULLDP) [Suc k..<n]"
    by (intro Suc.hyps) simp_all
  moreover have "lf_next (ns ! k) = (if Suc k < n then DP (of_nat (Suc k)) (Some (Suc k)) else NULLDP)"
    using Suc.prems \<open>k < n\<close> assms(2) [of k] by auto
  ultimately show ?case using assms(1) by (simp add: upt_conv_Cons)
qed

lemma conc_inv_init:
  assumes "0 < n"
  shows "conc_inv n (lf_conf_init 2 (lf_fresh n))"
proof -
  let ?s = "lf_fresh n :: 'a lf_list"
  have "path (lf_nodes ?s) (if 1 < n then DP (of_nat 1) (Some 1) else NULLDP) [1..<n]"
    by (rule path_fresh_chain) (use assms in \<open>simp_all add: lf_fresh_def\<close>)
  then have "conc_shape ?s [0] [1..<n] []"
    using assms by (auto simp: conc_shape_def lf_fresh_def)
  moreover have "conc_log n ?s [0] [] []" by (simp add: conc_log_def hist_ok_def)
  moreover have "lf_max ?s = n" "lf_in ?s = DP 0 (Some 0)" by (simp_all add: lf_fresh_def)
  ultimately show ?thesis unfolding conc_inv_def
    by (intro exI [of _ "[0]"] exI [of _ "[1..<n]"] exI [of _ Resting])
      (simp add: lf_conf_init_def push_owns_def pop_owns_def push_ok_def pop_ok_def tail_link_def numeral_2_eq_2)
qed

text \<open>Thread 0 pushes, thread 1 pops.\<close>

definition spsc :: "'a lf_move \<Rightarrow> bool" where
  "spsc m = (case m of Calls i (QPush x) \<Rightarrow> i = 0 | Calls i QPop \<Rightarrow> i = 1 | Goes i \<Rightarrow> True)"

lemma conc_invI:
  "conc_good n s qs fs pp cp es \<Longrightarrow> conc_inv n \<lparr>lc_list = s, lc_pcs = [pp, cp], lc_log = es\<rparr>"
  by (auto simp: conc_inv_def conc_good_def)

lemma conc_move_ok:
  assumes "conc_inv n c" and "spsc m"
  shows "\<exists>c'. lf_move m c = Inr c' \<and> conc_inv n c'"
proof -
  obtain s qs fs pp cp es where c: "c = \<lparr>lc_list = s, lc_pcs = [pp, cp], lc_log = es\<rparr>"
    and g: "conc_good n s qs fs pp cp es"
    using assms(1) by (cases c) (auto simp: conc_inv_def conc_good_def)
  note d = conc_goodD [OF g]
  show ?thesis
  proof (cases m)
    case (Calls i op)
    show ?thesis
    proof (cases "i < 2 \<and> lc_pcs c ! i = Resting")
      case False
      with assms(1) show ?thesis by (auto simp: lf_move_def Calls c)
    next
      case True
      show ?thesis
      proof (cases op)
        case (QPush x)
        with assms(2) Calls have i: "i = 0" by (simp add: spsc_def)
        with True have "pp = Resting" by (simp add: c)
        with d have "conc_good n s qs fs (AllocRead x) cp es"
          by (simp add: conc_good_def push_owns_def push_ok_def)
        from conc_invI [OF this] True i QPush show ?thesis by (simp add: lf_move_def Calls c conc_start_def)
      next
        case QPop
        with assms(2) Calls have i: "i = 1" by (simp add: spsc_def)
        with True have "cp = Resting" by (simp add: c)
        with d have "conc_good n s qs fs pp PopOut es" by (simp add: conc_good_def pop_owns_def pop_ok_def)
        from conc_invI [OF this] True i QPop show ?thesis by (simp add: lf_move_def Calls c conc_start_def)
      qed
    qed
  next
    case (Goes i)
    consider "i = 0" | "i = 1" | "\<not> i < 2" by linarith
    then show ?thesis
    proof cases
      case 1
      obtain s' pp' ev qs' fs' where "conc_step pp s = Inr (s', pp', ev)" "conc_good n s' qs' fs' pp' cp (es @ ev)"
        using push_step_ok [OF g] by blast
      with 1 show ?thesis using conc_invI by (fastforce simp: lf_move_def Goes c)
    next
      case 2
      obtain s' cp' ev qs' fs' where "conc_step cp s = Inr (s', cp', ev)" "conc_good n s' qs' fs' pp cp' (es @ ev)"
        using pop_step_ok [OF g] by blast
      with 2 show ?thesis using conc_invI by (fastforce simp: lf_move_def Goes c)
    next
      case 3
      with assms(1) show ?thesis by (simp add: lf_move_def Goes c)
    qed
  qed
qed

lemma conc_moves_ok:
  "conc_inv n c \<Longrightarrow> \<forall>m \<in> set ms. spsc m \<Longrightarrow> \<exists>c'. lf_moves ms c = Inr c' \<and> conc_inv n c'"
proof (induction ms arbitrary: c)
  case (Cons m ms)
  obtain c1 where "lf_move m c = Inr c1" "conc_inv n c1" using conc_move_ok Cons.prems by (metis list.set_intros(1))
  with Cons show ?case by simp
qed simp

text \<open>
  C14: with one thread that pushes and one that pops, in whatever order their steps come, nothing
  faults and the list is a FIFO queue: what has been taken is a prefix of what has been linked, at
  most \<open>n - 1\<close> elements are inside, \<open>pop\<close> reports an empty list only when everything linked
  has been taken, and \<open>push\<close> refuses only when \<open>n - 1\<close> linked nodes have not been freed again.
\<close>

theorem spsc_list_is_fifo:
  fixes s :: "'a lf_list"
  assumes "0 < n" and "LockFreeList_ctor n = Some (Inr s)" and "\<forall>m \<in> set ms. spsc m"
  shows "\<exists>c ys q. lf_moves ms (lf_conf_init 2 s) = Inr c \<and> linked (lc_log c) = ys @ q \<and>
    taken (lc_log c) = map Some ys \<and> length q \<le> n - 1 \<and>
    (\<forall>es1 e es2. lc_log c = es1 @ e # es2 \<longrightarrow> log_step_ok n es1 e)"
proof -
  have s: "s = lf_fresh n" using assms(2) ctor_fresh [OF assms(1), where 'a = 'a] by simp
  obtain c where c: "lf_moves ms (lf_conf_init 2 s) = Inr c" "conc_inv n c"
    using conc_moves_ok [OF conc_inv_init [OF assms(1)] assms(3)] unfolding s by blast
  then obtain qs fs pp cp where "lc_pcs c = [pp, cp]" and i: "conc_shape (lc_list c) qs fs (push_owns pp @ pop_owns cp)"
    "conc_log n (lc_list c) qs (pop_owns cp) (lc_log c)" "lf_max (lc_list c) = n"
    unfolding conc_inv_def by blast
  then obtain ys q where l: "linked (lc_log c) = ys @ q" "taken (lc_log c) = map Some ys"
    and m: "map (\<lambda>i. lf_data (lf_nodes (lc_list c) ! i)) (tl qs) = map Some q" and h: "hist_ok n (lc_log c)"
    by (auto simp: conc_log_def)
  have "length q \<le> n - 1"
    using arg_cong [OF m, of length] conc_shapeD(1,6) [OF i(1)] i(3) by simp
  with c(1) l h show ?thesis unfolding hist_ok_def by blast
qed


lemma spsc_list_is_fifo_witness:
  "\<exists>s c ys q. LockFreeList_ctor 2 = Some (Inr s) \<and>
     lf_moves ([Calls 0 (QPush (7::nat)), Goes 0, Calls 1 QPop] @ concat (replicate 11 [Goes 0, Goes 1]))
       (lf_conf_init 2 s) = Inr c \<and> linked (lc_log c) = ys @ q \<and> taken (lc_log c) = map Some ys \<and> length q \<le> 1"
proof -
  let ?ms = "[Calls 0 (QPush (7::nat)), Goes 0, Calls 1 QPop] @ concat (replicate 11 [Goes 0, Goes 1])"
  have s: "LockFreeList_ctor 2 = Some (Inr (lf_fresh 2 :: nat lf_list))" by (rule ctor_fresh) simp
  have "\<forall>m \<in> set ?ms. spsc m" by (auto simp: spsc_def)
  from spsc_list_is_fifo [OF _ s this] s show ?thesis by (fastforce simp: numeral_2_eq_2)
qed

text \<open>Running a thread alone for a number of steps.\<close>

definition goes :: "nat \<Rightarrow> nat \<Rightarrow> 'a lf_move list" where "goes i k = replicate k (Goes i)"

definition crash_moves :: "nat lf_move list" where
  "crash_moves = [Calls 0 (QPush 1)] @ goes 0 1 @ [Calls 1 (QPush 2)] @ goes 1 4 @ goes 0 2"

definition same_node_moves :: "nat lf_move list" where
  "same_node_moves = [Calls 1 (QPush 2)] @ goes 1 12 @ [Calls 0 (QPush 1)] @ goes 0 1 @ [Calls 2 QPop] @ goes 2 9 @
     goes 0 2 @ [Calls 1 (QPush 3)] @ goes 1 4 @ goes 0 1 @ goes 1 8 @ [Calls 1 (QPush 4)] @ goes 1 4"

definition lost_moves :: "nat lf_move list" where
  "lost_moves = [Calls 0 (QPush 1)] @ goes 0 10 @ [Calls 1 (QPush 2)] @ goes 1 12 @ [Calls 2 QPop] @ goes 2 9 @
     [Calls 1 (QPush 3)] @ goes 1 5 @ goes 0 2 @ goes 1 7 @ [Calls 2 QPop] @ goes 2 9 @ [Calls 2 QPop] @ goes 2 3"

text \<open>
  A list that more than one thread pushes to is broken. Two threads that push at once when
  one node is free dereference a null pointer, because \<open>AllocNode\<close> reads \<open>m_head\<close> a second
  time; and with a pop in between two threads can be given the same node.
\<close>

theorem two_pushers_break_allocation:
  "bindO (LockFreeList_ctor 2) (\<lambda>s. Some (lf_moves crash_moves (lf_conf_init 2 s))) = Some (Inl NullDeref) \<and>
   bindO (LockFreeList_ctor 3) (\<lambda>s. Some (bindR (lf_moves same_node_moves (lf_conf_init 3 s)) (\<lambda>c. Inr (lc_pcs c)))) =
     Some (Inr [AllocClear 1 (Some 2), AllocClear 4 (Some 2), Resting])"
proof (rule conjI)
  have "lf_moves crash_moves (lf_conf_init 2 (lf_fresh 2)) = Inl NullDeref" by code_simp
  then show "bindO (LockFreeList_ctor 2) (\<lambda>s. Some (lf_moves crash_moves (lf_conf_init 2 s))) = Some (Inl NullDeref)"
    by (simp add: ctor_fresh)
  have "bindR (lf_moves same_node_moves (lf_conf_init 3 (lf_fresh 3))) (\<lambda>c. Inr (lc_pcs c)) =
      Inr [AllocClear 1 (Some 2), AllocClear 4 (Some 2), Resting]" by code_simp
  then show "bindO (LockFreeList_ctor 3) (\<lambda>s. Some (bindR (lf_moves same_node_moves (lf_conf_init 3 s)) (\<lambda>c. Inr (lc_pcs c)))) =
     Some (Inr [AllocClear 1 (Some 2), AllocClear 4 (Some 2), Resting])"
    by (simp add: ctor_fresh)
qed

text \<open>
  With two threads that push and one that pops an accepted element can be lost: the link the
  element hangs on belongs to a node that has been freed and given out again in the meantime, and
  the null links carry no version. All three calls of \<open>push\<close> have returned true and all
  threads rest, but the list is empty after two elements.
\<close>

theorem accepted_element_lost:
  "bindO (LockFreeList_ctor 3) (\<lambda>s. Some (bindR (lf_moves lost_moves (lf_conf_init 3 s))
     (\<lambda>c. Inr (lc_pcs c, linked (lc_log c), taken (lc_log c), last (lc_log c))))) =
   Some (Inr ([Resting, Resting, Resting], [2, 1, 3], [Some 2, Some 3], NoElement))"
proof -
  have "bindR (lf_moves lost_moves (lf_conf_init 3 (lf_fresh 3)))
      (\<lambda>c. Inr (lc_pcs c, linked (lc_log c), taken (lc_log c), last (lc_log c))) =
    Inr ([Resting, Resting, Resting], [2, 1, 3], [Some 2, Some 3], NoElement)" by code_simp
  then show ?thesis by (simp add: ctor_fresh)
qed


section \<open>A thread that runs alone returns\<close>

text \<open>How many steps a thread needs at most, if no other thread interferes.\<close>

definition push_rank :: "'a lf_list \<Rightarrow> 'a lpc \<Rightarrow> nat" where
  "push_rank s pc = (case pc of
     AllocRead x \<Rightarrow> 12
   | AllocAgain x old \<Rightarrow> if lf_head s = old then 11 else 15
   | AllocNext x old h \<Rightarrow> if lf_head s = old then 10 else 14
   | AllocSwap x old next \<Rightarrow> if lf_head s = old then 9 else 13
   | AllocClear x p \<Rightarrow> 8 | FillData x p \<Rightarrow> 7 | FillNext x p \<Rightarrow> 6 | FillId x p \<Rightarrow> 5
   | LinkIn x new \<Rightarrow> 4 | LinkNext x new inp \<Rightarrow> 3 | LinkSwap x new inp \<Rightarrow> 2 | LinkTail x new inp \<Rightarrow> 1
   | _ \<Rightarrow> 0)"

definition pop_rank :: "'a lf_list \<Rightarrow> 'a lpc \<Rightarrow> nat" where
  "pop_rank s pc = (case pc of
     PopOut \<Rightarrow> if lf_in s = lf_out s then 13 else 9
   | PopIn out \<Rightarrow> if lf_in s = out then 12 else 8
   | PopNext out inp \<Rightarrow> if inp = out then 11 else 7
   | PopHelp out inp next \<Rightarrow> 10
   | PopData out next \<Rightarrow> 6 | PopSwap out next d \<Rightarrow> 5 | RelId d cur \<Rightarrow> 4 | RelRead d new \<Rightarrow> 3
   | RelLink d new old \<Rightarrow> if lf_head s = old then 2 else 5
   | RelSwap d new old \<Rightarrow> if lf_head s = old then 1 else 4
   | _ \<Rightarrow> 0)"

lemma rank_bounds: "push_rank s pc \<le> 15" "pop_rank s pc \<le> 15"
  by (cases pc; simp add: push_rank_def pop_rank_def)+

lemma push_rank_less:
  assumes g: "conc_good n s qs fs pp cp es" and st: "conc_step pp s = Inr (s', pp', ev)" and "pp \<noteq> Resting"
  shows "push_rank s' pp' < push_rank s pp"
proof -
  note d = conc_goodD [OF g]
  note sh = conc_shapeD [OF d(1)]
  have l: "lf_next (lf_nodes s ! last qs) = NULLDP" "last qs < length (lf_nodes s)"
    using last_next [OF sh(2,1)] sh(8) [of "last qs"] sh(1) by simp_all
  show ?thesis
  proof (cases pp)
    case (LinkNext x new inp)
    with d(2) l have "dp_ptr inp = Some (last qs)" by (simp add: push_ok_def tail_link_def)
    with st l LinkNext show ?thesis by (auto simp: conc_defs push_rank_def)
  next
    case (LinkSwap x new inp)
    with d(2) l have "dp_ptr inp = Some (last qs)" by (simp add: push_ok_def tail_link_def)
    with st l LinkSwap show ?thesis by (auto simp: conc_defs cas_next_def push_rank_def)
  next
    case (AllocNext x old h)
    with st show ?thesis by (auto simp: conc_defs bindR_eq_Inr push_rank_def)
  next
    case (AllocSwap x old nxt)
    with st show ?thesis by (auto simp: conc_defs cas_head_def push_rank_def split: if_splits)
  next
    case (FillData x p)
    with st show ?thesis by (auto simp: conc_defs push_rank_def split: option.splits if_splits)
  qed (use st d(2) assms(3) in \<open>auto simp: conc_defs push_rank_def push_ok_def bindR_eq_Inr split: if_splits\<close>)
qed

lemma pop_rank_less:
  assumes g: "conc_good n s qs fs pp cp es" and st: "conc_step cp s = Inr (s', cp', ev)" and "cp \<noteq> Resting"
  shows "pop_rank s' cp' < pop_rank s cp"
proof -
  note d = conc_goodD [OF g]
  note sh = conc_shapeD [OF d(1)]
  show ?thesis
  proof (cases cp)
    case (PopHelp out inp nxt)
    with d(3) have p: "out = lf_out s" "inp = out" "nxt = first_link s qs" "nxt \<noteq> NULLDP" by (auto simp: pop_ok_def)
    have "nxt \<noteq> lf_out s"
    proof
      assume e: "nxt = lf_out s"
      with p(3) sh(1,2,4) show False
        by (cases qs; cases "tl qs") (use p(4) in \<open>auto simp: first_link_def\<close>)
    qed
    with st p PopHelp show ?thesis by (auto simp: conc_defs cas_in_def pop_rank_def split: if_splits)
  next
    case (PopSwap out nxt dt)
    with st d(3) show ?thesis by (auto simp: conc_defs cas_out_def pop_rank_def pop_ok_def)
  next
    case (RelSwap dt new old)
    with st show ?thesis by (auto simp: conc_defs cas_head_def pop_rank_def split: if_splits)
  next
    case (RelId dt cur)
    with st show ?thesis by (auto simp: conc_defs pop_rank_def split: option.splits if_splits)
  next
    case (RelLink dt new old)
    with st obtain k where "dp_ptr new = Some k" using d(3) by (auto simp: pop_ok_def)
    with st RelLink show ?thesis by (auto simp: conc_defs pop_rank_def set_next_def bindR_eq_Inr)
  qed (use st d(3) assms(3) in \<open>auto simp: conc_defs pop_rank_def pop_ok_def bindR_eq_Inr split: if_splits\<close>)
qed

lemma goes_Suc: "lf_moves (goes i (Suc k)) c = bindR (lf_move (Goes i) c) (lf_moves (goes i k))"
  by (simp add: goes_def)

lemma push_alone:
  assumes "conc_good n s qs fs pp cp es"
  shows "\<exists>k c'. k \<le> push_rank s pp \<and> lf_moves (goes 0 k) \<lparr>lc_list = s, lc_pcs = [pp, cp], lc_log = es\<rparr> = Inr c' \<and>
    lc_pcs c' ! 0 = Resting"
  using assms
proof (induction "push_rank s pp" arbitrary: s qs fs pp es rule: less_induct)
  case less
  show ?case
  proof (cases "pp = Resting")
    case True
    then show ?thesis by (intro exI [of _ 0]) (simp add: goes_def)
  next
    case False
    obtain s' pp' ev qs' fs' where st: "conc_step pp s = Inr (s', pp', ev)" "conc_good n s' qs' fs' pp' cp (es @ ev)"
      using push_step_ok [OF less.prems] by blast
    have r: "push_rank s' pp' < push_rank s pp" by (rule push_rank_less [OF less.prems st(1) False])
    obtain k c' where k: "k \<le> push_rank s' pp'" "lc_pcs c' ! 0 = Resting"
      "lf_moves (goes 0 k) \<lparr>lc_list = s', lc_pcs = [pp', cp], lc_log = es @ ev\<rparr> = Inr c'"
      using less.hyps [OF r st(2)] by blast
    have "lf_moves (goes 0 (Suc k)) \<lparr>lc_list = s, lc_pcs = [pp, cp], lc_log = es\<rparr> = Inr c'"
      using st(1) k(3) by (simp add: goes_Suc lf_move_def)
    with k r show ?thesis by (intro exI [of _ "Suc k"] exI [of _ c']) simp
  qed
qed

lemma pop_alone:
  assumes "conc_good n s qs fs pp cp es"
  shows "\<exists>k c'. k \<le> pop_rank s cp \<and> lf_moves (goes 1 k) \<lparr>lc_list = s, lc_pcs = [pp, cp], lc_log = es\<rparr> = Inr c' \<and>
    lc_pcs c' ! 1 = Resting"
  using assms
proof (induction "pop_rank s cp" arbitrary: s qs fs cp es rule: less_induct)
  case less
  show ?case
  proof (cases "cp = Resting")
    case True
    then show ?thesis by (intro exI [of _ 0]) (simp add: goes_def)
  next
    case False
    obtain s' cp' ev qs' fs' where st: "conc_step cp s = Inr (s', cp', ev)" "conc_good n s' qs' fs' pp cp' (es @ ev)"
      using pop_step_ok [OF less.prems] by blast
    have r: "pop_rank s' cp' < pop_rank s cp" by (rule pop_rank_less [OF less.prems st(1) False])
    obtain k c' where k: "k \<le> pop_rank s' cp'" "lc_pcs c' ! 1 = Resting"
      "lf_moves (goes 1 k) \<lparr>lc_list = s', lc_pcs = [pp, cp'], lc_log = es @ ev\<rparr> = Inr c'"
      using less.hyps [OF r st(2)] by blast
    have "lf_moves (goes 1 (Suc k)) \<lparr>lc_list = s, lc_pcs = [pp, cp], lc_log = es\<rparr> = Inr c'"
      using st(1) k(3) by (simp add: goes_Suc lf_move_def)
    with k r show ?thesis by (intro exI [of _ "Suc k"] exI [of _ c']) simp
  qed
qed

text \<open>
  C24: neither thread can keep the other from returning: at any point of any run of one pushing and
  one popping thread, each of them, left to run alone, returns from its call within fifteen steps,
  however its retry loops stand.
\<close>

theorem spsc_calls_return:
  fixes s :: "'a lf_list"
  assumes "0 < n" and "LockFreeList_ctor n = Some (Inr s)" and "\<forall>m \<in> set ms. spsc m"
    and "lf_moves ms (lf_conf_init 2 s) = Inr c" and "i < 2"
  shows "\<exists>k c'. k \<le> 15 \<and> lf_moves (goes i k) c = Inr c' \<and> lc_pcs c' ! i = Resting"
proof -
  have "s = lf_fresh n" using assms(2) ctor_fresh [OF assms(1), where 'a = 'a] by simp
  then have "conc_inv n c" using conc_moves_ok [OF conc_inv_init [OF assms(1)] assms(3)] assms(4) by force
  then obtain t qs fs pp cp es where c: "c = \<lparr>lc_list = t, lc_pcs = [pp, cp], lc_log = es\<rparr>"
    and g: "conc_good n t qs fs pp cp es"
    by (cases c) (auto simp: conc_inv_def conc_good_def)
  consider "i = 0" | "i = 1" using assms(5) by linarith
  then show ?thesis
  proof cases
    case 1
    with push_alone [OF g] rank_bounds(1) [of t pp] show ?thesis unfolding c by (meson le_trans)
  next
    case 2
    with pop_alone [OF g] rank_bounds(2) [of t cp] show ?thesis unfolding c by (meson le_trans)
  qed
qed

lemma spsc_calls_return_witness:
  "\<exists>s c k c'. LockFreeList_ctor 2 = Some (Inr s) \<and>
     lf_moves ([Calls 0 (QPush (7::nat))] @ goes 0 3) (lf_conf_init 2 s) = Inr c \<and>
     k \<le> 15 \<and> lf_moves (goes 0 k) c = Inr c' \<and> lc_pcs c' ! 0 = Resting"
proof -
  let ?ms = "[Calls 0 (QPush (7::nat))] @ goes 0 3"
  have s: "LockFreeList_ctor 2 = Some (Inr (lf_fresh 2 :: nat lf_list))" by (rule ctor_fresh) simp
  have m: "\<forall>m \<in> set ?ms. spsc m" by (auto simp: spsc_def goes_def)
  obtain c where c: "lf_moves ?ms (lf_conf_init 2 (lf_fresh 2)) = Inr c"
    using conc_moves_ok [OF conc_inv_init m, of 2] by auto
  have "\<exists>k c'. k \<le> 15 \<and> lf_moves (goes 0 k) c = Inr c' \<and> lc_pcs c' ! 0 = Resting"
    by (rule spsc_calls_return [OF _ s m c]) simp_all
  with s c show ?thesis by blast
qed

end
