(* ===== verification/Processer.thy ===== *)
theory Processer
  imports BoundedFifo LockFreeList Fiber
begin

text \<open>
  \<open>src/fiber/processer.h\<close> and \<open>src/fiber/processer.cc\<close>: a processer, the worker that runs
  fibers. Fibers are named by their address, \<open>h\<close> maps addresses to fiber objects. The queue
  \<open>newQueue\<close> is a \<open>boost::lockfree::spsc_queue\<close>, which is not in the repository: its
  operations are the parameter \<open>ops\<close>, its contract is the locale \<open>bounded_fifo\<close>. What a
  fiber does while it is on the processor is a \<open>segment\<close> (how it gives control back) and a
  state change \<open>during\<close>; what other threads do between two turns of the loop is \<open>before\<close>.
  \<open>waitQueue\<close> is declared in the header and used nowhere.
\<close>

section \<open>Data\<close>

record 'q processer =
  p_id :: u32
  p_newfiberCount :: u64
  p_nowFiberSize :: u64
  p_yieldCount :: u64
  p_swithCount :: u64
  p_FiberCount :: u64
  runableQueue :: "nat list"
  newQueue :: 'q
  gcQueue :: "nat list"
  p_state :: TaskState
  p_notidied :: bool
  cv_signals :: nat

definition Processer_ctor :: "u32 \<Rightarrow> 'q \<Rightarrow> 'q processer" where
  "Processer_ctor i q =
     \<lparr>p_id = i, p_newfiberCount = 0, p_nowFiberSize = 0, p_yieldCount = 0, p_swithCount = 0,
      p_FiberCount = 0, runableQueue = [], newQueue = q, gcQueue = [], p_state = Init,
      p_notidied = False, cv_signals = 0\<rparr>"

definition Processer_dtor :: "'q processer \<Rightarrow> 'q processer" where
  "Processer_dtor p = p\<lparr>p_state := Stop\<rparr>"

definition isRunning :: "'q processer \<Rightarrow> bool" where "isRunning p = (p_state p = Running)"
definition isWaitting :: "'q processer \<Rightarrow> bool" where "isWaitting p = (p_state p = Idle)"
definition isStop :: "'q processer \<Rightarrow> bool" where "isStop p = (p_state p = Done)"
definition isBlock :: "'q processer \<Rightarrow> bool" where "isBlock p = (p_state p = Block)"

section \<open>Operations\<close>

definition proc_notify :: "'q processer \<Rightarrow> 'q processer" where
  "proc_notify p = p\<lparr>p_notidied := True, cv_signals := Suc (cv_signals p)\<rparr>"

text \<open>\<open>while (!newQueue.push(fiber)) {}\<close>\<close>

definition push_until :: "(nat, 'q) queue_ops \<Rightarrow> nat \<Rightarrow> 'q \<Rightarrow> 'q run" where
  "push_until ops fiber q =
     loopO (\<lambda>q. bindO (q_push ops fiber q) (\<lambda>(q', b). Some (Inr (if b then Inr q' else Inl q')))) q"

definition addFiber :: "(nat, 'q) queue_ops \<Rightarrow> nat \<Rightarrow> 'q processer \<Rightarrow> 'q processer run" where
  "addFiber ops fiber p =
     (if p_state p = Stop \<or> p_state p = Done then Some (Inr p)
      else bindO (push_until ops fiber (newQueue p)) (\<lambda>q.
        let p1 = p\<lparr>newQueue := q, p_newfiberCount := p_newfiberCount p + 1\<rparr>
        in if \<not> isRunning p1 then Some (Inr (proc_notify (p1\<lparr>p_notidied := True\<rparr>)))
           else Some (Inr (p1\<lparr>p_notidied := True\<rparr>))))"

text \<open>The loop of \<open>addFibers\<close> goes on while the list is empty, and then takes its front.\<close>

definition addFibers_body ::
  "(nat, 'q) queue_ops \<Rightarrow> nat list \<times> 'q \<Rightarrow> (nat list \<times> 'q + nat list \<times> 'q) run" where
  "addFibers_body ops s =
     (if fst s = []
      then (case fst s of
              [] \<Rightarrow> Some (Inl EmptyFront)
            | fb # l \<Rightarrow> bindO (push_until ops fb (snd s)) (\<lambda>q. Some (Inr (Inl (l, q)))))
      else Some (Inr (Inr s)))"

definition addFibers ::
  "(nat, 'q) queue_ops \<Rightarrow> nat list \<Rightarrow> 'q processer \<Rightarrow> ('q processer \<times> nat list) run" where
  "addFibers ops l p =
     bindO (loopO (addFibers_body ops) (l, newQueue p)) (\<lambda>(l', q).
       let p1 = p\<lparr>newQueue := q, p_newfiberCount := p_newfiberCount p + of_nat (length l')\<rparr>
       in if \<not> isRunning p1 then Some (Inr (proc_notify p1, l'))
          else Some (Inr (p1\<lparr>p_notidied := True\<rparr>, l')))"

definition gc :: "'q processer \<Rightarrow> 'q processer" where
  "gc p = p\<lparr>gcQueue := []\<rparr>"

text \<open>The loop that pops \<open>size\<close> times and appends what it gets.\<close>

fun pop_new :: "(nat, 'q) queue_ops \<Rightarrow> nat \<Rightarrow> 'q \<Rightarrow> nat list \<Rightarrow> ('q \<times> nat list) run" where
  "pop_new ops 0 q rq = Some (Inr (q, rq))"
| "pop_new ops (Suc n) q rq =
     bindO (q_pop ops q) (\<lambda>(q', r).
       pop_new ops n q' (case r of None \<Rightarrow> rq | Some fb \<Rightarrow> rq @ [fb]))"

definition getNewFibers :: "(nat, 'q) queue_ops \<Rightarrow> 'q processer \<Rightarrow> 'q processer run" where
  "getNewFibers ops p =
     (let size = p_newfiberCount p;
          p1 = p\<lparr>p_newfiberCount := 0, p_nowFiberSize := p_nowFiberSize p + size\<rparr>
      in bindO (pop_new ops (unat size) (newQueue p1) (runableQueue p1)) (\<lambda>(q, rq).
         Some (Inr (p1\<lparr>newQueue := q, runableQueue := rq\<rparr>))))"

text \<open>
  \<open>idle\<close> up to the point where it returns or waits for the condition variable (the boolean
  says that it waits), and what it does when it is woken.
\<close>

definition idle :: "'q processer \<Rightarrow> 'q processer \<times> bool" where
  "idle p =
     (let p1 = gc p
      in if p_notidied p1 then (p1\<lparr>p_notidied := False\<rparr>, False)
         else (p1\<lparr>p_state := Idle\<rparr>, True))"

definition idle_wake :: "'q processer \<Rightarrow> 'q processer \<times> bool" where
  "idle_wake p = (if \<not> p_notidied p then (p, True) else (p\<lparr>p_state := Running\<rparr>, False))"

text \<open>\<open>Processer::yield\<close>: the fiber side of it is \<open>fiber_body_end Yields\<close>.\<close>

definition proc_yield :: "'q processer \<Rightarrow> 'q processer" where
  "proc_yield p = p\<lparr>p_yieldCount := p_yieldCount p + 1\<rparr>"

section \<open>The loop of \<open>execute\<close>\<close>

text \<open>The switch over the state in which a fiber gave control back.\<close>

definition after_run ::
  "(nat, 'q) queue_ops \<Rightarrow> nat \<Rightarrow> 'fn fiber \<Rightarrow> 'q processer \<Rightarrow> 'q processer run" where
  "after_run ops fb f p =
     (if f_state f = Running then
        (let p1 = p\<lparr>runableQueue := runableQueue p @ [fb]\<rparr>
         in if p_newfiberCount p1 > 32 then getNewFibers ops p1 else Some (Inr p1))
      else if f_state f = Block then Some (Inr p)
      else (let p1 = (if length (gcQueue p) > 32 then gc p else p);
                p2 = p1\<lparr>gcQueue := gcQueue p1 @ [fb]\<rparr>
            in if f_eptr f then Some (Inl (Throws ''fiber''))
               else Some (Inr (p2\<lparr>p_FiberCount := p_FiberCount p2 + 1\<rparr>))))"

definition run_fiber ::
  "(nat, 'q) queue_ops \<Rightarrow> nat \<Rightarrow> segment \<Rightarrow> ('q processer \<Rightarrow> 'q processer) \<Rightarrow> nat \<Rightarrow>
   (nat \<Rightarrow> 'fn fiber) \<times> 'q processer \<Rightarrow> ((nat \<Rightarrow> 'fn fiber) \<times> 'q processer) run" where
  "run_fiber ops self seg during fb s =
     (let h1 = (fst s)(fb := (fst s fb)\<lparr>f_state := Running, f_proc := Some self\<rparr>);
          p1 = (snd s)\<lparr>p_swithCount := p_swithCount (snd s) + 1\<rparr>
      in bindO (Some (fiber_run seg (h1 fb))) (\<lambda>f.
         let p2 = during p1;
             p3 = (if seg = Yields then proc_yield p2 else p2)
         in bindO (after_run ops fb f p3) (\<lambda>p4. Some (Inr (h1(fb := f), p4)))))"

record 'q pturn =
  pt_before :: "'q processer \<Rightarrow> 'q processer"
  pt_stop_outer :: bool
  pt_stop_inner :: bool
  pt_seg :: segment
  pt_during :: "'q processer \<Rightarrow> 'q processer"

datatype outcome = Ran nat | Dropped nat | Polled | Waiting | Exited

text \<open>
  One turn of the outer loop. A processer that waits in \<open>idle\<close> first has to be woken; a
  fiber taken from the queue while the scheduler starts to stop is dropped.
\<close>

definition exec_turn ::
  "(nat, 'q) queue_ops \<Rightarrow> nat \<Rightarrow> 'q pturn \<Rightarrow>
   (nat \<Rightarrow> 'fn fiber) \<times> 'q processer \<Rightarrow> (((nat \<Rightarrow> 'fn fiber) \<times> 'q processer) \<times> outcome) run" where
  "exec_turn ops self tn s =
     (let p0 = pt_before tn (snd s);
          (p1, waits) = (if p_state p0 = Idle then idle_wake p0 else (p0, False))
      in if waits then Some (Inr ((fst s, p1), Waiting))
         else if pt_stop_outer tn then Some (Inr ((fst s, p1), Exited))
         else case runableQueue p1 of
           [] \<Rightarrow>
             bindO (getNewFibers ops p1) (\<lambda>p2.
               if runableQueue p2 = []
               then (let (p3, w) = idle p2
                     in Some (Inr ((fst s, p3), if w then Waiting else Polled)))
               else Some (Inr ((fst s, p2), Polled)))
         | fb # rq \<Rightarrow>
             (let p2 = p1\<lparr>runableQueue := rq\<rparr>
              in if pt_stop_inner tn then Some (Inr ((fst s, p2), Dropped fb))
                 else bindO (run_fiber ops self (pt_seg tn) (pt_during tn) fb (fst s, p2)) (\<lambda>s'.
                      Some (Inr (s', Ran fb)))))"

fun exec_loop ::
  "(nat, 'q) queue_ops \<Rightarrow> nat \<Rightarrow> 'q pturn list \<Rightarrow>
   (nat \<Rightarrow> 'fn fiber) \<times> 'q processer \<Rightarrow> (((nat \<Rightarrow> 'fn fiber) \<times> 'q processer) \<times> outcome list) run" where
  "exec_loop ops self [] s = Some (Inr (s, []))"
| "exec_loop ops self (tn # tns) s =
     bindO (exec_turn ops self tn s) (\<lambda>(s1, out).
       if out = Exited then Some (Inr (s1, [Exited]))
       else bindO (exec_loop ops self tns s1) (\<lambda>(s2, outs). Some (Inr (s2, out # outs))))"

definition proc_execute ::
  "(nat, 'q) queue_ops \<Rightarrow> nat \<Rightarrow> 'q pturn list \<Rightarrow>
   (nat \<Rightarrow> 'fn fiber) \<times> 'q processer \<Rightarrow> (((nat \<Rightarrow> 'fn fiber) \<times> 'q processer) \<times> outcome list) run" where
  "proc_execute ops self tns s =
     exec_loop ops self tns (fst s, (snd s)\<lparr>p_state := Running\<rparr>)"

section \<open>Processers over a queue with the contract\<close>

locale fiber_queue = bounded_fifo ops rep cap
  for ops :: "(nat, 'q) queue_ops" and rep :: "'q \<Rightarrow> nat list \<Rightarrow> bool" and cap :: nat +
  assumes cap_small: "cap < 2 ^ 64"
begin

lemma push_until_room:
  assumes "rep q xs" and "length xs < cap"
  shows "\<exists>q'. push_until ops x q = Some (Inr q') \<and> rep q' (xs @ [x])"
proof -
  obtain q' where q': "q_push ops x q = Some (Inr (q', True))" "rep q' (xs @ [x])"
    using push_room [OF assms] by blast
  then have "push_until ops x q = Some (Inr q')"
    unfolding push_until_def by (intro loopO_steps(3)) simp
  with q'(2) show ?thesis by blast
qed

lemma push_until_full:
  assumes "rep q xs" and "length xs = cap"
  shows "push_until ops x q = None"
  unfolding push_until_def
  by (rule loopO_diverges [where S = "{q}"]) (simp_all add: push_full [OF assms])

lemma pop_new_all:
  "rep q xs \<Longrightarrow> \<exists>q'. pop_new ops (length xs) q rq = Some (Inr (q', rq @ xs)) \<and> rep q' []"
proof (induction xs arbitrary: q rq)
  case Nil
  then show ?case by auto
next
  case (Cons x xs)
  obtain q1 where q1: "q_pop ops q = Some (Inr (q1, Some x))" "rep q1 xs"
    using pop_some [OF Cons.prems] by blast
  with Cons.IH [OF q1(2), of "rq @ [x]"] show ?case by auto
qed

lemma count_exact: "rep q xs \<Longrightarrow> unat (of_nat (length xs) :: u64) = length xs"
  using rep_bound [of q xs] cap_small by (simp add: unat_of_nat)

lemma getNewFibers_all:
  assumes "rep (newQueue p) xs" and "p_newfiberCount p = of_nat (length xs)"
  shows "\<exists>q. rep q [] \<and> getNewFibers ops p = Some (Inr (p\<lparr>p_newfiberCount := 0,
      p_nowFiberSize := p_nowFiberSize p + of_nat (length xs), newQueue := q,
      runableQueue := runableQueue p @ xs\<rparr>))"
proof -
  obtain q where "pop_new ops (length xs) (newQueue p) (runableQueue p) =
      Some (Inr (q, runableQueue p @ xs))" "rep q []"
    using pop_new_all [OF assms(1)] by blast
  then show ?thesis
    using assms(2) count_exact [OF assms(1)] by (auto simp: getNewFibers_def Let_def)
qed

end

interpretation lffq: fiber_queue lf_ops "lf_rep_of 129" 128
  using lfq.bounded_fifo_axioms [of 129]
  by (simp add: fiber_queue_def fiber_queue_axioms_def)

text \<open>How many of the turns end a fiber, and what a fiber is after its segment.\<close>

definition quiet :: "segment \<Rightarrow> 'q pturn" where
  "quiet seg = \<lparr>pt_before = id, pt_stop_outer = False, pt_stop_inner = False, pt_seg = seg, pt_during = id\<rparr>"

lemma fiber_run_running [simp]:
  "f_state f = Running \<Longrightarrow> fiber_run seg f = Inr (fiber_body_end seg f)"
  by (simp add: fiber_run_def)

lemma after_run_done:
  assumes "\<not> f_eptr f"
  shows "after_run ops fb (fiber_body_end seg f) p =
     Some (Inr (if seg = Yields then p
       else p\<lparr>gcQueue := (if length (gcQueue p) > 32 then [] else gcQueue p) @ [fb],
              p_FiberCount := p_FiberCount p + 1\<rparr>))"
  using assms by (simp add: after_run_def gc_def Let_def)

lemma run_fiber_eq:
  assumes "\<not> f_eptr (fst s fb)"
  shows "run_fiber ops self seg during fb s =
     (let f = (fst s fb)\<lparr>f_state := Running, f_proc := Some self\<rparr>;
          p2 = during ((snd s)\<lparr>p_swithCount := p_swithCount (snd s) + 1\<rparr>);
          p3 = (if seg = Yields then proc_yield p2
                else p2\<lparr>gcQueue := (if length (gcQueue p2) > 32 then [] else gcQueue p2) @ [fb],
                        p_FiberCount := p_FiberCount p2 + 1\<rparr>)
      in Some (Inr ((fst s)(fb := fiber_body_end seg f), p3)))"
  using assms by (simp add: run_fiber_def Let_def after_run_done)

lemma quiet_turn_run:
  assumes "p_state (snd s) = Running" and "runableQueue (snd s) = fb # rq" and "\<not> f_eptr (fst s fb)"
  shows "\<exists>s'. exec_turn ops self (quiet seg) s = Some (Inr (s', Ran fb)) \<and>
     p_state (snd s') = Running \<and> runableQueue (snd s') = rq \<and>
     newQueue (snd s') = newQueue (snd s) \<and> p_newfiberCount (snd s') = p_newfiberCount (snd s) \<and>
     p_swithCount (snd s') = p_swithCount (snd s) + 1 \<and>
     f_state (fst s' fb) = (if seg = Yields then Block else Done) \<and>
     (\<forall>x. x \<noteq> fb \<longrightarrow> fst s' x = fst s x) \<and> (\<forall>x. f_eptr (fst s' x) = f_eptr (fst s x))"
  using assms by (auto simp: exec_turn_def quiet_def Let_def run_fiber_eq proc_yield_def)

lemma quiet_runs:
  "p_state (snd s) = Running \<Longrightarrow> runableQueue (snd s) = xs @ zs \<Longrightarrow> distinct xs \<Longrightarrow>
   (\<And>x. \<not> f_eptr (fst s x)) \<Longrightarrow> length segs = length xs \<Longrightarrow>
   \<exists>s'. exec_loop ops self (map quiet segs) s = Some (Inr (s', map Ran xs)) \<and>
     p_state (snd s') = Running \<and> runableQueue (snd s') = zs \<and>
     newQueue (snd s') = newQueue (snd s) \<and> p_newfiberCount (snd s') = p_newfiberCount (snd s) \<and>
     p_swithCount (snd s') = p_swithCount (snd s) + of_nat (length xs) \<and>
     (\<forall>i < length xs. f_state (fst s' (xs ! i)) = (if segs ! i = Yields then Block else Done)) \<and>
     (\<forall>x. x \<notin> set xs \<longrightarrow> fst s' x = fst s x) \<and> (\<forall>x. \<not> f_eptr (fst s' x))"
proof (induction xs arbitrary: s segs)
  case Nil
  then show ?case by simp
next
  case (Cons fb xs)
  obtain seg segs' where segs: "segs = seg # segs'" "length segs' = length xs"
    using Cons.prems(5) by (cases segs) auto
  obtain s1 where s1: "exec_turn ops self (quiet seg) s = Some (Inr (s1, Ran fb))"
      "p_state (snd s1) = Running" "runableQueue (snd s1) = xs @ zs"
      "newQueue (snd s1) = newQueue (snd s)" "p_newfiberCount (snd s1) = p_newfiberCount (snd s)"
      "p_swithCount (snd s1) = p_swithCount (snd s) + 1"
      "f_state (fst s1 fb) = (if seg = Yields then Block else Done)"
      "\<And>x. x \<noteq> fb \<Longrightarrow> fst s1 x = fst s x" "\<And>x. \<not> f_eptr (fst s1 x)"
    using quiet_turn_run [of s fb "xs @ zs" ops self seg] Cons.prems by auto
  obtain s2 where s2: "exec_loop ops self (map quiet segs') s1 = Some (Inr (s2, map Ran xs))"
      "p_state (snd s2) = Running" "runableQueue (snd s2) = zs"
      "newQueue (snd s2) = newQueue (snd s1)" "p_newfiberCount (snd s2) = p_newfiberCount (snd s1)"
      "p_swithCount (snd s2) = p_swithCount (snd s1) + of_nat (length xs)"
      "\<And>i. i < length xs \<Longrightarrow> f_state (fst s2 (xs ! i)) = (if segs' ! i = Yields then Block else Done)"
      "\<And>x. x \<notin> set xs \<Longrightarrow> fst s2 x = fst s1 x" "\<And>x. \<not> f_eptr (fst s2 x)"
    using Cons.IH [OF s1(2,3) _ s1(9) segs(2)] Cons.prems(3) by auto
  have "f_state (fst s2 ((fb # xs) ! i)) = (if segs ! i = Yields then Block else Done)"
    if "i < length (fb # xs)" for i
    using that s2(7,8) s1(7) Cons.prems(3) by (cases i) (auto simp: segs)
  then show ?case
    using s1 s2 Cons.prems(3) by (intro exI [of _ s2]) (auto simp: segs algebra_simps)
qed

text \<open>A turn of a processer with nothing to run takes all new fibers over.\<close>

context fiber_queue begin

lemma quiet_turn_poll:
  assumes "p_state (snd s) = Running" and "runableQueue (snd s) = []"
    and "rep (newQueue (snd s)) (y # ys)" and "p_newfiberCount (snd s) = of_nat (length (y # ys))"
  shows "\<exists>q. rep q [] \<and> exec_turn ops self (quiet seg) s =
     Some (Inr ((fst s, (snd s)\<lparr>p_newfiberCount := 0,
      p_nowFiberSize := p_nowFiberSize (snd s) + of_nat (length (y # ys)), newQueue := q,
      runableQueue := y # ys\<rparr>), Polled))"
proof -
  obtain q where "rep q []" "getNewFibers ops (snd s) = Some (Inr ((snd s)\<lparr>p_newfiberCount := 0,
      p_nowFiberSize := p_nowFiberSize (snd s) + of_nat (length (y # ys)), newQueue := q,
      runableQueue := y # ys\<rparr>))"
    using getNewFibers_all [OF assms(3,4)] assms(2) by auto
  then show ?thesis using assms(1,2) by (auto simp: exec_turn_def quiet_def Let_def)
qed

lemma exec_loop_append:
  "exec_loop ops self tns s = Some (Inr (s1, outs)) \<Longrightarrow> Exited \<notin> set outs \<Longrightarrow>
   exec_loop ops self (tns @ tns') s =
     bindO (exec_loop ops self tns' s1) (\<lambda>(s2, outs'). Some (Inr (s2, outs @ outs')))"
proof (induction tns arbitrary: s outs)
  case Nil
  then show ?case by (cases "exec_loop ops self tns' s1") (auto simp: bindO_def split: sum.splits)
next
  case (Cons tn tns)
  obtain s0 o0 where t: "exec_turn ops self tn s = Some (Inr (s0, o0))"
    using Cons.prems(1) by (auto simp: bindO_eq_Some)
  then have o0: "o0 \<noteq> Exited" using Cons.prems by auto
  then obtain os where "exec_loop ops self tns s0 = Some (Inr (s1, os))" "outs = o0 # os"
    using Cons.prems(1) t by (auto simp: bindO_eq_Some)
  with Cons.IH [of s0 os] Cons.prems(2) t o0 show ?case
    by (cases "exec_loop ops self tns' s1") (auto simp: bindO_def split: sum.splits)
qed

lemma runs_all_fifo:
  assumes st: "p_state (snd s) = Running" and rq: "runableQueue (snd s) = xs"
    and rep: "rep (newQueue (snd s)) ys" and cnt: "p_newfiberCount (snd s) = of_nat (length ys)"
    and ys: "ys \<noteq> []" and dist: "distinct (xs @ ys)" and ep: "\<And>x. \<not> f_eptr (fst s x)"
    and segs: "length segs1 = length xs" "length segs2 = length ys"
  shows "\<exists>s'. exec_loop ops self (map quiet (segs1 @ seg # segs2)) s =
       Some (Inr (s', map Ran xs @ Polled # map Ran ys)) \<and>
     runableQueue (snd s') = [] \<and> rep (newQueue (snd s')) [] \<and> p_newfiberCount (snd s') = 0 \<and>
     p_swithCount (snd s') = p_swithCount (snd s) + of_nat (length xs + length ys) \<and>
     (\<forall>i < length xs. f_state (fst s' (xs ! i)) = (if segs1 ! i = Yields then Block else Done)) \<and>
     (\<forall>i < length ys. f_state (fst s' (ys ! i)) = (if segs2 ! i = Yields then Block else Done))"
proof -
  obtain s1 where s1: "exec_loop ops self (map quiet segs1) s = Some (Inr (s1, map Ran xs))"
      "p_state (snd s1) = Running" "runableQueue (snd s1) = []"
      "newQueue (snd s1) = newQueue (snd s)" "p_newfiberCount (snd s1) = p_newfiberCount (snd s)"
      "p_swithCount (snd s1) = p_swithCount (snd s) + of_nat (length xs)"
      "\<And>i. i < length xs \<Longrightarrow> f_state (fst s1 (xs ! i)) = (if segs1 ! i = Yields then Block else Done)"
      "\<And>x. \<not> f_eptr (fst s1 x)"
    using quiet_runs [of s xs "[]" segs1 ops self] st rq dist ep segs(1) by auto
  obtain y ys' where y: "ys = y # ys'" using ys by (cases ys) auto
  obtain q where q: "rep q []" "exec_turn ops self (quiet seg) s1 =
     Some (Inr ((fst s1, (snd s1)\<lparr>p_newfiberCount := 0,
      p_nowFiberSize := p_nowFiberSize (snd s1) + of_nat (length ys), newQueue := q,
      runableQueue := ys\<rparr>), Polled))"
    using quiet_turn_poll [OF s1(2,3), of y ys' self seg] rep cnt s1(4,5) by (auto simp: y)
  let ?s2 = "(fst s1, (snd s1)\<lparr>p_newfiberCount := 0,
      p_nowFiberSize := p_nowFiberSize (snd s1) + of_nat (length ys), newQueue := q,
      runableQueue := ys\<rparr>)"
  obtain s3 where s3: "exec_loop ops self (map quiet segs2) ?s2 = Some (Inr (s3, map Ran ys))"
      "runableQueue (snd s3) = []" "newQueue (snd s3) = q" "p_newfiberCount (snd s3) = 0"
      "p_swithCount (snd s3) = p_swithCount (snd s1) + of_nat (length ys)"
      "\<And>i. i < length ys \<Longrightarrow> f_state (fst s3 (ys ! i)) = (if segs2 ! i = Yields then Block else Done)"
      "\<And>x. x \<notin> set ys \<Longrightarrow> fst s3 x = fst s1 x"
    using quiet_runs [of ?s2 ys "[]" segs2 ops self] s1 dist segs(2) by auto
  have "exec_loop ops self (map quiet (segs1 @ seg # segs2)) s =
      Some (Inr (s3, map Ran xs @ Polled # map Ran ys))"
    using exec_loop_append [OF s1(1), of "map quiet (seg # segs2)"] q(2) s3(1) by (simp add: image_iff)
  moreover have "f_state (fst s3 (xs ! i)) = (if segs1 ! i = Yields then Block else Done)"
    if "i < length xs" for i
  proof -
    have "xs ! i \<in> set xs" using that by simp
    then have "xs ! i \<notin> set ys" using dist by auto
    then show ?thesis using s3(7) s1(7) [OF that] by simp
  qed
  ultimately show ?thesis
    using s3 s1(6) q(1) by (intro exI [of _ s3]) (auto simp: algebra_simps)
qed

end

section \<open>Counters and the garbage queue, whatever the other threads do\<close>

text \<open>What other threads leave alone: the counters of the worker and its garbage queue.\<close>

definition foreign :: "('q processer \<Rightarrow> 'q processer) \<Rightarrow> bool" where
  "foreign f \<longleftrightarrow> (\<forall>p. gcQueue (f p) = gcQueue p \<and> p_swithCount (f p) = p_swithCount p \<and>
     p_yieldCount (f p) = p_yieldCount p \<and> p_FiberCount (f p) = p_FiberCount p)"

definition worker_ok :: "'q processer \<Rightarrow> bool" where
  "worker_ok p \<longleftrightarrow> length (gcQueue p) \<le> 33 \<and> p_swithCount p = p_yieldCount p + p_FiberCount p"

lemma getNewFibers_worker:
  assumes "getNewFibers ops p = Some (Inr p')"
  shows "gcQueue p' = gcQueue p \<and> p_swithCount p' = p_swithCount p \<and>
    p_yieldCount p' = p_yieldCount p \<and> p_FiberCount p' = p_FiberCount p"
  using assms by (auto simp: getNewFibers_def Let_def bindO_eq_Some)

lemma exec_turn_worker:
  assumes ok: "worker_ok (snd s)" and f: "foreign (pt_before tn)" "foreign (pt_during tn)"
    and ep: "\<And>x. \<not> f_eptr (fst s x)" and t: "exec_turn ops self tn s = Some (Inr (s', out))"
  shows "worker_ok (snd s') \<and> (\<forall>x. \<not> f_eptr (fst s' x))"
proof -
  let ?p0 = "pt_before tn (snd s)"
  define p1 where "p1 = (if p_state ?p0 = Idle then fst (idle_wake ?p0) else ?p0)"
  have p1: "worker_ok p1"
    using ok f(1) by (simp add: p1_def worker_ok_def foreign_def idle_wake_def)
  have pw: "(if p_state ?p0 = Idle then idle_wake ?p0 else (?p0, False)) =
      (p1, p_state ?p0 = Idle \<and> \<not> p_notidied ?p0)"
    by (simp add: p1_def idle_wake_def)
  consider "snd s' = p1" "fst s' = fst s"
    | p2 where "getNewFibers ops p1 = Some (Inr p2)" "fst s' = fst s" "snd s' \<in> {p2, fst (idle p2)}"
    | rq where "snd s' = p1\<lparr>runableQueue := rq\<rparr>" "fst s' = fst s"
    | fb rq where "run_fiber ops self (pt_seg tn) (pt_during tn) fb (fst s, p1\<lparr>runableQueue := rq\<rparr>) =
        Some (Inr s')"
  proof (cases "p_state ?p0 = Idle \<and> \<not> p_notidied ?p0 \<or> pt_stop_outer tn")
    case True
    with t that(1) show ?thesis by (auto simp: exec_turn_def Let_def pw split: if_splits)
  next
    case False
    note t' = t [unfolded exec_turn_def Let_def pw prod.case]
    show ?thesis
    proof (cases "runableQueue p1")
      case Nil
      with t' False obtain p2 where "getNewFibers ops p1 = Some (Inr p2)"
          "fst s' = fst s" "snd s' \<in> {p2, fst (idle p2)}"
        by (auto simp: bindO_eq_Some split_beta split: if_splits)
      then show ?thesis by (rule that(2))
    next
      case (Cons fb rq)
      show ?thesis
      proof (cases "pt_stop_inner tn")
        case True
        with t' False Cons show ?thesis by (intro that(3)) (auto split: if_splits)
      next
        case False2: False
        with t' False Cons show ?thesis by (intro that(4)) (auto simp: bindO_eq_Some split: if_splits)
      qed
    qed
  qed
  then show ?thesis
  proof cases
    case 1
    with p1 ep show ?thesis by simp
  next
    case 2
    with getNewFibers_worker [OF 2(1)] p1 ep show ?thesis
      by (auto simp: worker_ok_def idle_def gc_def Let_def split: if_splits)
  next
    case 3
    with p1 ep show ?thesis by (simp add: worker_ok_def)
  next
    case 4
    let ?p2 = "pt_during tn (p1\<lparr>runableQueue := rq, p_swithCount := p_swithCount p1 + 1\<rparr>)"
    have d: "gcQueue ?p2 = gcQueue p1" "p_swithCount ?p2 = p_swithCount p1 + 1"
      "p_yieldCount ?p2 = p_yieldCount p1" "p_FiberCount ?p2 = p_FiberCount p1"
      using f(2) by (simp_all add: foreign_def)
    have "s' = ((fst s)(fb := fiber_body_end (pt_seg tn) ((fst s fb)\<lparr>f_state := Running, f_proc := Some self\<rparr>)),
        if pt_seg tn = Yields then proc_yield ?p2
        else ?p2\<lparr>gcQueue := (if length (gcQueue ?p2) > 32 then [] else gcQueue ?p2) @ [fb],
                 p_FiberCount := p_FiberCount ?p2 + 1\<rparr>)"
      using 4 ep by (simp add: run_fiber_eq Let_def)
    then show ?thesis
      using p1 ep d by (auto simp: worker_ok_def proc_yield_def)
  qed
qed

lemma exec_loop_worker:
  "worker_ok (snd s) \<Longrightarrow> (\<forall>tn \<in> set tns. foreign (pt_before tn) \<and> foreign (pt_during tn)) \<Longrightarrow>
   (\<And>x. \<not> f_eptr (fst s x)) \<Longrightarrow> exec_loop ops self tns s = Some (Inr (s', outs)) \<Longrightarrow> worker_ok (snd s')"
proof (induction tns arbitrary: s outs)
  case Nil
  then show ?case by simp
next
  case (Cons tn tns)
  obtain s1 out where t: "exec_turn ops self tn s = Some (Inr (s1, out))"
    using Cons.prems(4) by (auto simp: bindO_eq_Some)
  have w: "worker_ok (snd s1)" "\<And>x. \<not> f_eptr (fst s1 x)"
    using exec_turn_worker [OF Cons.prems(1) _ _ Cons.prems(3) t] Cons.prems(2) by auto
  show ?case
  proof (cases "out = Exited")
    case True
    with Cons.prems(4) t w show ?thesis by simp
  next
    case False
    with Cons.prems(4) t obtain os where "exec_loop ops self tns s1 = Some (Inr (s', os))"
      by (auto simp: bindO_eq_Some)
    with Cons.IH [OF w(1) _ w(2)] Cons.prems(2) show ?thesis by auto
  qed
qed

section \<open>Properties\<close>

definition demo_heap :: "nat \<Rightarrow> nat fiber" where
  "demo_heap x = fst (Fiber_ctor x 16384 \<lparr>s_fiber_id = 0, s_fiber_count = 0\<rparr>)"

definition demo_queue :: "nat lf_list" where
  "demo_queue = projr (the (LockFreeList_ctor 129))"

lemma demo_queue_rep: "lf_rep_of 129 demo_queue []"
  using LockFreeList_ctor_rep [where ?'a = nat, of 129] by (auto simp: demo_queue_def)

lemma demo_filled: "length xs \<le> 128 \<Longrightarrow> \<exists>q. lf_rep_of 129 q (xs :: nat list)"
proof (induction xs rule: rev_induct)
  case Nil
  show ?case using demo_queue_rep by blast
next
  case (snoc x xs)
  then obtain q :: "nat lf_list" where "lf_rep_of 129 q xs" by auto
  from lffq.push_room [OF this, of x] snoc.prems show ?case by auto
qed

lemma demo_heap_eptr [simp]: "\<not> f_eptr (demo_heap x)"
  by (simp add: demo_heap_def Fiber_ctor_def)

text \<open>
  Adding a fiber to a processer that is not shutting down puts it behind the fibers that
  wait in \<open>newQueue\<close>, counts it, sets the wake-up flag, and signals the condition variable
  exactly when the processer is not running; it changes nothing else.
\<close>

theorem addFiber_enqueues:
  assumes "fiber_queue ops rep cap" and "rep (newQueue p) xs" and "length xs < cap"
    and "p_state p \<noteq> Stop" and "p_state p \<noteq> Done"
  shows "\<exists>q. rep q (xs @ [fb]) \<and> addFiber ops fb p = Some (Inr
     (p\<lparr>newQueue := q, p_newfiberCount := p_newfiberCount p + 1, p_notidied := True,
        cv_signals := (if p_state p = Running then cv_signals p else Suc (cv_signals p))\<rparr>))"
proof -
  obtain q where "push_until ops fb (newQueue p) = Some (Inr q)" "rep q (xs @ [fb])"
    using fiber_queue.push_until_room [OF assms(1-3)] by blast
  then show ?thesis
    using assms(4,5) by (auto simp: addFiber_def Let_def isRunning_def proc_notify_def)
qed

lemma addFiber_enqueues_witness:
  "\<exists>p'. addFiber lf_ops 7 (Processer_ctor 0 demo_queue) = Some (Inr p') \<and>
     lf_rep_of 129 (newQueue p') [7] \<and> cv_signals p' = 1"
proof -
  have "\<exists>q. lf_rep_of 129 q ([] @ [7]) \<and> addFiber lf_ops 7 (Processer_ctor 0 demo_queue) = Some (Inr
     ((Processer_ctor 0 demo_queue)\<lparr>newQueue := q,
        p_newfiberCount := p_newfiberCount (Processer_ctor 0 demo_queue) + 1, p_notidied := True,
        cv_signals := (if p_state (Processer_ctor 0 demo_queue) = Running
           then cv_signals (Processer_ctor 0 demo_queue)
           else Suc (cv_signals (Processer_ctor 0 demo_queue)))\<rparr>))"
    by (rule addFiber_enqueues [OF lffq.fiber_queue_axioms])
      (simp_all add: Processer_ctor_def demo_queue_rep)
  then show ?thesis by (auto simp: Processer_ctor_def)
qed

text \<open>
  Adding to a full queue spins: as long as nobody pops, \<open>addFiber\<close> does not return. A
  fiber that adds to the processer it runs on, whose queue is full, therefore never returns,
  since only that processer pops.
\<close>

theorem addFiber_full_never_returns:
  assumes "fiber_queue ops rep cap" and "rep (newQueue p) xs" and "length xs = cap"
    and "p_state p \<noteq> Stop" and "p_state p \<noteq> Done"
  shows "addFiber ops fb p = None"
  using assms fiber_queue.push_until_full [OF assms(1-3)] by (simp add: addFiber_def)

lemma addFiber_full_never_returns_witness:
  "\<exists>q. lf_rep_of 129 q [0..<128] \<and> addFiber lf_ops 7 (Processer_ctor 0 q) = None"
proof -
  obtain q :: "nat lf_list" where q: "lf_rep_of 129 q [0..<128]"
    using demo_filled [of "[0..<128]"] by auto
  have "length [0..<128] = 128" unfolding length_upt by simp
  with q have "addFiber lf_ops 7 (Processer_ctor 0 q) = None"
    by (intro addFiber_full_never_returns [OF lffq.fiber_queue_axioms, where xs = "[0..<128]"])
      (simp_all add: Processer_ctor_def)
  with q show ?thesis by blast
qed

text \<open>
  The loop of \<open>addFibers\<close> is inverted: it takes the front of an empty list, which is
  undefined, and enqueues nothing of a list that has fibers, although it counts them as new.
\<close>

theorem addFibers_enqueues_nothing:
  "addFibers ops [] p = Some (Inl EmptyFront) \<and>
   addFibers ops (fb # l) p = Some (Inr (p\<lparr>p_newfiberCount := p_newfiberCount p + of_nat (length (fb # l)),
      p_notidied := True,
      cv_signals := (if p_state p = Running then cv_signals p else Suc (cv_signals p))\<rparr>, fb # l))"
proof -
  have "loopO (addFibers_body ops) ([], newQueue p) = Some (Inl EmptyFront)"
    by (rule loopO_steps(2)) (simp add: addFibers_body_def)
  moreover have "loopO (addFibers_body ops) (fb # l, newQueue p) = Some (Inr (fb # l, newQueue p))"
    by (rule loopO_steps(3)) (simp add: addFibers_body_def)
  ultimately show ?thesis
    by (simp add: addFibers_def Let_def isRunning_def proc_notify_def)
qed

text \<open>
  C17: a running processer, left alone, runs every fiber it has exactly once and in order: the
  runnable ones first, then, after one turn that takes them over, all new ones. Each is
  afterwards blocked if it yielded and done if it returned or threw; queues and the count of
  new fibers are empty.
\<close>

theorem execute_runs_all_in_order:
  assumes "fiber_queue ops rep cap" and "p_state (snd s) = Running" and "runableQueue (snd s) = xs"
    and "rep (newQueue (snd s)) ys" and "p_newfiberCount (snd s) = of_nat (length ys)"
    and "ys \<noteq> []" and "distinct (xs @ ys)" and "\<And>x. \<not> f_eptr (fst s x)"
    and "length segs1 = length xs" and "length segs2 = length ys"
  shows "\<exists>s'. exec_loop ops self (map quiet (segs1 @ seg # segs2)) s =
       Some (Inr (s', map Ran xs @ Polled # map Ran ys)) \<and>
     runableQueue (snd s') = [] \<and> rep (newQueue (snd s')) [] \<and> p_newfiberCount (snd s') = 0 \<and>
     p_swithCount (snd s') = p_swithCount (snd s) + of_nat (length xs + length ys) \<and>
     (\<forall>i < length xs. f_state (fst s' (xs ! i)) = (if segs1 ! i = Yields then Block else Done)) \<and>
     (\<forall>i < length ys. f_state (fst s' (ys ! i)) = (if segs2 ! i = Yields then Block else Done))"
  by (rule fiber_queue.runs_all_fifo [OF assms])

lemma execute_runs_all_in_order_witness:
  "\<exists>q s'. exec_loop lf_ops 0 (map quiet [Returns, Returns, Yields, ThrowsExc])
      (demo_heap, (Processer_ctor 0 q)\<lparr>p_state := Running, runableQueue := [5], p_newfiberCount := 2\<rparr>) =
     Some (Inr (s', [Ran 5, Polled, Ran 8, Ran 9])) \<and>
     f_state (fst s' 8) = Block \<and> f_state (fst s' 9) = Done"
proof -
  obtain q :: "nat lf_list" where q: "lf_rep_of 129 q [8, 9]"
    using demo_filled [of "[8, 9]"] by auto
  let ?s = "(demo_heap, (Processer_ctor 0 q)\<lparr>p_state := Running, runableQueue := [5], p_newfiberCount := 2\<rparr>)"
  have "\<exists>s'. exec_loop lf_ops 0 (map quiet ([Returns] @ Returns # [Yields, ThrowsExc])) ?s =
       Some (Inr (s', map Ran [5] @ Polled # map Ran [8, 9])) \<and>
     runableQueue (snd s') = [] \<and> lf_rep_of 129 (newQueue (snd s')) [] \<and> p_newfiberCount (snd s') = 0 \<and>
     p_swithCount (snd s') = p_swithCount (snd ?s) + of_nat (length [5::nat] + length [8::nat, 9]) \<and>
     (\<forall>i < length [5::nat]. f_state (fst s' ([5] ! i)) = (if [Returns] ! i = Yields then Block else Done)) \<and>
     (\<forall>i < length [8::nat, 9]. f_state (fst s' ([8, 9] ! i)) = (if [Yields, ThrowsExc] ! i = Yields then Block else Done))"
    by (rule execute_runs_all_in_order [OF lffq.fiber_queue_axioms]) (simp_all add: Processer_ctor_def q)
  then obtain s' where s': "exec_loop lf_ops 0 (map quiet ([Returns] @ Returns # [Yields, ThrowsExc])) ?s =
       Some (Inr (s', map Ran [5] @ Polled # map Ran [8, 9]))"
    and f: "\<forall>i < length [8::nat, 9]. f_state (fst s' ([8, 9] ! i)) = (if [Yields, ThrowsExc] ! i = Yields then Block else Done)"
    by blast
  have "f_state (fst s' 8) = Block" "f_state (fst s' 9) = Done"
    using f [rule_format, of 0] f [rule_format, of 1] by simp_all
  with s' show ?thesis by (intro exI [of _ q] exI [of _ s']) simp
qed

text \<open>
  Whatever other threads do to the queues, flags and states of a processer between and
  during its turns, its counters stay in balance (every switch to a fiber ended in a yield or
  in a finished fiber) and its garbage queue holds at most 33 finished fibers.
\<close>

theorem execute_counters_balance:
  assumes "p_swithCount (snd s) = p_yieldCount (snd s) + p_FiberCount (snd s)"
    and "length (gcQueue (snd s)) \<le> 33" and "\<And>x. \<not> f_eptr (fst s x)"
    and "\<forall>tn \<in> set tns. foreign (pt_before tn) \<and> foreign (pt_during tn)"
    and "proc_execute ops self tns s = Some (Inr (s', outs))"
  shows "p_swithCount (snd s') = p_yieldCount (snd s') + p_FiberCount (snd s') \<and>
    length (gcQueue (snd s')) \<le> 33"
  using exec_loop_worker [of "(fst s, (snd s)\<lparr>p_state := Running\<rparr>)" tns ops self s' outs] assms
  by (simp add: proc_execute_def worker_ok_def)

lemma execute_counters_balance_witness:
  "\<exists>s'. proc_execute lf_ops 0 (map quiet [Yields, Returns])
      (demo_heap, (Processer_ctor 0 demo_queue)\<lparr>runableQueue := [5, 6]\<rparr>) = Some (Inr (s', [Ran 5, Ran 6])) \<and>
     p_swithCount (snd s') = p_yieldCount (snd s') + p_FiberCount (snd s')"
proof -
  let ?s = "(demo_heap, (Processer_ctor 0 demo_queue)\<lparr>runableQueue := [5, 6]\<rparr>)"
  obtain s' where s': "proc_execute lf_ops 0 (map quiet [Yields, Returns]) ?s = Some (Inr (s', [Ran 5, Ran 6]))"
    using quiet_runs [of "(fst ?s, (snd ?s)\<lparr>p_state := Running\<rparr>)" "[5, 6]" "[]" "[Yields, Returns]" lf_ops 0]
    by (auto simp: proc_execute_def)
  have "p_swithCount (snd s') = p_yieldCount (snd s') + p_FiberCount (snd s') \<and> length (gcQueue (snd s')) \<le> 33"
    by (rule execute_counters_balance [OF _ _ _ _ s']) (simp_all add: Processer_ctor_def quiet_def foreign_def)
  with s' show ?thesis by blast
qed

end
