(* ===== verification/Wakeup.thy ===== *)
theory Wakeup
  imports Fiber
begin

text \<open>
  The wake-up protocol between \<open>Processer::addFiber\<close>, which any thread may call, and
  \<open>Processer::getNewFibers\<close> and \<open>Processer::idle\<close>, which the thread of the processer runs
  (\<open>src/fiber/processer.cc\<close>): every access to \<open>newQueue\<close>, \<open>m_newfiberCount\<close>, \<open>m_state\<close>,
  \<open>m_notidied\<close>, the mutex and the condition variable is one step, and the steps of the
  threads interleave in any order. Each call of \<open>addFiber\<close> is an entry of \<open>adders\<close>, with its
  program counter; the processer does not stop, and the condition variable does not wake
  spuriously (a spurious wake-up only hides a missed signal).
\<close>

section \<open>Program counters and shared state\<close>

text \<open>
  The consumer: before the exchange of the counter; \<open>k\<close> pops left; at the test for an empty
  run queue; before the lock of \<open>idle\<close>; at its first test of the flag; before \<open>m_state\<close>
  becomes idle; at the test of the waiting loop; in \<open>m_cv.wait\<close>; signalled, before it has the
  mutex again; before \<open>m_state\<close> becomes running.
\<close>

datatype cpc =
    CPoll | CPop nat | CCheck | CLock | CTest | CSetIdle | CWhile | CWait | CWake | CSetRun

text \<open>
  A call of \<open>addFiber\<close>: at the test for a stopped processer; before the push; before the
  counter; before the test of \<open>isRunning\<close>; before the flag when it was running; before the
  flag when it was not; then in \<open>notify\<close>, before the lock, the flag and the signal; done.
\<close>

datatype apc =
    AStart | APush | ACount | ATest | ASetR | ASetN | ALock | ANote | ASignal | ADone

datatype owner = Consumer | Adder nat

record wk =
  queued :: nat
  runnable_n :: nat
  newcount :: nat
  wk_state :: TaskState
  flag :: bool
  mutex :: "owner option"
  consumer :: cpc
  adders :: "apc list"

definition wk_init :: "nat \<Rightarrow> wk" where
  "wk_init n = \<lparr>queued = 0, runnable_n = 0, newcount = 0, wk_state = Running, flag = False,
     mutex = None, consumer = CPoll, adders = replicate n AStart\<rparr>"

section \<open>Steps\<close>

text \<open>A pop of an empty queue leaves the loop of \<open>getNewFibers\<close> one iteration shorter.\<close>

definition cstep :: "wk \<Rightarrow> wk option" where
  "cstep s = (case consumer s of
     CPoll \<Rightarrow> Some (s\<lparr>newcount := 0, consumer := CPop (newcount s)\<rparr>)
   | CPop 0 \<Rightarrow> Some (s\<lparr>consumer := CCheck\<rparr>)
   | CPop (Suc k) \<Rightarrow>
       (if queued s = 0 then Some (s\<lparr>consumer := CPop k\<rparr>)
        else Some (s\<lparr>queued := queued s - 1, runnable_n := Suc (runnable_n s), consumer := CPop k\<rparr>))
   | CCheck \<Rightarrow>
       (if runnable_n s = 0 then Some (s\<lparr>consumer := CLock\<rparr>)
        else Some (s\<lparr>runnable_n := 0, consumer := CPoll\<rparr>))
   | CLock \<Rightarrow> (if mutex s = None then Some (s\<lparr>mutex := Some Consumer, consumer := CTest\<rparr>) else None)
   | CTest \<Rightarrow>
       (if flag s then Some (s\<lparr>flag := False, mutex := None, consumer := CPoll\<rparr>)
        else Some (s\<lparr>consumer := CSetIdle\<rparr>))
   | CSetIdle \<Rightarrow> Some (s\<lparr>wk_state := Idle, consumer := CWhile\<rparr>)
   | CWhile \<Rightarrow>
       (if flag s then Some (s\<lparr>consumer := CSetRun\<rparr>)
        else Some (s\<lparr>mutex := None, consumer := CWait\<rparr>))
   | CWait \<Rightarrow> None
   | CWake \<Rightarrow> (if mutex s = None then Some (s\<lparr>mutex := Some Consumer, consumer := CWhile\<rparr>) else None)
   | CSetRun \<Rightarrow> Some (s\<lparr>wk_state := Running, mutex := None, consumer := CPoll\<rparr>))"

text \<open>\<open>cap\<close> is the capacity of \<open>newQueue\<close>; the push spins while the queue is full.\<close>

definition call_step :: "nat \<Rightarrow> nat \<Rightarrow> apc \<Rightarrow> wk \<Rightarrow> (wk \<times> apc) option" where
  "call_step cap i pc s = (case pc of
     AStart \<Rightarrow> Some (s, if wk_state s = Stop \<or> wk_state s = Done then ADone else APush)
   | APush \<Rightarrow> (if queued s < cap then Some (s\<lparr>queued := Suc (queued s)\<rparr>, ACount) else None)
   | ACount \<Rightarrow> Some (s\<lparr>newcount := Suc (newcount s)\<rparr>, ATest)
   | ATest \<Rightarrow> Some (s, if wk_state s \<noteq> Running then ASetN else ASetR)
   | ASetR \<Rightarrow> Some (s\<lparr>flag := True\<rparr>, ADone)
   | ASetN \<Rightarrow> Some (s\<lparr>flag := True\<rparr>, ALock)
   | ALock \<Rightarrow> (if mutex s = None then Some (s\<lparr>mutex := Some (Adder i)\<rparr>, ANote) else None)
   | ANote \<Rightarrow> Some (s\<lparr>flag := True\<rparr>, ASignal)
   | ASignal \<Rightarrow> Some (s\<lparr>mutex := None,
        consumer := (if consumer s = CWait then CWake else consumer s)\<rparr>, ADone)
   | ADone \<Rightarrow> None)"

definition astep :: "nat \<Rightarrow> nat \<Rightarrow> wk \<Rightarrow> wk option" where
  "astep cap i s =
     (if \<not> i < length (adders s) then None
      else case call_step cap i (adders s ! i) s of
        None \<Rightarrow> None
      | Some (s', pc) \<Rightarrow> Some (s'\<lparr>adders := (adders s')[i := pc]\<rparr>))"

lemma astepE:
  assumes "astep cap i s = Some s'"
  obtains t pc where "i < length (adders s)" "call_step cap i (adders s ! i) s = Some (t, pc)"
    "s' = t\<lparr>adders := (adders s)[i := pc]\<rparr>"
proof -
  have i: "i < length (adders s)" using assms by (auto simp: astep_def split: if_splits)
  with assms obtain t pc where t: "call_step cap i (adders s ! i) s = Some (t, pc)"
      "s' = t\<lparr>adders := (adders t)[i := pc]\<rparr>"
    by (auto simp: astep_def split: option.splits)
  moreover from t(1) have "adders t = adders s"
    by (cases "adders s ! i") (auto simp: call_step_def split: if_splits)
  ultimately show ?thesis using that i by simp
qed

inductive wk_step :: "nat \<Rightarrow> wk \<Rightarrow> wk \<Rightarrow> bool" for cap where
  consume: "cstep s = Some s' \<Longrightarrow> wk_step cap s s'"
| add: "astep cap i s = Some s' \<Longrightarrow> wk_step cap s s'"

inductive_cases wk_stepE: "wk_step cap s s'"

inductive wk_reach :: "nat \<Rightarrow> nat \<Rightarrow> wk \<Rightarrow> bool" for cap n where
  init: "wk_reach cap n (wk_init n)"
| step: "wk_reach cap n s \<Longrightarrow> wk_step cap s s' \<Longrightarrow> wk_reach cap n s'"

text \<open>A schedule as a list of moves.\<close>

datatype move = MC | MA nat

fun wk_run :: "nat \<Rightarrow> move list \<Rightarrow> wk \<Rightarrow> wk option" where
  "wk_run cap [] s = Some s"
| "wk_run cap (MC # ms) s = (case cstep s of None \<Rightarrow> None | Some s' \<Rightarrow> wk_run cap ms s')"
| "wk_run cap (MA i # ms) s = (case astep cap i s of None \<Rightarrow> None | Some s' \<Rightarrow> wk_run cap ms s')"

lemma wk_run_reach: "wk_run cap ms s = Some s' \<Longrightarrow> wk_reach cap n s \<Longrightarrow> wk_reach cap n s'"
proof (induction cap ms s rule: wk_run.induct)
  case (2 cap ms s)
  then show ?case by (auto split: option.splits intro: wk_reach.step wk_step.consume)
next
  case (3 cap i ms s)
  then show ?case by (auto split: option.splits intro: wk_reach.step wk_step.add)
qed simp

section \<open>Invariants\<close>

definition pops_left :: "cpc \<Rightarrow> nat" where
  "pops_left c = (case c of CPop k \<Rightarrow> k | _ \<Rightarrow> 0)"

definition n_at :: "apc \<Rightarrow> wk \<Rightarrow> nat" where
  "n_at pc s = length (filter (\<lambda>a. a = pc) (adders s))"

lemma filter_update_length:
  "i < length xs \<Longrightarrow> length (filter P (xs[i := y])) + (if P (xs ! i) then 1 else 0) =
     length (filter P xs) + (if P y then 1 else 0)"
proof (induction xs arbitrary: i)
  case (Cons x xs)
  then show ?case by (cases i) auto
qed simp

text \<open>
  Every fiber in the queue is accounted for: by the counter, by a pop that is still to come,
  or by a call that has pushed and not yet counted.
\<close>

definition counted :: "wk \<Rightarrow> bool" where
  "counted s \<longleftrightarrow> queued s = newcount s + pops_left (consumer s) + n_at ACount s"

lemma counted_cstep: "counted s \<Longrightarrow> cstep s = Some s' \<Longrightarrow> counted s'"
  by (auto simp: cstep_def counted_def pops_left_def n_at_def split: cpc.splits nat.splits if_splits)

lemma counted_astep:
  assumes c: "counted s" and t: "astep cap i s = Some s'"
  shows "counted s'"
  using t
proof (rule astepE)
  fix t pc assume i: "i < length (adders s)" and st: "call_step cap i (adders s ! i) s = Some (t, pc)"
    and s': "s' = t\<lparr>adders := (adders s)[i := pc]\<rparr>"
  have n: "n_at ACount s' + (if adders s ! i = ACount then 1 else 0) =
      n_at ACount s + (if pc = ACount then 1 else 0)"
    using filter_update_length [OF i, of "\<lambda>a. a = ACount" pc] by (simp add: n_at_def s')
  have "queued t + (if adders s ! i = ACount then 1 else 0) + newcount s =
      queued s + newcount t + (if pc = ACount then 1 else 0)"
    "pops_left (consumer t) = pops_left (consumer s)"
    using st by (cases "adders s ! i"; auto simp: call_step_def pops_left_def split: if_splits)+
  then show ?thesis using c n by (auto simp: counted_def s' split: if_splits)
qed

lemma reach_counted: "wk_reach cap n s \<Longrightarrow> counted s"
proof (induction rule: wk_reach.induct)
  case init
  show ?case by (simp add: counted_def wk_init_def pops_left_def n_at_def)
next
  case (step s s')
  then show ?case by (auto elim!: wk_stepE dest: counted_cstep counted_astep)
qed

text \<open>
  Counted fibers are announced: the flag is set, or a call that counted is still before its
  assignment of the flag, or the consumer is about to take them.
\<close>

definition announced :: "wk \<Rightarrow> bool" where
  "announced s \<longleftrightarrow> newcount s = 0 \<or> flag s \<or> consumer s = CPoll \<or>
     (\<exists>i < length (adders s). adders s ! i \<in> {ATest, ASetR, ASetN})"

lemma announced_cstep: "announced s \<Longrightarrow> cstep s = Some s' \<Longrightarrow> announced s'"
  by (auto simp: cstep_def announced_def split: cpc.splits nat.splits if_splits)

lemma announced_astep:
  assumes a: "announced s" and t: "astep cap i s = Some s'"
  shows "announced s'"
  using t
proof (rule astepE)
  fix t pc assume i: "i < length (adders s)" and st: "call_step cap i (adders s ! i) s = Some (t, pc)"
    and s': "s' = t\<lparr>adders := (adders s)[i := pc]\<rparr>"
  consider "flag t" | "pc \<in> {ATest, ASetR, ASetN}"
    | "adders s ! i \<notin> {ATest, ASetR, ASetN}" "newcount t = newcount s" "flag t = flag s"
      "consumer s = CPoll \<longrightarrow> consumer t = CPoll"
    using st by (cases "adders s ! i") (auto simp: call_step_def split: if_splits)
  then show ?thesis
  proof cases
    case 1
    then show ?thesis by (simp add: announced_def s')
  next
    case 2
    then have "(adders s)[i := pc] ! i \<in> {ATest, ASetR, ASetN}" using i by simp
    with i show ?thesis unfolding announced_def s' by auto
  next
    case 3
    have "(adders s)[i := pc] ! j \<in> {ATest, ASetR, ASetN}"
      if "adders s ! j \<in> {ATest, ASetR, ASetN}" for j
      using that 3(1) by (cases "j = i") auto
    with 3 a show ?thesis unfolding announced_def s' by auto
  qed
qed

lemma reach_announced: "wk_reach cap n s \<Longrightarrow> announced s"
proof (induction rule: wk_reach.induct)
  case init
  show ?case by (simp add: announced_def wk_init_def)
next
  case (step s s')
  then show ?case by (auto elim!: wk_stepE dest: announced_cstep announced_astep)
qed

section \<open>Properties\<close>

text \<open>A schedule in which the flag is set just after the consumer tested it.\<close>

definition lost_schedule :: "move list" where
  "lost_schedule = [MC, MC, MC, MC, MC, MA 0, MA 0, MA 0, MA 0, MC, MC, MA 0]"



text \<open>
  When the processer waits with the flag clear and no call of \<open>addFiber\<close> is between its
  count and its assignment of the flag, there is nothing to take: no counted fiber waits.
\<close>

theorem waiting_unflagged_has_nothing:
  assumes "wk_reach cap n s" and "consumer s = CWait" and "\<not> flag s"
    and "\<forall>i < length (adders s). adders s ! i \<notin> {ATest, ASetR, ASetN}"
  shows "newcount s = 0"
  using reach_announced [OF assms(1)] assms(2-4) by (auto simp: announced_def)

lemma waiting_unflagged_has_nothing_witness:
  "\<exists>s. wk_run 128 [MC, MC, MC, MC, MC, MC, MC] (wk_init 1) = Some s \<and> consumer s = CWait \<and> newcount s = 0"
proof -
  obtain s where s: "wk_run 128 [MC, MC, MC, MC, MC, MC, MC] (wk_init 1) = Some s" "consumer s = CWait"
    "\<not> flag s" "adders s = [AStart]"
    by (simp add: wk_init_def cstep_def)
  have "wk_reach 128 1 s" by (rule wk_run_reach [OF s(1) wk_reach.init])
  from waiting_unflagged_has_nothing [OF this s(2,3)] s show ?thesis by simp
qed

text \<open>
  C40: a wake-up can be lost: \<open>addFiber\<close> tests \<open>isRunning\<close> and then sets the flag without the
  mutex and without a signal, and the processer may test the flag, become idle and wait in
  between. Then the fiber is queued and counted and the flag is set, every call has returned,
  and no thread can take a step.
\<close>

theorem wakeup_can_be_lost:
  "\<exists>s. wk_reach 128 1 s \<and> wk_run 128 lost_schedule (wk_init 1) = Some s \<and>
     consumer s = CWait \<and> queued s = 1 \<and> newcount s = 1 \<and> flag s \<and> adders s = [ADone] \<and>
     (\<forall>s'. \<not> wk_step 128 s s')"
proof -
  obtain s where s: "wk_run 128 lost_schedule (wk_init 1) = Some s" "consumer s = CWait"
    "queued s = 1" "newcount s = 1" "flag s" "adders s = [ADone]"
    by (simp add: lost_schedule_def wk_init_def astep_def call_step_def cstep_def)
  have "wk_reach 128 1 s" by (rule wk_run_reach [OF s(1) wk_reach.init])
  moreover have "\<not> wk_step 128 s s'" for s'
    using s(2,6) by (auto elim!: wk_stepE astepE simp: cstep_def call_step_def)
  ultimately show ?thesis using s by blast
qed

end
