(* ===== verification/Scheduler.thy ===== *)
theory Scheduler
  imports Processer Poller
begin

text \<open>
  \<open>src/fiber/scheduler.h\<close>, \<open>src/fiber/scheduler.cc\<close> and \<open>src/fiber/coroutines.h\<close>: the
  scheduler, which owns the processers and the poller and decides which processer gets a
  fiber. A processer pointer is its index in \<open>m_processers\<close>, the function-static \<open>id\<close> of
  \<open>addFiber\<close> is the field \<open>sc_rr\<close>, and \<open>sc_log\<close> records the actions of \<open>stop\<close>, oldest first.
\<close>

section \<open>Data\<close>

datatype shutdown_action =
    SetStop nat | NotifyProc nat | JoinProc nat | StopPoller | NotifyPoller | JoinPoller
  | DeleteProc nat | DeletePoller

record ('q, 'cb) scheduler =
  sc_name :: string
  m_processers :: "'q processer list"
  m_procThreads :: "bool list"
  sc_state :: TaskState
  m_processerNumber :: u32
  m_fiberNumber :: u64
  sc_poller :: "'cb poller option"
  sc_pollerThread :: bool
  sc_rr :: nat
  sc_log :: "shutdown_action list"

section \<open>Construction and start\<close>

text \<open>\<open>m_poller\<close> has no initialiser: until \<open>start\<close> it is \<open>None\<close>, and using it is a fault.\<close>

definition Scheduler_ctor :: "u64 \<Rightarrow> string \<Rightarrow> u32 \<Rightarrow> nat \<Rightarrow> ('q, 'cb) scheduler" where
  "Scheduler_ctor threads name hardware_concurrency rr =
     \<lparr>sc_name = name, m_processers = [], m_procThreads = [], sc_state = Init,
      m_processerNumber = (if threads < 1 then hardware_concurrency else ucast threads),
      m_fiberNumber = 0, sc_poller = None, sc_pollerThread = False, sc_rr = rr, sc_log = []\<rparr>"

text \<open>\<open>q0\<close> is a new queue, \<open>pl\<close> the outcome of the constructor of the poller.\<close>

definition sched_start :: "'q \<Rightarrow> 'cb poller result \<Rightarrow> ('q, 'cb) scheduler \<Rightarrow> ('q, 'cb) scheduler result" where
  "sched_start q0 pl sc =
     (if sc_state sc \<noteq> Init then Inl AssertFail
      else (let n = unat (m_processerNumber sc);
                sc1 = sc\<lparr>m_processers := m_processers sc @ map (\<lambda>i. Processer_ctor (of_nat i) q0) [0..<n],
                         m_procThreads := m_procThreads sc @ replicate n True\<rparr>
            in bindR pl (\<lambda>p. Inr (sc1\<lparr>sc_poller := Some p, sc_pollerThread := True, sc_state := Running\<rparr>))))"

definition isStopping :: "('q, 'cb) scheduler \<Rightarrow> bool" where
  "isStopping sc = (sc_state sc = Stop)"

text \<open>\<open>Scheduler::getScheduler\<close>: the instance, made on the first call.\<close>

definition getScheduler ::
  "('q, 'cb) scheduler \<Rightarrow> ('q, 'cb) scheduler option \<Rightarrow> ('q, 'cb) scheduler option \<times> ('q, 'cb) scheduler" where
  "getScheduler fresh t = (case t of Some s \<Rightarrow> (Some s, s) | None \<Rightarrow> (Some fresh, fresh))"

section \<open>Choosing a processer\<close>

fun find_waiting :: "nat \<Rightarrow> 'q processer list \<Rightarrow> nat option" where
  "find_waiting i [] = None"
| "find_waiting i (p # ps) = (if isWaitting p then Some i else find_waiting (Suc i) ps)"

text \<open>The round-robin loop: \<open>k\<close> iterations are left; it returns the choice and the new \<open>id\<close>.\<close>

fun rr_search :: "'q processer list \<Rightarrow> nat \<Rightarrow> nat \<Rightarrow> (nat option \<times> nat) result" where
  "rr_search ps 0 i = Inr (None, i)"
| "rr_search ps (Suc k) i =
     bindR (at ps (int i)) (\<lambda>p.
       if \<not> isBlock p then Inr (Some i, (i + 1) mod length ps)
       else rr_search ps k ((i + 1) mod length ps))"

text \<open>Without a running processer of its own: an idle one, else the round robin.\<close>

definition pick_other :: "'q processer list \<Rightarrow> nat \<Rightarrow> (nat \<times> nat) result" where
  "pick_other ps i =
     (case find_waiting 0 ps of
        Some j \<Rightarrow> Inr (j, i)
      | None \<Rightarrow> bindR (rr_search ps (length ps) i) (\<lambda>(r, i').
          case r of
            Some j \<Rightarrow> Inr (j, i')
          | None \<Rightarrow> bindR (at ps (int i')) (\<lambda>_. Inr (i', (i' + 1) mod length ps))))"

definition pick :: "nat option \<Rightarrow> 'q processer list \<Rightarrow> nat \<Rightarrow> (nat \<times> nat) result" where
  "pick own ps i =
     (case own of
        None \<Rightarrow> pick_other ps i
      | Some k \<Rightarrow> bindR (at ps (int k)) (\<lambda>p. if isRunning p then Inr (k, i) else pick_other ps i))"

definition sched_addFiber ::
  "(nat, 'q) queue_ops \<Rightarrow> nat option \<Rightarrow> nat \<Rightarrow> ('q, 'cb) scheduler \<Rightarrow> ('q, 'cb) scheduler run" where
  "sched_addFiber ops own fb sc =
     bindO (Some (pick own (m_processers sc) (sc_rr sc))) (\<lambda>(k, i).
     bindO (addFiber ops fb (m_processers sc ! k)) (\<lambda>p.
       Some (Inr (sc\<lparr>m_processers := (m_processers sc)[k := p], sc_rr := i\<rparr>))))"

text \<open>\<open>createFiber\<close>: the new fiber at address \<open>fb\<close> has no processer yet.\<close>

definition createFiber ::
  "(nat, 'q) queue_ops \<Rightarrow> 'fn \<Rightarrow> nat \<Rightarrow> (nat \<Rightarrow> 'fn fiber) \<times> fiber_tls \<times> ('q, 'cb) scheduler \<Rightarrow>
   ((nat \<Rightarrow> 'fn fiber) \<times> fiber_tls \<times> ('q, 'cb) scheduler) run" where
  "createFiber ops cb fb s =
     (let (h, tls, sc) = s;
          (f, tls') = Fiber_ctor cb (16 * 1024) tls;
          sc1 = sc\<lparr>m_fiberNumber := m_fiberNumber sc + 1\<rparr>
      in bindO (sched_addFiber ops (f_proc f) fb sc1) (\<lambda>sc2. Some (Inr (h(fb := f), tls', sc2))))"

section \<open>Stopping\<close>

fun join_log :: "nat \<Rightarrow> bool list \<Rightarrow> shutdown_action list" where
  "join_log i [] = []"
| "join_log i (j # js) = (if j then JoinProc i # join_log (Suc i) js else join_log (Suc i) js)"

text \<open>\<open>cap\<close> is the capacity of the pipe of the poller.\<close>

definition sched_stop :: "nat \<Rightarrow> ('q, 'cb) scheduler \<Rightarrow> ('q, 'cb) scheduler result" where
  "sched_stop cap sc =
     (let n = length (m_processers sc);
          sc1 = sc\<lparr>m_processers := map (\<lambda>p. proc_notify (p\<lparr>p_state := Stop\<rparr>)) (m_processers sc),
                   sc_log := sc_log sc @ concat (map (\<lambda>i. [SetStop i, NotifyProc i]) [0..<n])\<rparr>;
          sc2 = sc1\<lparr>m_procThreads := map (\<lambda>_. False) (m_procThreads sc1),
                    sc_log := sc_log sc1 @ join_log 0 (m_procThreads sc1)\<rparr>
      in case sc_poller sc2 of
        None \<Rightarrow> Inl NullDeref
      | Some pl \<Rightarrow>
          (let pl1 = (if \<not> stopping pl then pl\<lparr>pl_state := Stop\<rparr> else pl);
               l1 = (if \<not> stopping pl then [StopPoller] else [])
           in bindR (notify cap pl1) (\<lambda>pl2.
              Inr (sc2\<lparr>sc_poller := None, m_processers := [], sc_pollerThread := False, sc_state := Done,
                       sc_log := sc_log sc2 @ l1 @ [NotifyPoller] @
                         (if sc_pollerThread sc2 then [JoinPoller] else []) @
                         map DeleteProc [0..<n] @ [DeletePoller]\<rparr>))))"

definition Scheduler_dtor :: "nat \<Rightarrow> ('q, 'cb) scheduler \<Rightarrow> ('q, 'cb) scheduler result" where
  "Scheduler_dtor cap sc =
     (if sc_state sc \<noteq> Done then sched_stop cap (sc\<lparr>sc_state := Stop\<rparr>) else Inr sc)"

section \<open>Lemmas on the choice\<close>

lemma find_waiting_Some:
  "find_waiting i ps = Some j \<Longrightarrow> i \<le> j \<and> j < i + length ps \<and> isWaitting (ps ! (j - i)) \<and>
     (\<forall>k. i \<le> k \<and> k < j \<longrightarrow> \<not> isWaitting (ps ! (k - i)))"
proof (induction i ps rule: find_waiting.induct)
  case (2 i p ps)
  show ?case
  proof (cases "isWaitting p")
    case True
    with 2 show ?thesis by auto
  next
    case False
    with 2 have IH: "Suc i \<le> j \<and> j < Suc i + length ps \<and> isWaitting (ps ! (j - Suc i)) \<and>
        (\<forall>k. Suc i \<le> k \<and> k < j \<longrightarrow> \<not> isWaitting (ps ! (k - Suc i)))" by simp
    then have "j - i = Suc (j - Suc i)" by linarith
    with IH have "isWaitting ((p # ps) ! (j - i))" by simp
    moreover have "\<not> isWaitting ((p # ps) ! (k - i))" if "i \<le> k" "k < j" for k
    proof (cases "k = i")
      case True
      with False show ?thesis by simp
    next
      case False
      with that have "Suc i \<le> k" "k - i = Suc (k - Suc i)" by auto
      with IH that show ?thesis by simp
    qed
    ultimately show ?thesis using IH by auto
  qed
qed simp

lemma find_waiting_None: "find_waiting i ps = None \<longleftrightarrow> (\<forall>p \<in> set ps. \<not> isWaitting p)"
  by (induction i ps rule: find_waiting.induct) auto

text \<open>The round robin takes the first of the following processers that is not blocked.\<close>

lemma rr_search_found:
  assumes "i < length ps" and "\<And>d. d < m \<Longrightarrow> isBlock (ps ! ((i + d) mod length ps))"
    and "\<not> isBlock (ps ! ((i + m) mod length ps))" and "m < k"
  shows "rr_search ps k i = Inr (Some ((i + m) mod length ps), (i + m + 1) mod length ps)"
  using assms
proof (induction k arbitrary: i m)
  case 0
  then show ?case by simp
next
  case (Suc k)
  let ?n = "length ps"
  have n: "0 < ?n" using Suc.prems(1) by linarith
  show ?case
  proof (cases m)
    case 0
    with Suc.prems(1,3) show ?thesis by simp
  next
    case (Suc m')
    have s: "((i + 1) mod ?n + d) mod ?n = (i + Suc d) mod ?n" for d
      by (simp add: mod_add_left_eq)
    have "isBlock (ps ! (i mod ?n))" using Suc.prems(2) [of 0] by (simp add: \<open>m = Suc m'\<close>)
    then have "rr_search ps (Suc k) i = rr_search ps k ((i + 1) mod ?n)"
      using Suc.prems(1) by simp
    also have "\<dots> = Inr (Some (((i + 1) mod ?n + m') mod ?n), ((i + 1) mod ?n + m' + 1) mod ?n)"
    proof (rule Suc.IH)
      show "(i + 1) mod ?n < ?n" using n by simp
      show "isBlock (ps ! (((i + 1) mod ?n + d) mod ?n))" if "d < m'" for d
        unfolding s using Suc.prems(2) [of "Suc d"] that by (simp add: \<open>m = Suc m'\<close>)
      show "\<not> isBlock (ps ! (((i + 1) mod ?n + m') mod ?n))"
        unfolding s using Suc.prems(3) by (simp add: \<open>m = Suc m'\<close>)
      show "m' < k" using Suc.prems(4) by (simp add: \<open>m = Suc m'\<close>)
    qed
    also have "((i + 1) mod ?n + m') mod ?n = (i + m) mod ?n" by (simp only: s \<open>m = Suc m'\<close>)
    also have "((i + 1) mod ?n + m' + 1) mod ?n = (i + m + 1) mod ?n"
      using s [of "Suc m'"] by (simp add: \<open>m = Suc m'\<close>)
    finally show ?thesis .
  qed
qed

lemma rr_search_all_blocked:
  "i < length ps \<Longrightarrow> (\<And>p. p \<in> set ps \<Longrightarrow> isBlock p) \<Longrightarrow>
   rr_search ps k i = Inr (None, (i + k) mod length ps)"
proof (induction k arbitrary: i)
  case (Suc k)
  have "(i + 1) mod length ps < length ps" using Suc.prems(1) by (cases ps) auto
  from Suc.IH [OF this Suc.prems(2)] show ?case
    using Suc.prems by (simp add: mod_add_left_eq)
qed simp

text \<open>What the choice comes to, in all cases.\<close>

lemma first_not_blocked:
  assumes "i < length ps" and "\<exists>p \<in> set ps. \<not> isBlock p"
  shows "\<exists>m < length ps. \<not> isBlock (ps ! ((i + m) mod length ps)) \<and>
    (\<forall>d < m. isBlock (ps ! ((i + d) mod length ps)))"
proof -
  let ?n = "length ps"
  obtain j where j: "j < ?n" "\<not> isBlock (ps ! j)" using assms(2) by (auto simp: in_set_conv_nth)
  have "\<exists>m. m < ?n \<and> \<not> isBlock (ps ! ((i + m) mod ?n))"
  proof (cases "i \<le> j")
    case True
    with j show ?thesis by (intro exI [of _ "j - i"]) auto
  next
    case False
    then have "(i + (?n - i + j)) mod ?n = j" using assms(1) j(1) by simp
    with j False assms(1) show ?thesis by (intro exI [of _ "?n - i + j"]) auto
  qed
  then obtain m where m: "m < ?n \<and> \<not> isBlock (ps ! ((i + m) mod ?n))"
    "\<And>d. d < m \<Longrightarrow> \<not> (d < ?n \<and> \<not> isBlock (ps ! ((i + d) mod ?n)))"
    using exists_least_iff [of "\<lambda>m. m < ?n \<and> \<not> isBlock (ps ! ((i + m) mod ?n))"] by blast
  then show ?thesis by (meson less_trans)
qed

lemma pick_other_cases:
  assumes i: "i < length ps"
  obtains (waiting) k where "pick_other ps i = Inr (k, i)" "k < length ps" "isWaitting (ps ! k)"
      "\<forall>j < k. \<not> isWaitting (ps ! j)"
    | (robin) m where "\<forall>p \<in> set ps. \<not> isWaitting p" "m < length ps"
      "pick_other ps i = Inr ((i + m) mod length ps, (i + m + 1) mod length ps)"
      "\<not> isBlock (ps ! ((i + m) mod length ps))" "\<forall>d < m. isBlock (ps ! ((i + d) mod length ps))"
    | (blocked) "\<forall>p \<in> set ps. \<not> isWaitting p \<and> isBlock p"
      "pick_other ps i = Inr (i, (i + 1) mod length ps)"
proof (cases "find_waiting 0 ps")
  case (Some k)
  with find_waiting_Some [OF Some] show ?thesis
    by (intro waiting) (auto simp: pick_other_def)
next
  case None
  note nw = None [unfolded find_waiting_None]
  show ?thesis
  proof (cases "\<exists>p \<in> set ps. \<not> isBlock p")
    case True
    from first_not_blocked [OF i True] obtain m where m: "m < length ps"
      "\<not> isBlock (ps ! ((i + m) mod length ps))" "\<forall>d < m. isBlock (ps ! ((i + d) mod length ps))"
      by blast
    have "rr_search ps (length ps) i = Inr (Some ((i + m) mod length ps), (i + m + 1) mod length ps)"
      by (rule rr_search_found [OF i]) (use m in auto)
    with None have "pick_other ps i = Inr ((i + m) mod length ps, (i + m + 1) mod length ps)"
      by (simp add: pick_other_def)
    with nw m show ?thesis by (intro robin [of m])
  next
    case False
    then have "rr_search ps (length ps) i = Inr (None, i)"
      using rr_search_all_blocked [OF i, of "length ps"] i by simp
    with None i have "pick_other ps i = Inr (i, (i + 1) mod length ps)"
      by (simp add: pick_other_def)
    with nw False show ?thesis by (intro blocked) auto
  qed
qed

lemma pick_None_bound:
  assumes "i < length ps"
  shows "\<exists>k i'. pick None ps i = Inr (k, i') \<and> k < length ps"
proof (rule pick_other_cases [OF assms])
  have n: "0 < length ps" using assms by linarith
  fix m assume "pick_other ps i = Inr ((i + m) mod length ps, (i + m + 1) mod length ps)"
  with mod_less_divisor [OF n] show ?thesis by (simp add: pick_def)
qed (use assms in \<open>auto simp: pick_def\<close>)

section \<open>Adding fibers to processers with room\<close>

definition procs_room ::
  "('q \<Rightarrow> nat list \<Rightarrow> bool) \<Rightarrow> nat \<Rightarrow> 'q processer list \<Rightarrow> (nat \<Rightarrow> nat list) \<Rightarrow> bool" where
  "procs_room rep cap ps xs \<longleftrightarrow> (\<forall>k < length ps. rep (newQueue (ps ! k)) (xs k) \<and>
     length (xs k) < cap \<and> p_state (ps ! k) \<noteq> Stop \<and> p_state (ps ! k) \<noteq> Done)"

text \<open>The processer after \<open>addFiber\<close>.\<close>

definition with_fiber :: "'q \<Rightarrow> 'q processer \<Rightarrow> 'q processer" where
  "with_fiber q p = p\<lparr>newQueue := q, p_newfiberCount := p_newfiberCount p + 1, p_notidied := True,
     cv_signals := (if p_state p = Running then cv_signals p else Suc (cv_signals p))\<rparr>"

lemma with_fiber_simps [simp]:
  "newQueue (with_fiber q p) = q" "p_state (with_fiber q p) = p_state p"
  "p_newfiberCount (with_fiber q p) = p_newfiberCount p + 1" "runableQueue (with_fiber q p) = runableQueue p"
  by (simp_all add: with_fiber_def)

lemma addFiber_with:
  assumes "fiber_queue ops rep cap" and "rep (newQueue p) xs" and "length xs < cap"
    and "p_state p \<noteq> Stop" and "p_state p \<noteq> Done"
  shows "\<exists>q. rep q (xs @ [fb]) \<and> addFiber ops fb p = Some (Inr (with_fiber q p))"
proof -
  obtain q where "push_until ops fb (newQueue p) = Some (Inr q)" "rep q (xs @ [fb])"
    using fiber_queue.push_until_room [OF assms(1-3)] by blast
  then show ?thesis
    using assms(4,5) by (auto simp: addFiber_def Let_def isRunning_def proc_notify_def with_fiber_def)
qed

lemma sched_addFiber_at:
  assumes fq: "fiber_queue ops rep cap" and room: "procs_room rep cap (m_processers sc) xs"
    and p: "pick own (m_processers sc) (sc_rr sc) = Inr (k, i)" "k < length (m_processers sc)"
  shows "\<exists>q. rep q (xs k @ [fb]) \<and> sched_addFiber ops own fb sc =
     Some (Inr (sc\<lparr>m_processers := (m_processers sc)[k := with_fiber q (m_processers sc ! k)], sc_rr := i\<rparr>))"
  using addFiber_with [OF fq, of "m_processers sc ! k" "xs k" fb] room p
  by (auto simp: procs_room_def sched_addFiber_def)

text \<open>Fibers added one after the other.\<close>

fun add_all ::
  "(nat, 'q) queue_ops \<Rightarrow> nat list \<Rightarrow> ('q, 'cb) scheduler \<Rightarrow> ('q, 'cb) scheduler run" where
  "add_all ops [] sc = Some (Inr sc)"
| "add_all ops (fb # fbs) sc = bindO (sched_addFiber ops None fb sc) (\<lambda>sc'. add_all ops fbs sc')"

text \<open>The share of processer \<open>k\<close> when fibers go round from processer \<open>i\<close>.\<close>

definition share :: "nat \<Rightarrow> nat \<Rightarrow> nat \<Rightarrow> nat list \<Rightarrow> nat list" where
  "share n i k fbs = map (\<lambda>j. fbs ! j) (filter (\<lambda>j. (i + j) mod n = k) [0..<length fbs])"

lemma share_Cons:
  assumes "i < n"
  shows "share n i k (fb # fbs) = (if i = k then [fb] else []) @ share n ((i + 1) mod n) k fbs"
proof -
  have "[0..<length (fb # fbs)] = 0 # map Suc [0..<length fbs]" by (simp add: map_Suc_upt upt_conv_Cons del: upt_Suc)
  moreover have "((i + 1) mod n + j) mod n = (i + Suc j) mod n" for j by (simp add: mod_add_left_eq)
  ultimately show ?thesis
    using assms by (simp add: share_def filter_map o_def)
qed

lemma round_robin_all:
  assumes fq: "fiber_queue ops rep cap"
  shows "m_processers sc = ps \<Longrightarrow> (\<forall>p \<in> set ps. p_state p = Running) \<Longrightarrow> sc_rr sc < length ps \<Longrightarrow>
    (\<forall>k < length ps. rep (newQueue (ps ! k)) (xs k) \<and>
       length (xs k) + length (share (length ps) (sc_rr sc) k fbs) \<le> cap) \<Longrightarrow>
    \<exists>sc'. add_all ops fbs sc = Some (Inr sc') \<and> length (m_processers sc') = length ps \<and>
      (\<forall>k < length ps. rep (newQueue (m_processers sc' ! k)) (xs k @ share (length ps) (sc_rr sc) k fbs) \<and>
         p_newfiberCount (m_processers sc' ! k) =
           p_newfiberCount (ps ! k) + of_nat (length (share (length ps) (sc_rr sc) k fbs)) \<and>
         p_state (m_processers sc' ! k) = Running \<and>
         runableQueue (m_processers sc' ! k) = runableQueue (ps ! k))"
proof (induction fbs arbitrary: sc ps xs)
  case Nil
  then show ?case by (simp add: share_def)
next
  case (Cons fb fbs)
  let ?n = "length ps" and ?i = "sc_rr sc"
  let ?i' = "(sc_rr sc + 1) mod length ps"
  note sh = share_Cons [OF Cons.prems(3), of _ fb fbs]
  have run: "\<not> isWaitting (ps ! k)" "\<not> isBlock (ps ! k)" "p_state (ps ! k) = Running" if "k < ?n" for k
    using Cons.prems(2) that by (auto simp: isWaitting_def isBlock_def)
  have pk: "pick None ps ?i = Inr (?i, ?i')"
  proof (rule pick_other_cases [OF Cons.prems(3)])
    fix k assume "k < ?n" "isWaitting (ps ! k)"
    with run show ?thesis by blast
  next
    fix m assume m: "pick_other ps ?i = Inr ((?i + m) mod ?n, (?i + m + 1) mod ?n)"
      "\<forall>d < m. isBlock (ps ! ((?i + d) mod ?n))"
    have "m = 0" using m(2) run(2) [of ?i] Cons.prems(3) by (cases m) auto
    with m Cons.prems(3) show ?thesis by (simp add: pick_def)
  next
    assume "\<forall>p \<in> set ps. \<not> isWaitting p \<and> isBlock p"
    then show ?thesis using run(2) [of ?i] Cons.prems(3) by auto
  qed
  have room: "length (xs ?i) < cap"
    using Cons.prems(3,4) sh [of ?i] by fastforce
  obtain q where q: "rep q (xs ?i @ [fb])" "addFiber ops fb (ps ! ?i) = Some (Inr (with_fiber q (ps ! ?i)))"
    using addFiber_with [OF fq _ room, of "ps ! ?i" fb] Cons.prems(3,4) run(3) [of ?i] by auto
  let ?ps = "ps[?i := with_fiber q (ps ! ?i)]"
  let ?sc = "sc\<lparr>m_processers := ?ps, sc_rr := ?i'\<rparr>"
  let ?xs = "\<lambda>k. if k = ?i then xs k @ [fb] else xs k"
  have one: "sched_addFiber ops None fb sc = Some (Inr ?sc)"
    using pk q(2) Cons.prems(1) by (simp add: sched_addFiber_def)
  have pre: "m_processers ?sc = ?ps" "\<forall>p \<in> set ?ps. p_state p = Running" "sc_rr ?sc < length ?ps"
  proof -
    have "0 < ?n" using Cons.prems(3) by linarith
    then show "sc_rr ?sc < length ?ps" by simp
    show "\<forall>p \<in> set ?ps. p_state p = Running"
      using Cons.prems(2,3) run(3) [of ?i] set_update_subset_insert [of ps ?i "with_fiber q (ps ! ?i)"]
      by auto
  qed simp
  have rep: "\<forall>k < length ?ps. rep (newQueue (?ps ! k)) (?xs k) \<and>
       length (?xs k) + length (share (length ?ps) (sc_rr ?sc) k fbs) \<le> cap"
    using Cons.prems(3,4) q(1) sh by (auto simp: nth_list_update)
  from Cons.IH [OF pre rep] obtain sc' where sc': "add_all ops fbs ?sc = Some (Inr sc')"
      "length (m_processers sc') = ?n"
    "\<And>k. k < ?n \<Longrightarrow> rep (newQueue (m_processers sc' ! k)) (?xs k @ share ?n ?i' k fbs) \<and>
         p_newfiberCount (m_processers sc' ! k) =
           p_newfiberCount (?ps ! k) + of_nat (length (share ?n ?i' k fbs)) \<and>
         p_state (m_processers sc' ! k) = Running \<and> runableQueue (m_processers sc' ! k) = runableQueue (?ps ! k)"
    by auto
  have fin: "rep (newQueue (m_processers sc' ! k)) (xs k @ share ?n ?i k (fb # fbs)) \<and>
         p_newfiberCount (m_processers sc' ! k) =
           p_newfiberCount (ps ! k) + of_nat (length (share ?n ?i k (fb # fbs))) \<and>
         p_state (m_processers sc' ! k) = Running \<and> runableQueue (m_processers sc' ! k) = runableQueue (ps ! k)"
    if "k < ?n" for k
  proof (cases "k = ?i")
    case True
    with sc'(3) [OF that] sh [of k] that show ?thesis by (simp add: algebra_simps)
  next
    case False
    with sc'(3) [OF that] sh [of k] that show ?thesis by simp
  qed
  from one sc'(1) have "add_all ops (fb # fbs) sc = Some (Inr sc')" by simp
  with sc'(2) fin show ?case by blast
qed

section \<open>Properties\<close>

lemma fresh_procs_room:
  assumes "lf_rep_of 129 q []"
  shows "procs_room (lf_rep_of 129) 128 (map (\<lambda>i. (Processer_ctor (of_nat i) q)\<lparr>p_state := Running\<rparr>) [0..<n]) (\<lambda>_. [])"
  using assms by (simp add: procs_room_def Processer_ctor_def)

text \<open>
  C20: a fiber goes to the processer it ran on if that one is running; otherwise to the first
  processer that waits; otherwise to the first one after the round-robin position that is
  not blocked, or, if all are blocked, to the one at the position. The position moves just
  behind the chosen processer in the last two cases, and stays otherwise.
\<close>

theorem scheduler_choice:
  assumes "i < length ps" and "\<And>k. own = Some k \<Longrightarrow> k < length ps"
  shows "\<exists>k i'. pick own ps i = Inr (k, i') \<and> k < length ps \<and> i' < length ps \<and>
    (if \<exists>j. own = Some j \<and> isRunning (ps ! j) then own = Some k \<and> i' = i
     else if \<exists>p \<in> set ps. isWaitting p
     then isWaitting (ps ! k) \<and> (\<forall>j < k. \<not> isWaitting (ps ! j)) \<and> i' = i
     else i' = (k + 1) mod length ps \<and>
       (if \<exists>p \<in> set ps. \<not> isBlock p
        then \<exists>m < length ps. k = (i + m) mod length ps \<and> \<not> isBlock (ps ! k) \<and>
               (\<forall>d < m. isBlock (ps ! ((i + d) mod length ps)))
        else k = i))"
proof (cases "\<exists>j. own = Some j \<and> isRunning (ps ! j)")
  case True
  with assms show ?thesis by (auto simp: pick_def)
next
  case False
  have o: "pick own ps i = pick_other ps i"
    using False assms(2) by (cases own) (auto simp: pick_def)
  have n: "0 < length ps" using assms(1) by linarith
  show ?thesis
  proof (rule pick_other_cases [OF assms(1)])
    fix k assume "pick_other ps i = Inr (k, i)" "k < length ps" "isWaitting (ps ! k)"
      "\<forall>j < k. \<not> isWaitting (ps ! j)"
    moreover from this have "\<exists>p \<in> set ps. isWaitting p" by auto
    ultimately show ?thesis unfolding if_not_P [OF False] using o assms(1)
      by - (rule exI [of _ k], rule exI [of _ i], simp)
  next
    fix m assume m: "\<forall>p \<in> set ps. \<not> isWaitting p" "m < length ps"
      "pick_other ps i = Inr ((i + m) mod length ps, (i + m + 1) mod length ps)"
      "\<not> isBlock (ps ! ((i + m) mod length ps))" "\<forall>d < m. isBlock (ps ! ((i + d) mod length ps))"
    then have "\<exists>p \<in> set ps. \<not> isBlock p" using n by (meson mod_less_divisor nth_mem)
    moreover have "\<not> (\<exists>p \<in> set ps. isWaitting p)" using m(1) by simp
    ultimately show ?thesis
      unfolding if_not_P [OF False] o m(3) using m(2,4,5) n
      by - (rule exI [of _ "(i + m) mod length ps"], rule exI [of _ "(i + m + 1) mod length ps"],
        auto simp: mod_Suc_eq)
  next
    assume "\<forall>p \<in> set ps. \<not> isWaitting p \<and> isBlock p" "pick_other ps i = Inr (i, (i + 1) mod length ps)"
    then show ?thesis
      unfolding if_not_P [OF False] o using assms(1) n
      by - (rule exI [of _ i], rule exI [of _ "(i + 1) mod length ps"], auto)
  qed
qed

lemma scheduler_choice_witness:
  "\<exists>k i'. pick None [(Processer_ctor 0 ())\<lparr>p_state := Block\<rparr>, (Processer_ctor 1 ())\<lparr>p_state := Running\<rparr>] 0 =
     Inr (k, i') \<and> k < 2 \<and> i' < 2"
  using scheduler_choice [of 0 "[(Processer_ctor 0 ())\<lparr>p_state := Block\<rparr>, (Processer_ctor 1 ())\<lparr>p_state := Running\<rparr>]" None]
  by (auto simp: numeral_2_eq_2)

text \<open>
  Fibers created while all processers run are dealt out evenly: processer \<open>k\<close> gets, in
  order and behind what it has, exactly the fibers at the positions \<open>j\<close> with
  \<open>(i + j) mod n = k\<close>, where \<open>i\<close> is the round-robin position, and its count of new fibers
  grows by their number.
\<close>

theorem round_robin_even:
  assumes "fiber_queue ops rep cap" and "\<forall>p \<in> set (m_processers sc). p_state p = Running"
    and "sc_rr sc < length (m_processers sc)"
    and "\<forall>k < length (m_processers sc). rep (newQueue (m_processers sc ! k)) (xs k) \<and>
       length (xs k) + length (share (length (m_processers sc)) (sc_rr sc) k fbs) \<le> cap"
  shows "\<exists>sc'. add_all ops fbs sc = Some (Inr sc') \<and>
      length (m_processers sc') = length (m_processers sc) \<and>
      (\<forall>k < length (m_processers sc).
         rep (newQueue (m_processers sc' ! k))
           (xs k @ share (length (m_processers sc)) (sc_rr sc) k fbs) \<and>
         p_newfiberCount (m_processers sc' ! k) = p_newfiberCount (m_processers sc ! k) +
           of_nat (length (share (length (m_processers sc)) (sc_rr sc) k fbs)))"
  using round_robin_all [OF assms(1) refl assms(2-4)] by blast

definition demo_sched :: "(nat lf_list, nat) scheduler" where
  "demo_sched = (Scheduler_ctor 2 ''s'' 8 0)\<lparr>m_processers :=
     map (\<lambda>i. (Processer_ctor (of_nat i) demo_queue)\<lparr>p_state := Running\<rparr>) [0..<2]\<rparr>"

lemma demo_sched_procs: "m_processers demo_sched = [(Processer_ctor 0 demo_queue)\<lparr>p_state := Running\<rparr>,
    (Processer_ctor 1 demo_queue)\<lparr>p_state := Running\<rparr>]" "sc_rr demo_sched = 0"
  by (simp_all add: demo_sched_def upt_rec Scheduler_ctor_def)

lemma share_length: "length (share n i k fbs) \<le> length fbs"
  by (simp add: share_def) (metis length_filter_le length_upt diff_zero)

lemma share_demo:
  "share 2 0 k [11, 12, 13] = (if k = 0 then [11, 13] else if k = 1 then [12] else [])"
  by (auto simp: share_def upt_rec)

lemma round_robin_even_witness:
  "\<exists>sc'. add_all lf_ops [11, 12, 13] demo_sched = Some (Inr sc') \<and>
     lf_rep_of 129 (newQueue (m_processers sc' ! 0)) [11, 13] \<and>
     lf_rep_of 129 (newQueue (m_processers sc' ! 1)) [12]"
proof -
  have k: "k = 0 \<or> k = Suc 0" if "k < Suc (Suc 0)" for k :: nat using that by auto
  have "\<exists>sc'. add_all lf_ops [11, 12, 13] demo_sched = Some (Inr sc') \<and>
      length (m_processers sc') = length (m_processers demo_sched) \<and>
      (\<forall>k < length (m_processers demo_sched).
         lf_rep_of 129 (newQueue (m_processers sc' ! k))
           ([] @ share (length (m_processers demo_sched)) (sc_rr demo_sched) k [11, 12, 13]) \<and>
         p_newfiberCount (m_processers sc' ! k) = p_newfiberCount (m_processers demo_sched ! k) +
           of_nat (length (share (length (m_processers demo_sched)) (sc_rr demo_sched) k [11, 12, 13])))"
    by (rule round_robin_even [OF lffq.fiber_queue_axioms])
      (auto simp: demo_sched_procs Processer_ctor_def demo_queue_rep dest!: k
        intro!: order_trans [OF share_length])
  then obtain sc' where sc': "add_all lf_ops [11, 12, 13] demo_sched = Some (Inr sc')"
    "\<And>k. k < 2 \<Longrightarrow> lf_rep_of 129 (newQueue (m_processers sc' ! k)) (share 2 0 k [11, 12, 13])"
    by (auto simp: demo_sched_procs numeral_2_eq_2 simp del: add_all.simps)
  with sc'(2) [of 0] sc'(2) [of 1] show ?thesis by (auto simp: share_demo)
qed

text \<open>
  \<open>createFiber\<close> on processers that are not shutting down and have room gives the new
  fiber the next id, puts it at the end of the queue of exactly one processer, leaves the
  others untouched, and counts it.
\<close>

theorem createFiber_places_once:
  assumes "fiber_queue ops rep cap" and "procs_room rep cap (m_processers sc) xs"
    and "sc_rr sc < length (m_processers sc)"
  shows "\<exists>k q sc'. k < length (m_processers sc) \<and>
    createFiber ops cb fb (h, tls, sc) = Some (Inr (h(fb := fst (Fiber_ctor cb (16 * 1024) tls)),
      snd (Fiber_ctor cb (16 * 1024) tls), sc')) \<and>
    m_fiberNumber sc' = m_fiberNumber sc + 1 \<and> rep q (xs k @ [fb]) \<and>
    m_processers sc' = (m_processers sc)[k := with_fiber q (m_processers sc ! k)]"
proof -
  let ?sc = "sc\<lparr>m_fiberNumber := m_fiberNumber sc + 1\<rparr>"
  obtain k i where p: "pick None (m_processers ?sc) (sc_rr ?sc) = Inr (k, i)" "k < length (m_processers ?sc)"
    using pick_None_bound [OF assms(3)] by auto
  have room: "procs_room rep cap (m_processers ?sc) xs" using assms(2) by simp
  obtain q where "rep q (xs k @ [fb])" "sched_addFiber ops None fb ?sc =
     Some (Inr (?sc\<lparr>m_processers := (m_processers ?sc)[k := with_fiber q (m_processers ?sc ! k)], sc_rr := i\<rparr>))"
    using sched_addFiber_at [OF assms(1) room p] by blast
  moreover have "f_proc (fst (Fiber_ctor cb 16384 tls)) = None" by (simp add: Fiber_ctor_def)
  ultimately show ?thesis
    using p(2) by - (rule exI [of _ k], rule exI [of _ q], auto simp: createFiber_def split_beta)
qed

lemma createFiber_places_once_witness:
  "\<exists>h tls sc'. createFiber lf_ops 3 40 (demo_heap, \<lparr>s_fiber_id = 0, s_fiber_count = 0\<rparr>, demo_sched) =
     Some (Inr (h, tls, sc')) \<and> m_fiberNumber sc' = 1"
proof -
  have "procs_room (lf_rep_of 129) 128 (m_processers demo_sched) (\<lambda>_. [])"
    using fresh_procs_room [OF demo_queue_rep, of 2] by (simp add: demo_sched_def)
  from createFiber_places_once [OF lffq.fiber_queue_axioms this, of 3 40 demo_heap "\<lparr>s_fiber_id = 0, s_fiber_count = 0\<rparr>"]
  show ?thesis by (auto simp: demo_sched_procs) (simp add: demo_sched_def Scheduler_ctor_def)
qed

text \<open>
  Without processers, that is before \<open>start\<close> or when the number of threads is reported
  as 0, creating a fiber reads \<open>m_processers\<close> out of range.
\<close>

theorem createFiber_without_processers:
  "m_processers sc = [] \<Longrightarrow> createFiber ops cb fb (h, tls, sc) = Some (Inl OutOfBounds)"
  by (simp add: createFiber_def split_beta Fiber_ctor_def sched_addFiber_def pick_def pick_other_def)

lemma createFiber_without_processers_witness:
  "createFiber lf_ops 3 40 (demo_heap, \<lparr>s_fiber_id = 0, s_fiber_count = 0\<rparr>, Scheduler_ctor 2 ''s'' 8 0) =
     Some (Inl OutOfBounds)"
  by (rule createFiber_without_processers) (simp add: Scheduler_ctor_def)

lemma join_log_all: "join_log i (replicate n True) = map JoinProc [i..<i + n]"
  by (induction n arbitrary: i) (simp_all add: upt_rec)

lemma split_two:
  assumes "x \<in> set xs" and "y \<in> set ys"
  shows "\<exists>as bs cs. xs @ ys = as @ x # bs @ y # cs"
  using split_list [OF assms(1)] split_list [OF assms(2)] by (metis append.assoc append_Cons)

lemma dtor_log:
  assumes "sc_state sc \<noteq> Done" and "m_procThreads sc = replicate (length (m_processers sc)) True"
    and "sc_poller sc = Some pl" and "pipe_bytes pl < cap" and "sc_pollerThread sc" and "sc_log sc = []"
  shows "\<exists>l sc'. Scheduler_dtor cap sc = Inr sc' \<and> sc_state sc' = Done \<and> m_processers sc' = [] \<and>
    sc_log sc' = concat (map (\<lambda>i. [SetStop i, NotifyProc i]) [0..<length (m_processers sc)]) @
      map JoinProc [0..<length (m_processers sc)] @ l @ [NotifyPoller, JoinPoller] @
      map DeleteProc [0..<length (m_processers sc)] @ [DeletePoller]"
  using assms
  by (simp add: Scheduler_dtor_def sched_stop_def Let_def notify_def join_log_all stopping_def)

text \<open>
  Destroying a started scheduler joins everything before it frees it: each processer is
  told to stop, its thread is joined, and only then it is deleted; the poller is woken, its
  thread joined, and then deleted, last of all.
\<close>

theorem shutdown_joins_before_delete:
  assumes "sc_state sc \<noteq> Done" and "m_procThreads sc = replicate (length (m_processers sc)) True"
    and "sc_poller sc = Some pl" and "pipe_bytes pl < cap" and "sc_pollerThread sc" and "sc_log sc = []"
  shows "\<exists>sc'. Scheduler_dtor cap sc = Inr sc' \<and> sc_state sc' = Done \<and>
    (\<forall>k < length (m_processers sc).
       (\<exists>as bs cs. sc_log sc' = as @ SetStop k # bs @ JoinProc k # cs) \<and>
       (\<exists>as bs cs. sc_log sc' = as @ JoinProc k # bs @ DeleteProc k # cs)) \<and>
    (\<exists>as bs. sc_log sc' = as @ NotifyPoller # JoinPoller # bs @ [DeletePoller])"
proof -
  let ?n = "length (m_processers sc)"
  let ?A = "concat (map (\<lambda>i. [SetStop i, NotifyProc i]) [0..<?n])"
  obtain l sc' where sc': "Scheduler_dtor cap sc = Inr sc'" "sc_state sc' = Done"
    and log: "sc_log sc' = ?A @ map JoinProc [0..<?n] @ l @ [NotifyPoller, JoinPoller] @
      map DeleteProc [0..<?n] @ [DeletePoller]"
    using dtor_log [OF assms] by blast
  have "\<exists>as bs cs. sc_log sc' = as @ SetStop k # bs @ JoinProc k # cs" if "k < ?n" for k
    unfolding log by (rule split_two) (use that in auto)
  moreover have "\<exists>as bs cs. sc_log sc' = as @ JoinProc k # bs @ DeleteProc k # cs" if "k < ?n" for k
    using split_two [of "JoinProc k" "?A @ map JoinProc [0..<?n]" "DeleteProc k"
        "l @ [NotifyPoller, JoinPoller] @ map DeleteProc [0..<?n] @ [DeletePoller]"] that
    by (auto simp: log)
  moreover have "\<exists>as bs. sc_log sc' = as @ NotifyPoller # JoinPoller # bs @ [DeletePoller]"
    unfolding log
    by (rule exI [of _ "?A @ map JoinProc [0..<?n] @ l"], rule exI [of _ "map DeleteProc [0..<?n]"]) simp
  ultimately show ?thesis using sc' by blast
qed

lemma shutdown_joins_before_delete_witness:
  "\<exists>sc sc'. sched_start demo_queue (Inr demo_poller) (Scheduler_ctor 2 ''s'' 8 0 :: (nat lf_list, nat) scheduler) = Inr sc \<and>
     Scheduler_dtor 65536 sc = Inr sc' \<and> sc_state sc' = Done"
proof -
  obtain sc where sc: "sched_start demo_queue (Inr demo_poller)
      (Scheduler_ctor 2 ''s'' 8 0 :: (nat lf_list, nat) scheduler) = Inr sc"
    and f: "sc_state sc \<noteq> Done" "m_procThreads sc = replicate (length (m_processers sc)) True"
    "sc_poller sc = Some demo_poller" "sc_pollerThread sc" "sc_log sc = []"
    by (simp add: sched_start_def Scheduler_ctor_def Let_def)
  have "\<exists>sc'. Scheduler_dtor 65536 sc = Inr sc' \<and> sc_state sc' = Done \<and>
    (\<forall>k < length (m_processers sc).
       (\<exists>as bs cs. sc_log sc' = as @ SetStop k # bs @ JoinProc k # cs) \<and>
       (\<exists>as bs cs. sc_log sc' = as @ JoinProc k # bs @ DeleteProc k # cs)) \<and>
    (\<exists>as bs. sc_log sc' = as @ NotifyPoller # JoinPoller # bs @ [DeletePoller])"
    by (rule shutdown_joins_before_delete [OF f(1-3) _ f(4,5)]) simp
  with sc show ?thesis by blast
qed

text \<open>
  Destroying a scheduler that was never started uses \<open>m_poller\<close>, which nothing has
  initialised.
\<close>

theorem dtor_without_start:
  "Scheduler_dtor cap (Scheduler_ctor threads name hw rr) = Inl NullDeref"
  by (simp add: Scheduler_dtor_def Scheduler_ctor_def sched_stop_def)

end
