(* ===== verification/FdManager.thy ===== *)
theory FdManager
  imports Prelude
begin

text \<open>
  \<open>src/fiber/fdcontext.h\<close>, \<open>src/fiber/fdcontext.cc\<close> and the part of \<open>fcntl\<close> in
  \<open>src/fiber/hook.cc\<close> that they call back into: the table of descriptor contexts. Contexts are
  shared pointers, so they live in \<open>ctx_heap\<close> and the table holds addresses. The kernel is a
  parameter: \<open>is_sock\<close> says whether \<open>fstat\<close> succeeds and finds a socket, \<open>kflags\<close> holds the
  status flags of each descriptor. The read-write lock is modelled for the calling thread: a
  second lock attempt of the writer is answered with \<open>EDEADLK\<close>, which \<open>RWMutex\<close> only logs,
  and the unlock that follows releases the lock of the outer scope.
  \<open>get\<close>, the constructor, \<open>init\<close> and \<open>fcntl\<close> call each other; the depth of that recursion
  is the fuel, and running out of it is \<open>None\<close>.
\<close>

unbundle bit_operations_syntax

definition O_NONBLOCK :: u32 where "O_NONBLOCK = 2048"

section \<open>Data\<close>

record fdctx =
  m_isSocket :: bool
  m_sysNonblock :: bool
  m_userNonblock :: bool
  m_isClosed :: bool
  fx_fd :: int
  m_recvTimeout :: u64
  m_sendTimeout :: u64

record fdm =
  ctx_heap :: "fdctx list"
  m_datas :: "nat option list"
  kflags :: "int \<Rightarrow> u32"
  rw_writer :: bool
  rw_deadlk :: nat
  rw_bad_unlock :: nat

definition FdManager_ctor :: "(int \<Rightarrow> u32) \<Rightarrow> fdm" where
  "FdManager_ctor fl = \<lparr>ctx_heap = [], m_datas = replicate 128 None, kflags = fl,
     rw_writer = False, rw_deadlk = 0, rw_bad_unlock = 0\<rparr>"

datatype timeout_kind = SO_RCVTIMEO | SO_SNDTIMEO

definition setTimeout :: "timeout_kind \<Rightarrow> u64 \<Rightarrow> fdctx \<Rightarrow> fdctx" where
  "setTimeout ty v c = (if ty = SO_RCVTIMEO then c\<lparr>m_recvTimeout := v\<rparr> else c\<lparr>m_sendTimeout := v\<rparr>)"

definition getTimeout :: "timeout_kind \<Rightarrow> fdctx \<Rightarrow> u64" where
  "getTimeout ty c = (if ty = SO_RCVTIMEO then m_recvTimeout c else m_sendTimeout c)"

definition ctx_at :: "nat \<Rightarrow> fdm \<Rightarrow> fdctx" where "ctx_at p m = ctx_heap m ! p"

definition set_ctx :: "nat \<Rightarrow> fdctx \<Rightarrow> fdm \<Rightarrow> fdm" where
  "set_ctx p c m = m\<lparr>ctx_heap := (ctx_heap m)[p := c]\<rparr>"

section \<open>The lock of the manager\<close>

text \<open>A read or write lock attempt and the unlock of its scope.\<close>

definition rd_lock :: "fdm \<Rightarrow> fdm" where
  "rd_lock m = (if rw_writer m then m\<lparr>rw_deadlk := Suc (rw_deadlk m)\<rparr> else m)"

definition rd_unlock :: "bool \<Rightarrow> fdm \<Rightarrow> fdm" where
  "rd_unlock locked m =
     (if locked then m
      else if rw_writer m then m\<lparr>rw_writer := False\<rparr>
      else m\<lparr>rw_bad_unlock := Suc (rw_bad_unlock m)\<rparr>)"

definition wr_lock :: "fdm \<Rightarrow> fdm" where
  "wr_lock m = (if rw_writer m then m\<lparr>rw_deadlk := Suc (rw_deadlk m)\<rparr> else m\<lparr>rw_writer := True\<rparr>)"

definition wr_unlock :: "fdm \<Rightarrow> fdm" where
  "wr_unlock m =
     (if rw_writer m then m\<lparr>rw_writer := False\<rparr>
      else m\<lparr>rw_bad_unlock := Suc (rw_bad_unlock m)\<rparr>)"

section \<open>Operations\<close>

text \<open>
  The branches \<open>F_GETFL\<close> and \<open>F_SETFL\<close> of the hooked \<open>fcntl\<close>, given the context that
  \<open>FdManager::get\<close> found.
\<close>

definition managed :: "nat option \<Rightarrow> fdm \<Rightarrow> bool" where
  "managed r m = (case r of None \<Rightarrow> False
     | Some p \<Rightarrow> \<not> m_isClosed (ctx_at p m) \<and> m_isSocket (ctx_at p m))"

definition fcntl_getfl :: "int \<Rightarrow> nat option \<Rightarrow> u32 \<Rightarrow> fdm \<Rightarrow> u32" where
  "fcntl_getfl fd r arg m =
     (if \<not> managed r m then arg
      else if m_userNonblock (ctx_at (the r) m) then arg OR O_NONBLOCK
      else arg AND NOT O_NONBLOCK)"

definition fcntl_setfl :: "int \<Rightarrow> nat option \<Rightarrow> u32 \<Rightarrow> fdm \<Rightarrow> fdm" where
  "fcntl_setfl fd r arg m =
     (if \<not> managed r m then m\<lparr>kflags := (kflags m)(fd := arg)\<rparr>
      else (let p = the r;
                m1 = set_ctx p ((ctx_at p m)\<lparr>m_userNonblock := (arg AND O_NONBLOCK \<noteq> 0)\<rparr>) m;
                arg' = (if m_sysNonblock (ctx_at p m1) then arg OR O_NONBLOCK
                        else arg AND NOT O_NONBLOCK)
            in m1\<lparr>kflags := (kflags m1)(fd := arg')\<rparr>))"

text \<open>
  \<open>FdCtx::init\<close>: whether the descriptor is a socket, which is then made non-blocking through
  the hooked \<open>fcntl\<close>; \<open>get\<close> is the look-up that \<open>fcntl\<close> makes.
\<close>

definition FdCtx_init ::
  "(fdm \<Rightarrow> (fdm \<times> nat option) run) \<Rightarrow> (int \<Rightarrow> bool) \<Rightarrow> int \<Rightarrow> fdm \<Rightarrow> (fdm \<times> bool) run" where
  "FdCtx_init get is_sock fd m =
     (if is_sock fd
      then bindO (get m) (\<lambda>(m1, r).
        let flags = fcntl_getfl fd r (kflags m fd) m1
        in if flags AND O_NONBLOCK = 0
           then bindO (get m1) (\<lambda>(m2, r').
                  Some (Inr (fcntl_setfl fd r' (flags OR O_NONBLOCK) m2, True)))
           else Some (Inr (m1, True)))
      else Some (Inr (m, False)))"

definition FdCtx_ctor :: "int \<Rightarrow> bool \<Rightarrow> fdctx" where
  "FdCtx_ctor fd sock =
     \<lparr>m_isSocket = sock, m_sysNonblock = sock, m_userNonblock = False, m_isClosed = False,
      fx_fd = fd, m_recvTimeout = - 1, m_sendTimeout = - 1\<rparr>"

text \<open>\<open>m_datas.resize(fd * 1.5)\<close>, where it is needed, and the assignment of the new pointer.\<close>

definition grow_datas :: "int \<Rightarrow> nat option list \<Rightarrow> nat option list" where
  "grow_datas fd ds =
     (if int (length ds) \<le> fd
      then take (nat (fd * 3 div 2)) ds @ replicate (nat (fd * 3 div 2) - length ds) None
      else ds)"

definition fdm_insert :: "int \<Rightarrow> fdctx \<Rightarrow> fdm \<Rightarrow> (fdm \<times> nat option) result" where
  "fdm_insert fd ctx m =
     (let p = length (ctx_heap m);
          ds = grow_datas fd (m_datas m);
          m1 = m\<lparr>ctx_heap := ctx_heap m @ [ctx], m_datas := ds\<rparr>
      in bindR (at ds fd) (\<lambda>_. Inr (wr_unlock (m1\<lparr>m_datas := ds[nat fd := Some p]\<rparr>), Some p)))"

fun fdm_get :: "nat \<Rightarrow> (int \<Rightarrow> bool) \<Rightarrow> int \<Rightarrow> bool \<Rightarrow> fdm \<Rightarrow> (fdm \<times> nat option) run" where
  "fdm_get 0 is_sock fd auto_create m = None"
| "fdm_get (Suc fuel) is_sock fd auto_create m =
     (if fd < 0 then Some (Inr (m, None))
      else (let ds = m_datas m;
                m1 = rd_unlock (\<not> rw_writer m) (rd_lock m)
            in if int (length ds) \<le> fd \<and> auto_create then Some (Inr (m1, None))
               else if fd < int (length ds) \<and> (ds ! nat fd \<noteq> None \<or> \<not> auto_create)
               then Some (Inr (m1, ds ! nat fd))
               else bindO (FdCtx_init (\<lambda>m. fdm_get fuel is_sock fd False m) is_sock fd (wr_lock m1))
                      (\<lambda>(m2, sock). Some (fdm_insert fd (FdCtx_ctor fd sock) m2))))"

definition fdm_del :: "int \<Rightarrow> fdm \<Rightarrow> fdm result" where
  "fdm_del fd m =
     (let m1 = wr_lock m
      in if int (length (m_datas m1)) \<le> fd then Inr (wr_unlock m1)
         else bindR (at (m_datas m1) fd) (\<lambda>_.
              Inr (wr_unlock (m1\<lparr>m_datas := (m_datas m1)[nat fd := None]\<rparr>))))"

section \<open>Look-ups that create nothing\<close>

lemma fdm_get_negative: "fd < 0 \<Longrightarrow> fdm_get (Suc n) is_sock fd auto_create m = Some (Inr (m, None))"
  by simp

lemma fdm_get_found:
  assumes "\<not> rw_writer m" and "0 \<le> fd" and "fd < int (length (m_datas m))"
    and "m_datas m ! nat fd \<noteq> None \<or> \<not> auto_create"
  shows "fdm_get (Suc n) is_sock fd auto_create m = Some (Inr (m, m_datas m ! nat fd))"
  using assms by (simp add: Let_def rd_lock_def rd_unlock_def)

lemma fdm_get_beyond_auto:
  assumes "\<not> rw_writer m" and "int (length (m_datas m)) \<le> fd"
  shows "fdm_get (Suc n) is_sock fd True m = Some (Inr (m, None))"
  using assms by (simp add: Let_def rd_lock_def rd_unlock_def)

lemma datas_locks [simp]:
  "m_datas (rd_lock m) = m_datas m" "m_datas (rd_unlock b m) = m_datas m"
  "m_datas (wr_lock m) = m_datas m" "m_datas (wr_unlock m) = m_datas m"
  "ctx_heap (rd_lock m) = ctx_heap m" "ctx_heap (rd_unlock b m) = ctx_heap m"
  "ctx_heap (wr_lock m) = ctx_heap m" "ctx_heap (wr_unlock m) = ctx_heap m"
  "kflags (rd_lock m) = kflags m" "kflags (rd_unlock b m) = kflags m"
  "kflags (wr_lock m) = kflags m" "kflags (wr_unlock m) = kflags m"
  by (simp_all add: rd_lock_def rd_unlock_def wr_lock_def wr_unlock_def)

text \<open>A socket beyond the table, looked up without creation, is created again and again.\<close>

lemma fdm_get_beyond_socket:
  "is_sock fd \<Longrightarrow> 0 \<le> fd \<Longrightarrow> int (length (m_datas m)) \<le> fd \<Longrightarrow> fdm_get n is_sock fd False m = None"
proof (induction n arbitrary: m)
  case (Suc n)
  have "fdm_get n is_sock fd False (wr_lock (rd_unlock (\<not> rw_writer m) (rd_lock m))) = None"
    by (rule Suc.IH) (use Suc.prems in simp_all)
  then show ?case using Suc.prems by (simp add: Let_def FdCtx_init_def)
qed simp

section \<open>The table\<close>

definition fdm_ok :: "fdm \<Rightarrow> bool" where
  "fdm_ok m \<longleftrightarrow> 128 \<le> length (m_datas m) \<and>
     (\<forall>i p. i < length (m_datas m) \<longrightarrow> m_datas m ! i = Some p \<longrightarrow>
        p < length (ctx_heap m) \<and> fx_fd (ctx_heap m ! p) = int i \<and>
        m_sysNonblock (ctx_heap m ! p) = m_isSocket (ctx_heap m ! p) \<and> \<not> m_isClosed (ctx_heap m ! p))"

lemma fdm_ok_cong:
  "m_datas m' = m_datas m \<Longrightarrow> ctx_heap m' = ctx_heap m \<Longrightarrow> fdm_ok m' = fdm_ok m"
  by (simp add: fdm_ok_def)

lemma fdm_ok_update:
  assumes "fdm_ok m" and "p < length (ctx_heap m)"
    and "fx_fd c = fx_fd (ctx_heap m ! p)" and "m_sysNonblock c = m_isSocket c" and "\<not> m_isClosed c"
  shows "fdm_ok (set_ctx p c m)"
  using assms by (auto simp: fdm_ok_def set_ctx_def nth_list_update)

definition ptr_ok :: "nat option \<Rightarrow> fdm \<Rightarrow> bool" where
  "ptr_ok r m \<longleftrightarrow> (case r of None \<Rightarrow> True
     | Some p \<Rightarrow> p < length (ctx_heap m) \<and> m_sysNonblock (ctx_heap m ! p) = m_isSocket (ctx_heap m ! p))"

lemma fdm_ok_setfl:
  assumes "fdm_ok m" and "ptr_ok r m"
  shows "fdm_ok (fcntl_setfl fd r arg m)"
proof (cases "managed r m")
  case False
  then show ?thesis using assms(1) by (simp add: fcntl_setfl_def fdm_ok_def)
next
  case True
  then obtain p where r: "r = Some p" and c: "\<not> m_isClosed (ctx_heap m ! p)"
    by (auto simp: managed_def ctx_at_def split: option.splits)
  have "fdm_ok (set_ctx p ((ctx_at p m)\<lparr>m_userNonblock := (arg AND O_NONBLOCK \<noteq> 0)\<rparr>) m)"
    using assms c by (intro fdm_ok_update) (simp_all add: r ptr_ok_def ctx_at_def)
  then show ?thesis
    using True by (simp add: fcntl_setfl_def r Let_def fdm_ok_def set_ctx_def)
qed

lemma length_grow: "0 \<le> fd \<Longrightarrow> length ds \<le> length (grow_datas fd ds)"
proof -
  assume "0 \<le> fd"
  then have "int (length ds) \<le> fd \<Longrightarrow> length ds \<le> nat (fd * 3 div 2)" by linarith
  then show ?thesis by (simp add: grow_datas_def)
qed

lemma nth_grow:
  assumes "0 \<le> fd" and "i < length (grow_datas fd ds)"
  shows "grow_datas fd ds ! i = (if i < length ds then ds ! i else None)"
proof (cases "int (length ds) \<le> fd")
  case True
  then have "length ds \<le> nat (fd * 3 div 2)" by linarith
  with True assms(2) show ?thesis by (auto simp: grow_datas_def nth_append)
next
  case False
  with assms(2) show ?thesis by (simp add: grow_datas_def)
qed

lemma fdm_insert_ok:
  assumes ok: "fdm_ok m" and fd: "0 \<le> fd" and ins: "fdm_insert fd (FdCtx_ctor fd sock) m = Inr (m', r)"
  shows "fdm_ok m' \<and> ptr_ok r m'"
proof -
  let ?ds = "grow_datas fd (m_datas m)"
  have lt: "fd < int (length ?ds)" using ins by (auto simp: fdm_insert_def Let_def bindR_eq_Inr at_Inr_iff)
  then have len: "nat fd < length ?ds" using fd by linarith
  have m': "m_datas m' = ?ds[nat fd := Some (length (ctx_heap m))]"
    "ctx_heap m' = ctx_heap m @ [FdCtx_ctor fd sock]" "r = Some (length (ctx_heap m))"
    using ins fd lt by (auto simp: fdm_insert_def Let_def)
  have "p < length (ctx_heap m') \<and> fx_fd (ctx_heap m' ! p) = int i \<and>
        m_sysNonblock (ctx_heap m' ! p) = m_isSocket (ctx_heap m' ! p) \<and> \<not> m_isClosed (ctx_heap m' ! p)"
    if i: "i < length (m_datas m')" "m_datas m' ! i = Some p" for i p
  proof (cases "i = nat fd")
    case True
    with i len fd show ?thesis by (auto simp: m' FdCtx_ctor_def)
  next
    case False
    with i fd have "i < length (m_datas m)" "m_datas m ! i = Some p"
      using nth_grow [OF fd, of i "m_datas m"] by (auto simp: m' split: if_splits)
    with ok show ?thesis by (auto simp: fdm_ok_def m' nth_append)
  qed
  moreover have "128 \<le> length (m_datas m')"
    using ok length_grow [OF fd, of "m_datas m"] by (simp add: m' fdm_ok_def)
  ultimately show ?thesis by (auto simp: fdm_ok_def ptr_ok_def m' FdCtx_ctor_def)
qed

lemma fdm_get_ok:
  "fdm_ok m \<Longrightarrow> fdm_get n is_sock fd auto_create m = Some (Inr (m', r)) \<Longrightarrow> fdm_ok m' \<and> ptr_ok r m'"
proof (induction n arbitrary: m auto_create m' r)
  case (Suc n)
  let ?m1 = "rd_unlock (\<not> rw_writer m) (rd_lock m)"
  have ok1: "fdm_ok ?m1" "fdm_ok (wr_lock ?m1)" using Suc.prems(1) by (simp_all add: fdm_ok_def)
  show ?case
  proof (cases "fd < 0")
    case True
    with Suc.prems show ?thesis by (simp add: ptr_ok_def)
  next
    case fd: False
    consider "r = None" "m' = ?m1"
      | "fd < int (length (m_datas m))" "r = m_datas m ! nat fd" "m' = ?m1"
      | m2 sock where "FdCtx_init (\<lambda>m. fdm_get n is_sock fd False m) is_sock fd (wr_lock ?m1) =
          Some (Inr (m2, sock))" "fdm_insert fd (FdCtx_ctor fd sock) m2 = Inr (m', r)"
      using Suc.prems(2) fd by (auto simp: Let_def bindO_eq_Some split: if_splits)
    then show ?thesis
    proof cases
      case 1
      with ok1 show ?thesis by (simp add: ptr_ok_def)
    next
      case 2
      then have "nat fd < length (m_datas m)" using fd by linarith
      with 2 ok1 Suc.prems(1) show ?thesis
        by (auto simp: ptr_ok_def fdm_ok_def split: option.splits)
    next
      case 3
      have "fdm_ok m2"
        using 3(1) ok1(2)
        by (auto simp: FdCtx_init_def Let_def bindO_eq_Some dest!: Suc.IH [rotated] intro!: fdm_ok_setfl
            split: if_splits)
      from fdm_insert_ok [OF this _ 3(2)] fd show ?thesis by simp
    qed
  qed
qed simp

section \<open>Runs\<close>

datatype fdm_op = Get int bool | Del int | SetFl int u32

text \<open>\<open>SetFl\<close> is the whole hooked \<open>fcntl (fd, F_SETFL, arg)\<close>.\<close>

definition fdm_do :: "nat \<Rightarrow> (int \<Rightarrow> bool) \<Rightarrow> fdm_op \<Rightarrow> fdm \<Rightarrow> fdm run" where
  "fdm_do n is_sock op m = (case op of
     Get fd auto_create \<Rightarrow> bindO (fdm_get n is_sock fd auto_create m) (\<lambda>(m', r). Some (Inr m'))
   | Del fd \<Rightarrow> Some (fdm_del fd m)
   | SetFl fd arg \<Rightarrow>
       bindO (fdm_get n is_sock fd False m) (\<lambda>(m', r). Some (Inr (fcntl_setfl fd r arg m'))))"

fun fdm_run :: "nat \<Rightarrow> (int \<Rightarrow> bool) \<Rightarrow> fdm_op list \<Rightarrow> fdm \<Rightarrow> fdm run" where
  "fdm_run n is_sock [] m = Some (Inr m)"
| "fdm_run n is_sock (op # ops) m = bindO (fdm_do n is_sock op m) (\<lambda>m'. fdm_run n is_sock ops m')"

lemma fdm_ok_ctor: "fdm_ok (FdManager_ctor fl)"
  by (simp add: fdm_ok_def FdManager_ctor_def)

lemma fdm_ok_del: "fdm_ok m \<Longrightarrow> fdm_del fd m = Inr m' \<Longrightarrow> fdm_ok m'"
  by (auto simp: fdm_del_def Let_def bindR_eq_Inr at_Inr_iff fdm_ok_def nth_list_update split: if_splits)

lemma fdm_run_ok: "fdm_ok m \<Longrightarrow> fdm_run n is_sock ops m = Some (Inr m') \<Longrightarrow> fdm_ok m'"
proof (induction ops arbitrary: m)
  case (Cons op ops)
  then obtain m1 where m1: "fdm_do n is_sock op m = Some (Inr m1)" "fdm_run n is_sock ops m1 = Some (Inr m')"
    by (auto simp: bindO_eq_Some)
  have "fdm_ok m1"
    using m1(1) Cons.prems(1)
    by (cases op) (auto simp: fdm_do_def bindO_eq_Some dest: fdm_get_ok fdm_ok_del intro: fdm_ok_setfl)
  from Cons.IH [OF this m1(2)] show ?case .
qed simp

section \<open>Properties\<close>

lemma nonblock_exp: "O_NONBLOCK = 2 ^ 11"
  by (simp add: O_NONBLOCK_def)

lemma bit_nonblock: "bit O_NONBLOCK n \<longleftrightarrow> n = 11"
  unfolding nonblock_exp bit_exp_iff by (auto simp: possible_bit_def)

lemma has_nonblock: "a AND O_NONBLOCK = 0 \<longleftrightarrow> \<not> bit a 11"
  unfolding nonblock_exp by (rule and_exp_eq_0_iff_not_bit)

lemma nonblock_nonzero [simp]: "O_NONBLOCK \<noteq> 0"
  by (simp add: O_NONBLOCK_def)

lemma nonblock_simps:
  "a AND O_NONBLOCK = 0 \<Longrightarrow> a AND NOT O_NONBLOCK = a"
  "a AND O_NONBLOCK \<noteq> 0 \<Longrightarrow> a OR O_NONBLOCK = a"
  "(a OR O_NONBLOCK) AND O_NONBLOCK \<noteq> 0"
  "(a AND NOT O_NONBLOCK) AND O_NONBLOCK = 0"
  "(a OR O_NONBLOCK) AND NOT O_NONBLOCK = a AND NOT O_NONBLOCK"
  by (auto simp: has_nonblock bit_simps bit_nonblock intro!: bit_word_eqI)


lemma get_new_socket:
  assumes "\<not> rw_writer m" and "0 \<le> fd" and "fd < int (length (m_datas m))"
    and "m_datas m ! nat fd = None" and "is_sock fd"
  shows "\<exists>m'. fdm_get (Suc (Suc n)) is_sock fd True m = Some (Inr (m', Some (length (ctx_heap m)))) \<and>
    ctx_heap m' = ctx_heap m @ [FdCtx_ctor fd True] \<and>
    m_datas m' = (m_datas m)[nat fd := Some (length (ctx_heap m))] \<and>
    kflags m' = (kflags m)(fd := kflags m fd OR O_NONBLOCK) \<and>
    \<not> rw_writer m' \<and> rw_deadlk m' = Suc (rw_deadlk m) \<and> rw_bad_unlock m' = Suc (rw_bad_unlock m)"
proof -
  let ?m3 = "wr_lock m" and ?m4 = "m\<lparr>rw_deadlk := Suc (rw_deadlk m)\<rparr>"
  have g1: "fdm_get (Suc n) is_sock fd False ?m3 = Some (Inr (?m4, None))"
    using assms(1-4) by (simp add: Let_def rd_lock_def rd_unlock_def wr_lock_def)
  have g2: "fdm_get (Suc n) is_sock fd False ?m4 = Some (Inr (?m4, None))"
    using assms(1-4) fdm_get_found [of ?m4 fd False n is_sock] by simp
  have unm: "fcntl_getfl fd None a m' = a" "fcntl_setfl fd None a m' = m'\<lparr>kflags := (kflags m')(fd := a)\<rparr>"
    for a m' by (simp_all add: fcntl_getfl_def fcntl_setfl_def managed_def)
  let ?m6 = "?m4\<lparr>kflags := (kflags m)(fd := kflags m fd OR O_NONBLOCK)\<rparr>"
  have eq: "(kflags m)(fd := kflags m fd OR O_NONBLOCK) = kflags m" if "kflags m fd AND O_NONBLOCK \<noteq> 0"
    using nonblock_simps(2) [OF that] by (simp add: fun_eq_iff)
  have init: "FdCtx_init (\<lambda>m. fdm_get (Suc n) is_sock fd False m) is_sock fd ?m3 = Some (Inr (?m6, True))"
    using assms(5) g1 g2 eq
    by (simp add: FdCtx_init_def Let_def unm del: fdm_get.simps)
  have ins: "fdm_insert fd (FdCtx_ctor fd True) ?m6 = Inr (wr_unlock (?m6\<lparr>ctx_heap := ctx_heap m @ [FdCtx_ctor fd True],
      m_datas := (m_datas m)[nat fd := Some (length (ctx_heap m))]\<rparr>), Some (length (ctx_heap m)))"
    using assms(2,3) by (simp add: fdm_insert_def grow_datas_def Let_def)
  have "rd_unlock (\<not> rw_writer m) (rd_lock m) = m"
    using assms(1) by (simp add: rd_lock_def rd_unlock_def)
  then have "fdm_get (Suc (Suc n)) is_sock fd True m = Some (Inr (wr_unlock (?m6\<lparr>ctx_heap := ctx_heap m @ [FdCtx_ctor fd True],
      m_datas := (m_datas m)[nat fd := Some (length (ctx_heap m))]\<rparr>), Some (length (ctx_heap m))))"
    using assms(2-4) init ins by (subst fdm_get.simps(2)) (simp add: Let_def del: fdm_get.simps)
  then show ?thesis using assms(1) by (auto simp: wr_unlock_def)
qed


text \<open>
  A descriptor of a socket whose table entry is empty gets, on \<open>get (fd, true)\<close>, a new
  context that is marked a non-blocking socket, and the kernel's flags of the descriptor get
  \<open>O_NONBLOCK\<close>. On the way the manager, which holds its write lock, looks the descriptor up
  again: that attempt to lock fails with \<open>EDEADLK\<close>, its unlock releases the write lock while
  the table is still to be changed, and the final unlock finds nothing locked.
\<close>

theorem get_creates_socket_context:
  assumes "\<not> rw_writer m" and "0 \<le> fd" and "fd < int (length (m_datas m))"
    and "m_datas m ! nat fd = None" and "is_sock fd"
  shows "\<exists>m'. fdm_get (Suc (Suc n)) is_sock fd True m = Some (Inr (m', Some (length (ctx_heap m)))) \<and>
    ctx_heap m' = ctx_heap m @ [FdCtx_ctor fd True] \<and>
    m_datas m' = (m_datas m)[nat fd := Some (length (ctx_heap m))] \<and>
    kflags m' = (kflags m)(fd := kflags m fd OR O_NONBLOCK) \<and>
    \<not> rw_writer m' \<and> rw_deadlk m' = Suc (rw_deadlk m) \<and> rw_bad_unlock m' = Suc (rw_bad_unlock m)"
  by (rule get_new_socket [where is_sock = is_sock and fd = fd, OF assms])

lemma get_creates_socket_context_witness:
  "\<exists>m'. fdm_get 2 (\<lambda>_. True) 7 True (FdManager_ctor (\<lambda>_. 1)) = Some (Inr (m', Some 0)) \<and>
     kflags m' 7 = 2049 \<and> rw_bad_unlock m' = 1"
  using get_creates_socket_context [of "FdManager_ctor (\<lambda>_. 1)" 7 "\<lambda>_. True" 0]
  by (auto simp: FdManager_ctor_def numeral_2_eq_2 O_NONBLOCK_def simp del: fdm_get.simps)

text \<open>
  The test of \<open>auto_create\<close> for a descriptor beyond the table is inverted: asked to
  create a context it returns none, and asked not to create one it does; for a socket that
  creation looks the descriptor up again and again, so \<open>get\<close> does not return whatever depth
  of recursion it is given, and every hooked read, write or close of such a socket with it.
\<close>

theorem get_beyond_table:
  assumes "int (length (m_datas m)) \<le> fd" and "\<not> rw_writer m" and "0 \<le> fd" and "is_sock fd"
  shows "fdm_get (Suc n) is_sock fd True m = Some (Inr (m, None)) \<and> fdm_get n is_sock fd False m = None"
  using fdm_get_beyond_auto [OF assms(2,1)] fdm_get_beyond_socket [where is_sock = is_sock and fd = fd, OF assms(4,3,1)] by blast

lemma get_beyond_table_witness:
  "fdm_get 2 (\<lambda>_. True) 128 True (FdManager_ctor (\<lambda>_. 0)) = Some (Inr (FdManager_ctor (\<lambda>_. 0), None)) \<and>
   fdm_get 1 (\<lambda>_. True) 128 False (FdManager_ctor (\<lambda>_. 0)) = None"
  using get_beyond_table [of "FdManager_ctor (\<lambda>_. 0)" 128 "\<lambda>_. True" 1]
  by (simp add: FdManager_ctor_def numeral_2_eq_2 del: fdm_get.simps)

text \<open>
  On a managed socket \<open>fcntl\<close> hides the non-blocking mode the library uses: after
  \<open>F_SETFL\<close> with any flags, \<open>F_GETFL\<close> answers exactly those flags, while the kernel's flags
  are the same with \<open>O_NONBLOCK\<close> set.
\<close>

theorem fcntl_flags_roundtrip:
  assumes "p < length (ctx_heap m)" and "managed (Some p) m" and "m_sysNonblock (ctx_at p m)"
  shows "fcntl_getfl fd (Some p) (kflags (fcntl_setfl fd (Some p) arg m) fd) (fcntl_setfl fd (Some p) arg m) = arg \<and>
    kflags (fcntl_setfl fd (Some p) arg m) fd = arg OR O_NONBLOCK"
proof -
  let ?m = "fcntl_setfl fd (Some p) arg m"
  have c: "ctx_at p ?m = (ctx_at p m)\<lparr>m_userNonblock := (arg AND O_NONBLOCK \<noteq> 0)\<rparr>"
    and k: "kflags ?m fd = arg OR O_NONBLOCK"
    using assms by (auto simp: fcntl_setfl_def Let_def set_ctx_def ctx_at_def)
  moreover from c assms(2) have "managed (Some p) ?m" by (simp add: managed_def)
  ultimately show ?thesis
    by (simp add: fcntl_getfl_def nonblock_simps or.assoc)
qed

lemma fcntl_flags_roundtrip_witness:
  "let m = (FdManager_ctor (\<lambda>_. 2050))\<lparr>ctx_heap := [FdCtx_ctor 7 True]\<rparr>
   in fcntl_getfl 7 (Some 0) (kflags (fcntl_setfl 7 (Some 0) 2 m) 7) (fcntl_setfl 7 (Some 0) 2 m) = 2"
  unfolding Let_def
  by (rule fcntl_flags_roundtrip [THEN conjunct1]) (simp_all add: managed_def ctx_at_def FdCtx_ctor_def)

end
