(* ===== verification/Hook.thy ===== *)
theory Hook
  imports FdManager Poller "HOL-Library.Signed_Division"
begin

text \<open>
  \<open>src/fiber/hook.h\<close> and \<open>src/fiber/hook.cc\<close>: the system calls that suspend the calling fiber
  instead of blocking its thread. The kernel is a parameter, \<open>io_env\<close>: what the \<open>k\<close>-th call
  of the original function returns together with \<open>errno\<close> after it, what the \<open>w\<close>-th
  registration returns, and whether the timer of the \<open>w\<close>-th wait fires before the fiber is
  resumed. What a call does is recorded in a log, oldest first.
\<close>


section \<open>The loop of \<open>do_io\<close>\<close>

record io_env =
  sys :: "nat \<Rightarrow> int \<times> int"
  add_rt :: "nat \<Rightarrow> int"
  add_errno :: "nat \<Rightarrow> int"
  expired :: "nat \<Rightarrow> bool"

datatype io_act = ACall | ASetTimer u64 | AAddEvent u32 | AYield | ACancelTimer

record io_st =
  io_calls :: nat
  io_waits :: nat
  canclelled :: int
  io_log :: "io_act list"

definition io_init :: io_st where
  "io_init = \<lparr>io_calls = 0, io_waits = 0, canclelled = 0, io_log = []\<rparr>"

definition act :: "io_act \<Rightarrow> io_st \<Rightarrow> io_st" where
  "act a s = s\<lparr>io_log := io_log s @ [a]\<rparr>"

definition sys_call :: "io_env \<Rightarrow> io_st \<Rightarrow> (int \<times> int) \<times> io_st" where
  "sys_call env s = (sys env (io_calls s), act ACall (s\<lparr>io_calls := Suc (io_calls s)\<rparr>))"

text \<open>The callback of the timer: it marks the wait as timed out, once, and cancels the event.\<close>

definition timer_cb :: "int \<Rightarrow> int \<times> bool" where
  "timer_cb c = (if c \<noteq> 0 then (c, False) else (ETIMEDOUT, True))"

text \<open>The call, repeated while it returns 1 and \<open>errno\<close> is \<open>EINTR\<close>.\<close>

definition call_eintr :: "io_env \<Rightarrow> io_st \<Rightarrow> (int \<times> int \<times> io_st) run" where
  "call_eintr env s =
     loop (\<lambda>s. let ((n, e), s') = sys_call env s
               in if n = 1 \<and> e = EINTR then Inr (Inl s') else Inr (Inr (n, e, s'))) s"

text \<open>One turn of \<open>while (true)\<close>: a new state to go on with, or result, \<open>errno\<close> and state.\<close>

definition io_round ::
  "u64 \<Rightarrow> u32 \<Rightarrow> io_env \<Rightarrow> io_st \<Rightarrow> (io_st + int \<times> int \<times> io_st) run" where
  "io_round to event env s =
     bindO (call_eintr env s) (\<lambda>(n, e, s1).
       if n = - 1 \<and> e = EAGAIN
       then (let timer = (to \<noteq> - 1);
                 s2 = (if timer then act (ASetTimer to) s1 else s1);
                 s3 = act (AAddEvent event) s2;
                 w = io_waits s3
             in if add_rt env w \<noteq> 0
                then Some (Inr (Inr (- 1, add_errno env w, if timer then act ACancelTimer s3 else s3)))
                else (let s4 = (act AYield s3)\<lparr>io_waits := Suc w\<rparr>;
                          s5 = (if timer \<and> expired env w
                                then s4\<lparr>canclelled := fst (timer_cb (canclelled s4))\<rparr> else s4);
                          s6 = (if timer then act ACancelTimer s5 else s5)
                      in if canclelled s6 \<noteq> 0 then Some (Inr (Inr (- 1, canclelled s6, s6)))
                         else Some (Inr (Inl s6))))
       else Some (Inr (Inr (n, e, s1))))"

definition io_loop :: "u64 \<Rightarrow> u32 \<Rightarrow> io_env \<Rightarrow> (int \<times> int \<times> io_st) run" where
  "io_loop to event env = loopO (io_round to event env) io_init"

definition direct_call :: "io_env \<Rightarrow> int \<times> int \<times> io_st" where
  "direct_call env = (let ((n, e), s) = sys_call env io_init in (n, e, s))"

definition do_io ::
  "nat \<Rightarrow> (int \<Rightarrow> bool) \<Rightarrow> bool \<Rightarrow> int \<Rightarrow> u32 \<Rightarrow> timeout_kind \<Rightarrow> io_env \<Rightarrow> fdm \<Rightarrow>
   (fdm \<times> int \<times> int \<times> io_st) run" where
  "do_io n is_sock hook_enable fd event kind env m =
     (if \<not> hook_enable then Some (Inr (m, direct_call env))
      else bindO (fdm_get n is_sock fd False m) (\<lambda>(m1, r). case r of
        None \<Rightarrow> Some (Inr (m1, direct_call env))
      | Some p \<Rightarrow>
          (let ctx = ctx_at p m1
           in if m_isClosed ctx then Some (Inr (m1, - 1, EBADF, io_init))
              else if \<not> m_isSocket ctx \<or> m_userNonblock ctx then Some (Inr (m1, direct_call env))
              else bindO (io_loop (getTimeout kind ctx) event env) (\<lambda>res. Some (Inr (m1, res))))))"

text \<open>The ten functions that are \<open>do_io\<close> with the event and the timeout of their direction.\<close>

datatype io_fun = Read | Readv | Recv | Recvfrom | Recvmsg | Write | Writev | Send | Sendto | Sendmsg

definition hooked_io ::
  "nat \<Rightarrow> (int \<Rightarrow> bool) \<Rightarrow> bool \<Rightarrow> io_fun \<Rightarrow> int \<Rightarrow> io_env \<Rightarrow> fdm \<Rightarrow> (fdm \<times> int \<times> int \<times> io_st) run" where
  "hooked_io n is_sock hook_enable f fd env m =
     (if f \<in> {Read, Readv, Recv, Recvfrom, Recvmsg}
      then do_io n is_sock hook_enable fd EV_READ SO_RCVTIMEO env m
      else do_io n is_sock hook_enable fd EV_WRITE SO_SNDTIMEO env m)"

section \<open>Sleeping\<close>

text \<open>\<open>unsigned int\<close> arithmetic in \<open>sleep\<close> and \<open>usleep\<close>, an \<open>int\<close> in \<open>nanosleep\<close>.\<close>

definition sleep_ms :: "u32 \<Rightarrow> u64" where "sleep_ms seconds = ucast (seconds * 1000)"
definition usleep_ms :: "u32 \<Rightarrow> u64" where "usleep_ms usec = ucast (usec div 1000)"

definition nanosleep_ms :: "int \<Rightarrow> int \<Rightarrow> u64" where
  "nanosleep_ms tv_sec tv_nsec =
     (let timeout = word_of_int (tv_sec * 1000 + tv_nsec sdiv 1000 sdiv 1000) :: u32
      in scast timeout)"

text \<open>
  \<open>sleep\<close>, \<open>usleep\<close> and \<open>nanosleep\<close> with the hook enabled: a timer that puts the fiber back,
  then a yield. \<open>p\<close> is the address of the new timer task. With the hook disabled the original
  function is called, here \<open>None\<close>.
\<close>

definition suspend_for ::
  "bool \<Rightarrow> nat \<Rightarrow> nat \<Rightarrow> 'cb \<Rightarrow> u64 \<Rightarrow> u64 \<Rightarrow> 'cb poller \<Rightarrow> 'cb poller option result" where
  "suspend_for hook_enable cap p cb ms now pl =
     (if \<not> hook_enable then Inr None
      else bindR (pl_createTimer cap p (Some cb) ms False now pl) (\<lambda>pl'. Inr (Some pl')))"

definition hooked_sleep ::
  "bool \<Rightarrow> nat \<Rightarrow> nat \<Rightarrow> 'cb \<Rightarrow> u32 \<Rightarrow> u64 \<Rightarrow> 'cb poller \<Rightarrow> 'cb poller option result" where
  "hooked_sleep hook_enable cap p cb seconds now pl =
     suspend_for hook_enable cap p cb (sleep_ms seconds) now pl"

definition hooked_usleep ::
  "bool \<Rightarrow> nat \<Rightarrow> nat \<Rightarrow> 'cb \<Rightarrow> u32 \<Rightarrow> u64 \<Rightarrow> 'cb poller \<Rightarrow> 'cb poller option result" where
  "hooked_usleep hook_enable cap p cb usec now pl =
     suspend_for hook_enable cap p cb (usleep_ms usec) now pl"

definition hooked_nanosleep ::
  "bool \<Rightarrow> nat \<Rightarrow> nat \<Rightarrow> 'cb \<Rightarrow> int \<Rightarrow> int \<Rightarrow> u64 \<Rightarrow> 'cb poller \<Rightarrow> 'cb poller option result" where
  "hooked_nanosleep hook_enable cap p cb tv_sec tv_nsec now pl =
     suspend_for hook_enable cap p cb (nanosleep_ms tv_sec tv_nsec) now pl"

section \<open>Sockets\<close>

text \<open>\<open>new_fd\<close>: what the original \<open>socket\<close> returns.\<close>

definition hooked_socket ::
  "nat \<Rightarrow> (int \<Rightarrow> bool) \<Rightarrow> bool \<Rightarrow> int \<Rightarrow> fdm \<Rightarrow> (fdm \<times> int) run" where
  "hooked_socket n is_sock hook_enable new_fd m =
     (if \<not> hook_enable then Some (Inr (m, new_fd))
      else if new_fd = - 1 then Some (Inr (m, new_fd))
      else bindO (fdm_get n is_sock new_fd True m) (\<lambda>(m1, _). Some (Inr (m1, new_fd))))"

definition hooked_accept ::
  "nat \<Rightarrow> (int \<Rightarrow> bool) \<Rightarrow> bool \<Rightarrow> int \<Rightarrow> io_env \<Rightarrow> fdm \<Rightarrow> (fdm \<times> int \<times> int \<times> io_st) run" where
  "hooked_accept n is_sock hook_enable sockfd env m =
     bindO (do_io n is_sock hook_enable sockfd EV_READ SO_RCVTIMEO env m) (\<lambda>(m1, fd, e, s).
       if fd \<ge> 0
       then bindO (fdm_get n is_sock fd True m1) (\<lambda>(m2, _). Some (Inr (m2, fd, e, s)))
       else Some (Inr (m1, fd, e, s)))"

text \<open>\<open>rt_ctl\<close>: the \<open>epoll_ctl\<close> of \<open>cancelAll\<close>; \<open>rt_close\<close>: the original \<open>close\<close>.\<close>

definition hooked_close ::
  "nat \<Rightarrow> (int \<Rightarrow> bool) \<Rightarrow> bool \<Rightarrow> int \<Rightarrow> int \<Rightarrow> int \<Rightarrow> fdm \<times> 'cb poller \<Rightarrow>
   ((fdm \<times> 'cb poller) \<times> 'cb option list \<times> int) run" where
  "hooked_close n is_sock hook_enable fd rt_ctl rt_close s =
     (if \<not> hook_enable then Some (Inr (s, [], rt_close))
      else bindO (fdm_get n is_sock fd False (fst s)) (\<lambda>(m1, r).
        if r = None then Some (Inr ((m1, snd s), [], rt_close))
        else bindO (Some (cancelAll fd rt_ctl (snd s))) (\<lambda>(pl, out, _).
             bindO (Some (fdm_del fd m1)) (\<lambda>m2. Some (Inr ((m2, pl), out, rt_close))))))"

text \<open>
  \<open>connect_with_timeout\<close>: \<open>conn\<close> is what the original \<open>connect\<close> returns, with \<open>errno\<close>;
  \<open>sockopt\<close> what \<open>getsockopt (SO_ERROR)\<close> returns, with the pending error.
\<close>

definition connect_with_timeout ::
  "nat \<Rightarrow> (int \<Rightarrow> bool) \<Rightarrow> int \<Rightarrow> u64 \<Rightarrow> int \<times> int \<Rightarrow> io_env \<Rightarrow> int \<times> int \<Rightarrow> fdm \<Rightarrow>
   (fdm \<times> int \<times> int \<times> io_act list) run" where
  "connect_with_timeout n is_sock sockfd timeout conn env sockopt m =
     (if sockfd < 0 then Some (Inr (m, - 1, snd conn, []))
      else bindO (fdm_get n is_sock sockfd False m) (\<lambda>(m1, r). case r of
        None \<Rightarrow> Some (Inr (m1, - 1, EBADF, []))
      | Some p \<Rightarrow>
          (let ctx = ctx_at p m1
           in if m_isClosed ctx then Some (Inr (m1, - 1, EBADF, []))
              else if \<not> m_isSocket ctx \<or> m_userNonblock ctx
              then Some (Inr (m1, fst conn, snd conn, [ACall]))
              else if fst conn = 0 then Some (Inr (m1, 0, snd conn, [ACall]))
              else if fst conn \<noteq> - 1 \<or> snd conn \<noteq> EINPROGRESS
              then Some (Inr (m1, fst conn, snd conn, [ACall]))
              else (let timer = (timeout \<noteq> - 1);
                        l1 = [ACall] @ (if timer then [ASetTimer timeout] else []) @ [AAddEvent EV_WRITE];
                        timed_out = (add_rt env 0 = 0 \<and> timer \<and> expired env 0);
                        l2 = l1 @ (if add_rt env 0 = 0 then [AYield] else []) @
                             (if timer then [ACancelTimer] else []);
                        e1 = (if timed_out then fst (timer_cb 0)
                              else if add_rt env 0 \<noteq> 0 then add_errno env 0 else snd conn);
                        error = snd sockopt
                    in if fst sockopt = - 1 then Some (Inr (m1, - 1, e1, l2))
                       else if error = 0 then Some (Inr (m1, 0, e1, l2))
                       else Some (Inr (m1, - 1, error, l2))))))"

definition hooked_connect ::
  "nat \<Rightarrow> (int \<Rightarrow> bool) \<Rightarrow> bool \<Rightarrow> u64 \<Rightarrow> int \<Rightarrow> int \<times> int \<Rightarrow> io_env \<Rightarrow> int \<times> int \<Rightarrow> fdm \<Rightarrow>
   (fdm \<times> int \<times> int \<times> io_act list) run" where
  "hooked_connect n is_sock hook_enable s_connect_timeout sockfd conn env sockopt m =
     (if \<not> hook_enable then Some (Inr (m, fst conn, snd conn, [ACall]))
      else connect_with_timeout n is_sock sockfd s_connect_timeout conn env sockopt m)"

section \<open>Socket options\<close>

text \<open>\<open>v->tv_sec * 1000 + v->tv_usec / 1000\<close>, converted to \<open>uint64_t\<close>.\<close>

definition timeval_ms :: "int \<Rightarrow> int \<Rightarrow> u64" where
  "timeval_ms tv_sec tv_usec = word_of_int (tv_sec * 1000 + tv_usec sdiv 1000)"

text \<open>\<open>opt\<close>: the option, if it is one of the two timeouts at level \<open>SOL_SOCKET\<close>.\<close>

definition hooked_setsockopt ::
  "nat \<Rightarrow> (int \<Rightarrow> bool) \<Rightarrow> bool \<Rightarrow> int \<Rightarrow> timeout_kind option \<Rightarrow> int \<times> int \<Rightarrow> int \<Rightarrow> fdm \<Rightarrow>
   (fdm \<times> int) run" where
  "hooked_setsockopt n is_sock hook_enable sockfd opt tv rt m =
     (if \<not> hook_enable then Some (Inr (m, rt))
      else case opt of
        None \<Rightarrow> Some (Inr (m, rt))
      | Some kind \<Rightarrow>
          bindO (fdm_get n is_sock sockfd False m) (\<lambda>(m1, r). case r of
            None \<Rightarrow> Some (Inr (m1, rt))
          | Some p \<Rightarrow>
              Some (Inr (set_ctx p (setTimeout kind (timeval_ms (fst tv) (snd tv)) (ctx_at p m1)) m1, rt))))"

text \<open>\<open>ioctl (fd, FIONBIO, &arg)\<close>: the original call changes the flags of the descriptor.\<close>

definition ioctl_f :: "int \<Rightarrow> bool \<Rightarrow> fdm \<Rightarrow> fdm" where
  "ioctl_f fd nonblock m =
     m\<lparr>kflags := (kflags m)(fd := (if nonblock then kflags m fd OR O_NONBLOCK
                                    else kflags m fd AND NOT O_NONBLOCK))\<rparr>"

definition hooked_ioctl :: "nat \<Rightarrow> (int \<Rightarrow> bool) \<Rightarrow> int \<Rightarrow> int \<Rightarrow> fdm \<Rightarrow> fdm run" where
  "hooked_ioctl n is_sock fd arg m =
     (let user_nonblock = (arg \<noteq> 0)
      in bindO (fdm_get n is_sock fd False m) (\<lambda>(m1, r).
         if \<not> managed r m1 then Some (Inr (ioctl_f fd user_nonblock m1))
         else (let p = the r;
                   m2 = set_ctx p ((ctx_at p m1)\<lparr>m_userNonblock := user_nonblock\<rparr>) m1
               in Some (Inr (ioctl_f fd user_nonblock m2)))))"

text \<open>The whole of \<open>fcntl\<close>: the two commands it treats, all others passed through.\<close>

datatype fcntl_cmd = F_SETFL u32 | F_GETFL | F_OTHER u32

definition hooked_fcntl ::
  "nat \<Rightarrow> (int \<Rightarrow> bool) \<Rightarrow> int \<Rightarrow> fcntl_cmd \<Rightarrow> fdm \<Rightarrow> (fdm \<times> u32) run" where
  "hooked_fcntl n is_sock fd cmd m = (case cmd of
     F_SETFL arg \<Rightarrow>
       bindO (fdm_get n is_sock fd False m) (\<lambda>(m1, r). Some (Inr (fcntl_setfl fd r arg m1, 0)))
   | F_GETFL \<Rightarrow>
       (let arg = kflags m fd
        in bindO (fdm_get n is_sock fd False m) (\<lambda>(m1, r). Some (Inr (m1, fcntl_getfl fd r arg m1))))
   | F_OTHER rt \<Rightarrow> Some (Inr (m, rt)))"

section \<open>Lemmas on the loop\<close>

lemma act_simps [simp]:
  "io_calls (act a s) = io_calls s" "io_waits (act a s) = io_waits s"
  "canclelled (act a s) = canclelled s" "io_log (act a s) = io_log s @ [a]"
  by (simp_all add: act_def)

lemma call_eintr_once:
  assumes "sys env (io_calls s) = (n, e)" and "\<not> (n = 1 \<and> e = EINTR)"
  shows "call_eintr env s = Some (Inr (n, e, act ACall (s\<lparr>io_calls := Suc (io_calls s)\<rparr>)))"
  unfolding call_eintr_def
  by (rule loop_steps(2)) (use assms in \<open>simp add: sys_call_def Let_def split_beta\<close>)

lemma call_eintr_again:
  assumes "sys env (io_calls s) = (1, EINTR)"
  shows "call_eintr env s = call_eintr env (act ACall (s\<lparr>io_calls := Suc (io_calls s)\<rparr>))"
  unfolding call_eintr_def
  by (rule loop_steps(3)) (use assms in \<open>simp add: sys_call_def Let_def split_beta\<close>)

lemma call_eintr_result:
  assumes "call_eintr env s = Some (Inr (n, e, s'))"
  shows "\<not> (n = 1 \<and> e = EINTR) \<and> io_waits s' = io_waits s \<and> canclelled s' = canclelled s \<and>
    (\<exists>k. io_log s' = io_log s @ replicate k ACall)"
proof -
  let ?body = "\<lambda>s. Some (let ((n, e), s') = sys_call env s
      in if n = 1 \<and> e = EINTR then Inr (Inl s') else Inr (Inr (n, e, s')))"
  let ?P = "\<lambda>t. io_waits t = io_waits s \<and> canclelled t = canclelled s \<and>
        (\<exists>k. io_log t = io_log s @ replicate k ACall)"
  let ?Q = "\<lambda>y. case y of (n, e, t) \<Rightarrow> \<not> (n = 1 \<and> e = EINTR) \<and> io_waits t = io_waits s \<and>
        canclelled t = canclelled s \<and> (\<exists>k. io_log t = io_log s @ replicate k ACall)"
  have step: "?P (snd (sys_call env t))" if "?P t" for t
    using that by (auto simp: sys_call_def replicate_append_same intro: exI [of _ "Suc k" for k])
  have "loopO ?body s = Some (Inr (n, e, s'))"
    using assms by (simp add: call_eintr_def loop_def)
  then have "?Q (n, e, s')"
  proof (rule loopO_result [where P = ?P and Q = ?Q])
    show "?P s" by (auto intro: exI [of _ 0])
  next
    fix t t' assume "?P t" "?body t = Some (Inr (Inl t'))"
    then show "?P t'" using step [of t] by (auto simp: Let_def split_beta split: if_splits)
  next
    fix t y assume "?P t" "?body t = Some (Inr (Inr y))"
    then show "?Q y" using step [of t] by (auto simp: Let_def split_beta split: if_splits)
  qed
  then show ?thesis by simp
qed

text \<open>What one wait writes to the log.\<close>

definition wait_log :: "u64 \<Rightarrow> u32 \<Rightarrow> io_act list" where
  "wait_log to event = [ACall] @ (if to \<noteq> - 1 then [ASetTimer to] else []) @
     [AAddEvent event, AYield] @ (if to \<noteq> - 1 then [ACancelTimer] else [])"

lemma io_round_waits:
  assumes "sys env (io_calls s) = (- 1, EAGAIN)" and "add_rt env (io_waits s) = 0"
    and "canclelled s = 0"
  shows "\<exists>s'. io_calls s' = Suc (io_calls s) \<and> io_waits s' = Suc (io_waits s) \<and>
    io_log s' = io_log s @ wait_log to event \<and>
    canclelled s' = (if to \<noteq> - 1 \<and> expired env (io_waits s) then ETIMEDOUT else 0) \<and>
    io_round to event env s = Some (Inr (if to \<noteq> - 1 \<and> expired env (io_waits s)
      then Inr (- 1, ETIMEDOUT, s') else Inl s'))"
proof -
  have "call_eintr env s = Some (Inr (- 1, EAGAIN, act ACall (s\<lparr>io_calls := Suc (io_calls s)\<rparr>)))"
    by (rule call_eintr_once [OF assms(1)]) simp
  then show ?thesis
    using assms(2,3) by (auto simp: io_round_def Let_def timer_cb_def wait_log_def ETIMEDOUT_def)
qed

lemma io_loop_waits:
  "canclelled s = 0 \<Longrightarrow> (\<forall>j < k. sys env (io_calls s + j) = (- 1, EAGAIN) \<and>
      add_rt env (io_waits s + j) = 0 \<and> \<not> (to \<noteq> - 1 \<and> expired env (io_waits s + j))) \<Longrightarrow>
   \<exists>s'. io_calls s' = io_calls s + k \<and> io_waits s' = io_waits s + k \<and> canclelled s' = 0 \<and>
     io_log s' = io_log s @ concat (replicate k (wait_log to event)) \<and>
     loopO (io_round to event env) s = loopO (io_round to event env) s'"
proof (induction k arbitrary: s)
  case 0
  then show ?case by auto
next
  case (Suc k)
  have p: "sys env (io_calls s) = (- 1, EAGAIN)" "add_rt env (io_waits s) = 0"
    "\<not> (to \<noteq> - 1 \<and> expired env (io_waits s))"
    using Suc.prems(2) by (auto dest!: spec [of _ 0])
  obtain s1 where s1: "io_calls s1 = Suc (io_calls s)" "io_waits s1 = Suc (io_waits s)"
      "canclelled s1 = 0" "io_log s1 = io_log s @ wait_log to event"
      "io_round to event env s = Some (Inr (Inl s1))"
    using io_round_waits [OF p(1,2) Suc.prems(1), of to event] p(3) by auto
  have "\<forall>j < k. sys env (io_calls s1 + j) = (- 1, EAGAIN) \<and> add_rt env (io_waits s1 + j) = 0 \<and>
      \<not> (to \<noteq> - 1 \<and> expired env (io_waits s1 + j))"
  proof (intro allI impI)
    fix j assume "j < k"
    then show "sys env (io_calls s1 + j) = (- 1, EAGAIN) \<and> add_rt env (io_waits s1 + j) = 0 \<and>
      \<not> (to \<noteq> - 1 \<and> expired env (io_waits s1 + j))"
      using Suc.prems(2) [rule_format, of "Suc j"] by (simp add: s1(1,2))
  qed
  from Suc.IH [OF s1(3) this] obtain s' where s': "io_calls s' = io_calls s1 + k"
      "io_waits s' = io_waits s1 + k" "canclelled s' = 0"
      "io_log s' = io_log s1 @ concat (replicate k (wait_log to event))"
      "loopO (io_round to event env) s1 = loopO (io_round to event env) s'" by blast
  have "loopO (io_round to event env) s = loopO (io_round to event env) s'"
    using loopO_steps(4) [where body = "io_round to event env", OF s1(5)] s'(5) by simp
  with s' s1 show ?case by (intro exI [of _ s']) simp
qed

definition is_set :: "io_act \<Rightarrow> bool" where "is_set a \<longleftrightarrow> (\<exists>to. a = ASetTimer to)"

lemma is_set_simps [simp]:
  "\<not> is_set ACall" "is_set (ASetTimer to)" "\<not> is_set (AAddEvent ev)" "\<not> is_set AYield" "\<not> is_set ACancelTimer"
  by (simp_all add: is_set_def)

definition timers_closed :: "io_act list \<Rightarrow> bool" where
  "timers_closed l \<longleftrightarrow> length (filter is_set l) = length (filter (\<lambda>a. a = ACancelTimer) l)"

lemma timers_closed_append:
  "timers_closed l \<Longrightarrow> timers_closed l' \<Longrightarrow> timers_closed (l @ l')"
  by (simp add: timers_closed_def)

lemma timers_closed_calls: "timers_closed (replicate k ACall)"
  by (induction k) (simp_all add: timers_closed_def)

lemma io_round_closed:
  assumes "timers_closed (io_log s)" and "canclelled s = 0"
    and "io_round to event env s = Some (Inr c)"
  shows "case c of Inl s' \<Rightarrow> timers_closed (io_log s') \<and> canclelled s' = 0
    | Inr (n, e, s') \<Rightarrow> timers_closed (io_log s') \<and>
        (n = - 1 \<and> e = EAGAIN \<longrightarrow> add_rt env (io_waits s') \<noteq> 0)"
proof -
  obtain n e s1 where c: "call_eintr env s = Some (Inr (n, e, s1))"
    using assms(3) by (auto simp: io_round_def bindO_eq_Some)
  obtain k where k: "io_log s1 = io_log s @ replicate k ACall" "canclelled s1 = 0"
    using call_eintr_result [OF c] assms(2) by auto
  have cl: "timers_closed (io_log s1)"
    using assms(1) timers_closed_calls by (simp add: k timers_closed_append)
  then have "timers_closed (io_log s1 @ [ASetTimer to, AAddEvent event, ACancelTimer])"
    "timers_closed (io_log s1 @ [AAddEvent event])" "timers_closed (io_log s1 @ [AAddEvent event, AYield])"
    "timers_closed (io_log s1 @ [ASetTimer to, AAddEvent event, AYield, ACancelTimer])"
    by (simp_all add: timers_closed_def)
  with assms(3) c k(2) cl show ?thesis
    by (auto simp: io_round_def Let_def timer_cb_def ETIMEDOUT_def EAGAIN_def split: if_splits)
qed

lemma io_loop_closed:
  assumes "io_loop to event env = Some (Inr (n, e, s))"
  shows "timers_closed (io_log s) \<and> (n = - 1 \<and> e = EAGAIN \<longrightarrow> add_rt env (io_waits s) \<noteq> 0)"
proof -
  have "case (n, e, s) of (n, e, s') \<Rightarrow> timers_closed (io_log s') \<and>
        (n = - 1 \<and> e = EAGAIN \<longrightarrow> add_rt env (io_waits s') \<noteq> 0)"
    using assms unfolding io_loop_def
  proof (rule loopO_result [where P = "\<lambda>s. timers_closed (io_log s) \<and> canclelled s = 0"])
    show "timers_closed (io_log io_init) \<and> canclelled io_init = 0"
      by (simp add: io_init_def timers_closed_def)
  next
    fix t t' assume "timers_closed (io_log t) \<and> canclelled t = 0"
      and "io_round to event env t = Some (Inr (Inl t'))"
    then show "timers_closed (io_log t') \<and> canclelled t' = 0"
      using io_round_closed [of t to event env "Inl t'"] by simp
  next
    fix t y assume "timers_closed (io_log t) \<and> canclelled t = 0"
      and "io_round to event env t = Some (Inr (Inr y))"
    then show "case y of (n, e, s') \<Rightarrow> timers_closed (io_log s') \<and>
        (n = - 1 \<and> e = EAGAIN \<longrightarrow> add_rt env (io_waits s') \<noteq> 0)"
      using io_round_closed [of t to event env "Inr y"] by simp
  qed
  then show ?thesis by simp
qed

section \<open>Properties\<close>

text \<open>A look-up that finds the context of a blocking socket.\<close>

definition blocking_socket ::
  "nat \<Rightarrow> (int \<Rightarrow> bool) \<Rightarrow> int \<Rightarrow> fdm \<Rightarrow> fdm \<Rightarrow> nat \<Rightarrow> bool" where
  "blocking_socket n is_sock fd m m1 p \<longleftrightarrow> fdm_get n is_sock fd False m = Some (Inr (m1, Some p)) \<and>
     \<not> m_isClosed (ctx_at p m1) \<and> m_isSocket (ctx_at p m1) \<and> \<not> m_userNonblock (ctx_at p m1)"

lemma do_io_blocking:
  "blocking_socket n is_sock fd m m1 p \<Longrightarrow> do_io n is_sock True fd event kind env m =
     bindO (io_loop (getTimeout kind (ctx_at p m1)) event env) (\<lambda>res. Some (Inr (m1, res)))"
  by (simp add: blocking_socket_def do_io_def Let_def)

definition demo_fdm :: fdm where
  "demo_fdm = (FdManager_ctor (\<lambda>_. 0))\<lparr>ctx_heap := [FdCtx_ctor 5 True],
     m_datas := (replicate 128 None)[5 := Some 0]\<rparr>"

lemma demo_blocking: "blocking_socket 1 (\<lambda>_. True) 5 demo_fdm demo_fdm 0"
  using fdm_get_found [of demo_fdm 5 False 0 "\<lambda>_. True"]
  by (simp add: blocking_socket_def demo_fdm_def FdManager_ctor_def ctx_at_def FdCtx_ctor_def
      del: fdm_get.simps)

lemma demo_timeout: "getTimeout kind (ctx_at 0 demo_fdm) = - 1"
  by (simp add: getTimeout_def demo_fdm_def ctx_at_def FdCtx_ctor_def)

lemma io_loop_ready:
  assumes w: "\<forall>j < k. sys env j = (- 1, EAGAIN) \<and> add_rt env j = 0 \<and> \<not> (to \<noteq> - 1 \<and> expired env j)"
    and r: "sys env k = (r, e)" "\<not> (r = - 1 \<and> e = EAGAIN)" "\<not> (r = 1 \<and> e = EINTR)"
  shows "\<exists>s. io_loop to event env = Some (Inr (r, e, s)) \<and>
    io_log s = concat (replicate k (wait_log to event)) @ [ACall]"
proof -
  obtain s' where s': "io_calls s' = k" "io_log s' = concat (replicate k (wait_log to event))"
    "loopO (io_round to event env) io_init = loopO (io_round to event env) s'"
    using io_loop_waits [of io_init k env to event] w by (auto simp: io_init_def)
  have "call_eintr env s' = Some (Inr (r, e, act ACall (s'\<lparr>io_calls := Suc (io_calls s')\<rparr>)))"
    by (rule call_eintr_once) (use r s' in auto)
  then have "io_round to event env s' = Some (Inr (Inr (r, e, act ACall (s'\<lparr>io_calls := Suc (io_calls s')\<rparr>))))"
    using r(2) by (auto simp: io_round_def)
  from loopO_steps(3) [where body = "io_round to event env", OF this] s' show ?thesis
    by (simp add: io_loop_def)
qed

text \<open>
  C18: a hooked call on a blocking socket behaves like a blocking call: as long as the original
  call reports \<open>EAGAIN\<close> and no timeout passes, it registers the event, yields, and calls again
  when it is resumed; it returns exactly the first other result, after one wait for each
  \<open>EAGAIN\<close>, and each wait's timer is cancelled.
\<close>

theorem do_io_waits_until_ready:
  assumes "blocking_socket n is_sock fd m m1 p" and "to = getTimeout kind (ctx_at p m1)"
    and "\<forall>j < k. sys env j = (- 1, EAGAIN) \<and> add_rt env j = 0 \<and> \<not> (to \<noteq> - 1 \<and> expired env j)"
    and "sys env k = (r, e)" and "\<not> (r = - 1 \<and> e = EAGAIN)" and "\<not> (r = 1 \<and> e = EINTR)"
  shows "\<exists>s. do_io n is_sock True fd event kind env m = Some (Inr (m1, r, e, s)) \<and>
    io_log s = concat (replicate k (wait_log to event)) @ [ACall]"
  using io_loop_ready [OF assms(3-6), of event] assms(2) by (auto simp: do_io_blocking [OF assms(1)])

lemma do_io_waits_until_ready_witness:
  "\<exists>s. do_io 1 (\<lambda>_. True) True 5 EV_READ SO_RCVTIMEO
      \<lparr>sys = \<lambda>k. if k < 2 then (- 1, EAGAIN) else (10, 0), add_rt = \<lambda>_. 0, add_errno = \<lambda>_. 0,
       expired = \<lambda>_. False\<rparr> demo_fdm = Some (Inr (demo_fdm, 10, 0, s)) \<and>
     io_log s = [ACall, AAddEvent EV_READ, AYield, ACall, AAddEvent EV_READ, AYield, ACall]"
proof -
  have "\<exists>s. do_io 1 (\<lambda>_. True) True 5 EV_READ SO_RCVTIMEO
      \<lparr>sys = \<lambda>k. if k < 2 then (- 1, EAGAIN) else (10, 0), add_rt = \<lambda>_. 0, add_errno = \<lambda>_. 0,
       expired = \<lambda>_. False\<rparr> demo_fdm = Some (Inr (demo_fdm, 10, 0, s)) \<and>
     io_log s = concat (replicate 2 (wait_log (- 1) EV_READ)) @ [ACall]"
    by (rule do_io_waits_until_ready [OF demo_blocking]) (simp_all add: demo_timeout)
  then show ?thesis by (simp add: wait_log_def numeral_2_eq_2)
qed



text \<open>
  C26: whatever the kernel answers, when a hooked call on a blocking socket returns, every timer
  it created has been cancelled, and it never returns \<open>EAGAIN\<close> to its caller unless the
  registration with the poller failed.
\<close>

theorem do_io_leaves_no_timer:
  assumes "blocking_socket n is_sock fd m m1 p"
    and "do_io n is_sock True fd event kind env m = Some (Inr (m2, r, e, s))"
  shows "length (filter is_set (io_log s)) = length (filter (\<lambda>a. a = ACancelTimer) (io_log s)) \<and>
    (r = - 1 \<and> e = EAGAIN \<longrightarrow> add_rt env (io_waits s) \<noteq> 0)"
proof -
  have "io_loop (getTimeout kind (ctx_at p m1)) event env = Some (Inr (r, e, s))"
    using assms(2) by (auto simp: do_io_blocking [OF assms(1)] bindO_eq_Some)
  from io_loop_closed [OF this] show ?thesis by (simp add: timers_closed_def)
qed

lemma do_io_leaves_no_timer_witness:
  "\<exists>s. do_io 1 (\<lambda>_. True) True 5 EV_WRITE SO_SNDTIMEO
      \<lparr>sys = \<lambda>k. (3, 0), add_rt = \<lambda>_. 0, add_errno = \<lambda>_. 0, expired = \<lambda>_. False\<rparr> demo_fdm =
     Some (Inr (demo_fdm, 3, 0, s)) \<and>
     length (filter is_set (io_log s)) = length (filter (\<lambda>a. a = ACancelTimer) (io_log s))"
proof -
  obtain s where s: "do_io 1 (\<lambda>_. True) True 5 EV_WRITE SO_SNDTIMEO
      \<lparr>sys = \<lambda>k. (3, 0), add_rt = \<lambda>_. 0, add_errno = \<lambda>_. 0, expired = \<lambda>_. False\<rparr> demo_fdm =
     Some (Inr (demo_fdm, 3, 0, s))"
    using io_loop_ready [of 0 "\<lparr>sys = \<lambda>k. (3, 0), add_rt = \<lambda>_. 0, add_errno = \<lambda>_. 0, expired = \<lambda>_. False\<rparr>"
        "- 1" 3 0 EV_WRITE] by (auto simp: do_io_blocking [OF demo_blocking [unfolded One_nat_def]] demo_timeout)
  from do_io_leaves_no_timer [OF demo_blocking s] s show ?thesis by blast
qed

text \<open>
  The retry after an interruption tests for the result 1 instead of -1: an interrupted call
  is reported to the caller, and a call that transferred one byte while \<open>errno\<close> is still
  \<open>EINTR\<close> from an earlier call is made again, so that byte is lost.
\<close>

theorem do_io_eintr_inverted:
  assumes "blocking_socket n is_sock fd m m1 p"
  shows "(sys env 0 = (- 1, EINTR) \<longrightarrow>
      (\<exists>s. do_io n is_sock True fd event kind env m = Some (Inr (m1, - 1, EINTR, s)) \<and> io_log s = [ACall])) \<and>
    (sys env 0 = (1, EINTR) \<and> sys env 1 = (r, e) \<and> \<not> (r = - 1 \<and> e = EAGAIN) \<and> \<not> (r = 1 \<and> e = EINTR) \<longrightarrow>
      (\<exists>s. do_io n is_sock True fd event kind env m = Some (Inr (m1, r, e, s)) \<and> io_log s = [ACall, ACall]))"
proof (intro conjI impI)
  assume "sys env 0 = (- 1, EINTR)"
  with io_loop_ready [of 0 env "getTimeout kind (ctx_at p m1)" "- 1" EINTR event]
  show "\<exists>s. do_io n is_sock True fd event kind env m = Some (Inr (m1, - 1, EINTR, s)) \<and> io_log s = [ACall]"
    by (auto simp: do_io_blocking [OF assms] EINTR_def EAGAIN_def)
next
  assume a: "sys env 0 = (1, EINTR) \<and> sys env 1 = (r, e) \<and> \<not> (r = - 1 \<and> e = EAGAIN) \<and> \<not> (r = 1 \<and> e = EINTR)"
  let ?s1 = "act ACall (io_init\<lparr>io_calls := Suc (io_calls io_init)\<rparr>)"
  have "call_eintr env io_init = call_eintr env ?s1"
    by (rule call_eintr_again) (use a in \<open>simp add: io_init_def\<close>)
  also have "\<dots> = Some (Inr (r, e, act ACall (?s1\<lparr>io_calls := Suc (io_calls ?s1)\<rparr>)))"
    by (rule call_eintr_once) (use a in \<open>auto simp: io_init_def\<close>)
  finally have "io_round (getTimeout kind (ctx_at p m1)) event env io_init =
      Some (Inr (Inr (r, e, act ACall (?s1\<lparr>io_calls := Suc (io_calls ?s1)\<rparr>))))"
    using a by (auto simp: io_round_def)
  from loopO_steps(3) [where body = "io_round (getTimeout kind (ctx_at p m1)) event env", OF this]
  show "\<exists>s. do_io n is_sock True fd event kind env m = Some (Inr (m1, r, e, s)) \<and> io_log s = [ACall, ACall]"
    by (simp add: do_io_blocking [OF assms] io_loop_def io_init_def)
qed

lemma do_io_eintr_inverted_witness:
  "\<exists>s. do_io 1 (\<lambda>_. True) True 5 EV_READ SO_RCVTIMEO
      \<lparr>sys = \<lambda>k. if k = 0 then (1, EINTR) else (7, EINTR), add_rt = \<lambda>_. 0, add_errno = \<lambda>_. 0,
       expired = \<lambda>_. False\<rparr> demo_fdm = Some (Inr (demo_fdm, 7, EINTR, s)) \<and> io_log s = [ACall, ACall]"
  using do_io_eintr_inverted [OF demo_blocking, of "\<lparr>sys = \<lambda>k. if k = 0 then (1, EINTR) else (7, EINTR),
      add_rt = \<lambda>_. 0, add_errno = \<lambda>_. 0, expired = \<lambda>_. False\<rparr>" EV_READ SO_RCVTIMEO 7 EINTR]
  by simp

text \<open>
  A connection attempt that times out is reported as successful: the \<open>return -1\<close> after a
  timeout is commented out, and the pending error that is read instead is 0 while the attempt
  goes on.
\<close>

theorem connect_timeout_reports_success:
  assumes "blocking_socket n is_sock fd m m1 p" and "0 \<le> fd" and "timeout \<noteq> - 1"
    and "add_rt env 0 = 0" and "expired env 0"
  shows "connect_with_timeout n is_sock fd timeout (- 1, EINPROGRESS) env (0, 0) m =
    Some (Inr (m1, 0, ETIMEDOUT, [ACall, ASetTimer timeout, AAddEvent EV_WRITE, AYield, ACancelTimer]))"
  using assms by (simp add: connect_with_timeout_def blocking_socket_def Let_def timer_cb_def)

lemma connect_timeout_reports_success_witness:
  "connect_with_timeout 1 (\<lambda>_. True) 5 5000 (- 1, EINPROGRESS)
     \<lparr>sys = \<lambda>_. (- 1, EAGAIN), add_rt = \<lambda>_. 0, add_errno = \<lambda>_. 0, expired = \<lambda>_. True\<rparr> (0, 0) demo_fdm =
   Some (Inr (demo_fdm, 0, ETIMEDOUT, [ACall, ASetTimer 5000, AAddEvent EV_WRITE, AYield, ACancelTimer]))"
  by (rule connect_timeout_reports_success [OF demo_blocking]) simp_all

text \<open>
  \<open>sleep\<close> multiplies the seconds in 32 bits: the timer gets the right time up to 4294967
  seconds and the remainder modulo \<open>2 ^ 32\<close> beyond.
\<close>

theorem sleep_ms_wraps:
  "unat (sleep_ms seconds) = (unat seconds * 1000) mod 2 ^ 32 \<and>
   (unat (sleep_ms seconds) = unat seconds * 1000 \<longleftrightarrow> unat seconds \<le> 4294967)"
proof -
  have u: "unat (sleep_ms seconds) = (unat seconds * 1000) mod 2 ^ 32"
    by (simp add: sleep_ms_def unsigned_ucast_eq unat_word_ariths take_bit_eq_mod)
  moreover have "(unat seconds * 1000) mod 2 ^ 32 = unat seconds * 1000 \<longleftrightarrow> unat seconds * 1000 < 2 ^ 32"
    using mod_less_divisor [of "2 ^ 32" "unat seconds * 1000"] mod_less [of "unat seconds * 1000" "2 ^ 32"]
    by (metis zero_less_numeral zero_less_power)
  ultimately show ?thesis by auto
qed

text \<open>
  Closing a descriptor that has a context wakes every fiber that waits for it, reader
  first, removes its events from the poller and the kernel, and empties its table entry.
\<close>

theorem close_wakes_waiters:
  assumes "poller_reach fresh low32 pl" and "fd_usable fd pl" and "\<not> rw_writer m"
    and "fd < int (length (m_datas m))" and "m_datas m ! nat fd \<noteq> None"
  shows "\<exists>m' pl'. hooked_close (Suc n) is_sock True fd 0 rt_close (m, pl) =
      Some (Inr ((m', pl'), out_of (fc_events (watched_ctx fd pl)) (watched_ctx fd pl), rt_close)) \<and>
    m_datas m' ! nat fd = None \<and> fc_events (watched_ctx fd pl') = 0 \<and> interest (ctl_log pl') fd = None"
proof -
  have ok: "poller_ok pl" by (rule poller_reach_ok [OF assms(1)])
  note fd = assms(2) [unfolded fd_usable_def]
  have g: "fdm_get (Suc n) is_sock fd False m = Some (Inr (m, m_datas m ! nat fd))"
    by (rule fdm_get_found) (use assms fd in auto)
  obtain m' where m': "fdm_del fd m = Inr m'" "m_datas m' = (m_datas m)[nat fd := None]"
    using fd assms(4) by (simp add: fdm_del_def Let_def)
  have l: "nat fd < length (m_datas m)" "nat fd < length (m_fdContexts pl)" using fd assms(4) by linarith+
  obtain p where p: "m_datas m ! nat fd = Some p" using assms(5) by auto
  show ?thesis using l m' g p
    by (simp add: hooked_close_def cancelAll_eq [OF ok assms(2)] Let_def watched_ctx_def epoll_log_def
        del: fdm_get.simps)
qed

lemma close_wakes_waiters_witness:
  "\<exists>m' pl'. hooked_close 1 (\<lambda>_. True) True 5 0 0 (demo_fdm, demo_read) = Some (Inr ((m', pl'), [Some 7], 0)) \<and>
     m_datas m' ! 5 = None"
proof -
  have "\<exists>m' pl'. hooked_close (Suc 0) (\<lambda>_. True) True 5 0 0 (demo_fdm, demo_read) =
      Some (Inr ((m', pl'), out_of (fc_events (watched_ctx 5 demo_read)) (watched_ctx 5 demo_read), 0)) \<and>
    m_datas m' ! nat 5 = None \<and> fc_events (watched_ctx 5 pl') = 0 \<and> interest (ctl_log pl') 5 = None"
    by (rule close_wakes_waiters [OF demo_read_reach [of False int]])
      (simp_all add: fd_usable_def demo_fdm_def FdManager_ctor_def)
  then show ?thesis by (auto simp: demo_read_watched out_of_def EV_READ_def EV_WRITE_def)
qed

text \<open>
  Switching a managed socket to blocking mode with \<open>ioctl (FIONBIO)\<close> also clears
  \<open>O_NONBLOCK\<close> in the kernel, although the context goes on to claim that the library keeps
  the descriptor non-blocking: the next hooked call blocks its whole thread. \<open>fcntl\<close> does not
  have this effect.
\<close>

theorem ioctl_makes_descriptor_blocking:
  assumes "fdm_get n is_sock fd False m = Some (Inr (m1, Some p))" and "managed (Some p) m1"
    and "p < length (ctx_heap m1)" and "m_sysNonblock (ctx_at p m1)"
  shows "(\<exists>m2. hooked_ioctl n is_sock fd 0 m = Some (Inr m2) \<and> kflags m2 fd AND O_NONBLOCK = 0 \<and>
      m_sysNonblock (ctx_at p m2) \<and> \<not> m_userNonblock (ctx_at p m2)) \<and>
    (\<exists>m2. hooked_fcntl n is_sock fd (F_SETFL arg) m = Some (Inr (m2, 0)) \<and> kflags m2 fd AND O_NONBLOCK \<noteq> 0)"
  using assms
  by (auto simp: hooked_ioctl_def hooked_fcntl_def ioctl_f_def fcntl_setfl_def Let_def set_ctx_def ctx_at_def
      nonblock_simps)

lemma ioctl_makes_descriptor_blocking_witness:
  "\<exists>m2. hooked_ioctl 1 (\<lambda>_. True) 5 0 demo_fdm = Some (Inr m2) \<and> kflags m2 5 AND O_NONBLOCK = 0"
proof -
  have "fdm_get 1 (\<lambda>_. True) 5 False demo_fdm = Some (Inr (demo_fdm, Some 0))"
    using demo_blocking by (simp add: blocking_socket_def)
  from ioctl_makes_descriptor_blocking [OF this] show ?thesis
    by (auto simp: managed_def ctx_at_def demo_fdm_def FdCtx_ctor_def)
qed

end
