(* ===== verification/Locks.thy ===== *)
theory Locks
  imports Prelude
begin

text \<open>
  \<open>src/thread/mutex.h\<close>, \<open>mutex.cc\<close>, \<open>rwmutex.h\<close>, \<open>rwmutex.cc\<close>, \<open>spinlock.h\<close>, \<open>spinlock.cc\<close>
  and \<open>scopedlock.h\<close>: the lock classes and the guards. The POSIX objects they wrap are state
  machines over thread numbers with the documented return codes; a call that blocks is \<open>None\<close>.
  A logged error that the code goes on after leaves no trace in the model.
\<close>

section \<open>Mutex attributes\<close>

datatype mutex_type = Normal | Recursive | Errorcheck

record mutex_attr =
  ma_pshared :: bool
  ma_robust :: bool
  ma_type :: mutex_type

definition throws_if :: "int \<Rightarrow> string \<Rightarrow> 'a \<Rightarrow> 'a result" where
  "throws_if rt msg x = (if rt \<noteq> 0 then Inl (Throws msg) else Inr x)"

lemma throws_if_simps [simp]:
  "throws_if 0 msg x = Inr x"
  "rt \<noteq> 0 \<Longrightarrow> throws_if rt msg x = Inl (Throws msg)"
  by (simp_all add: throws_if_def)

text \<open>\<open>rt\<close> is what the POSIX function returns.\<close>

definition Mutex_Attributes_ctor :: "int \<Rightarrow> mutex_attr result" where
  "Mutex_Attributes_ctor rt = throws_if rt ''pthread_mutexattr_init failed,''
     \<lparr>ma_pshared = False, ma_robust = False, ma_type = Normal\<rparr>"

definition setProcessShared :: "int \<Rightarrow> bool \<Rightarrow> mutex_attr \<Rightarrow> mutex_attr result" where
  "setProcessShared rt pshared a =
     throws_if rt ''pthread_mutexattr_setpshared failed,'' (a\<lparr>ma_pshared := pshared\<rparr>)"

definition isProcessShared :: "int \<Rightarrow> mutex_attr \<Rightarrow> bool result" where
  "isProcessShared rt a = throws_if rt ''pthread_mutexattr_getpshared failed,'' (ma_pshared a)"

definition setRobust :: "int \<Rightarrow> bool \<Rightarrow> mutex_attr \<Rightarrow> mutex_attr result" where
  "setRobust rt robust a =
     throws_if rt ''pthread_mutexattr_setrobust failed,'' (a\<lparr>ma_robust := robust\<rparr>)"

definition isRobust :: "int \<Rightarrow> mutex_attr \<Rightarrow> bool result" where
  "isRobust rt a = throws_if rt ''pthread_mutexattr_getrobust failed,'' (ma_robust a)"

definition setMutexType :: "int \<Rightarrow> mutex_type \<Rightarrow> mutex_attr \<Rightarrow> mutex_attr result" where
  "setMutexType rt ty a = throws_if rt ''pthread_mutexattr_settype failed,'' (a\<lparr>ma_type := ty\<rparr>)"

definition getMutexType :: "int \<Rightarrow> mutex_attr \<Rightarrow> mutex_type result" where
  "getMutexType rt a = throws_if rt ''pthread_mutexattr_gettype failed,'' (ma_type a)"

section \<open>The POSIX mutex\<close>

datatype robust_state = Consistent | OwnerDied | NotRecoverable

record pmutex =
  pm_type :: mutex_type
  pm_owner :: "nat option"
  pm_count :: nat
  pm_robust :: robust_state

definition pm_init :: "mutex_type \<Rightarrow> pmutex" where
  "pm_init ty = \<lparr>pm_type = ty, pm_owner = None, pm_count = 0, pm_robust = Consistent\<rparr>"

text \<open>Taking a free mutex.\<close>

definition pm_take :: "nat \<Rightarrow> pmutex \<Rightarrow> int \<times> pmutex" where
  "pm_take t m =
     (if pm_robust m = NotRecoverable then (ENOTRECOVERABLE, m)
      else (if pm_robust m = OwnerDied then EOWNERDEAD else 0, m\<lparr>pm_owner := Some t, pm_count := 1\<rparr>))"

definition pm_lock :: "nat \<Rightarrow> pmutex \<Rightarrow> (int \<times> pmutex) option" where
  "pm_lock t m = (case pm_owner m of
     None \<Rightarrow> Some (pm_take t m)
   | Some u \<Rightarrow>
       if u = t
       then (case pm_type m of
               Normal \<Rightarrow> None
             | Recursive \<Rightarrow> Some (0, m\<lparr>pm_count := Suc (pm_count m)\<rparr>)
             | Errorcheck \<Rightarrow> Some (EDEADLK, m))
       else None)"

definition pm_trylock :: "nat \<Rightarrow> pmutex \<Rightarrow> int \<times> pmutex" where
  "pm_trylock t m = (case pm_owner m of
     None \<Rightarrow> pm_take t m
   | Some u \<Rightarrow>
       if u = t \<and> pm_type m = Recursive then (0, m\<lparr>pm_count := Suc (pm_count m)\<rparr>) else (EBUSY, m))"

text \<open>A normal mutex does not check who unlocks it.\<close>

definition pm_unlock :: "nat \<Rightarrow> pmutex \<Rightarrow> int \<times> pmutex" where
  "pm_unlock t m =
     (if pm_owner m \<noteq> Some t \<and> pm_type m \<noteq> Normal then (EPERM, m)
      else if pm_type m = Recursive \<and> pm_count m > 1 then (0, m\<lparr>pm_count := pm_count m - 1\<rparr>)
      else (0, m\<lparr>pm_owner := None, pm_count := 0,
                 pm_robust := (if pm_robust m = OwnerDied then NotRecoverable else pm_robust m)\<rparr>))"

definition pm_consistent :: "pmutex \<Rightarrow> pmutex" where
  "pm_consistent m = (if pm_robust m = OwnerDied then m\<lparr>pm_robust := Consistent\<rparr> else m)"

text \<open>The thread that owns a robust mutex ends.\<close>

definition pm_owner_dies :: "pmutex \<Rightarrow> pmutex" where
  "pm_owner_dies m = (if pm_owner m = None then m
     else m\<lparr>pm_owner := None, pm_count := 0, pm_robust := OwnerDied\<rparr>)"

text \<open>
  \<open>pthread_mutex_timedlock\<close> with an absolute time in nanoseconds since 1970; \<open>None\<close> means that
  the call waits, for the owner or for the time.
\<close>

definition pm_timedlock :: "nat \<Rightarrow> int \<Rightarrow> int \<Rightarrow> int \<Rightarrow> pmutex \<Rightarrow> (int \<times> pmutex) option" where
  "pm_timedlock t now tv_sec tv_nsec m = (case pm_lock t m of
     Some r \<Rightarrow> Some r
   | None \<Rightarrow>
       if tv_nsec < 0 \<or> 1000000000 \<le> tv_nsec then Some (EINVAL, m)
       else if tv_sec * 1000000000 + tv_nsec \<le> now then Some (ETIMEDOUT, m)
       else None)"

section \<open>\<open>Mutex\<close> and \<open>recursive_mutex\<close>\<close>

definition Mutex_ctor :: "int \<Rightarrow> pmutex result" where
  "Mutex_ctor rt = throws_if rt ''pthread_mutex_lock failed,'' (pm_init Normal)"

definition Mutex_ctor_attrs :: "int \<Rightarrow> mutex_attr \<Rightarrow> pmutex result" where
  "Mutex_ctor_attrs rt attrs = throws_if rt ''pthread_mutex_lock failed,'' (pm_init (ma_type attrs))"

definition Mutex_lock :: "nat \<Rightarrow> pmutex \<Rightarrow> pmutex run" where
  "Mutex_lock t m = (case pm_lock t m of
     None \<Rightarrow> None
   | Some (rt, m') \<Rightarrow> Some (Inr (if rt = EOWNERDEAD then pm_consistent m' else m')))"

definition try_result :: "int \<Rightarrow> string \<Rightarrow> bool result" where
  "try_result rt msg =
     (if rt = EBUSY then Inr False else if rt = 0 then Inr True else Inl (Throws msg))"

definition Mutex_trylock :: "nat \<Rightarrow> pmutex \<Rightarrow> bool result \<times> pmutex" where
  "Mutex_trylock t m =
     (let (rt, m') = pm_trylock t m in (try_result rt ''pthread_mutex_trylock failed,'', m'))"

definition Mutex_unlock :: "nat \<Rightarrow> pmutex \<Rightarrow> pmutex result" where
  "Mutex_unlock t m = Inr (snd (pm_unlock t m))"

definition Mutex_timed_lock :: "nat \<Rightarrow> int \<Rightarrow> int \<Rightarrow> int \<Rightarrow> pmutex \<Rightarrow> (bool \<times> pmutex) option" where
  "Mutex_timed_lock t now sec msec m = (case pm_timedlock t now sec msec m of
     None \<Rightarrow> None
   | Some (rt, m') \<Rightarrow> Some (if rt \<noteq> 0 then (False, m') else (True, m')))"

text \<open>\<open>rt1\<close> to \<open>rt4\<close>: initialising the attributes, setting the type, initialising the mutex,
  destroying the attributes.\<close>

definition recursive_mutex_ctor :: "int \<Rightarrow> int \<Rightarrow> int \<Rightarrow> int \<Rightarrow> pmutex result" where
  "recursive_mutex_ctor rt1 rt2 rt3 rt4 =
     bindR (throws_if rt1 ''pthread_mutex_unlock failed,'' ()) (\<lambda>_.
     bindR (throws_if rt2 ''pthread_mutex_unlock failed,'' Recursive) (\<lambda>ty.
     bindR (throws_if rt3 ''pthread_mutex_unlock failed,'' (pm_init ty)) (\<lambda>m.
     throws_if rt4 ''pthread_mutex_unlock failed,'' m)))"

definition recursive_mutex_lock :: "nat \<Rightarrow> pmutex \<Rightarrow> pmutex run" where
  "recursive_mutex_lock t m = (case pm_lock t m of
     None \<Rightarrow> None
   | Some (rt, m') \<Rightarrow> Some (throws_if rt ''pthread_mutex_lock failed,'' m'))"

definition recursive_mutex_trylock :: "nat \<Rightarrow> pmutex \<Rightarrow> bool result \<times> pmutex" where
  "recursive_mutex_trylock t m =
     (let (rt, m') = pm_trylock t m in (try_result rt ''pthread_mutex_trylock failed,'', m'))"

definition recursive_mutex_unlock :: "nat \<Rightarrow> pmutex \<Rightarrow> pmutex result" where
  "recursive_mutex_unlock t m =
     (let (rt, m') = pm_unlock t m in throws_if rt ''pthread_mutex_unlock failed,'' m')"

section \<open>\<open>RWMutex\<close>\<close>

text \<open>
  The POSIX read-write lock: a writer, or a number of readers. Locking again as the writer is
  answered with \<open>EDEADLK\<close>. \<open>unlock\<close> by the writer gives the write lock back, any other unlock
  a read lock; unlocking a free lock is undefined.
\<close>

record rwlock =
  rw_owner :: "nat option"
  rw_readers :: nat

definition rw_init :: rwlock where "rw_init = \<lparr>rw_owner = None, rw_readers = 0\<rparr>"

definition rwl_rdlock :: "nat \<Rightarrow> rwlock \<Rightarrow> (int \<times> rwlock) option" where
  "rwl_rdlock t l = (case rw_owner l of
     None \<Rightarrow> Some (0, l\<lparr>rw_readers := Suc (rw_readers l)\<rparr>)
   | Some u \<Rightarrow> if u = t then Some (EDEADLK, l) else None)"

definition rwl_wrlock :: "nat \<Rightarrow> rwlock \<Rightarrow> (int \<times> rwlock) option" where
  "rwl_wrlock t l = (case rw_owner l of
     None \<Rightarrow> if rw_readers l = 0 then Some (0, l\<lparr>rw_owner := Some t\<rparr>) else None
   | Some u \<Rightarrow> if u = t then Some (EDEADLK, l) else None)"

definition rwl_unlock :: "nat \<Rightarrow> rwlock \<Rightarrow> (int \<times> rwlock) result" where
  "rwl_unlock t l =
     (if rw_owner l = Some t then Inr (0, l\<lparr>rw_owner := None\<rparr>)
      else if rw_readers l > 0 then Inr (0, l\<lparr>rw_readers := rw_readers l - 1\<rparr>)
      else Inl AssertFail)"

definition rwl_busy :: "(int \<times> rwlock) option \<Rightarrow> rwlock \<Rightarrow> int \<times> rwlock" where
  "rwl_busy r l = (case r of Some (rt, l') \<Rightarrow> if rt = 0 then (0, l') else (EBUSY, l) | None \<Rightarrow> (EBUSY, l))"

definition rwl_timed :: "int \<Rightarrow> int \<Rightarrow> int \<Rightarrow> (int \<times> rwlock) option \<Rightarrow> rwlock \<Rightarrow> (int \<times> rwlock) option" where
  "rwl_timed now tv_sec tv_nsec r l = (case r of
     Some x \<Rightarrow> Some x
   | None \<Rightarrow>
       if tv_nsec < 0 \<or> 1000000000 \<le> tv_nsec then Some (EINVAL, l)
       else if tv_sec * 1000000000 + tv_nsec \<le> now then Some (ETIMEDOUT, l)
       else None)"

text \<open>The class. An error of \<open>pthread_rwlock_init\<close> is only logged.\<close>

definition RWMutex_ctor :: "int \<Rightarrow> rwlock" where "RWMutex_ctor rt = rw_init"

definition RWMutex_rdlock :: "nat \<Rightarrow> rwlock \<Rightarrow> rwlock run" where
  "RWMutex_rdlock t l = (case rwl_rdlock t l of None \<Rightarrow> None | Some (rt, l') \<Rightarrow> Some (Inr l'))"

definition RWMutex_wrlock :: "nat \<Rightarrow> rwlock \<Rightarrow> rwlock run" where
  "RWMutex_wrlock t l = (case rwl_wrlock t l of None \<Rightarrow> None | Some (rt, l') \<Rightarrow> Some (Inr l'))"

definition RWMutex_try_rdlock :: "nat \<Rightarrow> rwlock \<Rightarrow> bool result \<times> rwlock" where
  "RWMutex_try_rdlock t l = (let (rt, l') = rwl_busy (rwl_rdlock t l) l
     in (Inr (if rt = EBUSY then False else if rt = 0 then True else False), l'))"

definition RWMutex_try_wrlock :: "nat \<Rightarrow> rwlock \<Rightarrow> bool result \<times> rwlock" where
  "RWMutex_try_wrlock t l = (let (rt, l') = rwl_busy (rwl_wrlock t l) l
     in (Inr (if rt = EBUSY then False else if rt = 0 then True else False), l'))"

definition RWMutex_unlock :: "nat \<Rightarrow> rwlock \<Rightarrow> rwlock result" where
  "RWMutex_unlock t l = bindR (rwl_unlock t l) (\<lambda>(rt, l'). Inr l')"

definition RWMutex_time_rdlock :: "nat \<Rightarrow> int \<Rightarrow> int \<Rightarrow> int \<Rightarrow> rwlock \<Rightarrow> (bool \<times> rwlock) option" where
  "RWMutex_time_rdlock t now sec msec l = (case rwl_timed now sec msec (rwl_rdlock t l) l of
     None \<Rightarrow> None | Some (rt, l') \<Rightarrow> Some (rt = 0, l'))"

definition RWMutex_time_wrlock :: "nat \<Rightarrow> int \<Rightarrow> int \<Rightarrow> int \<Rightarrow> rwlock \<Rightarrow> (bool \<times> rwlock) option" where
  "RWMutex_time_wrlock t now sec msec l = (case rwl_timed now sec msec (rwl_wrlock t l) l of
     None \<Rightarrow> None | Some (rt, l') \<Rightarrow> Some (rt = 0, l'))"

section \<open>\<open>Spinlock\<close> and \<open>CASLock\<close>\<close>

text \<open>
  A POSIX spin lock may detect that its owner locks it again; \<open>detects\<close> says whether it does.
\<close>

definition ps_lock :: "bool \<Rightarrow> nat \<Rightarrow> nat option \<Rightarrow> (int \<times> nat option) option" where
  "ps_lock detects t s = (case s of
     None \<Rightarrow> Some (0, Some t)
   | Some u \<Rightarrow> if u = t \<and> detects then Some (EDEADLK, s) else None)"

definition Spinlock_ctor :: "int \<Rightarrow> nat option result" where
  "Spinlock_ctor rt = throws_if rt ''pthread_rwlock_timedrdlock failed'' None"

definition Spinlock_lock :: "bool \<Rightarrow> nat \<Rightarrow> nat option \<Rightarrow> nat option run" where
  "Spinlock_lock detects t s = (case ps_lock detects t s of
     None \<Rightarrow> None
   | Some (rt, s') \<Rightarrow>
       if rt = EDEADLK then Some (Inr s') else Some (throws_if rt ''pthread_spin_lock failed'' s'))"

definition Spinlock_unlock :: "nat \<Rightarrow> nat option \<Rightarrow> nat option result" where
  "Spinlock_unlock t s = throws_if 0 ''pthread_spin_unlock failed'' None"

definition Spinlock_trylock :: "nat \<Rightarrow> nat option \<Rightarrow> nat option result" where
  "Spinlock_trylock t s =
     (let (rt, s') = (case s of None \<Rightarrow> (0, Some t) | Some u \<Rightarrow> (EBUSY, s))
      in throws_if rt ''pthread_spin_trylock failed'' s')"

text \<open>The state of a \<open>CASLock\<close> is its atomic flag.\<close>

definition CASLock_ctor :: bool where "CASLock_ctor = False"

definition test_and_set :: "bool \<Rightarrow> bool \<times> bool" where "test_and_set flag = (flag, True)"

definition CASLock_lock :: "nat \<Rightarrow> bool \<Rightarrow> bool run" where
  "CASLock_lock t flag =
     loop (\<lambda>flag. let (old, flag') = test_and_set flag
                  in if old then Inr (Inl flag') else Inr (Inr flag')) flag"

definition CASLock_unlock :: "nat \<Rightarrow> bool \<Rightarrow> bool result" where "CASLock_unlock t flag = Inr False"

lemma CASLock_lock_simps [simp]:
  "CASLock_lock t False = Some (Inr True)"
  "CASLock_lock t True = None"
proof -
  show "CASLock_lock t False = Some (Inr True)"
    unfolding CASLock_lock_def by (rule loop_steps(2)) (simp add: test_and_set_def)
  show "CASLock_lock t True = None"
    unfolding CASLock_lock_def
    by (rule loop_diverges [where S = "{True}"]) (simp_all add: test_and_set_def)
qed

section \<open>Scoped guards\<close>

text \<open>
  \<open>ScopedLock\<close> holds a reference to its lock and a flag; here the lock is passed along. The
  operations of the lock are arguments: \<open>WriteScopedLock\<close> and \<open>ReadScopedLock\<close> have the
  same code over \<open>wrlock\<close> and \<open>rdlock\<close>.
\<close>

definition guard_ctor :: "(nat \<Rightarrow> 's \<Rightarrow> 's run) \<Rightarrow> nat \<Rightarrow> 's \<Rightarrow> ('s \<times> bool) run" where
  "guard_ctor lock t s = bindO (lock t s) (\<lambda>s'. Some (Inr (s', True)))"

definition guard_lock :: "(nat \<Rightarrow> 's \<Rightarrow> 's run) \<Rightarrow> nat \<Rightarrow> 's \<times> bool \<Rightarrow> ('s \<times> bool) run" where
  "guard_lock lock t g =
     (if \<not> snd g then bindO (lock t (fst g)) (\<lambda>s'. Some (Inr (s', True))) else Some (Inr g))"

definition guard_trylock ::
  "(nat \<Rightarrow> 's \<Rightarrow> bool result \<times> 's) \<Rightarrow> nat \<Rightarrow> 's \<times> bool \<Rightarrow> bool result \<times> ('s \<times> bool)" where
  "guard_trylock trylock t g =
     (if \<not> snd g
      then (case trylock t (fst g) of
              (Inl e, s') \<Rightarrow> (Inl e, (s', snd g))
            | (Inr b, s') \<Rightarrow> (Inr b, (s', b)))
      else (Inr (snd g), g))"

definition guard_unlock :: "(nat \<Rightarrow> 's \<Rightarrow> 's result) \<Rightarrow> nat \<Rightarrow> 's \<times> bool \<Rightarrow> ('s \<times> bool) result" where
  "guard_unlock unlock t g =
     (if snd g then bindR (unlock t (fst g)) (\<lambda>s'. Inr (s', False)) else Inr g)"

definition guard_dtor :: "(nat \<Rightarrow> 's \<Rightarrow> 's result) \<Rightarrow> nat \<Rightarrow> 's \<times> bool \<Rightarrow> 's result" where
  "guard_dtor unlock t g = (if snd g then unlock t (fst g) else Inr (fst g))"

section \<open>What a guard relies on\<close>

text \<open>
  Threads that use guards over one shared lock, one guard per thread at a time: the state of the
  lock and, for each thread, the flag of its guard if it has one. An operation that blocks leaves
  everything as it is, to be tried again later. \<open>trylock\<close> is \<open>None\<close> for a lock class
  without a \<open>trylock\<close> a guard could use.
\<close>

datatype guard_op = GCtor | GLock | GTry | GUnlock | GDtor

record 's guarded =
  shared :: 's
  guards :: "nat \<Rightarrow> bool option"

definition put_guard :: "nat \<Rightarrow> 's guarded \<Rightarrow> 's \<times> bool \<Rightarrow> 's guarded" where
  "put_guard t c g = c\<lparr>shared := fst g, guards := (guards c)(t := Some (snd g))\<rparr>"

definition guard_step ::
  "(nat \<Rightarrow> 's \<Rightarrow> 's run) \<Rightarrow> (nat \<Rightarrow> 's \<Rightarrow> bool result \<times> 's) option \<Rightarrow> (nat \<Rightarrow> 's \<Rightarrow> 's result) \<Rightarrow>
   nat \<Rightarrow> guard_op \<Rightarrow> 's guarded \<Rightarrow> 's guarded run" where
  "guard_step lock trylock unlock t op c = (case guards c t of
     None \<Rightarrow>
       (if op = GCtor then bindO (guard_ctor lock t (shared c)) (\<lambda>g. Some (Inr (put_guard t c g)))
        else Some (Inr c))
   | Some b \<Rightarrow> (case op of
       GCtor \<Rightarrow> Some (Inr c)
     | GLock \<Rightarrow> bindO (guard_lock lock t (shared c, b)) (\<lambda>g. Some (Inr (put_guard t c g)))
     | GTry \<Rightarrow> (case trylock of
           None \<Rightarrow> Some (Inr c)
         | Some f \<Rightarrow> (case guard_trylock f t (shared c, b) of
               (Inl e, g) \<Rightarrow> Some (Inl e)
             | (Inr r, g) \<Rightarrow> Some (Inr (put_guard t c g))))
     | GUnlock \<Rightarrow> bindO (Some (guard_unlock unlock t (shared c, b))) (\<lambda>g. Some (Inr (put_guard t c g)))
     | GDtor \<Rightarrow> bindO (Some (guard_dtor unlock t (shared c, b)))
         (\<lambda>s. Some (Inr (c\<lparr>shared := s, guards := (guards c)(t := None)\<rparr>)))))"

fun guard_run ::
  "(nat \<Rightarrow> 's \<Rightarrow> 's run) \<Rightarrow> (nat \<Rightarrow> 's \<Rightarrow> bool result \<times> 's) option \<Rightarrow> (nat \<Rightarrow> 's \<Rightarrow> 's result) \<Rightarrow>
   (nat \<times> guard_op) list \<Rightarrow> 's guarded \<Rightarrow> 's guarded result" where
  "guard_run lock trylock unlock [] c = Inr c"
| "guard_run lock trylock unlock (x # xs) c =
     (case guard_step lock trylock unlock (fst x) (snd x) c of
        None \<Rightarrow> guard_run lock trylock unlock xs c
      | Some (Inl e) \<Rightarrow> Inl e
      | Some (Inr c') \<Rightarrow> guard_run lock trylock unlock xs c')"

definition guard_init :: "'s \<Rightarrow> 's guarded" where
  "guard_init s = \<lparr>shared = s, guards = (\<lambda>_. None)\<rparr>"

definition inside :: "'s guarded \<Rightarrow> nat \<Rightarrow> bool" where "inside c t \<longleftrightarrow> guards c t = Some True"

lemma put_guard_simps [simp]:
  "shared (put_guard t c g) = fst g"
  "inside (put_guard t c g) u \<longleftrightarrow> (if u = t then snd g else inside c u)"
  by (auto simp: put_guard_def inside_def)

lemma put_guard_same: "guards c t = Some b \<Longrightarrow> put_guard t c (shared c, b) = c"
  by (cases c) (auto simp: put_guard_def)

text \<open>
  The contract of a lock: it is free or held by one thread, taking a free one succeeds, a thread
  that does not hold it blocks, or is told by \<open>trylock\<close>, and the holder can give it back.
\<close>

locale lockable =
  fixes lock :: "nat \<Rightarrow> 's \<Rightarrow> 's run"
    and trylock :: "(nat \<Rightarrow> 's \<Rightarrow> bool result \<times> 's) option"
    and unlock :: "nat \<Rightarrow> 's \<Rightarrow> 's result"
    and free :: "'s \<Rightarrow> bool"
    and held_by :: "nat \<Rightarrow> 's \<Rightarrow> bool"
  assumes lock_free: "free s \<Longrightarrow> \<exists>s'. lock t s = Some (Inr s') \<and> held_by t s'"
    and lock_held: "held_by u s \<Longrightarrow> u \<noteq> t \<Longrightarrow> lock t s = None"
    and try_free: "trylock = Some f \<Longrightarrow> free s \<Longrightarrow> \<exists>s'. f t s = (Inr True, s') \<and> held_by t s'"
    and try_held: "trylock = Some f \<Longrightarrow> held_by u s \<Longrightarrow> u \<noteq> t \<Longrightarrow> f t s = (Inr False, s)"
    and unlock_holder: "held_by t s \<Longrightarrow> \<exists>s'. unlock t s = Inr s' \<and> free s'"
begin

definition excl :: "'s guarded \<Rightarrow> bool" where
  "excl c \<longleftrightarrow> ((\<forall>t. \<not> inside c t) \<and> free (shared c)) \<or>
     (\<exists>t. held_by t (shared c) \<and> (\<forall>u. inside c u \<longleftrightarrow> u = t))"

lemma excl_put: "free s \<Longrightarrow> (\<And>u. \<not> inside c u \<or> u = t) \<Longrightarrow> excl (put_guard t c (s, False))"
  by (auto simp: excl_def)

lemma excl_take: "held_by t s \<Longrightarrow> (\<And>u. \<not> inside c u) \<Longrightarrow> excl (put_guard t c (s, True))"
  by (auto simp: excl_def)

lemma excl_same: "excl c \<Longrightarrow> guards c t \<noteq> Some True \<Longrightarrow> excl (put_guard t c (shared c, False))"
  by (auto simp: excl_def inside_def put_guard_def)

lemma excl_cases:
  assumes "excl c"
  obtains (nobody) "\<And>u. \<not> inside c u" "free (shared c)"
    | (somebody) t where "held_by t (shared c)" "\<And>u. inside c u \<longleftrightarrow> u = t"
  using assms unfolding excl_def by blast

lemma take_excl:
  assumes "excl c" and "guards c t \<noteq> Some True" and "lock t (shared c) = Some r"
  shows "\<exists>s. r = Inr s \<and> excl (put_guard t c (s, True))"
  using assms(1)
proof (cases rule: excl_cases)
  case nobody
  with lock_free [of "shared c" t] assms(3) show ?thesis by (auto intro: excl_take)
next
  case (somebody u)
  with assms(2) have "u \<noteq> t" by (auto simp: inside_def)
  with lock_held [OF somebody(1)] assms(3) show ?thesis by simp
qed

lemma try_excl:
  assumes "excl c" and "guards c t \<noteq> Some True" and "trylock = Some f"
  shows "\<exists>b s. f t (shared c) = (Inr b, s) \<and> excl (put_guard t c (s, b))"
  using assms(1)
proof (cases rule: excl_cases)
  case nobody
  with try_free [OF assms(3), of "shared c" t] show ?thesis by (auto intro: excl_take)
next
  case (somebody u)
  with assms(2) have "u \<noteq> t" by (auto simp: inside_def)
  from try_held [OF assms(3) somebody(1) this] excl_same [OF assms(1,2)] show ?thesis by (auto intro: exI [of _ False])
qed

lemma give_excl:
  assumes "excl c" and "guards c t = Some True"
  shows "\<exists>s. unlock t (shared c) = Inr s \<and> free s \<and> excl (put_guard t c (s, False))"
  using assms(1)
proof (cases rule: excl_cases)
  case nobody
  with assms(2) show ?thesis by (simp add: inside_def)
next
  case (somebody u)
  with assms(2) have "u = t" by (simp add: inside_def)
  with unlock_holder [OF somebody(1)] somebody(2) show ?thesis by (auto intro: excl_put)
qed

lemma excl_drop: "excl (put_guard t c (s, False)) \<Longrightarrow> excl (c\<lparr>shared := s, guards := (guards c)(t := None)\<rparr>)"
  by (auto simp: excl_def put_guard_def inside_def split: if_splits)

lemma step_excl:
  assumes "excl c" and "guard_step lock trylock unlock t op c = Some r"
  shows "\<exists>c'. r = Inr c' \<and> excl c'"
proof (cases "guards c t")
  case None
  then show ?thesis using assms take_excl [OF assms(1), of t]
    by (cases "lock t (shared c)") (auto simp: guard_step_def guard_ctor_def split: if_splits)
next
  case (Some b)
  have d: "excl (c\<lparr>shared := shared c, guards := (guards c)(t := None)\<rparr>)" if "\<not> b"
    using excl_drop [OF excl_same [OF assms(1)]] that Some by simp
  have s: "excl (put_guard t c (shared c, b))"
    using assms(1) Some by (simp add: put_guard_same)
  show ?thesis
  proof (cases op)
    case GCtor
    with assms Some show ?thesis by (auto simp: guard_step_def)
  next
    case GLock
    with assms Some s take_excl [OF assms(1), of t] show ?thesis
      by (cases b; cases "lock t (shared c)") (auto simp: guard_step_def guard_lock_def)
  next
    case GTry
    with assms Some s try_excl [OF assms(1), of t] show ?thesis
      by (cases b; cases trylock) (auto simp: guard_step_def guard_trylock_def)
  next
    case GUnlock
    with assms Some s give_excl [OF assms(1), of t] show ?thesis
      by (cases b) (auto simp: guard_step_def guard_unlock_def)
  next
    case GDtor
    with assms Some d give_excl [OF assms(1), of t] show ?thesis
      by (cases b) (auto simp: guard_step_def guard_dtor_def intro: excl_drop)
  qed
qed

lemma run_excl: "excl c \<Longrightarrow> \<exists>c'. guard_run lock trylock unlock ops c = Inr c' \<and> excl c'"
proof (induction ops arbitrary: c)
  case Nil
  then show ?case by simp
next
  case (Cons x xs)
  show ?case
  proof (cases "guard_step lock trylock unlock (fst x) (snd x) c")
    case None
    with Cons show ?thesis by simp
  next
    case (Some r)
    with step_excl [OF Cons.prems Some] Cons.IH show ?thesis by auto
  qed
qed

lemma excl_init: "free s \<Longrightarrow> excl (guard_init s)"
  by (simp add: excl_def guard_init_def inside_def)

text \<open>Guards exclude each other, and a thread can enter exactly when nobody is inside.\<close>

lemma guards_exclude:
  assumes "free s"
  shows "\<exists>c. guard_run lock trylock unlock ops (guard_init s) = Inr c \<and>
    (\<forall>t u. inside c t \<longrightarrow> inside c u \<longrightarrow> t = u) \<and>
    (\<forall>t. \<not> inside c t \<longrightarrow> (lock t (shared c) \<noteq> None \<longleftrightarrow> (\<forall>u. \<not> inside c u)))"
proof -
  obtain c where c: "guard_run lock trylock unlock ops (guard_init s) = Inr c" "excl c"
    using run_excl [OF excl_init [OF assms]] by blast
  from c(2) have "(\<forall>t u. inside c t \<longrightarrow> inside c u \<longrightarrow> t = u) \<and>
      (\<forall>t. \<not> inside c t \<longrightarrow> (lock t (shared c) \<noteq> None \<longleftrightarrow> (\<forall>u. \<not> inside c u)))"
  proof (cases rule: excl_cases)
    case nobody
    then show ?thesis using lock_free [OF nobody(2)] by auto
  next
    case (somebody t)
    then show ?thesis using lock_held [OF somebody(1)] by auto
  qed
  with c(1) show ?thesis by blast
qed

end

section \<open>The lock classes keep the contract\<close>

text \<open>A mutex of any type whose owner has not died, locked at most once.\<close>

definition pm_idle :: "pmutex \<Rightarrow> bool" where
  "pm_idle m \<longleftrightarrow> pm_owner m = None \<and> pm_robust m = Consistent"

definition pm_held :: "nat \<Rightarrow> pmutex \<Rightarrow> bool" where
  "pm_held t m \<longleftrightarrow> pm_owner m = Some t \<and> pm_count m = 1 \<and> pm_robust m = Consistent"

lemmas pm_defs = pm_idle_def pm_held_def pm_lock_def pm_trylock_def pm_unlock_def pm_take_def try_result_def

interpretation mu: lockable Mutex_lock "Some Mutex_trylock" Mutex_unlock pm_idle pm_held
  by unfold_locales
    (auto simp: pm_defs Mutex_lock_def Mutex_trylock_def Mutex_unlock_def errno_consts)

interpretation rm: lockable recursive_mutex_lock "Some recursive_mutex_trylock" recursive_mutex_unlock
    pm_idle pm_held
  by unfold_locales
    (auto simp: pm_defs recursive_mutex_lock_def recursive_mutex_trylock_def recursive_mutex_unlock_def
      errno_consts)

interpretation sp: lockable "Spinlock_lock detects" None Spinlock_unlock "\<lambda>s. s = None" "\<lambda>t s. s = Some t"
  for detects
  by unfold_locales (auto simp: Spinlock_lock_def ps_lock_def Spinlock_unlock_def errno_consts)

interpretation cas: lockable CASLock_lock None CASLock_unlock "\<lambda>s. \<not> s" "\<lambda>t s. s"
  by unfold_locales (auto simp: CASLock_unlock_def)

interpretation wr: lockable RWMutex_wrlock "Some RWMutex_try_wrlock" RWMutex_unlock
    "\<lambda>l. rw_owner l = None \<and> rw_readers l = 0" "\<lambda>t l. rw_owner l = Some t \<and> rw_readers l = 0"
  by unfold_locales
    (auto simp: RWMutex_wrlock_def RWMutex_try_wrlock_def RWMutex_unlock_def rwl_wrlock_def rwl_unlock_def
      rwl_busy_def errno_consts)



text \<open>
  A thread that opens a second guard inside its first breaks the exclusion: the error
  \<open>EDEADLK\<close> of the second lock is ignored, its destructor releases the lock of the first guard,
  and another thread enters. This happens with an error-checking \<open>Mutex\<close>, and with an
  \<open>RWMutex\<close> when the writer reads, which is what the descriptor table does.
\<close>

theorem nested_guard_releases_outer:
  assumes "t \<noteq> u"
  shows "(let outer = guard_ctor RWMutex_wrlock t rw_init;
        inner = bindO outer (\<lambda>(l, _). guard_ctor RWMutex_rdlock t l);
        after = bindO inner (\<lambda>g. Some (guard_dtor RWMutex_unlock t g))
      in bindO after (RWMutex_wrlock u)) = Some (Inr \<lparr>rw_owner = Some u, rw_readers = 0\<rparr>) \<and>
    (let outer = guard_ctor Mutex_lock t (pm_init Errorcheck);
        inner = bindO outer (\<lambda>(m, _). guard_ctor Mutex_lock t m);
        after = bindO inner (\<lambda>g. Some (guard_dtor Mutex_unlock t g))
      in bindO after (Mutex_lock u)) =
      Some (Inr \<lparr>pm_type = Errorcheck, pm_owner = Some u, pm_count = 1, pm_robust = Consistent\<rparr>)"
  using assms
  by (simp add: guard_ctor_def guard_dtor_def RWMutex_wrlock_def RWMutex_rdlock_def RWMutex_unlock_def
      rwl_wrlock_def rwl_rdlock_def rwl_unlock_def rw_init_def Mutex_lock_def Mutex_unlock_def pm_defs
      pm_init_def errno_consts)

lemma nested_guard_releases_outer_witness:
  "bindO (bindO (bindO (guard_ctor RWMutex_wrlock 1 rw_init) (\<lambda>(l, _). guard_ctor RWMutex_rdlock 1 l))
      (\<lambda>g. Some (guard_dtor RWMutex_unlock 1 g))) (RWMutex_wrlock 2) =
    Some (Inr \<lparr>rw_owner = Some 2, rw_readers = 0\<rparr>)"
  using nested_guard_releases_outer [of 1 2] by (simp add: Let_def)

text \<open>
  The timed locks take a duration, but hand it to POSIX as a time since 1970: on a lock that
  another thread holds they never wait and report failure at once. The milliseconds are also used
  as nanoseconds.
\<close>

theorem timed_lock_never_waits:
  assumes "0 \<le> msec" and "msec < 1000000000" and "(sec + 1) * 1000000000 \<le> now" and "t \<noteq> u"
  shows "(pm_owner m = Some u \<longrightarrow> Mutex_timed_lock t now sec msec m = Some (False, m)) \<and>
    (rw_owner l = Some u \<longrightarrow> RWMutex_time_rdlock t now sec msec l = Some (False, l) \<and>
      RWMutex_time_wrlock t now sec msec l = Some (False, l))"
  using assms
  by (auto simp: Mutex_timed_lock_def pm_timedlock_def pm_lock_def RWMutex_time_rdlock_def
      RWMutex_time_wrlock_def rwl_timed_def rwl_rdlock_def rwl_wrlock_def errno_consts)

lemma timed_lock_never_waits_witness:
  "Mutex_timed_lock 1 1700000000000000000 60 0 ((pm_init Normal)\<lparr>pm_owner := Some 2, pm_count := 1\<rparr>) =
    Some (False, (pm_init Normal)\<lparr>pm_owner := Some 2, pm_count := 1\<rparr>)"
  using timed_lock_never_waits [of 0 60 1700000000000000000 1 2] by simp

text \<open>
  When the owner of a robust mutex has ended, \<open>lock\<close> takes the mutex over and makes it usable
  again, whereas \<open>trylock\<close> throws although it has locked the mutex; after the unlock that mutex can
  never be locked again, and \<open>lock\<close> then returns as if it had been.
\<close>

theorem owner_death:
  assumes "pm_owner m = None" and "pm_robust m = OwnerDied" and "pm_type m = Normal"
  shows "Mutex_lock t m = Some (Inr (m\<lparr>pm_owner := Some t, pm_count := 1, pm_robust := Consistent\<rparr>)) \<and>
    (\<exists>m1 m2. Mutex_trylock t m = (Inl (Throws ''pthread_mutex_trylock failed,''), m1) \<and>
      pm_owner m1 = Some t \<and> Mutex_unlock t m1 = Inr m2 \<and> Mutex_lock u m2 = Some (Inr m2) \<and>
      pm_owner m2 = None)"
  using assms
  by (simp add: Mutex_lock_def Mutex_trylock_def Mutex_unlock_def pm_defs pm_consistent_def errno_consts)

lemma owner_death_witness:
  "Mutex_lock 3 (pm_owner_dies ((pm_init Normal)\<lparr>pm_owner := Some 2, pm_count := 1\<rparr>)) =
    Some (Inr ((pm_init Normal)\<lparr>pm_owner := Some 3, pm_count := 1\<rparr>))"
  using owner_death [of "pm_owner_dies ((pm_init Normal)\<lparr>pm_owner := Some 2, pm_count := 1\<rparr>)" 3 0]
  by (simp add: pm_owner_dies_def pm_init_def)

text \<open>The depth of a \<open>recursive_mutex\<close>.\<close>

primrec lock_times :: "nat \<Rightarrow> nat \<Rightarrow> pmutex \<Rightarrow> pmutex run" where
  "lock_times 0 t m = Some (Inr m)"
| "lock_times (Suc n) t m = bindO (lock_times n t m) (recursive_mutex_lock t)"

primrec unlock_times :: "nat \<Rightarrow> nat \<Rightarrow> pmutex \<Rightarrow> pmutex result" where
  "unlock_times 0 t m = Inr m"
| "unlock_times (Suc n) t m = bindR (recursive_mutex_unlock t m) (unlock_times n t)"

definition pm_depth :: "nat \<Rightarrow> nat \<Rightarrow> pmutex" where
  "pm_depth n t = (if n = 0 then pm_init Recursive
     else \<lparr>pm_type = Recursive, pm_owner = Some t, pm_count = n, pm_robust = Consistent\<rparr>)"

lemma lock_times_depth: "lock_times n t (pm_init Recursive) = Some (Inr (pm_depth n t))"
  by (induction n) (auto simp: recursive_mutex_lock_def pm_defs pm_init_def pm_depth_def errno_consts)

lemma unlock_depth: "recursive_mutex_unlock t (pm_depth (Suc n) t) = Inr (pm_depth n t)"
  by (auto simp: recursive_mutex_unlock_def pm_defs pm_init_def pm_depth_def)

lemma unlock_times_depth: "k \<le> n \<Longrightarrow> unlock_times k t (pm_depth n t) = Inr (pm_depth (n - k) t)"
proof (induction k arbitrary: n)
  case 0
  then show ?case by simp
next
  case (Suc k)
  then obtain l where "n = Suc l" by (cases n) auto
  with Suc show ?case by (simp add: unlock_depth)
qed

text \<open>
  \<open>recursive_mutex\<close> counts: after \<open>n\<close> locks by a thread and \<open>k\<close> unlocks, another thread
  gets the mutex exactly if \<open>k = n\<close>, and one more unlock then throws.
\<close>

theorem recursive_mutex_counts:
  assumes "k \<le> n" and "t \<noteq> u"
  shows "\<exists>m m'. lock_times n t (pm_init Recursive) = Some (Inr m) \<and> unlock_times k t m = Inr m' \<and>
    (recursive_mutex_lock u m' \<noteq> None \<longleftrightarrow> k = n) \<and>
    (k = n \<longrightarrow> recursive_mutex_unlock t m' = Inl (Throws ''pthread_mutex_unlock failed,''))"
proof -
  have "recursive_mutex_lock u (pm_depth (n - k) t) \<noteq> None \<longleftrightarrow> k = n"
    using assms by (auto simp: recursive_mutex_lock_def pm_defs pm_depth_def pm_init_def)
  moreover have "recursive_mutex_unlock t (pm_depth 0 t) = Inl (Throws ''pthread_mutex_unlock failed,'')"
    by (simp add: recursive_mutex_unlock_def pm_defs pm_depth_def pm_init_def errno_consts)
  ultimately show ?thesis by (simp add: lock_times_depth unlock_times_depth [OF assms(1)])
qed

lemma recursive_mutex_counts_witness:
  "\<exists>m m'. lock_times 3 1 (pm_init Recursive) = Some (Inr m) \<and> unlock_times 2 1 m = Inr m' \<and>
    recursive_mutex_lock 2 m' = None"
  using recursive_mutex_counts [of 2 3 1 2] by simp

section \<open>Readers and writers\<close>

text \<open>
  Threads that use \<open>ReadScopedLock\<close> and \<open>WriteScopedLock\<close> over one \<open>RWMutex\<close>, one guard per
  thread at a time: whether the guard is a write guard, and its flag.
\<close>

datatype rw_op = OpenRead | OpenWrite | Relock | Retry | Unlock | Close

record rw_conf =
  rw_lock :: rwlock
  rw_guards :: "nat \<Rightarrow> (bool \<times> bool) option"

definition rw_put :: "nat \<Rightarrow> bool \<Rightarrow> rw_conf \<Rightarrow> rwlock \<times> bool \<Rightarrow> rw_conf" where
  "rw_put t w c g = c\<lparr>rw_lock := fst g, rw_guards := (rw_guards c)(t := Some (w, snd g))\<rparr>"

definition lock_of :: "bool \<Rightarrow> nat \<Rightarrow> rwlock \<Rightarrow> rwlock run" where
  "lock_of w = (if w then RWMutex_wrlock else RWMutex_rdlock)"

definition try_of :: "bool \<Rightarrow> nat \<Rightarrow> rwlock \<Rightarrow> bool result \<times> rwlock" where
  "try_of w = (if w then RWMutex_try_wrlock else RWMutex_try_rdlock)"

definition rw_step :: "nat \<Rightarrow> rw_op \<Rightarrow> rw_conf \<Rightarrow> rw_conf run" where
  "rw_step t op c = (case rw_guards c t of
     None \<Rightarrow>
       (if op = OpenRead \<or> op = OpenWrite
        then bindO (guard_ctor (lock_of (op = OpenWrite)) t (rw_lock c))
               (\<lambda>g. Some (Inr (rw_put t (op = OpenWrite) c g)))
        else Some (Inr c))
   | Some (w, b) \<Rightarrow> (case op of
       OpenRead \<Rightarrow> Some (Inr c)
     | OpenWrite \<Rightarrow> Some (Inr c)
     | Relock \<Rightarrow> bindO (guard_lock (lock_of w) t (rw_lock c, b)) (\<lambda>g. Some (Inr (rw_put t w c g)))
     | Retry \<Rightarrow> (case guard_trylock (try_of w) t (rw_lock c, b) of
           (Inl e, g) \<Rightarrow> Some (Inl e)
         | (Inr r, g) \<Rightarrow> Some (Inr (rw_put t w c g)))
     | Unlock \<Rightarrow> bindO (Some (guard_unlock RWMutex_unlock t (rw_lock c, b)))
         (\<lambda>g. Some (Inr (rw_put t w c g)))
     | Close \<Rightarrow> bindO (Some (guard_dtor RWMutex_unlock t (rw_lock c, b)))
         (\<lambda>l. Some (Inr (c\<lparr>rw_lock := l, rw_guards := (rw_guards c)(t := None)\<rparr>)))))"

fun rw_run :: "(nat \<times> rw_op) list \<Rightarrow> rw_conf \<Rightarrow> rw_conf result" where
  "rw_run [] c = Inr c"
| "rw_run (x # xs) c = (case rw_step (fst x) (snd x) c of
     None \<Rightarrow> rw_run xs c | Some (Inl e) \<Rightarrow> Inl e | Some (Inr c') \<Rightarrow> rw_run xs c')"

definition rw_start :: rw_conf where "rw_start = \<lparr>rw_lock = rw_init, rw_guards = (\<lambda>_. None)\<rparr>"

text \<open>The lock agrees with the guards: its owner is the thread that writes, and it counts the readers.\<close>

definition reading :: "rw_conf \<Rightarrow> nat set" where "reading c = {t. rw_guards c t = Some (False, True)}"
definition writing :: "rw_conf \<Rightarrow> nat set" where "writing c = {t. rw_guards c t = Some (True, True)}"

definition rw_ok :: "rw_conf \<Rightarrow> bool" where
  "rw_ok c \<longleftrightarrow> finite (reading c) \<and> rw_readers (rw_lock c) = card (reading c) \<and>
     writing c = set_option (rw_owner (rw_lock c)) \<and> (rw_owner (rw_lock c) \<noteq> None \<longrightarrow> reading c = {})"

lemma reading_put:
  "reading (rw_put t w c (l, b)) = (if \<not> w \<and> b then insert t (reading c) else reading c - {t})"
  "writing (rw_put t w c (l, b)) = (if w \<and> b then insert t (writing c) else writing c - {t})"
  by (auto simp: reading_def writing_def rw_put_def)

lemma reading_close:
  "reading (c\<lparr>rw_lock := l, rw_guards := (rw_guards c)(t := None)\<rparr>) = reading c - {t}"
  "writing (c\<lparr>rw_lock := l, rw_guards := (rw_guards c)(t := None)\<rparr>) = writing c - {t}"
  by (auto simp: reading_def writing_def)

lemma rw_put_lock [simp]: "rw_lock (rw_put t w c g) = fst g"
  by (simp add: rw_put_def)

lemma rw_put_same: "rw_guards c t = Some (w, b) \<Longrightarrow> rw_put t w c (rw_lock c, b) = c"
  by (cases c) (auto simp: rw_put_def)

lemma not_in_sections:
  "rw_guards c t = None \<or> rw_guards c t = Some (w, False) \<Longrightarrow> t \<notin> reading c \<and> t \<notin> writing c"
  by (auto simp: reading_def writing_def)

lemma rw_take:
  assumes "rw_ok c" and "t \<notin> reading c" and "t \<notin> writing c" and "lock_of w t (rw_lock c) = Some r"
  shows "\<exists>l. r = Inr l \<and> rw_ok (rw_put t w c (l, True))"
  using assms
  by (auto simp: rw_ok_def lock_of_def RWMutex_wrlock_def RWMutex_rdlock_def rwl_wrlock_def rwl_rdlock_def
      reading_put split: if_splits option.splits)

lemma rw_retry:
  assumes "rw_ok c" and "t \<notin> reading c" and "t \<notin> writing c"
  shows "\<exists>b l. try_of w t (rw_lock c) = (Inr b, l) \<and> rw_ok (rw_put t w c (l, b))"
  using assms
  by (auto simp: rw_ok_def try_of_def RWMutex_try_wrlock_def RWMutex_try_rdlock_def rwl_wrlock_def
      rwl_rdlock_def rwl_busy_def reading_put errno_consts split: if_splits option.splits)

lemma rw_give:
  assumes "rw_ok c" and "rw_guards c t = Some (w, True)"
  shows "\<exists>l. RWMutex_unlock t (rw_lock c) = Inr l \<and> rw_ok (rw_put t w c (l, False)) \<and>
    rw_ok (c\<lparr>rw_lock := l, rw_guards := (rw_guards c)(t := None)\<rparr>)"
proof (cases w)
  case True
  then have "t \<in> writing c" using assms(2) by (simp add: writing_def)
  then have "rw_owner (rw_lock c) = Some t" using assms(1) by (simp add: rw_ok_def)
  with assms(1) True show ?thesis
    by (simp add: rw_ok_def RWMutex_unlock_def rwl_unlock_def reading_put reading_close)
next
  case False
  then have t: "t \<in> reading c" using assms(2) by (simp add: reading_def)
  then have "rw_owner (rw_lock c) = None" "card (reading c) > 0"
    using assms(1) by (auto simp: rw_ok_def card_gt_0_iff)
  with assms(1) t False show ?thesis
    by (simp add: rw_ok_def RWMutex_unlock_def rwl_unlock_def reading_put reading_close)
qed

lemma rw_close:
  assumes "rw_ok c" and "t \<notin> reading c" and "t \<notin> writing c" and "l = rw_lock c"
  shows "rw_ok (c\<lparr>rw_lock := l, rw_guards := (rw_guards c)(t := None)\<rparr>)"
  using assms(1-3) unfolding rw_ok_def reading_close by (simp add: assms(4))

lemma rw_step_ok:
  assumes "rw_ok c" and "rw_step t op c = Some r"
  shows "\<exists>c'. r = Inr c' \<and> rw_ok c'"
proof (cases "rw_guards c t")
  case None
  then have "t \<notin> reading c" "t \<notin> writing c" using not_in_sections by blast+
  from rw_take [OF assms(1) this] None assms show ?thesis
    by (cases "lock_of (op = OpenWrite) t (rw_lock c)")
      (fastforce simp: rw_step_def guard_ctor_def split: if_splits)+
next
  case (Some wb)
  then obtain w b where g: "rw_guards c t = Some (w, b)" by (cases wb) auto
  have s: "rw_ok (rw_put t w c (rw_lock c, b))" using assms(1) g by (simp add: rw_put_same)
  show ?thesis
  proof (cases b)
    case True
    with g have g': "rw_guards c t = Some (w, True)" by simp
    from rw_give [OF assms(1) g'] s True g assms show ?thesis
      by (cases op)
        (auto simp: rw_step_def guard_lock_def guard_trylock_def guard_unlock_def guard_dtor_def)
  next
    case False
    with g have g': "t \<notin> reading c" "t \<notin> writing c" by (auto simp: reading_def writing_def)
    have d: "rw_ok (c\<lparr>rw_lock := rw_lock c, rw_guards := (rw_guards c)(t := None)\<rparr>)"
      using rw_close [OF assms(1) g' refl] by simp
    from rw_take [OF assms(1) g', of w] rw_retry [OF assms(1) g', of w] d s False g assms show ?thesis
      by (cases op; cases "lock_of w t (rw_lock c)")
        (auto simp: rw_step_def guard_lock_def guard_trylock_def guard_unlock_def guard_dtor_def)
  qed
qed

lemma rw_run_ok: "rw_ok c \<Longrightarrow> \<exists>c'. rw_run ops c = Inr c' \<and> rw_ok c'"
proof (induction ops arbitrary: c)
  case Nil
  then show ?case by simp
next
  case (Cons x xs)
  show ?case
  proof (cases "rw_step (fst x) (snd x) c")
    case None
    with Cons show ?thesis by simp
  next
    case (Some r)
    with rw_step_ok [OF Cons.prems Some] Cons.IH show ?thesis by auto
  qed
qed

lemma rw_start_ok: "rw_ok rw_start"
  by (simp add: rw_ok_def rw_start_def rw_init_def reading_def writing_def)

text \<open>
  For every schedule of guard operations of any number of threads over one \<open>RWMutex\<close>, the
  lock counts exactly the threads that read, no unlock is undefined, and a thread that writes
  excludes every other, while readers do not exclude each other.
\<close>

theorem rw_guards_exclude:
  "\<exists>c. rw_run ops rw_start = Inr c \<and> rw_readers (rw_lock c) = card (reading c) \<and>
    (\<forall>t. t \<in> writing c \<longrightarrow> writing c = {t} \<and> reading c = {}) \<and>
    (\<forall>t. rw_guards c t = None \<and> writing c = {} \<longrightarrow> RWMutex_rdlock t (rw_lock c) \<noteq> None)"
proof -
  obtain c where c: "rw_run ops rw_start = Inr c" "rw_ok c" using rw_run_ok [OF rw_start_ok] by blast
  then have "RWMutex_rdlock t (rw_lock c) \<noteq> None" if "writing c = {}" for t
    using that by (auto simp: rw_ok_def RWMutex_rdlock_def rwl_rdlock_def split: option.splits)
  with c show ?thesis by (auto simp: rw_ok_def)
qed

lemma rw_guards_exclude_witness:
  "\<exists>c. rw_run [(1, OpenRead), (2, OpenRead), (3, OpenWrite), (1, Close), (2, Unlock), (3, OpenWrite)] rw_start =
      Inr c \<and> writing c = {3} \<and> reading c = {}"
proof -
  let ?ops = "[(1, OpenRead), (2, OpenRead), (3, OpenWrite), (1, Close), (2, Unlock), (3, OpenWrite)]"
  have w: "\<exists>c. rw_run ?ops rw_start = Inr c \<and> 3 \<in> writing c"
    by (simp add: rw_step_def rw_start_def rw_init_def guard_ctor_def guard_unlock_def guard_dtor_def
        lock_of_def RWMutex_rdlock_def RWMutex_wrlock_def RWMutex_unlock_def rwl_rdlock_def rwl_wrlock_def
        rwl_unlock_def rw_put_def writing_def)
  obtain c where c: "rw_run ?ops rw_start = Inr c"
    "\<forall>t. t \<in> writing c \<longrightarrow> writing c = {t} \<and> reading c = {}"
    using rw_guards_exclude [of ?ops] by blast
  with w show ?thesis by auto
qed

end
