(* ===== verification/LogLevel.thy ===== *)
theory LogLevel
  imports Prelude
begin

text \<open>
  \<open>src/log/log_level.h\<close> and \<open>log_level.cc\<close>: the levels with their order, and their names.
  C strings end at their first NUL; \<open>strcasecmp\<close> is the one of the C locale.
\<close>

datatype level = LevelALL | DEBUG | INFO | WARN | ERROR | FATAL | OFF

primrec level_code :: "level \<Rightarrow> nat" where
  "level_code LevelALL = 0" | "level_code DEBUG = 1" | "level_code INFO = 2" | "level_code WARN = 3"
| "level_code ERROR = 4" | "level_code FATAL = 5" | "level_code OFF = 6"

lemma level_code_inject: "level_code a = level_code b \<Longrightarrow> a = b"
  by (cases a; cases b) simp_all

instantiation level :: linorder
begin

definition less_eq_level :: "level \<Rightarrow> level \<Rightarrow> bool" where
  "less_eq_level a b \<longleftrightarrow> level_code a \<le> level_code b"

definition less_level :: "level \<Rightarrow> level \<Rightarrow> bool" where
  "less_level a b \<longleftrightarrow> level_code a < level_code b"

instance
  by standard (auto simp: less_eq_level_def less_level_def intro: level_code_inject)

end

lemmas level_order = less_eq_level_def less_level_def

lemma level_bounds: "LevelALL \<le> l" "l \<le> OFF"
  by (cases l; simp add: level_order)+

definition ToString :: "level \<Rightarrow> string" where
  "ToString l = (case l of
     LevelALL \<Rightarrow> ''ALL'' | DEBUG \<Rightarrow> ''DEBUG'' | INFO \<Rightarrow> ''INFO'' | WARN \<Rightarrow> ''WARN''
   | ERROR \<Rightarrow> ''ERROR'' | FATAL \<Rightarrow> ''FATAL'' | OFF \<Rightarrow> ''OFF'')"

definition tolower :: "char \<Rightarrow> char" where
  "tolower c = (let n = of_char c :: nat in if 65 \<le> n \<and> n \<le> 90 then char_of (n + 32) else c)"

definition c_str :: "string \<Rightarrow> string" where "c_str s = takeWhile (\<lambda>c. c \<noteq> CHR 0x00) s"

definition strcaseeq :: "string \<Rightarrow> string \<Rightarrow> bool" where
  "strcaseeq a b \<longleftrightarrow> map tolower (c_str a) = map tolower (c_str b)"

definition StringLevel :: "(level \<times> string) list" where
  "StringLevel = [(LevelALL, ''ALL''), (DEBUG, ''DEBUG''), (INFO, ''INFO''), (WARN, ''WARN''),
     (ERROR, ''ERROR''), (FATAL, ''FATAL''), (OFF, ''OFF'')]"

definition FromString :: "string \<Rightarrow> level" where
  "FromString str =
     (if str = [] then DEBUG
      else (case find (\<lambda>it. strcaseeq (snd it) str) StringLevel of Some it \<Rightarrow> fst it | None \<Rightarrow> DEBUG))"

lemma StringLevel_ToString: "StringLevel = map (\<lambda>l. (l, ToString l)) [LevelALL, DEBUG, INFO, WARN, ERROR, FATAL, OFF]"
  by (simp add: StringLevel_def ToString_def)

lemma ToString_lower_inject: "map tolower (c_str (ToString a)) = map tolower (c_str (ToString b)) \<Longrightarrow> a = b"
  by (cases a; cases b) (simp_all add: ToString_def c_str_def tolower_def Let_def of_char_def)

lemma FromString_case:
  assumes "strcaseeq (ToString l) str" and "str \<noteq> []"
  shows "FromString str = l"
proof -
  have "strcaseeq (ToString l') str \<longleftrightarrow> l' = l" for l'
    using assms(1) ToString_lower_inject [of l' l] by (auto simp: strcaseeq_def)
  then have "find (\<lambda>it. strcaseeq (snd it) str) StringLevel = Some (l, ToString l)"
    by (cases l) (simp_all add: StringLevel_ToString)
  with assms(2) show ?thesis by (simp add: FromString_def)
qed

lemma FromString_ToString: "FromString (ToString l) = l"
  by (rule FromString_case) (simp add: strcaseeq_def, cases l, simp_all add: ToString_def)

lemma FromString_unknown:
  assumes "\<And>l. \<not> strcaseeq (ToString l) str"
  shows "FromString str = DEBUG"
proof -
  have "find (\<lambda>it. strcaseeq (snd it) str) StringLevel = None"
    using assms by (simp add: StringLevel_ToString)
  then show ?thesis by (simp add: FromString_def)
qed

text \<open>
  A level survives its name, in whatever case it is written, and every other text is read as
  \<open>DEBUG\<close>.
\<close>

theorem level_names_roundtrip:
  "FromString (ToString l) = l \<and>
   (strcaseeq (ToString l) str \<and> str \<noteq> [] \<longrightarrow> FromString str = l) \<and>
   ((\<forall>l'. \<not> strcaseeq (ToString l') str) \<longrightarrow> FromString str = DEBUG)"
  using FromString_ToString FromString_case FromString_unknown by blast

lemma level_names_roundtrip_witness: "FromString ''fAtAl'' = FATAL"
proof -
  have "strcaseeq (ToString FATAL) ''fAtAl''" by code_simp
  with level_names_roundtrip [of FATAL "''fAtAl''"] show ?thesis by simp
qed

end
