(* ===== verification/LogFormat.thy ===== *)
theory LogFormat
  imports LogLevel
begin

text \<open>
  \<open>src/log/log_event.h\<close>, \<open>log_format.h\<close> and \<open>log_format.cc\<close>: log events, the parser of
  formatting patterns and the formatting items. Characters are bytes. \<open>strftime\<close> applied to
  \<open>localtime_r\<close>, \<open>errno\<close>, \<open>strerror\<close> and the names of the loggers are parameters.
\<close>

section \<open>Events\<close>

text \<open>\<open>m_logger\<close> is the address of the logger, \<open>None\<close> for a null pointer.\<close>

record log_event =
  e_logger :: "nat option"
  e_time :: int
  e_fileName :: string
  e_line :: u32
  e_threadId :: u32
  e_fiberId :: u32
  e_threadName :: string
  e_level :: level
  e_content :: string

definition LogEvent_ctor ::
  "nat option \<Rightarrow> int \<Rightarrow> string \<Rightarrow> u32 \<Rightarrow> u32 \<Rightarrow> u32 \<Rightarrow> string \<Rightarrow> level \<Rightarrow> log_event" where
  "LogEvent_ctor logger vtime fileName line threadId fiberId threadName lev =
     \<lparr>e_logger = logger, e_time = vtime, e_fileName = fileName, e_line = line, e_threadId = threadId,
      e_fiberId = fiberId, e_threadName = threadName, e_level = lev, e_content = []\<rparr>"

text \<open>Decimal numbers, as \<open>operator<<\<close> writes them.\<close>

fun show_nat :: "nat \<Rightarrow> string" where
  "show_nat n = (if n < 10 then [char_of (48 + n)] else show_nat (n div 10) @ [char_of (48 + n mod 10)])"

definition show_int :: "int \<Rightarrow> string" where
  "show_int i = (if i < 0 then CHR ''-'' # show_nat (nat (- i)) else show_nat (nat i))"

definition event_write :: "string \<Rightarrow> log_event \<Rightarrow> log_event" where
  "event_write s ev = ev\<lparr>e_content := e_content ev @ s\<rparr>"

definition event_toString :: "log_event \<Rightarrow> string" where
  "event_toString ev =
     show_int (e_time ev) @ '' '' @ show_nat (unat (e_fiberId ev)) @ '' '' @ e_fileName ev @ '' '' @
     show_nat (unat (e_line ev)) @ '' '' @ show_nat (unat (e_threadId ev)) @ '' '' @ e_fileName ev @ '' '' @
     ToString (e_level ev)"

section \<open>Items\<close>

datatype fmt_item = LogName | Time string | ErrNo | ErrStr | FiberId | FileName | Line | Message
  | ThreadName | NewLine | LevelName | Tab | ThreadId | Str string

definition time_default :: string where "time_default = ''%y:%m:%d %H-%M-%S''"

record fmt_env =
  env_strftime :: "nat \<Rightarrow> string \<Rightarrow> int \<Rightarrow> string"
  env_errno :: int
  env_strerror :: "int \<Rightarrow> string"
  env_loggerName :: "nat \<Rightarrow> string"

text \<open>The \<open>stream\<close> method of each item.\<close>

definition item_stream :: "fmt_env \<Rightarrow> log_event \<Rightarrow> fmt_item \<Rightarrow> string result" where
  "item_stream env ev it = (case it of
     LogName \<Rightarrow> (case e_logger ev of None \<Rightarrow> Inl NullDeref | Some a \<Rightarrow> Inr (env_loggerName env a))
   | Time p \<Rightarrow> Inr (env_strftime env 64 p (e_time ev))
   | ErrNo \<Rightarrow> Inr (if env_errno env \<noteq> 0 then ''errno='' @ show_int (env_errno env) else [])
   | ErrStr \<Rightarrow> Inr (if env_errno env \<noteq> 0 then ''strerr='' @ env_strerror env (env_errno env) else [])
   | FiberId \<Rightarrow> Inr (show_nat (unat (e_fiberId ev)))
   | FileName \<Rightarrow> Inr (e_fileName ev)
   | Line \<Rightarrow> Inr (show_nat (unat (e_line ev)))
   | Message \<Rightarrow> Inr (e_content ev)
   | ThreadName \<Rightarrow> Inr (e_threadName ev)
   | NewLine \<Rightarrow> Inr [CHR 0x0A]
   | LevelName \<Rightarrow> Inr (ToString (e_level ev))
   | Tab \<Rightarrow> Inr [CHR 0x09]
   | ThreadId \<Rightarrow> Inr (show_nat (unat (e_threadId ev)))
   | Str s \<Rightarrow> Inr s)"

fun format_items :: "fmt_env \<Rightarrow> log_event \<Rightarrow> fmt_item list \<Rightarrow> string result" where
  "format_items env ev [] = Inr []"
| "format_items env ev (it # its) =
     bindR (item_stream env ev it) (\<lambda>s. bindR (format_items env ev its) (\<lambda>t. Inr (s @ t)))"

section \<open>The parser\<close>

text \<open>Reading at the size of a string gives the NUL that ends it.\<close>

definition char_at :: "string \<Rightarrow> nat \<Rightarrow> char" where
  "char_at p i = (if i < length p then p ! i else CHR 0x00)"

definition substr :: "string \<Rightarrow> nat \<Rightarrow> nat \<Rightarrow> string" where
  "substr p a n = take n (drop a p)"

text \<open>\<open>while (j < size && pattern[j] != '}') ++j\<close>, and the loop over plain text.\<close>

function find_brace :: "string \<Rightarrow> nat \<Rightarrow> nat" where
  "find_brace p j = (if j < length p \<and> p ! j \<noteq> CHR ''}'' then find_brace p (Suc j) else j)"
  by auto
termination by (relation "measure (\<lambda>(p, j). length p - j)") auto

function text_end :: "string \<Rightarrow> nat \<Rightarrow> nat" where
  "text_end p j = (if j + 1 < length p \<and> p ! (j + 1) \<noteq> CHR ''%'' then text_end p (Suc j) else j)"
  by auto
termination by (relation "measure (\<lambda>(p, j). length p - j)") auto

declare find_brace.simps [simp del] text_end.simps [simp del]

lemma find_brace_ge: "j \<le> find_brace p j"
  by (induction p j rule: find_brace.induct) (subst find_brace.simps, auto)

lemma text_end_ge: "j \<le> text_end p j"
  by (induction p j rule: text_end.induct) (subst text_end.simps, auto)

text \<open>The items without an argument.\<close>

definition simple_item :: "char \<Rightarrow> fmt_item option" where
  "simple_item c =
     (if c = CHR ''c'' then Some LogName else if c = CHR ''e'' then Some ErrNo
      else if c = CHR ''E'' then Some ErrStr else if c = CHR ''F'' then Some FiberId
      else if c = CHR ''f'' then Some FileName else if c = CHR ''L'' then Some Line
      else if c = CHR ''m'' then Some Message else if c = CHR ''N'' then Some ThreadName
      else if c = CHR ''n'' then Some NewLine else if c = CHR ''P'' then Some LevelName
      else if c = CHR ''T'' then Some Tab else if c = CHR ''t'' then Some ThreadId else None)"

text \<open>
  The loop of \<open>parserFormatter\<close> at position \<open>i\<close> with the items found so far. \<open>None\<close> is the
  return with \<open>m_error\<close> set.
\<close>

function parse_from :: "string \<Rightarrow> nat \<Rightarrow> fmt_item list \<Rightarrow> fmt_item list option" where
  "parse_from p i items =
     (if length p \<le> i then Some items
      else if p ! i = CHR ''%''
      then (let i1 = i + 1; j = i1 + 1; c = char_at p i1
            in if c = CHR ''D''
               then (if j < length p \<and> p ! j = CHR ''{''
                     then (let j1 = find_brace p j
                           in if length p \<le> j1 \<or> p ! j1 \<noteq> CHR ''}'' then None
                              else parse_from p (j1 + 1) (items @ [Time (substr p (i1 + 2) (j1 - i1 - 2))]))
                     else parse_from p (i1 + 1) (items @ [Time time_default]))
               else (case simple_item c of
                       Some it \<Rightarrow> parse_from p (i1 + 1) (items @ [it])
                     | None \<Rightarrow> None))
      else (let j = text_end p i
            in parse_from p (j + 1) (items @ [Str (substr p i (j - i + 1))])))"
  by pat_completeness auto
termination
proof (relation "measure (\<lambda>(p, i, items). length p - i)", goal_cases)
  case (2 p i items i1 j c j1)
  then show ?case using find_brace_ge [of j p] by auto
next
  case (5 p i items j)
  then show ?case using text_end_ge [of i p] by auto
qed auto

declare parse_from.simps [simp del]

definition parserFormatter :: "string \<Rightarrow> fmt_item list option" where
  "parserFormatter p = (if p = [] then None else parse_from p 0 [])"

section \<open>The formatter\<close>

record formatter =
  f_pattern :: string
  f_error :: bool
  f_items :: "fmt_item list"

text \<open>A pattern that cannot be parsed ends the process with \<open>exit(0)\<close>.\<close>

definition setPattern :: "string \<Rightarrow> formatter \<Rightarrow> formatter result" where
  "setPattern p f = (case parserFormatter p of
     None \<Rightarrow> Inl ExitCalled
   | Some items \<Rightarrow> Inr (f\<lparr>f_pattern := p, f_error := False, f_items := items\<rparr>))"

definition LogFormatter_ctor :: "string \<Rightarrow> formatter result" where
  "LogFormatter_ctor p =
     (let f = \<lparr>f_pattern = [], f_error = False, f_items = []\<rparr>
      in if p \<noteq> [] then setPattern p f else Inr f)"

definition format_event :: "fmt_env \<Rightarrow> formatter \<Rightarrow> log_event \<Rightarrow> string result" where
  "format_event env f ev = format_items env ev (f_items f)"

definition addEventItem :: "fmt_item \<Rightarrow> formatter \<Rightarrow> formatter" where
  "addEventItem it f = f\<lparr>f_items := f_items f @ [it]\<rparr>"

text \<open>
  \<open>cleanEventItem\<close>: the loop over the vector with its iterator as an index. The condition
  assigns, and is true for every item there is. Reading at or beyond the end is undefined.
\<close>

function clean_loop :: "fmt_item \<Rightarrow> nat \<Rightarrow> fmt_item list \<Rightarrow> fmt_item list result" where
  "clean_loop it k items =
     (if k = length items then Inr items
      else if length items < k then Inl OutOfBounds
      else (let items1 = items[k := it]; items2 = take k items1 @ drop (Suc k) items1
            in clean_loop it (Suc k) items2))"
  by pat_completeness auto
termination by (relation "measure (\<lambda>(it, k, items). length items)") auto

declare clean_loop.simps [simp del]

definition cleanEventItem :: "fmt_item \<Rightarrow> formatter \<Rightarrow> formatter result" where
  "cleanEventItem it f = bindR (clean_loop it 0 (f_items f)) (\<lambda>items. Inr (f\<lparr>f_items := items\<rparr>))"

definition default_log_formatter :: string where
  "default_log_formatter = ''%D{%y-%m-%d %H:%M:%S}%T%t %N fiber=%F%T[%c] [%P]%T%f:%L%T%e %E %m%n''"

section \<open>Parsing what was printed\<close>

definition item_char :: "fmt_item \<Rightarrow> string" where
  "item_char it = (case it of
     LogName \<Rightarrow> ''c'' | ErrNo \<Rightarrow> ''e'' | ErrStr \<Rightarrow> ''E'' | FiberId \<Rightarrow> ''F'' | FileName \<Rightarrow> ''f''
   | Line \<Rightarrow> ''L'' | Message \<Rightarrow> ''m'' | ThreadName \<Rightarrow> ''N'' | NewLine \<Rightarrow> ''n'' | LevelName \<Rightarrow> ''P''
   | Tab \<Rightarrow> ''T'' | ThreadId \<Rightarrow> ''t'' | Time p \<Rightarrow> ''D{'' @ p @ ''}'' | Str s \<Rightarrow> s)"

definition is_text :: "fmt_item \<Rightarrow> bool" where "is_text it = (case it of Str s \<Rightarrow> True | _ \<Rightarrow> False)"

definition unparse_item :: "fmt_item \<Rightarrow> string" where
  "unparse_item it = (if is_text it then item_char it else CHR ''%'' # item_char it)"

definition unparse :: "fmt_item list \<Rightarrow> string" where "unparse its = concat (map unparse_item its)"

definition item_ok :: "fmt_item \<Rightarrow> bool" where
  "item_ok it = (case it of
     Str s \<Rightarrow> s \<noteq> [] \<and> CHR ''%'' \<notin> set s | Time p \<Rightarrow> CHR ''}'' \<notin> set p | _ \<Rightarrow> True)"

text \<open>What the parser produces: no empty text, no two texts in a row.\<close>

fun items_ok :: "fmt_item list \<Rightarrow> bool" where
  "items_ok [] = True"
| "items_ok [it] = item_ok it"
| "items_ok (it # it2 # its) = (item_ok it \<and> \<not> (is_text it \<and> is_text it2) \<and> items_ok (it2 # its))"

lemma items_ok_Cons:
  "items_ok (it # its) \<longleftrightarrow> item_ok it \<and> items_ok its \<and> (its \<noteq> [] \<longrightarrow> \<not> (is_text it \<and> is_text (hd its)))"
  by (cases its) auto

lemma simple_item_char:
  assumes "simple_item c = Some it"
  shows "unparse_item it = [CHR ''%'', c] \<and> item_ok it \<and> \<not> is_text it"
  using assms
  by (auto simp: simple_item_def unparse_item_def is_text_def item_char_def item_ok_def split: if_splits)

lemma item_kinds:
  assumes "\<not> is_text it" and "\<And>p. it \<noteq> Time p"
  shows "simple_item (hd (item_char it)) = Some it \<and> unparse_item it = [CHR ''%'', hd (item_char it)] \<and>
    hd (item_char it) \<noteq> CHR ''D''"
  using assms
  by (cases it) (auto simp: is_text_def unparse_item_def item_char_def simple_item_def)

lemma find_brace_found:
  "CHR ''}'' \<notin> set xs \<Longrightarrow> find_brace (pre @ xs @ CHR ''}'' # rest) (length pre) = length pre + length xs"
proof (induction xs arbitrary: pre)
  case Nil
  show ?case by (subst find_brace.simps) simp
next
  case (Cons x xs)
  have "find_brace (pre @ (x # xs) @ CHR ''}'' # rest) (length pre) =
      find_brace ((pre @ [x]) @ xs @ CHR ''}'' # rest) (length (pre @ [x]))"
    using Cons.prems by (subst find_brace.simps) (auto simp: nth_append)
  also have "\<dots> = length (pre @ [x]) + length xs"
    by (rule Cons.IH) (use Cons.prems in simp)
  finally show ?case by simp
qed

lemma text_end_found:
  assumes "rest = [] \<or> hd rest = CHR ''%''"
  shows "CHR ''%'' \<notin> set xs \<Longrightarrow> text_end (pre @ x # xs @ rest) (length pre) = length pre + length xs"
proof (induction xs arbitrary: pre x)
  case Nil
  show ?case using assms by (subst text_end.simps) (cases rest; simp add: nth_append)
next
  case (Cons y ys)
  have "text_end (pre @ x # (y # ys) @ rest) (length pre) =
      text_end ((pre @ [x]) @ y # ys @ rest) (length (pre @ [x]))"
    using Cons.prems by (subst text_end.simps) (auto simp: nth_append)
  also have "\<dots> = length (pre @ [x]) + length ys"
    by (rule Cons.IH) (use Cons.prems in simp)
  finally show ?case by simp
qed

lemma parse_end: "parse_from p (length p) acc = Some acc"
  by (subst parse_from.simps) simp

lemma parse_text:
  assumes "s \<noteq> []" and "CHR ''%'' \<notin> set s" and "rest = [] \<or> hd rest = CHR ''%''"
  shows "parse_from (pre @ s @ rest) (length pre) acc =
    parse_from (pre @ s @ rest) (length (pre @ s)) (acc @ [Str s])"
proof -
  obtain x xs where s: "s = x # xs" using assms(1) by (cases s) auto
  have e: "text_end (pre @ s @ rest) (length pre) = length pre + length xs"
    using text_end_found [OF assms(3), of xs pre x] assms(2) by (simp add: s)
  have x: "x \<noteq> CHR ''%''" using assms(2) by (auto simp: s)
  have "substr (pre @ s @ rest) (length pre) (length pre + length xs - length pre + 1) = s"
    by (simp add: substr_def s)
  then show ?thesis
    using x by (subst parse_from.simps) (simp add: e Let_def, simp add: s)
qed

lemma parse_simple:
  assumes "simple_item c = Some it" and "c \<noteq> CHR ''D''"
  shows "parse_from (pre @ [CHR ''%'', c] @ rest) (length pre) acc =
    parse_from (pre @ [CHR ''%'', c] @ rest) (length (pre @ [CHR ''%'', c])) (acc @ [it])"
  using assms by (subst parse_from.simps) (simp add: char_at_def nth_append)

lemma parse_time:
  assumes "CHR ''}'' \<notin> set p"
  shows "parse_from (pre @ (''%D{'' @ p @ ''}'') @ rest) (length pre) acc =
    parse_from (pre @ (''%D{'' @ p @ ''}'') @ rest) (length (pre @ ''%D{'' @ p @ ''}'')) (acc @ [Time p])"
proof -
  have e: "find_brace (pre @ (''%D{'' @ p @ ''}'') @ rest) (length pre + 2) = length pre + 3 + length p"
    using find_brace_found [of "CHR ''{'' # p" "pre @ ''%D''" rest] assms by simp
  have s: "substr (pre @ (''%D{'' @ p @ ''}'') @ rest) (length pre + 3) (length p) = p"
    by (simp add: substr_def)
  have b: "(pre @ (''%D{'' @ p @ ''}'') @ rest) ! (length pre + 3 + length p) = CHR ''}''"
    by (simp add: nth_append)
  show ?thesis
    by (subst parse_from.simps)
      (use e s b in \<open>simp add: char_at_def nth_append Let_def eval_nat_numeral\<close>)
qed

lemma unparse_item_hd:
  "item_ok it \<Longrightarrow> unparse_item it \<noteq> [] \<and> (\<not> is_text it \<longrightarrow> hd (unparse_item it) = CHR ''%'')"
  by (cases it) (auto simp: unparse_item_def is_text_def item_char_def item_ok_def)

lemma unparse_nonempty: "items_ok its \<Longrightarrow> its \<noteq> [] \<Longrightarrow> unparse its \<noteq> []"
  using unparse_item_hd by (cases its) (auto simp: unparse_def items_ok_Cons)

lemma unparse_hd:
  "items_ok its \<Longrightarrow> its \<noteq> [] \<longrightarrow> \<not> is_text (hd its) \<Longrightarrow> unparse its = [] \<or> hd (unparse its) = CHR ''%''"
  by (cases its) (auto simp: unparse_def items_ok_Cons dest: unparse_item_hd)

lemma parse_item:
  assumes "item_ok it" and "is_text it \<longrightarrow> rest = [] \<or> hd rest = CHR ''%''"
  shows "parse_from (pre @ unparse_item it @ rest) (length pre) acc =
    parse_from (pre @ unparse_item it @ rest) (length (pre @ unparse_item it)) (acc @ [it])"
proof (cases "is_text it")
  case True
  then obtain s where "it = Str s" by (cases it) (auto simp: is_text_def)
  with assms True parse_text [of s rest pre acc] show ?thesis
    by (simp add: unparse_item_def item_char_def item_ok_def is_text_def)
next
  case False
  show ?thesis
  proof (cases "\<exists>p. it = Time p")
    case True
    then obtain p where "it = Time p" by blast
    with assms parse_time [of p pre rest acc] show ?thesis
      by (simp add: unparse_item_def item_char_def item_ok_def is_text_def)
  next
    case simple: False
    with False obtain c where c: "simple_item c = Some it" "unparse_item it = [CHR ''%'', c]" "c \<noteq> CHR ''D''"
      using item_kinds [of it] by blast
    show ?thesis unfolding c(2) by (rule parse_simple [OF c(1,3)])
  qed
qed

lemma parse_unparse_from:
  "items_ok its \<Longrightarrow> parse_from (pre @ unparse its) (length pre) acc = Some (acc @ its)"
proof (induction its arbitrary: pre acc)
  case Nil
  show ?case by (simp add: unparse_def parse_end)
next
  case (Cons it its)
  then have ok: "item_ok it" "items_ok its" "its \<noteq> [] \<longrightarrow> \<not> (is_text it \<and> is_text (hd its))"
    by (simp_all add: items_ok_Cons)
  have "parse_from (pre @ unparse_item it @ unparse its) (length pre) acc =
      parse_from (pre @ unparse_item it @ unparse its) (length (pre @ unparse_item it)) (acc @ [it])"
    by (rule parse_item [OF ok(1)]) (use unparse_hd [OF ok(2)] ok(3) in blast)
  also have "\<dots> = Some ((acc @ [it]) @ its)"
    using Cons.IH [OF ok(2), of "pre @ unparse_item it" "acc @ [it]"] by simp
  finally show ?case by (simp add: unparse_def)
qed

text \<open>
  C32: parsing a pattern that was printed from items gives those items back, for every list of
  items without empty, adjacent or \<open>%\<close>-carrying texts and without a brace in a time format.
\<close>

theorem parse_unparse:
  assumes "items_ok its" and "its \<noteq> []"
  shows "\<exists>f. LogFormatter_ctor (unparse its) = Inr f \<and> f_items f = its \<and> f_pattern f = unparse its \<and>
    \<not> f_error f"
proof -
  show ?thesis using unparse_nonempty [OF assms]
      parse_unparse_from [OF assms(1), of "[]" "[]"]
    by (simp add: LogFormatter_ctor_def setPattern_def parserFormatter_def Let_def)
qed

lemma parse_unparse_witness:
  "\<exists>f. LogFormatter_ctor (unparse [Time ''%H:%M'', Tab, Str ''fiber='', FiberId, Str '' ['', LevelName, Str ''] '',
      Message, NewLine]) = Inr f \<and>
    f_items f = [Time ''%H:%M'', Tab, Str ''fiber='', FiberId, Str '' ['', LevelName, Str ''] '', Message, NewLine]"
proof -
  have "items_ok [Time ''%H:%M'', Tab, Str ''fiber='', FiberId, Str '' ['', LevelName, Str ''] '', Message, NewLine]"
    by (simp add: item_ok_def is_text_def)
  from parse_unparse [OF this] show ?thesis by auto
qed

lemma find_brace_free:
  "k < find_brace p j \<Longrightarrow> j \<le> k \<Longrightarrow> p ! k \<noteq> CHR ''}''"
proof (induction p j rule: find_brace.induct)
  case (1 p j)
  show ?case
  proof (cases "j < length p \<and> p ! j \<noteq> CHR ''}''")
    case True
    with 1 show ?thesis by (cases "k = j") (auto simp: find_brace.simps [of p j])
  next
    case False
    then have "find_brace p j = j" by (subst find_brace.simps) auto
    with 1 show ?thesis by simp
  qed
qed

lemma text_end_free:
  "j < k \<Longrightarrow> k \<le> text_end p j \<Longrightarrow> p ! k \<noteq> CHR ''%''"
proof (induction p j rule: text_end.induct)
  case (1 p j)
  show ?case
  proof (cases "j + 1 < length p \<and> p ! (j + 1) \<noteq> CHR ''%''")
    case True
    with 1 show ?thesis by (cases "k = Suc j") (auto simp: text_end.simps [of p j])
  next
    case False
    then have "text_end p j = j" by (subst text_end.simps) auto
    with 1 show ?thesis by simp
  qed
qed

lemma text_end_bound: "j < length p \<Longrightarrow> text_end p j < length p"
  by (induction p j rule: text_end.induct) (subst text_end.simps, auto)

lemma text_end_stops: "j < length p \<Longrightarrow> Suc (text_end p j) < length p \<Longrightarrow> p ! Suc (text_end p j) = CHR ''%''"
proof (induction p j rule: text_end.induct)
  case (1 p j)
  show ?case
  proof (cases "j + 1 < length p \<and> p ! (j + 1) \<noteq> CHR ''%''")
    case True
    then have "text_end p j = text_end p (Suc j)" by (subst text_end.simps) simp
    with 1 True show ?thesis by simp
  next
    case False
    then have "text_end p j = j" by (subst text_end.simps) auto
    with 1 False show ?thesis by auto
  qed
qed

lemma in_substr:
  assumes "x \<in> set (substr p a n)"
  obtains k where "a \<le> k" "k < a + n" "k < length p" "x = p ! k"
proof -
  obtain l where "l < length (substr p a n)" "x = substr p a n ! l"
    using assms by (auto simp: in_set_conv_nth)
  then show ?thesis using that [of "a + l"] by (auto simp: substr_def)
qed

text \<open>Appending to a list that is in order.\<close>

lemma items_ok_snoc:
  "items_ok (its @ [it]) \<longleftrightarrow> items_ok its \<and> item_ok it \<and>
    (its \<noteq> [] \<longrightarrow> \<not> (is_text (last its) \<and> is_text it))"
  by (induction its rule: items_ok.induct) auto

lemma parse_from_ok:
  assumes "parse_from p i acc = Some its" and "items_ok acc"
    and "i < length p \<longrightarrow> acc \<noteq> [] \<longrightarrow> is_text (last acc) \<longrightarrow> p ! i = CHR ''%''"
  shows "items_ok its"
  using assms
proof (induction p i acc rule: parse_from.induct)
  case (1 p i acc)
  show ?case
  proof (cases "length p \<le> i")
    case True
    with 1 show ?thesis by (simp add: parse_from.simps [of p i])
  next
    case more: False
    show ?thesis
    proof (cases "p ! i = CHR ''%''")
      case True
      show ?thesis
      proof (cases "char_at p (i + 1) = CHR ''D''")
        case D: True
        show ?thesis
        proof (cases "i + 2 < length p \<and> p ! (i + 2) = CHR ''{''")
          case brace: True
          define j where "j = find_brace p (i + 2)"
          have brace_free: "CHR ''}'' \<noteq> p ! k" if "i + 3 \<le> k" "k < i + 3 + (j - (i + 3))" for k
          proof -
            have "k < j" "i + 2 \<le> k" using that by linarith+
            with find_brace_free [of k p "i + 2"] show ?thesis by (simp add: j_def)
          qed
          have ok: "item_ok (Time (substr p (i + 3) (j - (i + 3))))"
            using brace_free by (auto simp: item_ok_def elim!: in_substr)
          have "parse_from p (j + 1) (acc @ [Time (substr p (i + 3) (j - (i + 3)))]) = Some its"
            using 1(5) more True D brace
            by (simp add: parse_from.simps [of p i] Let_def j_def eval_nat_numeral split: if_splits)
          moreover have "\<not> (length p \<le> j \<or> p ! j \<noteq> CHR ''}'')"
            using 1(5) more True D brace
            by (simp add: parse_from.simps [of p i] Let_def j_def eval_nat_numeral split: if_splits)
          ultimately show ?thesis
            using 1(1) [OF more True refl refl refl D _ refl] brace ok 1(6)
            by (simp add: j_def eval_nat_numeral items_ok_snoc is_text_def)
        next
          case plain: False
          then have "parse_from p (i + 1 + 1) (acc @ [Time time_default]) = Some its"
            using 1(5) more True D
            by (auto simp: parse_from.simps [of p i] Let_def eval_nat_numeral split: if_splits)
          with 1(2) [OF more True refl refl refl D] plain 1(6) show ?thesis
            by (simp add: items_ok_snoc is_text_def item_ok_def time_default_def eval_nat_numeral)
        qed
      next
        case simple: False
        then obtain it where it: "simple_item (char_at p (i + 1)) = Some it"
          using 1(5) more True by (auto simp: parse_from.simps [of p i] Let_def split: option.splits)
        then have "parse_from p (i + 1 + 1) (acc @ [it]) = Some its"
          using 1(5) more True simple by (simp add: parse_from.simps [of p i] Let_def)
        with 1(3) [OF more True refl refl refl simple it] simple_item_char [OF it] 1(6) show ?thesis
          by (simp add: items_ok_snoc)
      qed
    next
      case plain: False
      define j where "j = text_end p i"
      have j: "i \<le> j" "j < length p" using text_end_ge [of i p] text_end_bound [of i p] more by (simp_all add: j_def)
      have s: "parse_from p (j + 1) (acc @ [Str (substr p i (j - i + 1))]) = Some its"
        using 1(5) more plain by (simp add: parse_from.simps [of p i] Let_def j_def)
      have n: "CHR ''%'' \<notin> set (substr p i (j - i + 1))"
      proof
        assume "CHR ''%'' \<in> set (substr p i (j - i + 1))"
        then obtain k where "i \<le> k" "k < i + (j - i + 1)" "CHR ''%'' = p ! k" by (rule in_substr) blast
        with plain text_end_free [of i k p] j show False by (cases "k = i") (auto simp: j_def)
      qed
      have "substr p i (j - i + 1) \<noteq> []" using j by (simp add: substr_def)
      with n have "items_ok (acc @ [Str (substr p i (j - i + 1))])"
        using 1(6,7) more plain by (auto simp: items_ok_snoc item_ok_def is_text_def)
      moreover have "Suc j < length p \<longrightarrow> p ! Suc j = CHR ''%''"
        using text_end_stops [of i p] more by (simp add: j_def)
      ultimately show ?thesis using 1(4) [OF more plain refl] s by (simp add: j_def)
    qed
  qed
qed

text \<open>
  Every pattern the formatter accepts parses to items in normal form, and printing these and
  parsing again gives the same items.
\<close>

theorem accepted_pattern_normal_form:
  assumes "LogFormatter_ctor p = Inr f" and "p \<noteq> []"
  shows "items_ok (f_items f) \<and> f_pattern f = p \<and>
    (\<exists>f'. LogFormatter_ctor (unparse (f_items f)) = Inr f' \<and> f_items f' = f_items f)"
proof -
  have p: "parse_from p 0 [] = Some (f_items f)" "f_pattern f = p"
    using assms by (auto simp: LogFormatter_ctor_def setPattern_def parserFormatter_def Let_def split: option.splits)
  have ok: "items_ok (f_items f)" by (rule parse_from_ok [OF p(1)]) simp_all
  have "\<exists>f'. LogFormatter_ctor (unparse (f_items f)) = Inr f' \<and> f_items f' = f_items f"
    using parse_unparse_from [OF ok, of "[]" "[]"] unparse_nonempty [OF ok]
    by (cases "f_items f = []")
      (auto simp: LogFormatter_ctor_def setPattern_def parserFormatter_def Let_def unparse_def)
  with ok p(2) show ?thesis by simp
qed

lemma accepted_pattern_normal_form_witness:
  "\<exists>f'. LogFormatter_ctor (unparse [Time time_default, Str '' x'']) = Inr f' \<and>
    f_items f' = [Time time_default, Str '' x'']"
proof -
  have "LogFormatter_ctor ''%D x'' =
      Inr \<lparr>f_pattern = ''%D x'', f_error = False, f_items = [Time time_default, Str '' x'']\<rparr>"
    by code_simp
  from accepted_pattern_normal_form [OF this] show ?thesis by simp
qed

definition default_items :: "fmt_item list" where
  "default_items = [Time ''%y-%m-%d %H:%M:%S'', Tab, ThreadId, Str '' '', ThreadName, Str '' fiber='', FiberId, Tab,
     Str ''['', LogName, Str ''] ['', LevelName, Str '']'', Tab, FileName, Str '':'', Line, Tab, ErrNo, Str '' '',
     ErrStr, Str '' '', Message, NewLine]"

lemma default_ctor: "LogFormatter_ctor default_log_formatter =
  Inr \<lparr>f_pattern = default_log_formatter, f_error = False, f_items = default_items\<rparr>"
  by code_simp

text \<open>
  The default pattern is accepted; a pattern that ends in \<open>%\<close>, that escapes \<open>%\<close> as
  \<open>%%\<close> or leaves a brace open makes the constructor end the process.
\<close>

theorem default_pattern_accepted:
  "(\<exists>f. LogFormatter_ctor default_log_formatter = Inr f \<and>
     f_items f = default_items) \<and>
   LogFormatter_ctor ''%m%'' = Inl ExitCalled \<and> LogFormatter_ctor ''%%'' = Inl ExitCalled \<and>
   LogFormatter_ctor ''%D{%H'' = Inl ExitCalled"
proof -
  note default_ctor
  moreover have "LogFormatter_ctor ''%m%'' = Inl ExitCalled" by code_simp
  moreover have "LogFormatter_ctor ''%%'' = Inl ExitCalled" by code_simp
  moreover have "LogFormatter_ctor ''%D{%H'' = Inl ExitCalled" by code_simp
  ultimately show ?thesis by simp
qed

text \<open>The first \<open>k\<close> items stay, of the others every second one is removed.\<close>

fun every_second :: "'a list \<Rightarrow> 'a list" where
  "every_second [] = []"
| "every_second [x] = []"
| "every_second (x # y # xs) = y # every_second xs"

lemma clean_loop_even:
  "even (length xs) \<Longrightarrow> clean_loop it (length ys) (ys @ xs) = Inr (ys @ every_second xs)"
proof (induction xs arbitrary: ys rule: every_second.induct)
  case 1
  show ?case by (subst clean_loop.simps) simp
next
  case (2 x)
  then show ?case by simp
next
  case (3 x y xs)
  have "clean_loop it (length ys) (ys @ x # y # xs) = clean_loop it (length (ys @ [y])) ((ys @ [y]) @ xs)"
    by (subst clean_loop.simps) simp
  also have "\<dots> = Inr ((ys @ [y]) @ every_second xs)" by (rule 3) (use 3 in simp)
  finally show ?case by simp
qed

lemma clean_loop_odd:
  "odd (length xs) \<Longrightarrow> clean_loop it (length ys) (ys @ xs) = Inl OutOfBounds"
proof (induction xs arbitrary: ys rule: every_second.induct)
  case 1
  then show ?case by simp
next
  case (2 x)
  have "clean_loop it (length ys) (ys @ [x]) = clean_loop it (Suc (length ys)) ys"
    by (subst clean_loop.simps) simp
  also have "\<dots> = Inl OutOfBounds" by (subst clean_loop.simps) simp
  finally show ?case .
next
  case (3 x y xs)
  have "clean_loop it (length ys) (ys @ x # y # xs) = clean_loop it (length (ys @ [y])) ((ys @ [y]) @ xs)"
    by (subst clean_loop.simps) simp
  also have "\<dots> = Inl OutOfBounds" by (rule 3) (use 3 in simp)
  finally show ?case by simp
qed

text \<open>
  \<open>cleanEventItem\<close> does not look for its argument: it removes every second item, whatever
  they are, and runs past the end of the vector when their number is odd.
\<close>

theorem cleanEventItem_removes_wrong:
  "cleanEventItem it f =
     (if even (length (f_items f)) then Inr (f\<lparr>f_items := every_second (f_items f)\<rparr>) else Inl OutOfBounds)"
  using clean_loop_even [of "f_items f" it "[]"] clean_loop_odd [of "f_items f" it "[]"]
  by (simp add: cleanEventItem_def)

section \<open>A reference parser\<close>

text \<open>
  The grammar of patterns without indices: a text is a longest run of characters other than the
  percent sign, \<open>%D\<close> may have an argument in braces, and the other items are one letter.
\<close>

function ref_parse :: "string \<Rightarrow> fmt_item list option" where
  "ref_parse [] = Some []"
| "ref_parse (c # cs) =
     (if c \<noteq> CHR ''%''
      then map_option ((#) (Str (c # takeWhile (\<lambda>x. x \<noteq> CHR ''%'') cs))) (ref_parse (dropWhile (\<lambda>x. x \<noteq> CHR ''%'') cs))
      else case cs of
        [] \<Rightarrow> None
      | d # ds \<Rightarrow>
          (if d \<noteq> CHR ''D''
           then (case simple_item d of None \<Rightarrow> None | Some it \<Rightarrow> map_option ((#) it) (ref_parse ds))
           else if ds = [] \<or> hd ds \<noteq> CHR ''{'' then map_option ((#) (Time time_default)) (ref_parse ds)
           else if CHR ''}'' \<notin> set ds then None
           else map_option ((#) (Time (takeWhile (\<lambda>x. x \<noteq> CHR ''}'') (tl ds))))
                  (ref_parse (tl (dropWhile (\<lambda>x. x \<noteq> CHR ''}'') ds)))))"
  by pat_completeness auto
termination
proof (relation "measure length", goal_cases)
  case (2 c cs)
  then show ?case by (simp add: le_imp_less_Suc length_dropWhile_le)
next
  case (5 c cs d ds)
  then show ?case by (simp add: less_Suc_eq_le le_SucI le_trans [OF diff_le_self length_dropWhile_le])
qed auto

lemma find_brace_take:
  "j \<le> length p \<Longrightarrow> find_brace p j = j + length (takeWhile (\<lambda>x. x \<noteq> CHR ''}'') (drop j p))"
proof (induction p j rule: find_brace.induct)
  case (1 p j)
  show ?case
  proof (cases "j < length p")
    case True
    with 1 show ?thesis by (subst find_brace.simps) (auto simp flip: Cons_nth_drop_Suc)
  next
    case False
    with 1 show ?thesis by (subst find_brace.simps) simp
  qed
qed

lemma text_end_take:
  "j < length p \<Longrightarrow> text_end p j = j + length (takeWhile (\<lambda>x. x \<noteq> CHR ''%'') (drop (Suc j) p))"
proof (induction p j rule: text_end.induct)
  case (1 p j)
  show ?case
  proof (cases "Suc j < length p")
    case True
    with 1 show ?thesis by (subst text_end.simps) (auto simp flip: Cons_nth_drop_Suc)
  next
    case False
    with 1 show ?thesis by (subst text_end.simps) simp
  qed
qed

lemma drop_after_while: "drop (length (takeWhile P xs)) xs = dropWhile P xs"
  by (metis dropWhile_eq_drop)

lemma brace_found:
  "length xs \<le> length (takeWhile (\<lambda>x. x \<noteq> CHR ''}'') xs) \<longleftrightarrow> CHR ''}'' \<notin> set xs"
  by (induction xs) auto

definition put_before :: "fmt_item list \<Rightarrow> fmt_item list option \<Rightarrow> fmt_item list option" where
  "put_before its r = (case r of None \<Rightarrow> None | Some its' \<Rightarrow> Some (its @ its'))"

lemma put_before_simps [simp]:
  "put_before its None = None" "put_before its (Some its') = Some (its @ its')" "put_before [] r = r"
  "put_before its (map_option ((#) it) r) = put_before (its @ [it]) r"
  by (cases r; simp add: put_before_def)+

text \<open>Reading one item at the front of what is left, by index and by structure.\<close>

lemma parse_text_step:
  assumes "i < length p" and "p ! i \<noteq> CHR ''%''"
  defines "w \<equiv> takeWhile (\<lambda>x. x \<noteq> CHR ''%'') (drop (Suc i) p)"
  shows "parse_from p i items = parse_from p (Suc (i + length w)) (items @ [Str (p ! i # w)])"
    and "ref_parse (drop i p) = map_option ((#) (Str (p ! i # w))) (ref_parse (drop (Suc (i + length w)) p))"
    and "Suc (i + length w) \<le> length p"
    and "text_end p i = i + length w" and "substr p i (Suc (length w)) = p ! i # w"
proof -
  have d: "drop i p = p ! i # drop (Suc i) p" using assms(1) by (simp add: Cons_nth_drop_Suc)
  show e: "text_end p i = i + length w" unfolding w_def by (rule text_end_take [OF assms(1)])
  show "Suc (i + length w) \<le> length p"
    using assms(1) length_takeWhile_le [of "\<lambda>x. x \<noteq> CHR ''%''" "drop (Suc i) p"] by (simp add: w_def)
  show s: "substr p i (Suc (length w)) = p ! i # w"
    by (simp add: substr_def d w_def takeWhile_eq_take [symmetric])
  show "parse_from p i items = parse_from p (Suc (i + length w)) (items @ [Str (p ! i # w)])"
    using assms(1,2) s by (subst parse_from.simps) (simp add: e Let_def)
  have "drop (Suc (i + length w)) p = dropWhile (\<lambda>x. x \<noteq> CHR ''%'') (drop (Suc i) p)"
    unfolding w_def drop_after_while [symmetric] by (simp add: add.commute)
  then show "ref_parse (drop i p) = map_option ((#) (Str (p ! i # w))) (ref_parse (drop (Suc (i + length w)) p))"
    using assms(2) by (simp add: d w_def)
qed

lemma parse_time_step:
  assumes "Suc (Suc i) < length p" and "p ! i = CHR ''%''" and "p ! Suc i = CHR ''D''" and "p ! Suc (Suc i) = CHR ''{''"
  defines "j \<equiv> find_brace p (Suc (Suc i))"
  shows "length p \<le> j \<Longrightarrow> parse_from p i items = None \<and> ref_parse (drop i p) = None"
    and "j < length p \<Longrightarrow> \<exists>t. parse_from p i items = parse_from p (Suc j) (items @ [Time t]) \<and> p ! j = CHR ''}'' \<and>
       t = substr p (i + 3) (j - i - 3) \<and> ref_parse (drop i p) = map_option ((#) (Time t)) (ref_parse (drop (Suc j) p))"
proof -
  let ?x = "drop (Suc (Suc i)) p" and ?w = "takeWhile (\<lambda>x. x \<noteq> CHR ''}'') (drop (Suc (Suc i)) p)"
  have d: "drop i p = CHR ''%'' # CHR ''D'' # ?x" "?x = CHR ''{'' # drop (Suc (Suc (Suc i))) p"
    using assms(1-4) by (metis Cons_nth_drop_Suc Suc_lessD)+
  have j: "j = i + 2 + length ?w" using find_brace_take [of "Suc (Suc i)" p] assms(1) by (simp add: j_def)
  have b: "length p \<le> j \<longleftrightarrow> CHR ''}'' \<notin> set ?x"
    using brace_found [of ?x] assms(1) by (auto simp: j)
  show "parse_from p i items = None \<and> ref_parse (drop i p) = None" if "length p \<le> j"
  proof
    show "parse_from p i items = None"
      using assms(1-4) that by (subst parse_from.simps) (simp add: char_at_def Let_def j_def)
    show "ref_parse (drop i p) = None" using that d(2) unfolding b d(1) by simp
  qed
  show "\<exists>t. parse_from p i items = parse_from p (Suc j) (items @ [Time t]) \<and> p ! j = CHR ''}'' \<and>
       t = substr p (i + 3) (j - i - 3) \<and> ref_parse (drop i p) = map_option ((#) (Time t)) (ref_parse (drop (Suc j) p))"
    if "j < length p"
  proof -
    have in_x: "CHR ''}'' \<in> set ?x" using b that by simp
    have "hd (dropWhile (\<lambda>x. x \<noteq> CHR ''}'') ?x) = CHR ''}''"
      using hd_dropWhile [of "\<lambda>x. x \<noteq> CHR ''}''" ?x] in_x by auto
    moreover have dj: "drop j p = dropWhile (\<lambda>x. x \<noteq> CHR ''}'') ?x"
      unfolding j drop_after_while [symmetric] by (simp add: add.commute)
    ultimately have pj: "p ! j = CHR ''}''" using that by (metis hd_drop_conv_nth)
    have ds: "drop (Suc j) p = tl (dropWhile (\<lambda>x. x \<noteq> CHR ''}'') ?x)"
      unfolding dj [symmetric] by (simp add: drop_Suc tl_drop)
    have t: "substr p (i + 3) (j - i - 3) = takeWhile (\<lambda>x. x \<noteq> CHR ''}'') (tl ?x)"
      using d(2) by (simp add: substr_def j takeWhile_eq_take [symmetric] eval_nat_numeral)
    have "parse_from p i items = parse_from p (Suc j) (items @ [Time (substr p (i + 3) (j - i - 3))])"
      using assms(1-4) that pj by (subst parse_from.simps) (simp add: char_at_def Let_def j_def [symmetric] eval_nat_numeral)
    moreover have "ref_parse (drop i p) = map_option ((#) (Time (substr p (i + 3) (j - i - 3)))) (ref_parse (drop (Suc j) p))"
      using in_x d(2) ds unfolding t d(1) by simp
    ultimately show ?thesis using pj by blast
  qed
qed

lemma parse_from_ref:
  "i \<le> length p \<Longrightarrow> parse_from p i items = put_before items (ref_parse (drop i p))"
proof (induction p i items rule: parse_from.induct)
  case (1 p i items)
  consider (stop) "i = length p" | (plain) "i < length p" "p ! i \<noteq> CHR ''%''"
    | (lone) "i < length p" "p ! i = CHR ''%''" "Suc i = length p"
    | (letter) "i < length p" "p ! i = CHR ''%''" "Suc i < length p" "p ! Suc i \<noteq> CHR ''D''"
    | (arg) "Suc (Suc i) < length p" "p ! i = CHR ''%''" "p ! Suc i = CHR ''D''" "p ! Suc (Suc i) = CHR ''{''"
    | (dflt) "i < length p" "p ! i = CHR ''%''" "Suc i < length p" "p ! Suc i = CHR ''D''"
        "\<not> (Suc (Suc i) < length p \<and> p ! Suc (Suc i) = CHR ''{'')"
    using 1(5) by linarith
  then show ?case
  proof cases
    case stop
    then show ?thesis by (subst parse_from.simps) simp
  next
    case plain
    let ?w = "takeWhile (\<lambda>x. x \<noteq> CHR ''%'') (drop (Suc i) p)"
    note st = parse_text_step [OF plain]
    have "parse_from p (Suc (i + length ?w)) (items @ [Str (p ! i # ?w)]) =
        put_before (items @ [Str (p ! i # ?w)]) (ref_parse (drop (Suc (i + length ?w)) p))"
      using 1(4) [OF _ plain(2) refl] plain(1) st(3) by (simp add: st(4,5))
    then show ?thesis unfolding st(1) st(2) by simp
  next
    case lone
    then have "drop i p = [CHR ''%'']" by (metis Cons_nth_drop_Suc drop_all order_refl)
    with lone show ?thesis by (subst parse_from.simps) (simp add: char_at_def simple_item_def)
  next
    case letter
    then have d: "drop i p = CHR ''%'' # p ! Suc i # drop (Suc (Suc i)) p" by (metis Cons_nth_drop_Suc)
    show ?thesis
    proof (cases "simple_item (p ! Suc i)")
      case None
      with letter show ?thesis by (subst parse_from.simps) (simp add: d char_at_def)
    next
      case (Some it)
      have "parse_from p (Suc (Suc i)) (items @ [it]) = put_before (items @ [it]) (ref_parse (drop (Suc (Suc i)) p))"
        using 1(3) [OF _ letter(2) refl refl refl, of it] letter Some by (simp add: char_at_def)
      with letter Some show ?thesis by (subst parse_from.simps) (simp add: d char_at_def)
    qed
  next
    case arg
    let ?j = "find_brace p (Suc (Suc i))"
    show ?thesis
    proof (cases "length p \<le> ?j")
      case True
      then show ?thesis using parse_time_step(1) [OF arg] by simp
    next
      case False
      then have lt: "?j < length p" by simp
      obtain t where t: "parse_from p i items = parse_from p (Suc ?j) (items @ [Time t])" "p ! ?j = CHR ''}''"
        "t = substr p (i + 3) (?j - i - 3)" "ref_parse (drop i p) = map_option ((#) (Time t)) (ref_parse (drop (Suc ?j) p))"
        using parse_time_step(2) [OF arg lt] by blast
      have "parse_from p (Suc ?j) (items @ [Time t]) = put_before (items @ [Time t]) (ref_parse (drop (Suc ?j) p))"
        using 1(1) [OF _ arg(2) refl refl refl] arg lt t(2) by (simp add: t(3) char_at_def eval_nat_numeral)
      then show ?thesis by (simp add: t(1,4))
    qed
  next
    case dflt
    then have d: "drop i p = CHR ''%'' # CHR ''D'' # drop (Suc (Suc i)) p" by (metis Cons_nth_drop_Suc)
    have h: "drop (Suc (Suc i)) p = [] \<or> hd (drop (Suc (Suc i)) p) \<noteq> CHR ''{''"
      using dflt(5) by (auto simp: hd_drop_conv_nth not_less)
    have "parse_from p (Suc (Suc i)) (items @ [Time time_default]) =
        put_before (items @ [Time time_default]) (ref_parse (drop (Suc (Suc i)) p))"
      using 1(2) [OF _ dflt(2) refl refl refl] dflt by (simp add: char_at_def)
    with dflt h show ?thesis by (subst parse_from.simps) (auto simp: d char_at_def)
  qed
qed

text \<open>C31: the parser with its indices agrees with the reference parser on every pattern, and
  refuses the empty one.\<close>

theorem parser_meets_grammar:
  "parserFormatter p = (if p = [] then None else ref_parse p)"
  using parse_from_ref [of 0 p "[]"] by (simp add: parserFormatter_def)

end
