(* ===== verification/Logger.thy ===== *)
theory Logger
  imports LogFormat
begin

text \<open>
  \<open>src/log/log_appender.h\<close>, \<open>log_appender.cc\<close>, \<open>logger.h\<close>, \<open>logger.cc\<close>, \<open>log_manager.h\<close>,
  \<open>log_manager.cc\<close>, \<open>log_warp.h\<close> and the macros of \<open>src/log.h\<close>. Appenders and loggers are
  shared pointers: they live in two heaps and are named by addresses. A formatter is never
  changed after its construction, so it is a value. What appenders write is collected in
  \<open>outputs\<close>. The spin locks guard single operations and are not part of this model;
  \<open>LoggerShared\<close> has the interleavings of several threads.
\<close>

section \<open>Data\<close>

datatype yaml = YNull | YScalar string | YSeq "yaml list" | YMap "(string \<times> yaml) list"

datatype appender_kind = Console | File string

record appender =
  ap_kind :: appender_kind
  ap_level :: level
  ap_formatter :: "formatter option"
  ap_hasFormatter :: bool

record logger =
  lg_name :: string
  lg_level :: level
  lg_formatter :: "formatter option"
  lg_root :: "nat option"
  lg_appenders :: "nat list"

record log_store =
  ap_heap :: "appender list"
  lg_heap :: "logger list"
  outputs :: "(appender_kind \<times> string) list"

definition ap_at :: "nat \<Rightarrow> log_store \<Rightarrow> appender" where "ap_at a st = ap_heap st ! a"
definition lg_at :: "nat \<Rightarrow> log_store \<Rightarrow> logger" where "lg_at l st = lg_heap st ! l"

definition set_ap :: "nat \<Rightarrow> appender \<Rightarrow> log_store \<Rightarrow> log_store" where
  "set_ap a x st = st\<lparr>ap_heap := (ap_heap st)[a := x]\<rparr>"

definition set_lg :: "nat \<Rightarrow> logger \<Rightarrow> log_store \<Rightarrow> log_store" where
  "set_lg l x st = st\<lparr>lg_heap := (lg_heap st)[l := x]\<rparr>"

section \<open>Appenders\<close>

definition ConsoleAppender_ctor :: appender where
  "ConsoleAppender_ctor = \<lparr>ap_kind = Console, ap_level = DEBUG, ap_formatter = None, ap_hasFormatter = False\<rparr>"

definition FileAppender_ctor :: "string \<Rightarrow> appender" where
  "FileAppender_ctor path = \<lparr>ap_kind = File path, ap_level = DEBUG, ap_formatter = None, ap_hasFormatter = False\<rparr>"

definition ap_setFormatter :: "formatter option \<Rightarrow> appender \<Rightarrow> appender" where
  "ap_setFormatter v a = a\<lparr>ap_formatter := v, ap_hasFormatter := (v \<noteq> None)\<rparr>"

definition ap_setPattern :: "string \<Rightarrow> appender \<Rightarrow> appender result" where
  "ap_setPattern p a = bindR (LogFormatter_ctor p) (\<lambda>f. Inr (ap_setFormatter (Some f) a))"

definition isAppender :: "level \<Rightarrow> appender \<Rightarrow> bool" where "isAppender l a \<longleftrightarrow> ap_level a \<le> l"

text \<open>The names of the loggers come from the heap, the rest of \<open>fmt_env\<close> from outside.\<close>

definition with_names :: "fmt_env \<Rightarrow> log_store \<Rightarrow> fmt_env" where
  "with_names env st = env\<lparr>env_loggerName := (\<lambda>l. lg_name (lg_at l st))\<rparr>"

text \<open>
  \<open>log\<close> of \<open>ConsoleAppender\<close> and \<open>FileAppender\<close>, which differ in the stream they write to:
  without a formatter of its own the appender formats with the formatter of the logger and drops
  the text.
\<close>

definition Appender_log :: "nat \<Rightarrow> log_event \<Rightarrow> log_event" where
  "Appender_log l ev = (if e_logger ev = None then ev\<lparr>e_logger := Some l\<rparr> else ev)"

definition appender_log ::
  "fmt_env \<Rightarrow> nat \<Rightarrow> nat \<Rightarrow> log_event \<times> log_store \<Rightarrow> (log_event \<times> log_store) result" where
  "appender_log env a l s =
     (let ev = Appender_log l (fst s); st = snd s; ap = ap_at a st
      in if isAppender (e_level ev) ap
         then (if ap_hasFormatter ap
               then (case ap_formatter ap of
                       None \<Rightarrow> Inl NullDeref
                     | Some f \<Rightarrow> bindR (format_event (with_names env st) f ev)
                         (\<lambda>t. Inr (ev, st\<lparr>outputs := outputs st @ [(ap_kind ap, t)]\<rparr>)))
               else (case lg_formatter (lg_at l st) of
                       None \<Rightarrow> Inl NullDeref
                     | Some f \<Rightarrow> bindR (format_event (with_names env st) f ev) (\<lambda>t. Inr (ev, st))))
         else Inr (ev, st))"

definition ap_getYamlNode :: "appender \<Rightarrow> yaml result" where
  "ap_getYamlNode a =
     (let path = (case ap_kind a of Console \<Rightarrow> [] | File p \<Rightarrow> [(''path'', YScalar p)]);
          lev = [(''level'', YScalar (ToString (ap_level a)))]
      in if ap_hasFormatter a
         then (case ap_formatter a of
                 None \<Rightarrow> Inl NullDeref
               | Some f \<Rightarrow> Inr (YMap (path @ [(''formatter'', YScalar (f_pattern f))] @ lev)))
         else Inr (YMap (path @ lev)))"

section \<open>Loggers\<close>

definition Logger_ctor :: "string \<Rightarrow> level \<Rightarrow> logger result" where
  "Logger_ctor name lev = bindR (LogFormatter_ctor default_log_formatter) (\<lambda>f.
     Inr \<lparr>lg_name = name, lg_level = lev, lg_formatter = Some f, lg_root = None, lg_appenders = []\<rparr>)"

fun log_appenders ::
  "fmt_env \<Rightarrow> nat \<Rightarrow> nat list \<Rightarrow> log_event \<times> log_store \<Rightarrow> (log_event \<times> log_store) result" where
  "log_appenders env l [] s = Inr s"
| "log_appenders env l (a # as) s = bindR (appender_log env a l s) (log_appenders env l as)"

text \<open>\<open>log\<close> passes the event on to \<open>m_root\<close> when the logger has no appenders; that chain of
  loggers need not end.\<close>

partial_function (option) Logger_log ::
  "fmt_env \<Rightarrow> nat \<Rightarrow> level \<Rightarrow> log_event \<times> log_store \<Rightarrow> (log_event \<times> log_store) run" where
  "Logger_log env l lev s =
     (let lg = lg_at l (snd s)
      in if lev < lg_level lg then Some (Inr s)
         else if lg_appenders lg = [] \<and> lg_root lg \<noteq> None then Logger_log env (the (lg_root lg)) lev s
         else Some (log_appenders env l (lg_appenders lg) s))"

definition addAppender :: "nat \<Rightarrow> nat \<Rightarrow> log_store \<Rightarrow> log_store" where
  "addAppender l a st =
     (let lg = lg_at l st;
          st1 = (if ap_formatter (ap_at a st) = None \<and> lg_formatter lg \<noteq> None
                 then set_ap a (ap_setFormatter (lg_formatter lg) (ap_at a st)) st else st)
      in set_lg l (lg\<lparr>lg_appenders := lg_appenders lg @ [a]\<rparr>) st1)"

definition delAppender :: "nat \<Rightarrow> nat \<Rightarrow> log_store \<Rightarrow> log_store" where
  "delAppender l a st =
     set_lg l ((lg_at l st)\<lparr>lg_appenders := remove1 a (lg_appenders (lg_at l st))\<rparr>) st"

definition clearAllAppenders :: "nat \<Rightarrow> log_store \<Rightarrow> log_store" where
  "clearAllAppenders l st = set_lg l ((lg_at l st)\<lparr>lg_appenders := []\<rparr>) st"

fun set_all :: "formatter option \<Rightarrow> nat list \<Rightarrow> log_store \<Rightarrow> log_store" where
  "set_all v [] st = st"
| "set_all v (a # as) st =
     set_all v as (if ap_hasFormatter (ap_at a st) then set_ap a (ap_setFormatter v (ap_at a st)) st else st)"

definition lg_setFormatter :: "nat \<Rightarrow> formatter option \<Rightarrow> log_store \<Rightarrow> log_store" where
  "lg_setFormatter l v st =
     set_all v (lg_appenders (lg_at l st)) (set_lg l ((lg_at l st)\<lparr>lg_formatter := v\<rparr>) st)"

definition lg_setPattern :: "nat \<Rightarrow> string \<Rightarrow> log_store \<Rightarrow> log_store result" where
  "lg_setPattern l p st = bindR (LogFormatter_ctor p) (\<lambda>f.
     Inr (if f_error f then st else lg_setFormatter l (Some f) st))"

fun yaml_nodes :: "appender list \<Rightarrow> yaml list result" where
  "yaml_nodes [] = Inr []"
| "yaml_nodes (a # as) = bindR (ap_getYamlNode a) (\<lambda>y. bindR (yaml_nodes as) (\<lambda>ys. Inr (y # ys)))"

definition lg_getYamlNode :: "nat \<Rightarrow> log_store \<Rightarrow> yaml result" where
  "lg_getYamlNode l st =
     (let lg = lg_at l st
      in case lg_formatter lg of
           None \<Rightarrow> Inl NullDeref
         | Some f \<Rightarrow> bindR (yaml_nodes (map (\<lambda>a. ap_at a st) (lg_appenders lg))) (\<lambda>ys.
             Inr (YMap [(''name'', YScalar (lg_name lg)), (''level'', YScalar (ToString (lg_level lg))),
                        (''formatter'', YScalar (f_pattern f)), (''appenders'', YSeq ys)])))"

section \<open>The macros\<close>

text \<open>
  \<open>LOG_LEVEL (logger, level) << text\<close>: the event is built if the logger passes the level, and
  the destructor of \<open>LogWarp\<close> logs it. \<open>ev\<close> is the event with place, thread and time filled in.
\<close>

definition LogWarp_dtor :: "fmt_env \<Rightarrow> log_event \<Rightarrow> log_store \<Rightarrow> log_store run" where
  "LogWarp_dtor env ev st = (case e_logger ev of
     None \<Rightarrow> Some (Inl NullDeref)
   | Some l \<Rightarrow> bindO (Logger_log env l (e_level ev) (ev, st)) (\<lambda>s. Some (Inr (snd s))))"

definition LOG_LEVEL :: "fmt_env \<Rightarrow> nat \<Rightarrow> level \<Rightarrow> log_event \<Rightarrow> string \<Rightarrow> log_store \<Rightarrow> log_store run" where
  "LOG_LEVEL env l lev ev text st =
     (if lg_level (lg_at l st) \<le> lev
      then LogWarp_dtor env (event_write text (ev\<lparr>e_logger := Some l, e_level := lev, e_content := []\<rparr>)) st
      else Some (Inr st))"

section \<open>The manager\<close>

record manager =
  lm_store :: log_store
  lm_map :: "(string \<times> nat) list"
  lm_root :: nat

definition new_logger :: "logger \<Rightarrow> log_store \<Rightarrow> log_store \<times> nat" where
  "new_logger lg st = (st\<lparr>lg_heap := lg_heap st @ [lg]\<rparr>, length (lg_heap st))"

definition LogManager_ctor :: "manager result" where
  "LogManager_ctor = bindR (Logger_ctor ''root'' DEBUG) (\<lambda>lg.
     let st = \<lparr>ap_heap = [ConsoleAppender_ctor], lg_heap = [lg], outputs = []\<rparr>
     in Inr \<lparr>lm_store = addAppender 0 0 st, lm_map = [(lg_name lg, 0)], lm_root = 0\<rparr>)"

definition getLogger :: "string \<Rightarrow> manager \<Rightarrow> (nat \<times> manager) result" where
  "getLogger name m = (case map_of (lm_map m) name of
     Some l \<Rightarrow> Inr (l, m)
   | None \<Rightarrow> bindR (Logger_ctor name DEBUG) (\<lambda>lg.
       let (st, l) = new_logger (lg\<lparr>lg_root := Some (lm_root m)\<rparr>) (lm_store m)
       in Inr (l, m\<lparr>lm_store := st, lm_map := (name, l) # lm_map m\<rparr>)))"

section \<open>What a log call writes\<close>

lemma outputs_indep [simp]:
  "ap_at a (st\<lparr>outputs := o1\<rparr>) = ap_at a st" "lg_at l (st\<lparr>outputs := o1\<rparr>) = lg_at l st"
  "with_names env (st\<lparr>outputs := o1\<rparr>) = with_names env st"
  by (simp_all add: ap_at_def lg_at_def with_names_def)

lemma Appender_log_logger: "e_logger (Appender_log l ev) \<noteq> None \<and> e_level (Appender_log l ev) = e_level ev"
  by (simp add: Appender_log_def)

lemma Appender_log_idem [simp]: "Appender_log l (Appender_log l' ev) = Appender_log l' ev"
  by (simp add: Appender_log_def)

lemma format_items_ok: "e_logger ev \<noteq> None \<Longrightarrow> \<exists>t. format_items env ev its = Inr t"
proof (induction its)
  case Nil
  then show ?case by simp
next
  case (Cons it its)
  then have "\<exists>s. item_stream env ev it = Inr s" by (cases it) (auto simp: item_stream_def)
  with Cons show ?case by auto
qed

definition rendered :: "fmt_env \<Rightarrow> log_event \<Rightarrow> formatter \<Rightarrow> string" where
  "rendered env ev f = (case format_event env f ev of Inl e \<Rightarrow> [] | Inr t \<Rightarrow> t)"

lemma format_rendered: "e_logger ev \<noteq> None \<Longrightarrow> format_event env f ev = Inr (rendered env ev f)"
  using format_items_ok [of ev env "f_items f"] by (auto simp: rendered_def format_event_def)

text \<open>The lines of a list of appenders.\<close>

definition lines_of :: "fmt_env \<Rightarrow> log_event \<Rightarrow> log_store \<Rightarrow> nat list \<Rightarrow> (appender_kind \<times> string) list" where
  "lines_of env ev st as = concat (map (\<lambda>a. case ap_formatter (ap_at a st) of
     None \<Rightarrow> []
   | Some f \<Rightarrow> if isAppender (e_level ev) (ap_at a st)
               then [(ap_kind (ap_at a st), rendered (with_names env st) ev f)] else []) as)"

lemma lines_of_simps [simp]:
  "lines_of env ev (st\<lparr>outputs := o1\<rparr>) as = lines_of env ev st as"
  "lines_of env ev st [] = []"
  by (simp_all add: lines_of_def cong: option.case_cong if_cong)

lemma lines_of_Cons: "lines_of env ev st [a] @ lines_of env ev st as = lines_of env ev st (a # as)"
  by (simp add: lines_of_def)

text \<open>An appender says that it has a formatter exactly when it has one.\<close>

definition appenders_ok :: "log_store \<Rightarrow> bool" where
  "appenders_ok st \<longleftrightarrow> (\<forall>a \<in> set (ap_heap st). ap_hasFormatter a \<longleftrightarrow> ap_formatter a \<noteq> None)"

lemma appenders_ok_at:
  "appenders_ok st \<Longrightarrow> a < length (ap_heap st) \<Longrightarrow> ap_hasFormatter (ap_at a st) \<longleftrightarrow> ap_formatter (ap_at a st) \<noteq> None"
  by (simp add: appenders_ok_def ap_at_def)

lemma appender_log_lines:
  assumes "appenders_ok st" and "a < length (ap_heap st)" and "lg_formatter (lg_at l st) \<noteq> None"
  shows "appender_log env a l (ev, st) = Inr (Appender_log l ev,
    st\<lparr>outputs := outputs st @ lines_of env (Appender_log l ev) st [a]\<rparr>)"
proof -
  have e: "e_logger (Appender_log l ev) \<noteq> None" by (simp add: Appender_log_logger)
  from assms(3) obtain f where f: "lg_formatter (lg_at l st) = Some f" by auto
  show ?thesis
    using appenders_ok_at [OF assms(1,2)] f
    by (cases "ap_formatter (ap_at a st)")
      (simp_all add: appender_log_def lines_of_def Let_def format_rendered [OF e])
qed

lemma log_appenders_lines:
  assumes "\<forall>a \<in> set as. a < length (ap_heap st)" and "appenders_ok st" and "lg_formatter (lg_at l st) \<noteq> None"
    and "as \<noteq> []"
  shows "log_appenders env l as (ev, st) = Inr (Appender_log l ev,
    st\<lparr>outputs := outputs st @ lines_of env (Appender_log l ev) st as\<rparr>)"
  using assms
proof (induction as arbitrary: ev st)
  case Nil
  then show ?case by simp
next
  case (Cons a as)
  let ?st = "st\<lparr>outputs := outputs st @ lines_of env (Appender_log l ev) st [a]\<rparr>"
  have ok: "appenders_ok ?st" using Cons.prems(2) by (simp add: appenders_ok_def)
  have s: "appender_log env a l (ev, st) = Inr (Appender_log l ev, ?st)"
    by (rule appender_log_lines) (use Cons.prems in simp_all)
  show ?case
  proof (cases "as = []")
    case True
    with s show ?thesis by simp
  next
    case False
    have i: "log_appenders env l as (Appender_log l ev, ?st) = Inr (Appender_log l (Appender_log l ev),
        ?st\<lparr>outputs := outputs ?st @ lines_of env (Appender_log l (Appender_log l ev)) ?st as\<rparr>)"
      by (rule Cons.IH) (use Cons.prems ok False in simp_all)
    show ?thesis by (simp add: s i lines_of_Cons)
  qed
qed

lemma Logger_log_filtered: "lev < lg_level (lg_at l st) \<Longrightarrow> Logger_log env l lev (ev, st) = Some (Inr (ev, st))"
  by (simp add: Logger_log.simps Let_def)

lemma Logger_log_root:
  "\<not> lev < lg_level (lg_at l st) \<Longrightarrow> lg_appenders (lg_at l st) = [] \<Longrightarrow> lg_root (lg_at l st) = Some r \<Longrightarrow>
   Logger_log env l lev (ev, st) = Logger_log env r lev (ev, st)"
  by (subst Logger_log.simps) (simp add: Let_def)

lemma Logger_log_own:
  assumes "\<not> lev < lg_level (lg_at l st)" and "lg_appenders (lg_at l st) \<noteq> []" and "appenders_ok st"
    and "lg_formatter (lg_at l st) \<noteq> None" and "\<forall>a \<in> set (lg_appenders (lg_at l st)). a < length (ap_heap st)"
  shows "Logger_log env l lev (ev, st) = Some (Inr (Appender_log l ev,
    st\<lparr>outputs := outputs st @ lines_of env (Appender_log l ev) st (lg_appenders (lg_at l st))\<rparr>))"
  using assms by (subst Logger_log.simps) (simp add: Let_def log_appenders_lines)


definition demo_fmt :: formatter where
  "demo_fmt = \<lparr>f_pattern = ''%P:%m'', f_error = False, f_items = [LevelName, Str '':'', Message]\<rparr>"

definition demo_store :: log_store where
  "demo_store = \<lparr>ap_heap = [ConsoleAppender_ctor\<lparr>ap_formatter := Some demo_fmt, ap_hasFormatter := True\<rparr>,
       (FileAppender_ctor ''a.log'')\<lparr>ap_level := ERROR, ap_formatter := Some demo_fmt, ap_hasFormatter := True\<rparr>],
     lg_heap = [\<lparr>lg_name = ''root'', lg_level = DEBUG, lg_formatter = Some demo_fmt, lg_root = None,
       lg_appenders = [0, 1]\<rparr>], outputs = []\<rparr>"

definition demo_env :: fmt_env where
  "demo_env = \<lparr>env_strftime = (\<lambda>_ _ _. []), env_errno = 0, env_strerror = (\<lambda>_. []), env_loggerName = (\<lambda>_. [])\<rparr>"


section \<open>The manager of named loggers\<close>

definition mgr_ok :: "manager \<Rightarrow> bool" where
  "mgr_ok m \<longleftrightarrow> appenders_ok (lm_store m) \<and> map_of (lm_map m) ''root'' = Some (lm_root m) \<and>
     lg_appenders (lg_at (lm_root m) (lm_store m)) \<noteq> [] \<and>
     (\<forall>a \<in> set (lg_appenders (lg_at (lm_root m) (lm_store m))). a < length (ap_heap (lm_store m))) \<and>
     (\<forall>n l. map_of (lm_map m) n = Some l \<longrightarrow> l < length (lg_heap (lm_store m)) \<and>
        lg_name (lg_at l (lm_store m)) = n \<and> lg_formatter (lg_at l (lm_store m)) \<noteq> None \<and>
        (l \<noteq> lm_root m \<longrightarrow> lg_root (lg_at l (lm_store m)) = Some (lm_root m)))"

definition default_formatter :: formatter where
  "default_formatter = \<lparr>f_pattern = default_log_formatter, f_error = False, f_items = default_items\<rparr>"

lemma Logger_ctor_eq: "Logger_ctor name lev =
  Inr \<lparr>lg_name = name, lg_level = lev, lg_formatter = Some default_formatter, lg_root = None, lg_appenders = []\<rparr>"
  by (simp add: Logger_ctor_def default_ctor default_formatter_def)

definition mgr_init :: manager where
  "mgr_init = \<lparr>lm_store = \<lparr>ap_heap = [ap_setFormatter (Some default_formatter) ConsoleAppender_ctor],
      lg_heap = [\<lparr>lg_name = ''root'', lg_level = DEBUG, lg_formatter = Some default_formatter,
        lg_root = None, lg_appenders = [0]\<rparr>], outputs = []\<rparr>,
     lm_map = [(''root'', 0)], lm_root = 0\<rparr>"

lemma LogManager_ctor_eq: "LogManager_ctor = Inr mgr_init"
  by (simp add: LogManager_ctor_def Logger_ctor_eq mgr_init_def addAppender_def set_ap_def set_lg_def
      lg_at_def ap_at_def Let_def ConsoleAppender_ctor_def)

lemma mgr_init_ok: "mgr_ok mgr_init"
  by (simp add: mgr_ok_def mgr_init_def appenders_ok_def lg_at_def ap_setFormatter_def)

text \<open>The logger a new name gets, and the manager that knows it.\<close>

definition fresh_logger :: "string \<Rightarrow> manager \<Rightarrow> logger" where
  "fresh_logger name m = \<lparr>lg_name = name, lg_level = DEBUG, lg_formatter = Some default_formatter,
     lg_root = Some (lm_root m), lg_appenders = []\<rparr>"

definition with_logger :: "string \<Rightarrow> manager \<Rightarrow> manager" where
  "with_logger name m = m\<lparr>lm_store := (lm_store m)\<lparr>lg_heap := lg_heap (lm_store m) @ [fresh_logger name m]\<rparr>,
     lm_map := (name, length (lg_heap (lm_store m))) # lm_map m\<rparr>"

lemma getLogger_new:
  "map_of (lm_map m) name = None \<Longrightarrow> getLogger name m = Inr (length (lg_heap (lm_store m)), with_logger name m)"
  by (simp add: getLogger_def Logger_ctor_eq new_logger_def with_logger_def fresh_logger_def)

lemma getLogger_known: "map_of (lm_map m) name = Some l \<Longrightarrow> getLogger name m = Inr (l, m)"
  by (simp add: getLogger_def)

lemma with_logger_simps [simp]:
  "lm_root (with_logger name m) = lm_root m"
  "lm_map (with_logger name m) = (name, length (lg_heap (lm_store m))) # lm_map m"
  "ap_heap (lm_store (with_logger name m)) = ap_heap (lm_store m)"
  "length (lg_heap (lm_store (with_logger name m))) = Suc (length (lg_heap (lm_store m)))"
  "lg_at (length (lg_heap (lm_store m))) (lm_store (with_logger name m)) = fresh_logger name m"
  by (simp_all add: with_logger_def lg_at_def)

lemma with_logger_old [simp]:
  "l < length (lg_heap (lm_store m)) \<Longrightarrow> lg_at l (lm_store (with_logger name m)) = lg_at l (lm_store m)"
  by (simp add: with_logger_def lg_at_def nth_append)

lemma mgr_root: "mgr_ok m \<Longrightarrow> lm_root m < length (lg_heap (lm_store m)) \<and>
    lg_formatter (lg_at (lm_root m) (lm_store m)) \<noteq> None"
  by (auto simp: mgr_ok_def)

lemma with_logger_ok:
  assumes "mgr_ok m" and "map_of (lm_map m) name = None"
  shows "mgr_ok (with_logger name m)"
proof -
  have "name \<noteq> ''root''" using assms by (auto simp: mgr_ok_def)
  then show ?thesis
    using assms mgr_root [OF assms(1)]
    by (auto simp: mgr_ok_def appenders_ok_def fresh_logger_def intro: less_SucI)
qed

lemma getLogger_ok:
  assumes "mgr_ok m"
  obtains l m' where "getLogger name m = Inr (l, m')" "mgr_ok m'" "map_of (lm_map m') name = Some l"
    "\<And>n k. map_of (lm_map m) n = Some k \<Longrightarrow> map_of (lm_map m') n = Some k"
proof (cases "map_of (lm_map m) name")
  case None
  show ?thesis
    by (rule that [OF getLogger_new [OF None] with_logger_ok [OF assms None]]) (use None in auto)
next
  case (Some l)
  with that [OF getLogger_known [OF Some] assms] show ?thesis by auto
qed

fun get_all :: "string list \<Rightarrow> manager \<Rightarrow> manager result" where
  "get_all [] m = Inr m"
| "get_all (n # ns) m = bindR (getLogger n m) (\<lambda>(l, m'). get_all ns m')"

lemma get_all_ok:
  assumes "mgr_ok m"
  shows "\<exists>m'. get_all ns m = Inr m' \<and> mgr_ok m' \<and> (\<forall>n \<in> set ns. map_of (lm_map m') n \<noteq> None) \<and>
    (\<forall>n k. map_of (lm_map m) n = Some k \<longrightarrow> map_of (lm_map m') n = Some k)"
  using assms
proof (induction ns arbitrary: m)
  case Nil
  then show ?case by simp
next
  case (Cons n ns)
  obtain l m1 where g: "getLogger n m = Inr (l, m1)" "mgr_ok m1" "map_of (lm_map m1) n = Some l"
    "\<And>n k. map_of (lm_map m) n = Some k \<Longrightarrow> map_of (lm_map m1) n = Some k"
    using getLogger_ok [OF Cons.prems] by metis
  obtain m2 where m2: "get_all ns m1 = Inr m2" "mgr_ok m2" "\<forall>n \<in> set ns. map_of (lm_map m2) n \<noteq> None"
    "\<forall>n k. map_of (lm_map m1) n = Some k \<longrightarrow> map_of (lm_map m2) n = Some k"
    using Cons.IH [OF g(2)] by blast
  with g show ?case by auto
qed

text \<open>
  Whatever names have been asked for, asking again for one gives the same logger as before and
  changes nothing, it carries that name, and different names have different loggers.
\<close>

theorem getLogger_stable:
  assumes "LogManager_ctor = Inr m0" and "get_all names m0 = Inr m" and "n \<in> set names"
  shows "\<exists>l. getLogger n m = Inr (l, m) \<and> lg_name (lg_at l (lm_store m)) = n \<and>
    (\<forall>n' l'. n' \<noteq> n \<and> getLogger n' m = Inr (l', m) \<longrightarrow> l' \<noteq> l) \<and>
    (\<forall>more m'. get_all more m = Inr m' \<longrightarrow> getLogger n m' = Inr (l, m'))"
proof -
  have m0: "mgr_ok m0" using assms(1) by (simp add: LogManager_ctor_eq mgr_init_ok)
  with assms(2,3) get_all_ok [OF m0, of names]
  obtain l where l: "mgr_ok m" "map_of (lm_map m) n = Some l" by auto
  have name: "lg_name (lg_at k (lm_store m)) = n'" if "getLogger n' m = Inr (k, m)" for n' k
  proof (cases "map_of (lm_map m) n'")
    case None
    with that have "with_logger n' m = m" by (simp add: getLogger_new)
    then have "lm_map (with_logger n' m) = lm_map m" by simp
    then show ?thesis by simp
  next
    case (Some k')
    with that l(1) show ?thesis by (auto simp: getLogger_known mgr_ok_def)
  qed
  have "getLogger n m' = Inr (l, m')" if "get_all more m = Inr m'" for more m'
    using get_all_ok [OF l(1), of more] that l(2) by (auto intro: getLogger_known)
  with getLogger_known [OF l(2)] name show ?thesis by blast
qed

lemma getLogger_stable_witness:
  "\<exists>l m. get_all [''net'', ''db'', ''net''] mgr_init = Inr m \<and> getLogger ''db'' m = Inr (l, m) \<and>
    lg_name (lg_at l (lm_store m)) = ''db''"
proof -
  obtain m where m: "get_all [''net'', ''db'', ''net''] mgr_init = Inr m"
    using get_all_ok [OF mgr_init_ok] by blast
  from getLogger_stable [OF LogManager_ctor_eq m, of "''db''"] m show ?thesis by auto
qed

text \<open>
  A logger that was just created by its name writes through the appenders of the root logger
  and with the root's level, under its own name.
\<close>

theorem named_logger_uses_root:
  assumes "mgr_ok m" and "map_of (lm_map m) name = None"
    and "ev' = event_write text (ev\<lparr>e_logger := Some l, e_level := lev, e_content := []\<rparr>)"
    and "getLogger name m = Inr (l, m')" and "st = lm_store m'"
  shows "lg_name (lg_at l st) = name \<and> LOG_LEVEL env l lev ev text st =
    Some (Inr (st\<lparr>outputs := outputs st @
      (if lev < DEBUG \<or> lev < lg_level (lg_at (lm_root m) (lm_store m)) then []
       else lines_of env ev' st (lg_appenders (lg_at (lm_root m) (lm_store m))))\<rparr>))"
proof -
  let ?r = "lm_root m"
  have l: "l = length (lg_heap (lm_store m))" "m' = with_logger name m"
    using assms(4) getLogger_new [OF assms(2)] by simp_all
  have lg: "lg_at l st = fresh_logger name m" by (simp add: l assms(5))
  have r: "lg_at ?r st = lg_at ?r (lm_store m)" using mgr_root [OF assms(1)] by (simp add: l assms(5))
  have ok: "appenders_ok st" "lg_appenders (lg_at ?r st) \<noteq> []" "lg_formatter (lg_at ?r st) \<noteq> None"
    "\<forall>a \<in> set (lg_appenders (lg_at ?r st)). a < length (ap_heap st)"
    using assms(1) mgr_root [OF assms(1)] r by (simp_all add: mgr_ok_def appenders_ok_def l assms(5))
  have ev': "e_logger ev' = Some l" "e_level ev' = lev" "Appender_log ?r ev' = ev'"
    using assms(3) by (simp_all add: event_write_def Appender_log_def)
  consider "lev < DEBUG" | "\<not> lev < DEBUG" "lev < lg_level (lg_at ?r st)"
    | "\<not> lev < DEBUG" "\<not> lev < lg_level (lg_at ?r st)" by blast
  then have "LOG_LEVEL env l lev ev text st = Some (Inr (st\<lparr>outputs := outputs st @
      (if lev < DEBUG \<or> lev < lg_level (lg_at ?r st) then [] else lines_of env ev' st (lg_appenders (lg_at ?r st)))\<rparr>))"
  proof cases
    case 1
    then have "\<not> DEBUG \<le> lev" by simp
    with 1 show ?thesis by (simp add: LOG_LEVEL_def lg fresh_logger_def)
  next
    case 2
    have "Logger_log env l lev (ev', st) = Some (Inr (ev', st))"
      using Logger_log_root [of lev l st ?r env ev'] Logger_log_filtered [OF 2(2)] 2(1)
      by (simp add: lg fresh_logger_def)
    with 2 show ?thesis
      by (simp add: LOG_LEVEL_def LogWarp_dtor_def lg assms(3) [symmetric] ev' fresh_logger_def not_less)
  next
    case 3
    have "Logger_log env l lev (ev', st) =
        Some (Inr (ev', st\<lparr>outputs := outputs st @ lines_of env ev' st (lg_appenders (lg_at ?r st))\<rparr>))"
      using Logger_log_root [of lev l st ?r env ev'] Logger_log_own [OF 3(2) ok(2,1,3,4), of env ev'] 3(1)
      by (simp add: lg fresh_logger_def ev')
    with 3 show ?thesis
      by (simp add: LOG_LEVEL_def LogWarp_dtor_def lg assms(3) [symmetric] ev' fresh_logger_def not_less)
  qed
  then show ?thesis by (simp add: lg r fresh_logger_def)
qed

lemma named_logger_uses_root_witness:
  "\<exists>m' st'. getLogger ''net'' mgr_init = Inr (1, m') \<and>
    LOG_LEVEL demo_env 1 INFO (LogEvent_ctor None 0 ''m.cc'' 3 1 0 ''t'' DEBUG) ''hello'' (lm_store m') =
      Some (Inr st') \<and> length (outputs st') = 1"
proof -
  have n: "map_of (lm_map mgr_init) ''net'' = None" by (simp add: mgr_init_def)
  have g: "getLogger ''net'' mgr_init = Inr (1, with_logger ''net'' mgr_init)"
    using getLogger_new [OF n] by (simp add: mgr_init_def)
  have "length (lines_of demo_env ev (lm_store (with_logger ''net'' mgr_init)) [0]) = 1" if "e_level ev = INFO" for ev
    using that by (simp add: lines_of_def mgr_init_def with_logger_def ap_at_def ap_setFormatter_def
        ConsoleAppender_ctor_def isAppender_def level_order)
  moreover have "outputs (lm_store (with_logger ''net'' mgr_init)) = []"
    by (simp add: mgr_init_def with_logger_def)
  ultimately show ?thesis
    using named_logger_uses_root [OF mgr_init_ok n refl g refl, of demo_env INFO
        "LogEvent_ctor None 0 ''m.cc'' 3 1 0 ''t'' DEBUG" "''hello''"] g
    by (simp add: mgr_init_def lg_at_def level_order event_write_def)
qed

section \<open>Formatters of appenders\<close>

lemma set_ap_at [simp]:
  "ap_at b (set_ap a x st) = (if b = a \<and> a < length (ap_heap st) then x else ap_at b st)"
  "length (ap_heap (set_ap a x st)) = length (ap_heap st)"
  "lg_heap (set_ap a x st) = lg_heap st"
  by (auto simp: set_ap_def ap_at_def not_less list_update_beyond)

lemma set_lg_ap [simp]: "ap_heap (set_lg l x st) = ap_heap st" "ap_at a (set_lg l x st) = ap_at a st"
  by (simp_all add: set_lg_def ap_at_def)

lemma set_all_at:
  assumes "\<forall>a \<in> set as. a < length (ap_heap st)"
  shows "ap_at b (set_all v as st) =
    (if b \<in> set as \<and> ap_hasFormatter (ap_at b st) then ap_setFormatter v (ap_at b st) else ap_at b st)"
  using assms
proof (induction as arbitrary: st)
  case Nil
  then show ?case by simp
next
  case (Cons a as)
  let ?st = "if ap_hasFormatter (ap_at a st) then set_ap a (ap_setFormatter v (ap_at a st)) st else st"
  have "ap_at b (set_all v as ?st) =
      (if b \<in> set as \<and> ap_hasFormatter (ap_at b ?st) then ap_setFormatter v (ap_at b ?st) else ap_at b ?st)"
    by (rule Cons.IH) (use Cons.prems in simp)
  then show ?case using Cons.prems by (auto simp: ap_setFormatter_def)
qed

text \<open>
  \<open>Logger::setFormatter\<close> replaces the formatter of exactly those appenders that have one of
  their own, and leaves the others without any; an appender without one writes nothing.
\<close>

theorem setFormatter_replaces_own:
  assumes "\<forall>a \<in> set (lg_appenders (lg_at l st)). a < length (ap_heap st)"
    and "b \<in> set (lg_appenders (lg_at l st))" and "appenders_ok st"
  shows "(ap_formatter (ap_at b st) \<noteq> None \<longrightarrow>
      ap_formatter (ap_at b (lg_setFormatter l (Some f) st)) = Some f) \<and>
    (ap_formatter (ap_at b st) = None \<longrightarrow>
      ap_at b (lg_setFormatter l (Some f) st) = ap_at b st \<and> lines_of env ev st [b] = [])"
proof -
  have at: "ap_at b (lg_setFormatter l (Some f) st) =
      (if ap_hasFormatter (ap_at b st) then ap_setFormatter (Some f) (ap_at b st) else ap_at b st)"
    using set_all_at [of "lg_appenders (lg_at l st)" "set_lg l ((lg_at l st)\<lparr>lg_formatter := Some f\<rparr>) st"] assms(1,2)
    by (simp add: lg_setFormatter_def)
  have "ap_hasFormatter (ap_at b st) \<longleftrightarrow> ap_formatter (ap_at b st) \<noteq> None"
    by (rule appenders_ok_at) (use assms in auto)
  then show ?thesis by (simp add: at ap_setFormatter_def lines_of_def)
qed

lemma setFormatter_replaces_own_witness:
  "ap_formatter (ap_at 1 (lg_setFormatter 0 (Some default_formatter) demo_store)) = Some default_formatter"
proof -
  have h: "\<forall>a \<in> set (lg_appenders (lg_at 0 demo_store)). a < length (ap_heap demo_store)"
    "1 \<in> set (lg_appenders (lg_at 0 demo_store))" "appenders_ok demo_store"
    by (auto simp: demo_store_def appenders_ok_def lg_at_def ConsoleAppender_ctor_def FileAppender_ctor_def)
  have "ap_formatter (ap_at 1 demo_store) \<noteq> None" by (simp add: demo_store_def ap_at_def)
  with setFormatter_replaces_own [OF h] show ?thesis by blast
qed

text \<open>
  A pattern that cannot be parsed never reaches the error test of \<open>Logger::setFormatter\<close>: the
  process has ended in the constructor of the formatter.
\<close>

theorem bad_pattern_ends_process:
  "lg_setPattern l p st = (case LogFormatter_ctor p of
     Inl e \<Rightarrow> Inl ExitCalled | Inr f \<Rightarrow> Inr (lg_setFormatter l (Some f) st)) \<and>
   lg_setPattern l ''%q'' st = Inl ExitCalled"
proof -
  have f: "\<not> f_error f" if "LogFormatter_ctor p = Inr f" for f
    using that by (auto simp: LogFormatter_ctor_def setPattern_def Let_def split: if_splits option.splits)
  have e: "e = ExitCalled" if "LogFormatter_ctor p = Inl e" for e
    using that by (auto simp: LogFormatter_ctor_def setPattern_def Let_def split: if_splits option.splits)
  have "LogFormatter_ctor ''%q'' = Inl ExitCalled" by code_simp
  then show ?thesis using f e by (auto simp: lg_setPattern_def split: sum.splits)
qed

text \<open>Removing an appender.\<close>

lemma delAppender_addAppender:
  assumes "l < length (lg_heap st)" and "a \<notin> set (lg_appenders (lg_at l st))"
  shows "lg_appenders (lg_at l (delAppender l a (addAppender l a st))) = lg_appenders (lg_at l st)"
  using assms
  by (simp add: delAppender_def addAppender_def Let_def lg_at_def set_lg_def set_ap_def remove1_append)

end
