(* ===== verification/Config.thy ===== *)
theory Config
  imports Locks Logger
begin

text \<open>
  \<open>src/config/configVarBase.h\<close>, \<open>configVar.h\<close>, \<open>config.h\<close>, \<open>config.cc\<close>, \<open>lexical_cast.h\<close> and
  \<open>log_config.h\<close>: configuration variables with their listeners, the registry, loading from YAML,
  the conversions between containers and text, and building loggers from YAML. yaml-cpp and
  \<open>boost::lexical_cast\<close> are not in the sources: \<open>load\<close> and \<open>emit\<close> (\<open>YAML::Load\<close> and
  \<open>operator<<\<close>) and the conversions of single values are parameters.
\<close>

section \<open>Configuration variables\<close>

text \<open>
  A listener is a number; what it does to the variable is the parameter \<open>run_cb\<close>. \<open>cv_calls\<close>
  records the calls of listeners with the old and the new value. \<open>m_cbs\<close> is a \<open>std::map\<close>,
  here a list ordered by key. \<open>t\<close> is the calling thread.
\<close>

record 'v cvar =
  cv_name :: string
  cv_desc :: string
  cv_val :: 'v
  cv_cbs :: "(nat \<times> nat) list"
  cv_lock :: rwlock
  cv_calls :: "(nat \<times> 'v \<times> 'v) list"

definition ConfigVar_ctor :: "string \<Rightarrow> 'v \<Rightarrow> string \<Rightarrow> 'v cvar" where
  "ConfigVar_ctor name v desc = \<lparr>cv_name = map tolower name, cv_desc = desc, cv_val = v, cv_cbs = [],
     cv_lock = rw_init, cv_calls = []\<rparr>"

definition cv_rdlock :: "nat \<Rightarrow> 'v cvar \<Rightarrow> 'v cvar run" where
  "cv_rdlock t c = bindO (RWMutex_rdlock t (cv_lock c)) (\<lambda>l. Some (Inr (c\<lparr>cv_lock := l\<rparr>)))"

definition cv_wrlock :: "nat \<Rightarrow> 'v cvar \<Rightarrow> 'v cvar run" where
  "cv_wrlock t c = bindO (RWMutex_wrlock t (cv_lock c)) (\<lambda>l. Some (Inr (c\<lparr>cv_lock := l\<rparr>)))"

definition cv_unlock :: "nat \<Rightarrow> 'v cvar \<Rightarrow> 'v cvar run" where
  "cv_unlock t c = bindO (Some (RWMutex_unlock t (cv_lock c))) (\<lambda>l. Some (Inr (c\<lparr>cv_lock := l\<rparr>)))"

definition getValue :: "nat \<Rightarrow> 'v cvar \<Rightarrow> ('v \<times> 'v cvar) run" where
  "getValue t c = bindO (cv_rdlock t c) (\<lambda>c1. bindO (cv_unlock t c1) (\<lambda>c2. Some (Inr (cv_val c1, c2))))"

fun call_listeners ::
  "(nat \<Rightarrow> 'v \<Rightarrow> 'v \<Rightarrow> 'v cvar \<Rightarrow> 'v cvar run) \<Rightarrow> 'v \<Rightarrow> (nat \<times> nat) list \<Rightarrow> 'v cvar \<Rightarrow> 'v cvar run" where
  "call_listeners run_cb v [] c = Some (Inr c)"
| "call_listeners run_cb v ((k, cb) # cbs) c =
     bindO (run_cb cb (cv_val c) v (c\<lparr>cv_calls := cv_calls c @ [(cb, cv_val c, v)]\<rparr>))
       (call_listeners run_cb v cbs)"

definition setValue ::
  "nat \<Rightarrow> (nat \<Rightarrow> 'v \<Rightarrow> 'v \<Rightarrow> 'v cvar \<Rightarrow> 'v cvar run) \<Rightarrow> 'v \<Rightarrow> 'v cvar \<Rightarrow> 'v cvar run" where
  "setValue t run_cb v c =
     bindO (cv_rdlock t c) (\<lambda>c1.
       if v = cv_val c1 then cv_unlock t c1
       else bindO (call_listeners run_cb v (cv_cbs c1) c1) (\<lambda>c2.
            bindO (cv_unlock t c2) (\<lambda>c3.
            bindO (cv_wrlock t c3) (\<lambda>c4. cv_unlock t (c4\<lparr>cv_val := v\<rparr>)))))"

text \<open>\<open>s_fun_id\<close> is the counter that all variables of one type share.\<close>

definition addListener :: "nat \<Rightarrow> nat \<Rightarrow> nat \<Rightarrow> 'v cvar \<Rightarrow> (nat \<times> 'v cvar) run" where
  "addListener t s_fun_id cb c =
     bindO (cv_wrlock t c) (\<lambda>c1.
       let k = Suc s_fun_id
       in bindO (cv_unlock t (c1\<lparr>cv_cbs := insort_key fst (k, cb) (filter (\<lambda>x. fst x \<noteq> k) (cv_cbs c1))\<rparr>))
            (\<lambda>c2. Some (Inr (k, c2))))"

definition delListener :: "nat \<Rightarrow> nat \<Rightarrow> 'v cvar \<Rightarrow> 'v cvar run" where
  "delListener t key c =
     bindO (cv_wrlock t c) (\<lambda>c1. cv_unlock t (c1\<lparr>cv_cbs := filter (\<lambda>x. fst x \<noteq> key) (cv_cbs c1)\<rparr>))"

definition getListener :: "nat \<Rightarrow> nat \<Rightarrow> 'v cvar \<Rightarrow> (nat option \<times> 'v cvar) run" where
  "getListener t key c =
     bindO (cv_rdlock t c) (\<lambda>c1. bindO (cv_unlock t c1) (\<lambda>c2. Some (Inr (map_of (cv_cbs c1) key, c2))))"

definition clearListener :: "nat \<Rightarrow> 'v cvar \<Rightarrow> 'v cvar run" where
  "clearListener t c = bindO (cv_wrlock t c) (\<lambda>c1. cv_unlock t (c1\<lparr>cv_cbs := []\<rparr>))"

text \<open>\<open>from_str\<close> and \<open>to_str\<close> are the two \<open>LexicalCast\<close>s; their exceptions are caught and logged.\<close>

definition cv_fromString ::
  "nat \<Rightarrow> (nat \<Rightarrow> 'v \<Rightarrow> 'v \<Rightarrow> 'v cvar \<Rightarrow> 'v cvar run) \<Rightarrow> (string \<Rightarrow> 'v result) \<Rightarrow> string \<Rightarrow> 'v cvar \<Rightarrow>
   (bool \<times> 'v cvar) run" where
  "cv_fromString t run_cb from_str s c = (case from_str s of
     Inl (Throws msg) \<Rightarrow> Some (Inr (False, c))
   | Inl e \<Rightarrow> Some (Inl e)
   | Inr v \<Rightarrow> bindO (setValue t run_cb v c) (\<lambda>c1. Some (Inr (True, c1))))"

definition cv_toString :: "nat \<Rightarrow> ('v \<Rightarrow> string result) \<Rightarrow> 'v cvar \<Rightarrow> (string \<times> 'v cvar) run" where
  "cv_toString t to_str c =
     bindO (cv_rdlock t c) (\<lambda>c1. bindO (cv_unlock t c1) (\<lambda>c2. case to_str (cv_val c1) of
        Inl (Throws msg) \<Rightarrow> Some (Inr ([], c2))
      | Inl e \<Rightarrow> Some (Inl e)
      | Inr s \<Rightarrow> Some (Inr (s, c2))))"

lemma cv_lock_simps:
  "cv_lock c = \<lparr>rw_owner = None, rw_readers = n\<rparr> \<Longrightarrow>
   cv_rdlock t c = Some (Inr (c\<lparr>cv_lock := \<lparr>rw_owner = None, rw_readers = Suc n\<rparr>\<rparr>))"
  "cv_lock c = \<lparr>rw_owner = None, rw_readers = 0\<rparr> \<Longrightarrow>
   cv_wrlock t c = Some (Inr (c\<lparr>cv_lock := \<lparr>rw_owner = Some t, rw_readers = 0\<rparr>\<rparr>))"
  "cv_lock c = \<lparr>rw_owner = None, rw_readers = Suc n\<rparr> \<Longrightarrow> cv_wrlock t c = None"
  by (simp_all add: cv_rdlock_def cv_wrlock_def RWMutex_rdlock_def RWMutex_wrlock_def
      rwl_rdlock_def rwl_wrlock_def)

lemma cv_unlock_simps:
  "cv_lock c = \<lparr>rw_owner = Some t, rw_readers = n\<rparr> \<Longrightarrow> cv_unlock t c = Some (Inr (c\<lparr>cv_lock := \<lparr>rw_owner = None, rw_readers = n\<rparr>\<rparr>))"
  "cv_lock c = \<lparr>rw_owner = None, rw_readers = Suc n\<rparr> \<Longrightarrow> cv_unlock t c = Some (Inr (c\<lparr>cv_lock := \<lparr>rw_owner = None, rw_readers = n\<rparr>\<rparr>))"
  by (simp_all add: cv_unlock_def RWMutex_unlock_def rwl_unlock_def)

lemma call_listeners_quiet:
  assumes "\<And>cb v1 v2 c. run_cb cb v1 v2 c = Some (Inr c)"
  shows "call_listeners run_cb v cbs c =
    Some (Inr (c\<lparr>cv_calls := cv_calls c @ map (\<lambda>x. (snd x, cv_val c, v)) cbs\<rparr>))"
  by (induction cbs arbitrary: c) (auto simp: assms)

lemma setValue_result:
  assumes "\<And>cb v1 v2 c. run_cb cb v1 v2 c = Some (Inr c)" and "cv_lock c = rw_init"
  shows "setValue t run_cb v c = Some (Inr (if v = cv_val c then c else
    c\<lparr>cv_val := v, cv_calls := cv_calls c @ map (\<lambda>x. (snd x, cv_val c, v)) (cv_cbs c)\<rparr>))"
proof -
  have l: "cv_lock c = \<lparr>rw_owner = None, rw_readers = 0\<rparr>" using assms(2) by (simp add: rw_init_def)
  have same: "c\<lparr>cv_lock := \<lparr>rw_owner = None, rw_readers = 0\<rparr>\<rparr> = c" by (rule cvar.equality) (simp_all add: l)
  show ?thesis
  proof (cases "v = cv_val c")
    case True
    then show ?thesis
      by (simp add: setValue_def cv_lock_simps(1) [OF l] cv_unlock_simps same)
  next
    case False
    have "setValue t run_cb v c = Some (Inr (c\<lparr>cv_lock := \<lparr>rw_owner = None, rw_readers = 0\<rparr>, cv_val := v,
        cv_calls := cv_calls c @ map (\<lambda>x. (snd x, cv_val c, v)) (cv_cbs c)\<rparr>))"
      using False
      by (simp add: setValue_def cv_lock_simps l call_listeners_quiet [OF assms(1)] cv_unlock_simps)
    with False show ?thesis by (simp add: same)
  qed
qed

text \<open>
  With listeners that leave the variable alone, setting a value calls every listener once, in
  the order of their keys, with the old and the new value, before the value changes, and calls
  none when the value stays the same; the variable is unlocked afterwards.
\<close>

theorem setValue_notifies:
  assumes "\<And>cb v1 v2 c. run_cb cb v1 v2 c = Some (Inr c)" and "cv_lock c = rw_init"
  shows "setValue t run_cb v c = Some (Inr (if v = cv_val c then c else
    c\<lparr>cv_val := v, cv_calls := cv_calls c @ map (\<lambda>x. (snd x, cv_val c, v)) (cv_cbs c)\<rparr>))"
  by (rule setValue_result [OF assms])

lemma setValue_notifies_witness:
  "setValue 1 (\<lambda>cb v1 v2 c. Some (Inr c)) 7 ((ConfigVar_ctor ''tcp.timeout'' (5::int) '''')\<lparr>cv_cbs := [(1, 10), (2, 20)]\<rparr>) =
    Some (Inr ((ConfigVar_ctor ''tcp.timeout'' (7::int) '''')
      \<lparr>cv_cbs := [(1, 10), (2, 20)], cv_calls := [(10, 5, 7), (20, 5, 7)]\<rparr>))"
  by (subst setValue_notifies) (simp_all add: ConfigVar_ctor_def)

text \<open>
  A listener that changes the variable again or registers a listener never returns: it waits
  for the write lock under the read lock of \<open>setValue\<close>.
\<close>

theorem listener_deadlock:
  assumes "cv_cbs c = (k, cb) # cbs" and "cv_lock c = rw_init" and "v \<noteq> cv_val c"
    and "\<And>v1 v2 c. run_cb cb v1 v2 c = bindO (addListener t n cb2 c) (\<lambda>(k, c1). Some (Inr c1)) \<or>
      (v3 \<noteq> v1 \<and> run_cb cb v1 v2 c = setValue t (\<lambda>cb v1 v2 c. Some (Inr c)) v3 c)"
  shows "setValue t run_cb v c = None"
proof -
  let ?l = "\<lparr>rw_owner = None, rw_readers = Suc 0\<rparr>"
  have l: "cv_lock c = \<lparr>rw_owner = None, rw_readers = 0\<rparr>" using assms(2) by (simp add: rw_init_def)
  let ?c = "c\<lparr>cv_lock := ?l, cv_calls := cv_calls c @ [(cb, cv_val c, v)]\<rparr>"
  have a: "addListener t n cb2 ?c = None" by (simp add: addListener_def cv_lock_simps)
  have s: "setValue t (\<lambda>cb v1 v2 c. Some (Inr c)) v3 ?c = None" if "v3 \<noteq> cv_val c"
    using that by (simp add: setValue_def call_listeners_quiet cv_lock_simps cv_unlock_simps)
  have "run_cb cb (cv_val c) v ?c = None"
    using assms(4) [of "cv_val c" v ?c] a s by auto
  then show ?thesis using assms(1,3) by (simp add: setValue_def cv_lock_simps(1) [OF l])
qed

lemma listener_deadlock_witness:
  "setValue 1 (\<lambda>cb v1 v2 c. bindO (addListener 1 4 9 c) (\<lambda>(k, c1). Some (Inr c1))) 7
     ((ConfigVar_ctor ''tcp.timeout'' (5::int) '''')\<lparr>cv_cbs := [(1, 10)]\<rparr>) = None"
  by (rule listener_deadlock [where n = 4 and ?cb2.0 = 9 and ?v3.0 = 0]) (simp_all add: ConfigVar_ctor_def)

section \<open>The registry\<close>

text \<open>
  Variables are shared pointers; the key of the registry stands for the pointer. \<open>en_type\<close> is the
  C++ type of the variable, which the dynamic casts compare.
\<close>

record 'v entry =
  en_type :: string
  en_var :: "'v cvar"

type_synonym 'v registry = "string \<rightharpoonup> 'v entry"

definition name_chars :: string where "name_chars = ''abcdefghijklmnopqrstuvwxyz._0123456789''"

definition valid_in :: "string \<Rightarrow> string \<Rightarrow> bool" where "valid_in chars s \<longleftrightarrow> set s \<subseteq> set chars"

definition Lookup ::
  "string \<Rightarrow> string \<Rightarrow> 'v \<Rightarrow> string \<Rightarrow> 'v registry \<Rightarrow> ('v registry \<times> string option) result" where
  "Lookup ty name default_value desc r = (case r name of
     Some e \<Rightarrow> Inr (r, if en_type e = ty then Some name else None)
   | None \<Rightarrow>
       if \<not> valid_in name_chars name then Inl (Throws name)
       else Inr (r(name \<mapsto> \<lparr>en_type = ty, en_var = ConfigVar_ctor name default_value desc\<rparr>), Some name))"

definition lookup :: "string \<Rightarrow> string \<Rightarrow> 'v registry \<Rightarrow> string option" where
  "lookup ty name r = (case r name of
     None \<Rightarrow> None | Some e \<Rightarrow> if en_type e = ty then Some name else None)"

definition LookupBase :: "string \<Rightarrow> 'v registry \<Rightarrow> 'v entry option" where "LookupBase name r = r name"

section \<open>Loading from YAML\<close>

definition yaml_name_chars :: string where
  "yaml_name_chars = ''qwertyuiopasdfghjklzxcvbnm_:.0123456789''"

definition join_key :: "string \<Rightarrow> string \<Rightarrow> string" where
  "join_key prefix k = (if prefix = [] then k else prefix @ ''.'' @ k)"

fun S_listYamlNode :: "string \<Rightarrow> yaml \<Rightarrow> (string \<times> yaml) list"
  and list_entries :: "string \<Rightarrow> (string \<times> yaml) list \<Rightarrow> (string \<times> yaml) list" where
  "S_listYamlNode prefix node =
     (if \<not> valid_in yaml_name_chars prefix then []
      else (prefix, node) # (case node of YMap es \<Rightarrow> list_entries prefix es | _ \<Rightarrow> []))"
| "list_entries prefix [] = []"
| "list_entries prefix ((k, n) # es) = S_listYamlNode (join_key prefix k) n @ list_entries prefix es"

definition node_text :: "(yaml \<Rightarrow> string) \<Rightarrow> yaml \<Rightarrow> string" where
  "node_text emit n = (case n of YScalar s \<Rightarrow> s | _ \<Rightarrow> emit n)"

fun load_nodes ::
  "nat \<Rightarrow> (nat \<Rightarrow> 'v \<Rightarrow> 'v \<Rightarrow> 'v cvar \<Rightarrow> 'v cvar run) \<Rightarrow> (string \<Rightarrow> string \<Rightarrow> 'v result) \<Rightarrow>
   (yaml \<Rightarrow> string) \<Rightarrow> (string \<times> yaml) list \<Rightarrow> 'v registry \<Rightarrow> 'v registry run" where
  "load_nodes t run_cb from_str emit [] r = Some (Inr r)"
| "load_nodes t run_cb from_str emit ((k, n) # ns) r =
     (if k = [] then load_nodes t run_cb from_str emit ns r
      else (let key = map tolower k
            in case LookupBase key r of
                 None \<Rightarrow> load_nodes t run_cb from_str emit ns r
               | Some e \<Rightarrow>
                   bindO (cv_fromString t run_cb (from_str (en_type e)) (node_text emit n) (en_var e))
                     (\<lambda>(ok, c). load_nodes t run_cb from_str emit ns (r(key \<mapsto> e\<lparr>en_var := c\<rparr>)))))"

definition LoadFromYaml ::
  "nat \<Rightarrow> (nat \<Rightarrow> 'v \<Rightarrow> 'v \<Rightarrow> 'v cvar \<Rightarrow> 'v cvar run) \<Rightarrow> (string \<Rightarrow> string \<Rightarrow> 'v result) \<Rightarrow>
   (yaml \<Rightarrow> string) \<Rightarrow> yaml \<Rightarrow> 'v registry \<Rightarrow> 'v registry run" where
  "LoadFromYaml t run_cb from_str emit root r =
     load_nodes t run_cb from_str emit (S_listYamlNode [] root) r"

declare S_listYamlNode.simps [simp del]

subsection \<open>Which nodes are listed\<close>

inductive at_path :: "yaml \<Rightarrow> string list \<Rightarrow> yaml \<Rightarrow> bool" where
  here: "at_path n [] n"
| below: "(k, c) \<in> set es \<Longrightarrow> at_path c ks n \<Longrightarrow> at_path (YMap es) (k # ks) n"

inductive_cases at_path_Nil: "at_path y [] n"
inductive_cases at_path_Cons: "at_path y (k # ks) n"

definition key_of :: "string \<Rightarrow> string list \<Rightarrow> string" where "key_of prefix ks = foldl join_key prefix ks"

lemma valid_join: "valid_in yaml_name_chars (join_key p k) \<longleftrightarrow> valid_in yaml_name_chars p \<and> valid_in yaml_name_chars k"
  by (auto simp: valid_in_def join_key_def yaml_name_chars_def)

lemma key_of_simps: "key_of p [] = p" "key_of p (k # ks) = key_of (join_key p k) ks"
  by (simp_all add: key_of_def)

definition reached :: "string \<Rightarrow> yaml \<Rightarrow> string \<Rightarrow> yaml \<Rightarrow> bool" where
  "reached q n p y \<longleftrightarrow> valid_in yaml_name_chars p \<and>
     (\<exists>ks. at_path y ks n \<and> q = key_of p ks \<and> (\<forall>k \<in> set ks. valid_in yaml_name_chars k))"

lemma reached_map: "valid_in yaml_name_chars p \<Longrightarrow> reached q n p (YMap es) \<longleftrightarrow>
    (q = p \<and> n = YMap es) \<or> (\<exists>x \<in> set es. reached q n (join_key p (fst x)) (snd x))"
proof (intro iffI, goal_cases)
  case 1
  then obtain ks where ks: "at_path (YMap es) ks n" "q = key_of p ks" "\<forall>k \<in> set ks. valid_in yaml_name_chars k"
    by (auto simp: reached_def)
  show ?case
  proof (cases ks)
    case Nil
    with ks show ?thesis by (auto simp: key_of_simps elim: at_path_Nil)
  next
    case (Cons k ks')
    with ks(1) obtain c where "(k, c) \<in> set es" "at_path c ks' n" by (auto elim: at_path_Cons)
    with ks Cons 1(1) have "reached q n (join_key p (fst (k, c))) (snd (k, c))"
      by (auto simp: reached_def valid_join key_of_simps)
    with \<open>(k, c) \<in> set es\<close> show ?thesis by blast
  qed
next
  case 2
  then show ?case
  proof (elim disjE bexE)
    assume "q = p \<and> n = YMap es"
    with 2(1) show ?thesis
      by (auto simp: reached_def key_of_simps intro!: exI [of _ "[]"] at_path.here)
  next
    fix x assume x: "x \<in> set es" "reached q n (join_key p (fst x)) (snd x)"
    then obtain ks where ks: "at_path (snd x) ks n" "q = key_of (join_key p (fst x)) ks"
      "\<forall>k \<in> set (fst x # ks). valid_in yaml_name_chars k"
      by (auto simp: reached_def valid_join)
    have "at_path (YMap es) (fst x # ks) n" by (rule at_path.below [OF _ ks(1)]) (simp add: x(1))
    with ks 2(1) show ?thesis by (auto simp: reached_def key_of_simps intro!: exI [of _ "fst x # ks"])
  qed
qed

lemma at_path_leaf: "(\<And>es. y \<noteq> YMap es) \<Longrightarrow> at_path y ks n \<longleftrightarrow> ks = [] \<and> n = y"
  by (auto elim: at_path.cases intro: at_path.here)

lemma reached_leaf: "(\<And>es. y \<noteq> YMap es) \<Longrightarrow> valid_in yaml_name_chars p \<Longrightarrow> reached q n p y \<longleftrightarrow> q = p \<and> n = y"
  by (auto simp: reached_def key_of_simps at_path_leaf)

lemma listed_nodes:
  "(q, n) \<in> set (S_listYamlNode p y) \<longleftrightarrow> reached q n p y"
  and "(q, n) \<in> set (list_entries p es) \<longleftrightarrow> (\<exists>x \<in> set es. reached q n (join_key p (fst x)) (snd x))"
proof (induction p y and p es rule: S_listYamlNode_list_entries.induct)
  case (1 p y)
  show ?case
  proof (cases "valid_in yaml_name_chars p")
    case False
    then show ?thesis by (simp add: S_listYamlNode.simps reached_def)
  next
    case True
    then show ?thesis
      using 1 reached_leaf [of y p q n] by (cases y) (auto simp: S_listYamlNode.simps reached_map)
  qed
qed auto

text \<open>
  Loading looks at exactly those nodes of the document that are reached by keys of permitted
  characters, under the keys joined with dots; a key with another character, an upper-case letter
  for example, hides everything below it.
\<close>

theorem listed_nodes_exact:
  "(q, n) \<in> set (S_listYamlNode [] root) \<longleftrightarrow>
     (\<exists>ks. at_path root ks n \<and> q = key_of [] ks \<and> (\<forall>k \<in> set ks. valid_in yaml_name_chars k))"
  using listed_nodes(1) [of q n "[]" root] by (simp add: valid_in_def reached_def)

lemma listed_nodes_exact_witness:
  "(''tcp.timeout'', YScalar ''7'') \<in>
     set (S_listYamlNode [] (YMap [(''tcp'', YMap [(''timeout'', YScalar ''7''), (''Up'', YNull)])]))"
proof -
  have "at_path (YMap [(''tcp'', YMap [(''timeout'', YScalar ''7''), (''Up'', YNull)])])
      [''tcp'', ''timeout''] (YScalar ''7'')"
    by (rule at_path.below [where c = "YMap [(''timeout'', YScalar ''7''), (''Up'', YNull)]"], simp,
        rule at_path.below [where c = "YScalar ''7''"], simp, rule at_path.here)
  then show ?thesis
    by (subst listed_nodes_exact) (auto simp: key_of_simps join_key_def valid_in_def yaml_name_chars_def
        intro!: exI [of _ "[''tcp'', ''timeout'']"])
qed

subsection \<open>What loading sets\<close>

definition quiet_cb :: "(nat \<Rightarrow> 'v \<Rightarrow> 'v \<Rightarrow> 'v cvar \<Rightarrow> 'v cvar run) \<Rightarrow> bool" where
  "quiet_cb run_cb \<longleftrightarrow> (\<forall>cb v1 v2 c. run_cb cb v1 v2 c = Some (Inr c))"

definition registry_idle :: "'v registry \<Rightarrow> bool" where
  "registry_idle r \<longleftrightarrow> (\<forall>key e. r key = Some e \<longrightarrow> cv_lock (en_var e) = rw_init)"

definition only_throws :: "(string \<Rightarrow> string \<Rightarrow> 'v result) \<Rightarrow> bool" where
  "only_throws from_str \<longleftrightarrow> (\<forall>ty s e. from_str ty s = Inl e \<longrightarrow> (\<exists>msg. e = Throws msg))"

text \<open>
  What setting a value makes of a variable, what a text makes of it, and the texts of the nodes
  with a given key.
\<close>

definition after_set :: "'v \<Rightarrow> 'v cvar \<Rightarrow> 'v cvar" where
  "after_set v c = (if v = cv_val c then c
     else c\<lparr>cv_val := v, cv_calls := cv_calls c @ map (\<lambda>x. (snd x, cv_val c, v)) (cv_cbs c)\<rparr>)"

definition set_text :: "(string \<Rightarrow> 'v result) \<Rightarrow> 'v cvar \<Rightarrow> string \<Rightarrow> 'v cvar" where
  "set_text f c s = (case f s of Inl e \<Rightarrow> c | Inr v \<Rightarrow> after_set v c)"

definition texts_for :: "(yaml \<Rightarrow> string) \<Rightarrow> string \<Rightarrow> (string \<times> yaml) list \<Rightarrow> string list" where
  "texts_for emit key ns =
     map (\<lambda>x. node_text emit (snd x)) (filter (\<lambda>x. fst x \<noteq> [] \<and> map tolower (fst x) = key) ns)"

definition set_texts ::
  "(string \<Rightarrow> string \<Rightarrow> 'v result) \<Rightarrow> (yaml \<Rightarrow> string) \<Rightarrow> (string \<times> yaml) list \<Rightarrow> 'v registry \<Rightarrow> 'v registry" where
  "set_texts from_str emit ns r key = map_option (\<lambda>e. e\<lparr>en_var :=
     foldl (set_text (from_str (en_type e))) (en_var e) (texts_for emit key ns)\<rparr>) (r key)"

lemma after_set_fields [simp]:
  "cv_val (after_set v c) = v" "cv_lock (after_set v c) = cv_lock c" "cv_cbs (after_set v c) = cv_cbs c"
  "cv_name (after_set v c) = cv_name c"
  by (simp_all add: after_set_def)

lemma set_text_lock [simp]: "cv_lock (set_text f c s) = cv_lock c" "cv_cbs (set_text f c s) = cv_cbs c"
  by (simp_all add: set_text_def split: sum.splits)

lemma set_texts_fields [simp]:
  "cv_lock (foldl (set_text f) c ss) = cv_lock c" "cv_cbs (foldl (set_text f) c ss) = cv_cbs c"
  by (induction ss arbitrary: c) simp_all

lemma fromString_quiet:
  assumes "quiet_cb run_cb" and "cv_lock c = rw_init" and "\<And>e. f s = Inl e \<Longrightarrow> \<exists>msg. e = Throws msg"
  shows "\<exists>ok. cv_fromString t run_cb f s c = Some (Inr (ok, set_text f c s))"
proof (cases "f s")
  case (Inl e)
  with assms(3) obtain msg where "f s = Inl (Throws msg)" by auto
  then show ?thesis by (auto simp: cv_fromString_def set_text_def)
next
  case (Inr v)
  have q: "\<And>cb v1 v2 c. run_cb cb v1 v2 c = Some (Inr c)" using assms(1) by (simp add: quiet_cb_def)
  have "setValue t run_cb v c = Some (Inr (after_set v c))"
    unfolding after_set_def by (rule setValue_result [OF q assms(2)])
  with Inr show ?thesis by (auto simp: cv_fromString_def set_text_def)
qed

lemma load_nodes_result:
  assumes "quiet_cb run_cb" and "only_throws from_str" and "registry_idle r"
  shows "load_nodes t run_cb from_str emit ns r = Some (Inr (set_texts from_str emit ns r))"
  using assms(3)
proof (induction ns arbitrary: r)
  case Nil
  show ?case by (simp add: set_texts_def texts_for_def fun_eq_iff option.map_ident_strong)
next
  case (Cons x ns)
  obtain k n where x: "x = (k, n)" by (cases x)
  let ?key = "map tolower k"
  show ?case
  proof (cases "k = [] \<or> r ?key = None")
    case True
    then have "load_nodes t run_cb from_str emit (x # ns) r = load_nodes t run_cb from_str emit ns r"
      by (auto simp: x LookupBase_def Let_def)
    moreover have "set_texts from_str emit (x # ns) r = set_texts from_str emit ns r"
      using True by (auto simp: set_texts_def texts_for_def x fun_eq_iff)
    ultimately show ?thesis using Cons by simp
  next
    case False
    then obtain e where e: "r ?key = Some e" and k: "k \<noteq> []" by auto
    let ?c = "set_text (from_str (en_type e)) (en_var e) (node_text emit n)"
    let ?r = "r(?key \<mapsto> e\<lparr>en_var := ?c\<rparr>)"
    obtain ok where "cv_fromString t run_cb (from_str (en_type e)) (node_text emit n) (en_var e) = Some (Inr (ok, ?c))"
      using fromString_quiet [OF assms(1), of "en_var e" "from_str (en_type e)" "node_text emit n" t] Cons.prems e assms(2)
      by (auto simp: registry_idle_def only_throws_def)
    then have "load_nodes t run_cb from_str emit (x # ns) r = load_nodes t run_cb from_str emit ns ?r"
      using e k by (simp add: x LookupBase_def Let_def)
    moreover have "registry_idle ?r" using Cons.prems e by (auto simp: registry_idle_def)
    moreover have "set_texts from_str emit (x # ns) r = set_texts from_str emit ns ?r"
      using e k by (auto simp: set_texts_def texts_for_def x fun_eq_iff)
    ultimately show ?thesis using Cons.IH by simp
  qed
qed

text \<open>The value after one text.\<close>

definition parsed_or :: "(string \<Rightarrow> 'v result) \<Rightarrow> 'v \<Rightarrow> string \<Rightarrow> 'v" where
  "parsed_or f v s = (case f s of Inl e \<Rightarrow> v | Inr v' \<Rightarrow> v')"

lemma set_texts_val: "cv_val (foldl (set_text f) c ss) = foldl (parsed_or f) (cv_val c) ss"
  by (induction ss arbitrary: c) (simp_all add: set_text_def parsed_or_def split: sum.splits)



section \<open>Types\<close>

text \<open>
  What a program does with the registry: \<open>Config::Lookup<ty>\<close> with a default value, \<open>setValue\<close>
  through the pointer \<open>Config::lookup<ty>\<close> gives (none if it is null), loading a document. An
  exception of \<open>Lookup\<close> leaves the registry as it was.
\<close>

datatype 'v config_op = CLookup string string 'v string | CSet string string 'v | CLoad yaml

definition config_do ::
  "nat \<Rightarrow> (nat \<Rightarrow> 'v \<Rightarrow> 'v \<Rightarrow> 'v cvar \<Rightarrow> 'v cvar run) \<Rightarrow> (string \<Rightarrow> string \<Rightarrow> 'v result) \<Rightarrow>
   (yaml \<Rightarrow> string) \<Rightarrow> 'v config_op \<Rightarrow> 'v registry \<Rightarrow> 'v registry run" where
  "config_do t run_cb from_str emit op r = (case op of
     CLookup ty name v desc \<Rightarrow>
       (case Lookup ty name v desc r of Inl e \<Rightarrow> Some (Inr r) | Inr (r', p) \<Rightarrow> Some (Inr r'))
   | CSet ty name v \<Rightarrow> (case lookup ty name r of
       None \<Rightarrow> Some (Inr r)
     | Some k \<Rightarrow> (case r k of
         None \<Rightarrow> Some (Inl NullDeref)
       | Some e \<Rightarrow> bindO (setValue t run_cb v (en_var e)) (\<lambda>c. Some (Inr (r(k \<mapsto> e\<lparr>en_var := c\<rparr>))))))
   | CLoad root \<Rightarrow> LoadFromYaml t run_cb from_str emit root r)"

fun config_run ::
  "nat \<Rightarrow> (nat \<Rightarrow> 'v \<Rightarrow> 'v \<Rightarrow> 'v cvar \<Rightarrow> 'v cvar run) \<Rightarrow> (string \<Rightarrow> string \<Rightarrow> 'v result) \<Rightarrow>
   (yaml \<Rightarrow> string) \<Rightarrow> 'v config_op list \<Rightarrow> 'v registry \<Rightarrow> 'v registry run" where
  "config_run t run_cb from_str emit [] r = Some (Inr r)"
| "config_run t run_cb from_str emit (op # ops) r =
     bindO (config_do t run_cb from_str emit op r) (config_run t run_cb from_str emit ops)"

text \<open>\<open>has_ty ty v\<close>: \<open>v\<close> is a value of the C++ type \<open>ty\<close>. The compiler checks the program and the conversions.\<close>

definition op_typed :: "(string \<Rightarrow> 'v \<Rightarrow> bool) \<Rightarrow> 'v config_op \<Rightarrow> bool" where
  "op_typed has_ty op = (case op of CLookup ty name v desc \<Rightarrow> has_ty ty v | CSet ty name v \<Rightarrow> has_ty ty v
     | CLoad root \<Rightarrow> True)"

definition conversions_typed :: "(string \<Rightarrow> 'v \<Rightarrow> bool) \<Rightarrow> (string \<Rightarrow> string \<Rightarrow> 'v result) \<Rightarrow> bool" where
  "conversions_typed has_ty from_str \<longleftrightarrow> (\<forall>ty s v. from_str ty s = Inr v \<longrightarrow> has_ty ty v)"

definition registry_typed :: "(string \<Rightarrow> 'v \<Rightarrow> bool) \<Rightarrow> 'v registry \<Rightarrow> bool" where
  "registry_typed has_ty r \<longleftrightarrow> (\<forall>key e. r key = Some e \<longrightarrow>
     has_ty (en_type e) (cv_val (en_var e)) \<and> valid_in name_chars key)"

lemma set_texts_typed:
  "conversions_typed has_ty from_str \<Longrightarrow> registry_typed has_ty r \<Longrightarrow> registry_typed has_ty (set_texts from_str emit ns r)"
proof -
  assume a: "conversions_typed has_ty from_str" "registry_typed has_ty r"
  have "has_ty ty (foldl (parsed_or (from_str ty)) v ss)" if "has_ty ty v" for ty v ss
    using that a(1) by (induction ss arbitrary: v) (auto simp: parsed_or_def conversions_typed_def split: sum.splits)
  with a(2) show ?thesis by (auto simp: registry_typed_def set_texts_def set_texts_val)
qed

lemma set_texts_idle: "registry_idle r \<Longrightarrow> registry_idle (set_texts from_str emit ns r)"
  by (auto simp: registry_idle_def set_texts_def)

lemma config_do_typed:
  assumes "quiet_cb run_cb" and "only_throws from_str" and "conversions_typed has_ty from_str"
    and "registry_idle r" and "registry_typed has_ty r" and "op_typed has_ty op"
  shows "\<exists>r'. config_do t run_cb from_str emit op r = Some (Inr r') \<and> registry_idle r' \<and> registry_typed has_ty r' \<and>
    (\<forall>key e. r key = Some e \<longrightarrow> (\<exists>e'. r' key = Some e' \<and> en_type e' = en_type e))"
proof (cases op)
  case (CLookup ty name v desc)
  with assms(4-6) show ?thesis
    by (auto simp: config_do_def Lookup_def registry_idle_def registry_typed_def op_typed_def ConfigVar_ctor_def
        split: option.splits)
next
  case (CSet ty name v)
  show ?thesis
  proof (cases "lookup ty name r")
    case None
    with assms(4,5) CSet show ?thesis by (auto simp: config_do_def)
  next
    case (Some k)
    then obtain e where e: "r k = Some e" "en_type e = ty"
      by (auto simp: lookup_def split: option.splits if_splits)
    have q: "\<And>cb v1 v2 c. run_cb cb v1 v2 c = Some (Inr c)" using assms(1) by (simp add: quiet_cb_def)
    have "cv_lock (en_var e) = rw_init" using assms(4) e(1) by (auto simp: registry_idle_def)
    from setValue_result [OF q this] have "setValue t run_cb v (en_var e) = Some (Inr (after_set v (en_var e)))"
      unfolding after_set_def .
    with Some CSet e assms(4-6) show ?thesis
      by (auto simp: config_do_def registry_idle_def registry_typed_def op_typed_def)
  qed
next
  case (CLoad root)
  have "\<exists>e'. set_texts from_str emit ns r key = Some e' \<and> en_type e' = en_type e" if "r key = Some e" for key e ns
    using that by (simp add: set_texts_def)
  with CLoad show ?thesis
    using load_nodes_result [OF assms(1,2,4)] set_texts_idle [OF assms(4)] set_texts_typed [OF assms(3,5)]
    by (simp add: config_do_def LoadFromYaml_def)
qed

lemma config_run_typed:
  assumes "quiet_cb run_cb" and "only_throws from_str" and "conversions_typed has_ty from_str"
  shows "registry_idle r \<Longrightarrow> registry_typed has_ty r \<Longrightarrow> \<forall>op \<in> set ops. op_typed has_ty op \<Longrightarrow>
    \<exists>r'. config_run t run_cb from_str emit ops r = Some (Inr r') \<and> registry_idle r' \<and> registry_typed has_ty r' \<and>
      (\<forall>key e. r key = Some e \<longrightarrow> (\<exists>e'. r' key = Some e' \<and> en_type e' = en_type e))"
proof (induction ops arbitrary: r)
  case Nil
  then show ?case by simp
next
  case (Cons op ops)
  obtain r1 where r1: "config_do t run_cb from_str emit op r = Some (Inr r1)" "registry_idle r1" "registry_typed has_ty r1"
    "\<forall>key e. r key = Some e \<longrightarrow> (\<exists>e'. r1 key = Some e' \<and> en_type e' = en_type e)"
    using config_do_typed [OF assms Cons.prems(1,2), of op t emit] Cons.prems(3) by auto
  obtain r2 where "config_run t run_cb from_str emit ops r1 = Some (Inr r2)" "registry_idle r2" "registry_typed has_ty r2"
    "\<forall>key e. r1 key = Some e \<longrightarrow> (\<exists>e'. r2 key = Some e' \<and> en_type e' = en_type e)"
    using Cons.IH [OF r1(2,3)] Cons.prems(3) by auto
  with r1 show ?case by (intro exI [of _ r2]) (simp, metis)
qed


definition demo_has_ty :: "string \<Rightarrow> int \<Rightarrow> bool" where "demo_has_ty ty v \<longleftrightarrow> ty = ''int'' \<or> 0 \<le> v"

definition demo_from_str :: "string \<Rightarrow> string \<Rightarrow> int result" where
  "demo_from_str ty s = (if s = ''7'' then Inr 7 else if ty = ''int'' \<and> s = ''-1'' then Inr (- 1) else Inl (Throws s))"

definition demo_cb :: "nat \<Rightarrow> int \<Rightarrow> int \<Rightarrow> int cvar \<Rightarrow> int cvar run" where "demo_cb cb v1 v2 c = Some (Inr c)"


end
