(* ===== verification/HookInit.thy ===== *)
theory HookInit
  imports Hook Config
begin

text \<open>
  The start-up object of \<open>src/fiber/hook.cc\<close>: \<open>initHook\<close>, which looks up the original functions,
  and \<open>_HookIniter\<close>, which registers the variable \<open>tcp.connect.timeout\<close> and a listener that
  copies it to \<open>s_connect_timeout\<close>, the timeout of the hooked \<open>connect\<close>. \<open>dlsym\<close> is a parameter.
\<close>

section \<open>The table of original functions\<close>

definition hooked_names :: "string list" where
  "hooked_names = [''sleep'', ''usleep'', ''nanosleep'', ''socket'', ''connect'', ''accept'', ''read'', ''readv'',
     ''recv'', ''recvfrom'', ''recvmsg'', ''write'', ''writev'', ''send'', ''sendto'', ''sendmsg'', ''close'',
     ''fcntl'', ''ioctl'', ''getsockopt'', ''setsockopt'']"

record hook_table =
  hasHook :: bool
  hk_handle :: "nat option"
  hk_orig :: "string \<rightharpoonup> nat"

definition hook_table_init :: hook_table where
  "hook_table_init = \<lparr>hasHook = False, hk_handle = None, hk_orig = Map.empty\<rparr>"

text \<open>\<open>lib\<close> is what \<open>dlopen\<close> returns.\<close>

definition initHook :: "nat option \<Rightarrow> (nat option \<Rightarrow> string \<Rightarrow> nat option) \<Rightarrow> hook_table \<Rightarrow> hook_table" where
  "initHook lib dlsym h =
     (if hasHook h then h
      else (case hk_handle h of
        None \<Rightarrow> \<lparr>hasHook = True, hk_handle = lib,
                  hk_orig = (\<lambda>f. if f \<in> set hooked_names then dlsym lib f else hk_orig h f)\<rparr>
      | Some _ \<Rightarrow> h\<lparr>hasHook := True\<rparr>))"

text \<open>Calling the original function \<open>f\<close> through its pointer.\<close>

definition original :: "string \<Rightarrow> hook_table \<Rightarrow> nat result" where
  "original f h = (case hk_orig h f of None \<Rightarrow> Inl NullDeref | Some a \<Rightarrow> Inr a)"

section \<open>The start-up object\<close>

text \<open>The values of variables: of \<open>int\<close>, and of the other types. An \<open>int\<close> is converted to \<open>uint64_t\<close>.\<close>

datatype conf_value = IntVal int | OtherVal string

definition as_timeout :: "conf_value \<Rightarrow> u64 \<Rightarrow> u64" where
  "as_timeout v old = (case v of IntVal i \<Rightarrow> word_of_int i | OtherVal _ \<Rightarrow> old)"

record hook_state =
  hs_table :: hook_table
  s_connect_timeout :: u64
  hs_registry :: "conf_value registry"

definition timeout_key :: string where "timeout_key = ''tcp.connect.timeout''"

text \<open>The listener of the start-up object has the number 0.\<close>

definition timeout_cb :: nat where "timeout_cb = 0"

definition HookIniter_ctor ::
  "nat \<Rightarrow> nat option \<Rightarrow> (nat option \<Rightarrow> string \<Rightarrow> nat option) \<Rightarrow> nat \<Rightarrow> hook_table \<Rightarrow> conf_value registry \<Rightarrow> hook_state run" where
  "HookIniter_ctor t lib dlsym s_fun_id table r =
     bindO (Some (Lookup ''int'' timeout_key (IntVal 5000) ''tcp connect timeout'' r)) (\<lambda>(r1, p). case p of
       None \<Rightarrow> Some (Inl NullDeref)
     | Some name \<Rightarrow> (case r1 name of
         None \<Rightarrow> Some (Inl NullDeref)
       | Some e \<Rightarrow>
           bindO (getValue t (en_var e)) (\<lambda>(v, c1).
           bindO (addListener t s_fun_id timeout_cb c1) (\<lambda>(k, c2).
           Some (Inr \<lparr>hs_table = initHook lib dlsym table, s_connect_timeout = as_timeout v (- 1),
                      hs_registry = r1(name \<mapsto> e\<lparr>en_var := c2\<rparr>)\<rparr>)))))"

text \<open>What the listener makes of \<open>s_connect_timeout\<close> in a series of calls of listeners.\<close>

definition hear :: "(nat \<times> conf_value \<times> conf_value) list \<Rightarrow> u64 \<Rightarrow> u64" where
  "hear calls old = foldl (\<lambda>x (cb, v1, v2). if cb = timeout_cb then as_timeout v2 x else x) old calls"

text \<open>Loading a document at run time: the listener hears the calls that setting the variable makes.\<close>

definition load_at_runtime ::
  "nat \<Rightarrow> (nat \<Rightarrow> conf_value \<Rightarrow> conf_value \<Rightarrow> conf_value cvar \<Rightarrow> conf_value cvar run) \<Rightarrow>
   (string \<Rightarrow> string \<Rightarrow> conf_value result) \<Rightarrow> (yaml \<Rightarrow> string) \<Rightarrow> yaml \<Rightarrow> hook_state \<Rightarrow> hook_state run" where
  "load_at_runtime t run_cb from_str emit root s =
     bindO (LoadFromYaml t run_cb from_str emit root (hs_registry s)) (\<lambda>r.
       case (hs_registry s timeout_key, r timeout_key) of
         (Some e, Some e') \<Rightarrow>
           Some (Inr (s\<lparr>hs_registry := r,
             s_connect_timeout := hear (drop (length (cv_calls (en_var e))) (cv_calls (en_var e'))) (s_connect_timeout s)\<rparr>))
       | _ \<Rightarrow> Some (Inr (s\<lparr>hs_registry := r\<rparr>)))"

fun load_all ::
  "nat \<Rightarrow> (nat \<Rightarrow> conf_value \<Rightarrow> conf_value \<Rightarrow> conf_value cvar \<Rightarrow> conf_value cvar run) \<Rightarrow>
   (string \<Rightarrow> string \<Rightarrow> conf_value result) \<Rightarrow> (yaml \<Rightarrow> string) \<Rightarrow> yaml list \<Rightarrow> hook_state \<Rightarrow> hook_state run" where
  "load_all t run_cb from_str emit [] s = Some (Inr s)"
| "load_all t run_cb from_str emit (y # ys) s =
     bindO (load_at_runtime t run_cb from_str emit y s) (load_all t run_cb from_str emit ys)"

section \<open>Start-up\<close>

lemma name_ok: "valid_in name_chars timeout_key"
  by (simp add: valid_in_def name_chars_def timeout_key_def)

lemma ctor_idle: "cv_lock (ConfigVar_ctor n v d) = rw_init" "cv_val (ConfigVar_ctor n v d) = v"
  "cv_cbs (ConfigVar_ctor n v d) = []" "cv_calls (ConfigVar_ctor n v d) = []"
  by (simp_all add: ConfigVar_ctor_def)

lemma getValue_idle:
  assumes "cv_lock c = rw_init"
  shows "getValue t c = Some (Inr (cv_val c, c))"
proof -
  have l: "cv_lock c = \<lparr>rw_owner = None, rw_readers = 0\<rparr>" using assms by (simp add: rw_init_def)
  have "c\<lparr>cv_lock := \<lparr>rw_owner = None, rw_readers = 0\<rparr>\<rparr> = c" by (rule cvar.equality) (simp_all add: l)
  then show ?thesis by (simp add: getValue_def cv_lock_simps(1) [OF l] cv_unlock_simps)
qed

lemma addListener_idle:
  assumes "cv_lock c = rw_init"
  shows "addListener t n cb c =
    Some (Inr (Suc n, c\<lparr>cv_cbs := insort_key fst (Suc n, cb) (filter (\<lambda>x. fst x \<noteq> Suc n) (cv_cbs c))\<rparr>))"
proof -
  have l: "cv_lock c = \<lparr>rw_owner = None, rw_readers = 0\<rparr>" using assms by (simp add: rw_init_def)
  let ?q = "insort_key fst (Suc n, cb) (filter (\<lambda>x. fst x \<noteq> Suc n) (cv_cbs c))"
  have "c\<lparr>cv_cbs := ?q, cv_lock := \<lparr>rw_owner = None, rw_readers = 0\<rparr>\<rparr> = c\<lparr>cv_cbs := ?q\<rparr>"
    by (rule cvar.equality) (simp_all add: l)
  then show ?thesis by (simp add: addListener_def cv_lock_simps(2) [OF l] cv_unlock_simps Let_def)
qed

definition started :: "nat option \<Rightarrow> (nat option \<Rightarrow> string \<Rightarrow> nat option) \<Rightarrow> nat \<Rightarrow> conf_value registry \<Rightarrow> hook_state" where
  "started lib dlsym n r = \<lparr>hs_table = initHook lib dlsym hook_table_init, s_connect_timeout = 5000,
     hs_registry = r(timeout_key \<mapsto> \<lparr>en_type = ''int'', en_var = (ConfigVar_ctor timeout_key (IntVal 5000)
       ''tcp connect timeout'')\<lparr>cv_cbs := [(Suc n, timeout_cb)]\<rparr>\<rparr>)\<rparr>"

lemma HookIniter_started:
  assumes "r timeout_key = None"
  shows "HookIniter_ctor t lib dlsym n hook_table_init r = Some (Inr (started lib dlsym n r))"
  using assms
  by (simp add: HookIniter_ctor_def Lookup_def name_ok getValue_idle addListener_idle ctor_idle started_def as_timeout_def)

text \<open>
  The start-up object leaves the hooks usable: every hooked function has its original, a second
  call of \<open>initHook\<close> changes nothing, and the timeout of \<open>connect\<close> is 5000 milliseconds. Before
  it has run, every call of an original is a call of a null pointer.
\<close>

theorem start_up_complete:
  assumes "r timeout_key = None" and "\<forall>f \<in> set hooked_names. dlsym lib f \<noteq> None"
  shows "\<exists>s. HookIniter_ctor t lib dlsym n hook_table_init r = Some (Inr s) \<and> s_connect_timeout s = 5000 \<and>
    (\<forall>f \<in> set hooked_names. \<exists>a. original f (hs_table s) = Inr a) \<and>
    (\<forall>lib' dlsym'. initHook lib' dlsym' (hs_table s) = hs_table s) \<and>
    (\<forall>f. original f hook_table_init = Inl NullDeref)"
proof -
  have "\<exists>a. original f (initHook lib dlsym hook_table_init) = Inr a" if "f \<in> set hooked_names" for f
    using that assms(2) by (auto simp: original_def initHook_def hook_table_init_def split: option.splits)
  with HookIniter_started [of r t lib dlsym n, OF assms(1)] show ?thesis
    by (auto simp: started_def initHook_def hook_table_init_def original_def)
qed

section \<open>The timeout follows the configuration\<close>

definition follows :: "hook_state \<Rightarrow> bool" where
  "follows s \<longleftrightarrow> registry_idle (hs_registry s) \<and> (\<exists>e i. hs_registry s timeout_key = Some e \<and> en_type e = ''int'' \<and>
     cv_val (en_var e) = IntVal i \<and> timeout_cb \<in> snd ` set (cv_cbs (en_var e)) \<and> s_connect_timeout s = word_of_int i)"

lemma hear_append: "hear (xs @ ys) t = hear ys (hear xs t)"
  by (simp add: hear_def)

lemma hear_same: "cb \<in> snd ` set cbs \<Longrightarrow> cb = timeout_cb \<Longrightarrow> hear (map (\<lambda>x. (snd x, v1, IntVal i)) cbs) t = word_of_int i"
proof (induction cbs rule: rev_induct)
  case (snoc x xs)
  then show ?case by (auto simp: hear_append) (auto simp: hear_def as_timeout_def)
qed simp

lemma int_texts:
  assumes "\<And>s v. f s = Inr v \<Longrightarrow> \<exists>i. v = IntVal i" and "timeout_cb \<in> snd ` set (cv_cbs c)" and "cv_val c = IntVal i"
    and "x = word_of_int i"
  shows "\<exists>j calls. cv_val (foldl (set_text f) c ss) = IntVal j \<and>
    cv_calls (foldl (set_text f) c ss) = cv_calls c @ calls \<and> hear calls x = word_of_int j"
  using assms(2-4)
proof (induction ss arbitrary: c i x)
  case Nil
  then show ?case by (auto simp: hear_def)
next
  case (Cons s ss)
  show ?case
  proof (cases "\<exists>k. f s = Inr (IntVal k) \<and> k \<noteq> i")
    case False
    have same: "set_text f c s = c"
    proof (cases "f s")
      case (Inr v)
      with assms(1) [OF Inr] False have "v = IntVal i" by auto
      with Inr Cons.prems(2) show ?thesis by (simp add: set_text_def after_set_def)
    qed (simp add: set_text_def)
    show ?thesis using Cons.IH [OF Cons.prems] by (simp add: same)
  next
    case True
    then obtain k where k: "f s = Inr (IntVal k)" "k \<noteq> i" by blast
    let ?c = "after_set (IntVal k) c"
    have c: "set_text f c s = ?c" using k by (simp add: set_text_def)
    have calls: "cv_calls ?c = cv_calls c @ map (\<lambda>x. (snd x, cv_val c, IntVal k)) (cv_cbs c)"
      using k Cons.prems(2) by (simp add: after_set_def)
    have h: "hear (map (\<lambda>x. (snd x, cv_val c, IntVal k)) (cv_cbs c)) x = word_of_int k"
      by (rule hear_same [OF Cons.prems(1) refl])
    obtain j cs where "cv_val (foldl (set_text f) ?c ss) = IntVal j"
      "cv_calls (foldl (set_text f) ?c ss) = cv_calls ?c @ cs" "hear cs (word_of_int k) = word_of_int j"
      using Cons.IH [of ?c k "word_of_int k"] Cons.prems(1) by auto
    with c calls h show ?thesis by (simp add: hear_append)
  qed
qed

definition int_conversions :: "(string \<Rightarrow> string \<Rightarrow> conf_value result) \<Rightarrow> bool" where
  "int_conversions from_str \<longleftrightarrow> (\<forall>s v. from_str ''int'' s = Inr v \<longrightarrow> (\<exists>i. v = IntVal i))"

lemma load_follows:
  assumes "quiet_cb run_cb" and "only_throws from_str" and "int_conversions from_str" and "follows s"
  shows "\<exists>s'. load_at_runtime t run_cb from_str emit root s = Some (Inr s') \<and> follows s'"
proof -
  obtain e i where e: "hs_registry s timeout_key = Some e" "en_type e = ''int''" "cv_val (en_var e) = IntVal i"
    "timeout_cb \<in> snd ` set (cv_cbs (en_var e))" "s_connect_timeout s = word_of_int i"
    and idle: "registry_idle (hs_registry s)"
    using assms(4) by (auto simp: follows_def)
  let ?ns = "S_listYamlNode [] root"
  let ?ss = "texts_for emit timeout_key ?ns"
  let ?r = "set_texts from_str emit ?ns (hs_registry s)"
  let ?c = "foldl (set_text (from_str ''int'')) (en_var e) ?ss"
  have r: "?r timeout_key = Some (e\<lparr>en_var := ?c\<rparr>)" using e(1,2) by (simp add: set_texts_def)
  obtain j calls where j: "cv_val ?c = IntVal j" "cv_calls ?c = cv_calls (en_var e) @ calls"
    "hear calls (s_connect_timeout s) = word_of_int j"
    using int_texts [of "from_str ''int''" "en_var e" i _ ?ss, OF _ e(4,3,5)] assms(3) by (auto simp: int_conversions_def)
  let ?s = "s\<lparr>hs_registry := ?r, s_connect_timeout := word_of_int j\<rparr>"
  have "load_at_runtime t run_cb from_str emit root s = Some (Inr ?s)"
    using load_nodes_result [OF assms(1,2) idle, of t emit ?ns] e(1) r j(2,3)
    by (simp add: load_at_runtime_def LoadFromYaml_def)
  moreover have "follows ?s"
    using r j(1) e(2,4) set_texts_idle [OF idle] by (simp add: follows_def)
  ultimately show ?thesis by blast
qed

lemma load_all_follows:
  "quiet_cb run_cb \<Longrightarrow> only_throws from_str \<Longrightarrow> int_conversions from_str \<Longrightarrow> follows s \<Longrightarrow>
   \<exists>s'. load_all t run_cb from_str emit ys s = Some (Inr s') \<and> follows s'"
proof (induction ys arbitrary: s)
  case (Cons y ys)
  obtain s1 where "load_at_runtime t run_cb from_str emit y s = Some (Inr s1)" "follows s1"
    using load_follows [OF Cons.prems] by blast
  with Cons show ?case by simp
qed simp

lemma started_follows: "registry_idle r \<Longrightarrow> follows (started lib dlsym n r)"
  by (auto simp: follows_def started_def registry_idle_def ctor_idle)

lemma start_up_complete_witness:
  "\<exists>s. HookIniter_ctor 1 (Some 9) (\<lambda>h f. Some (length f)) 0 hook_table_init Map.empty = Some (Inr s) \<and>
     s_connect_timeout s = 5000 \<and> (\<exists>a. original ''read'' (hs_table s) = Inr a)"
proof -
  have "\<forall>f \<in> set hooked_names. (\<lambda>(h::nat option) f. Some (length f)) (Some 9) f \<noteq> None" by simp
  from start_up_complete [of Map.empty "\<lambda>h f. Some (length f)" "Some 9" 1 0, OF _ this] obtain s where
    s: "HookIniter_ctor 1 (Some 9) (\<lambda>h f. Some (length f)) 0 hook_table_init Map.empty = Some (Inr s)"
    "s_connect_timeout s = 5000" "\<forall>f \<in> set hooked_names. \<exists>a. original f (hs_table s) = Inr a" by auto
  have "''read'' \<in> set hooked_names" by (simp add: hooked_names_def)
  with s show ?thesis by blast
qed

text \<open>
  After start-up, whatever documents have been loaded since, a \<open>connect\<close> that has to wait sets
  its timer to the value \<open>tcp.connect.timeout\<close> has now, as an unsigned number, and none if that
  value is -1.
\<close>

theorem connect_uses_configured_timeout:
  assumes "r timeout_key = None" and "registry_idle r" and "quiet_cb run_cb" and "only_throws from_str"
    and "int_conversions from_str" and "blocking_socket n is_sock fd m m1 p" and "0 \<le> fd" and "add_rt env 0 = 0"
  shows "\<exists>s s' e i rt err. HookIniter_ctor t lib dlsym k hook_table_init r = Some (Inr s) \<and>
    load_all t run_cb from_str emit ys s = Some (Inr s') \<and>
    hs_registry s' timeout_key = Some e \<and> cv_val (en_var e) = IntVal i \<and>
    hooked_connect n is_sock True (s_connect_timeout s') fd (- 1, EINPROGRESS) env sockopt m =
      Some (Inr (m1, rt, err, [ACall] @ (if word_of_int i = (- 1 :: u64) then [] else [ASetTimer (word_of_int i)]) @
        [AAddEvent EV_WRITE, AYield] @ (if word_of_int i = (- 1 :: u64) then [] else [ACancelTimer])))"
proof -
  note s = HookIniter_started [of r t lib dlsym k, OF assms(1)]
  obtain s' where s': "load_all t run_cb from_str emit ys (started lib dlsym k r) = Some (Inr s')" "follows s'"
    using load_all_follows [OF assms(3-5) started_follows [OF assms(2)]] by blast
  then obtain e i where e: "hs_registry s' timeout_key = Some e" "cv_val (en_var e) = IntVal i"
    "s_connect_timeout s' = word_of_int i" by (auto simp: follows_def)
  have "\<exists>rt err. hooked_connect n is_sock True (s_connect_timeout s') fd (- 1, EINPROGRESS) env sockopt m =
      Some (Inr (m1, rt, err, [ACall] @ (if word_of_int i = (- 1 :: u64) then [] else [ASetTimer (word_of_int i)]) @
        [AAddEvent EV_WRITE, AYield] @ (if word_of_int i = (- 1 :: u64) then [] else [ACancelTimer])))"
    using assms(6-8) by (simp add: hooked_connect_def connect_with_timeout_def blocking_socket_def Let_def e(3))
  with s s' e show ?thesis by blast
qed

definition demo_conf_from_str :: "string \<Rightarrow> string \<Rightarrow> conf_value result" where
  "demo_conf_from_str ty s = (if s = ''7'' then Inr (IntVal 7) else Inl (Throws s))"

definition demo_conf_cb :: "nat \<Rightarrow> conf_value \<Rightarrow> conf_value \<Rightarrow> conf_value cvar \<Rightarrow> conf_value cvar run" where
  "demo_conf_cb cb v1 v2 c = Some (Inr c)"

lemma connect_uses_configured_timeout_witness:
  "\<exists>s s' e i rt err. HookIniter_ctor 1 (Some 9) (\<lambda>h f. Some 1) 0 hook_table_init Map.empty = Some (Inr s) \<and>
    load_all 1 demo_conf_cb demo_conf_from_str (\<lambda>_. []) [YMap [(''tcp.connect.timeout'', YScalar ''7'')]] s = Some (Inr s') \<and>
    hs_registry s' timeout_key = Some e \<and> cv_val (en_var e) = IntVal i \<and>
    hooked_connect 1 (\<lambda>_. True) True (s_connect_timeout s') 5 (- 1, EINPROGRESS)
      \<lparr>sys = \<lambda>_. (- 1, EAGAIN), add_rt = \<lambda>_. 0, add_errno = \<lambda>_. 0, expired = \<lambda>_. False\<rparr> (0, 0) demo_fdm =
      Some (Inr (demo_fdm, rt, err, [ACall] @ (if word_of_int i = (- 1 :: u64) then [] else [ASetTimer (word_of_int i)]) @
        [AAddEvent EV_WRITE, AYield] @ (if word_of_int i = (- 1 :: u64) then [] else [ACancelTimer])))"
proof (rule connect_uses_configured_timeout [OF _ _ _ _ _ demo_blocking])
  show "registry_idle Map.empty" by (simp add: registry_idle_def)
  show "quiet_cb demo_conf_cb" by (simp add: quiet_cb_def demo_conf_cb_def)
  show "only_throws demo_conf_from_str" "int_conversions demo_conf_from_str"
    by (auto simp: only_throws_def int_conversions_def demo_conf_from_str_def split: if_splits)
qed simp_all

end
