(* ===== verification/System.thy ===== *)
theory System
  imports Scheduler Hook "HOL-Library.Multiset"
begin

text \<open>
  The parts together: what the poller reports becomes fibers, the scheduler spreads them over the
  processers, and the processers run them; and a fiber that sleeps is handed back when its time has
  passed, and not before.
\<close>

section \<open>A turn of the poller inside the scheduler\<close>

text \<open>The fibers of a turn, created one after the other; \<open>fbs\<close> are the addresses they get.\<close>

fun create_all ::
  "(nat, 'q) queue_ops \<Rightarrow> ('fn \<times> nat) list \<Rightarrow> (nat \<Rightarrow> 'fn fiber) \<times> fiber_tls \<times> ('q, 'cb) scheduler \<Rightarrow>
   ((nat \<Rightarrow> 'fn fiber) \<times> fiber_tls \<times> ('q, 'cb) scheduler) run" where
  "create_all ops [] s = Some (Inr s)"
| "create_all ops ((cb, fb) # cbs) s = bindO (createFiber ops cb fb s) (create_all ops cbs)"

definition sys_poll ::
  "(nat, 'q) queue_ops \<Rightarrow> (nat \<Rightarrow> int) \<Rightarrow> turn \<Rightarrow> nat list \<Rightarrow>
   (nat \<Rightarrow> 'cb option fiber) \<times> fiber_tls \<times> ('q, 'cb) scheduler \<Rightarrow>
   (((nat \<Rightarrow> 'cb option fiber) \<times> fiber_tls \<times> ('q, 'cb) scheduler) \<times> bool) run" where
  "sys_poll ops low32 tn fbs s = (case s of (h, tls, sc) \<Rightarrow> (case sc_poller sc of
     None \<Rightarrow> Some (Inl NullDeref)
   | Some pl \<Rightarrow> bindO (Some (poller_turn low32 tn pl)) (\<lambda>(pl', outs, broke).
       bindO (create_all ops (zip outs fbs) (h, tls, sc\<lparr>sc_poller := Some pl'\<rparr>)) (\<lambda>s'.
         Some (Inr (s', broke))))))"

text \<open>
  A processer left alone until it has run what it got: one turn to take the new fibers over and
  one for each; \<open>segs\<close> says how the fiber at an address leaves its segment.
\<close>

definition drain :: "(nat \<Rightarrow> segment) \<Rightarrow> nat list \<Rightarrow> 'q pturn list" where
  "drain segs ys = (if ys = [] then [] else quiet Returns # map (\<lambda>y. quiet (segs y)) ys)"

text \<open>The processer \<open>k\<close> for some turns; then one processer after the other.\<close>

definition sys_exec ::
  "(nat, 'q) queue_ops \<Rightarrow> nat \<Rightarrow> 'q pturn list \<Rightarrow> (nat \<Rightarrow> 'fn fiber) \<times> ('q, 'cb) scheduler \<Rightarrow>
   (((nat \<Rightarrow> 'fn fiber) \<times> ('q, 'cb) scheduler) \<times> outcome list) run" where
  "sys_exec ops k tns s =
     bindO (exec_loop ops k tns (fst s, m_processers (snd s) ! k)) (\<lambda>((h, p), outs).
       Some (Inr ((h, (snd s)\<lparr>m_processers := (m_processers (snd s))[k := p]\<rparr>), outs)))"

fun sys_exec_all ::
  "(nat, 'q) queue_ops \<Rightarrow> (nat \<times> 'q pturn list) list \<Rightarrow> (nat \<Rightarrow> 'fn fiber) \<times> ('q, 'cb) scheduler \<Rightarrow>
   (((nat \<Rightarrow> 'fn fiber) \<times> ('q, 'cb) scheduler) \<times> outcome list) run" where
  "sys_exec_all ops [] s = Some (Inr (s, []))"
| "sys_exec_all ops ((k, tns) # ks) s =
     bindO (sys_exec ops k tns s) (\<lambda>(s1, o1).
     bindO (sys_exec_all ops ks s1) (\<lambda>(s2, o2). Some (Inr (s2, o1 @ o2))))"

section \<open>Creating the fibers\<close>

lemma sched_addFiber_other:
  "sched_addFiber ops own fb (sc\<lparr>m_fiberNumber := n, sc_poller := pl\<rparr>) =
     bindO (sched_addFiber ops own fb sc) (\<lambda>sc'. Some (Inr (sc'\<lparr>m_fiberNumber := n, sc_poller := pl\<rparr>)))"
  by (cases "pick own (m_processers sc) (sc_rr sc)"; cases "addFiber ops fb (m_processers sc ! fst (projr (pick own (m_processers sc) (sc_rr sc))))")
    (auto simp: sched_addFiber_def bindO_def split: sum.splits prod.splits option.splits)

lemma sched_addFiber_other':
  "sched_addFiber ops own fb (sc\<lparr>sc_poller := pl, m_fiberNumber := n\<rparr>) =
     bindO (sched_addFiber ops own fb sc) (\<lambda>sc'. Some (Inr (sc'\<lparr>m_fiberNumber := n, sc_poller := pl\<rparr>)))"
proof -
  have "sc\<lparr>sc_poller := pl, m_fiberNumber := n\<rparr> = sc\<lparr>m_fiberNumber := n, sc_poller := pl\<rparr>" by simp
  then show ?thesis by (simp only: sched_addFiber_other)
qed

lemma create_all_add:
  "add_all ops fbs sc = Some (Inr sc') \<Longrightarrow> length cbs = length fbs \<Longrightarrow> distinct fbs \<Longrightarrow>
   \<exists>h' tls' n'. create_all ops (zip cbs fbs) (h, tls, sc\<lparr>m_fiberNumber := n, sc_poller := pl\<rparr>) =
       Some (Inr (h', tls', sc'\<lparr>m_fiberNumber := n', sc_poller := pl\<rparr>)) \<and>
     (\<forall>i < length fbs. f_fn (h' (fbs ! i)) = cbs ! i) \<and> (\<forall>x. x \<notin> set fbs \<longrightarrow> h' x = h x) \<and>
     (\<forall>x. f_eptr (h' x) \<longrightarrow> f_eptr (h x)) \<and> s_fiber_count tls' = s_fiber_count tls + of_nat (length fbs)"
proof (induction fbs arbitrary: sc cbs h tls n)
  case Nil
  then show ?case by (auto intro!: exI)
next
  case (Cons fb fbs)
  obtain cb cbs' where cbs: "cbs = cb # cbs'" "length cbs' = length fbs" using Cons.prems(2) by (cases cbs) auto
  obtain sc1 where sc1: "sched_addFiber ops None fb sc = Some (Inr sc1)" "add_all ops fbs sc1 = Some (Inr sc')"
    using Cons.prems(1) by (auto simp: bindO_eq_Some)
  let ?f = "fst (Fiber_ctor cb (16 * 1024) tls)" and ?tls = "snd (Fiber_ctor cb (16 * 1024) tls)"
  have fn: "f_fn ?f = cb" "\<not> f_eptr ?f" "f_proc ?f = None" "s_fiber_count ?tls = s_fiber_count tls + 1"
    by (simp_all add: Fiber_ctor_def)
  have c: "createFiber ops cb fb (h, tls, sc\<lparr>m_fiberNumber := n, sc_poller := pl\<rparr>) =
      Some (Inr (h(fb := ?f), ?tls, sc1\<lparr>m_fiberNumber := n + 1, sc_poller := pl\<rparr>))"
    using sched_addFiber_other' [where ops = ops and own = None and fb = fb and sc = sc and n = "n + 1" and pl = pl] sc1(1) fn(3)
    by (simp add: createFiber_def split_beta)
  have d: "distinct fbs" using Cons.prems(3) by simp
  obtain h' tls' n' where r: "create_all ops (zip cbs' fbs) (h(fb := ?f), ?tls, sc1\<lparr>m_fiberNumber := n + 1, sc_poller := pl\<rparr>) =
      Some (Inr (h', tls', sc'\<lparr>m_fiberNumber := n', sc_poller := pl\<rparr>))"
    "\<forall>i < length fbs. f_fn (h' (fbs ! i)) = cbs' ! i" "\<forall>x. x \<notin> set fbs \<longrightarrow> h' x = (h(fb := ?f)) x"
    "\<forall>x. f_eptr (h' x) \<longrightarrow> f_eptr ((h(fb := ?f)) x)" "s_fiber_count tls' = s_fiber_count ?tls + of_nat (length fbs)"
    using Cons.IH [OF sc1(2) cbs(2) d, of "h(fb := ?f)" ?tls "n + 1"] by blast
  have "f_fn (h' ((fb # fbs) ! i)) = cbs ! i" if "i < length (fb # fbs)" for i
    using that r(2,3) Cons.prems(3) fn(1) by (cases i) (simp_all add: cbs)
  moreover have "\<forall>x. x \<notin> set (fb # fbs) \<longrightarrow> h' x = h x" using r(3) by simp
  moreover have "\<forall>x. f_eptr (h' x) \<longrightarrow> f_eptr (h x)" using r(4) fn(2) by (auto split: if_splits)
  ultimately show ?case
    using c r(1,5) fn(4) by (intro exI [of _ h'] exI [of _ tls'] exI [of _ n']) (auto simp: cbs)
qed

section \<open>Running them\<close>

context fiber_queue begin

text \<open>A processer with only new fibers takes them over and runs each once, in order.\<close>

lemma poll_then_run:
  assumes "p_state (snd s) = Running" and "runableQueue (snd s) = []" and "rep (newQueue (snd s)) ys"
    and "p_newfiberCount (snd s) = of_nat (length ys)" and "ys \<noteq> []" and "distinct ys"
    and "\<And>x. \<not> f_eptr (fst s x)"
  shows "\<exists>s'. exec_loop ops self (quiet Returns # map (\<lambda>y. quiet (segs y)) ys) s =
       Some (Inr (s', Polled # map Ran ys)) \<and>
     (\<forall>y \<in> set ys. f_state (fst s' y) = (if segs y = Yields then Block else Done)) \<and>
     (\<forall>x. x \<notin> set ys \<longrightarrow> fst s' x = fst s x) \<and> (\<forall>x. \<not> f_eptr (fst s' x))"
proof -
  obtain y ys' where y: "ys = y # ys'" using assms(5) by (cases ys) auto
  obtain q where q: "exec_turn ops self (quiet Returns) s = Some (Inr ((fst s, (snd s)\<lparr>p_newfiberCount := 0,
      p_nowFiberSize := p_nowFiberSize (snd s) + of_nat (length ys), newQueue := q, runableQueue := ys\<rparr>), Polled))"
    using quiet_turn_poll [OF assms(1,2), of y ys' self Returns] assms(3,4) by (auto simp: y)
  let ?s = "(fst s, (snd s)\<lparr>p_newfiberCount := 0,
      p_nowFiberSize := p_nowFiberSize (snd s) + of_nat (length ys), newQueue := q, runableQueue := ys\<rparr>)"
  obtain s' where s': "exec_loop ops self (map quiet (map segs ys)) ?s = Some (Inr (s', map Ran ys))"
    "\<forall>i < length ys. f_state (fst s' (ys ! i)) = (if map segs ys ! i = Yields then Block else Done)"
    "\<forall>x. x \<notin> set ys \<longrightarrow> fst s' x = fst ?s x" "\<forall>x. \<not> f_eptr (fst s' x)"
    using quiet_runs [of ?s ys "[]" "map segs ys" ops self] assms(1,6,7) by auto
  have "f_state (fst s' y) = (if segs y = Yields then Block else Done)" if "y \<in> set ys" for y
    using s'(2) that by (auto simp: in_set_conv_nth)
  with q s' show ?thesis by (intro exI [of _ s']) (simp add: o_def)
qed

lemma exec_all_run:
  assumes "\<And>k. k \<in> set ks \<Longrightarrow> k < length (m_processers sc) \<and> p_state (m_processers sc ! k) = Running \<and>
      runableQueue (m_processers sc ! k) = [] \<and> rep (newQueue (m_processers sc ! k)) (ys k) \<and>
      p_newfiberCount (m_processers sc ! k) = of_nat (length (ys k)) \<and> distinct (ys k)"
    and "distinct ks" and "\<And>j k. j \<in> set ks \<Longrightarrow> k \<in> set ks \<Longrightarrow> j \<noteq> k \<Longrightarrow> set (ys j) \<inter> set (ys k) = {}"
    and "\<And>x. \<not> f_eptr (h x)"
  shows "\<exists>h' sc' outs. sys_exec_all ops (map (\<lambda>k. (k, drain segs (ys k))) ks) (h, sc) = Some (Inr ((h', sc'), outs)) \<and>
     filter (\<lambda>x. x \<noteq> Polled) outs = map Ran (concat (map ys ks)) \<and>
     (\<forall>k \<in> set ks. \<forall>y \<in> set (ys k). f_state (h' y) = (if segs y = Yields then Block else Done)) \<and>
     (\<forall>x. x \<notin> (\<Union>k \<in> set ks. set (ys k)) \<longrightarrow> h' x = h x)"
  using assms
proof (induction ks arbitrary: h sc)
  case Nil
  then show ?case by simp
next
  case (Cons k ks)
  let ?tns = "\<lambda>k. drain segs (ys k)"
  let ?p = "m_processers sc ! k"
  have kk: "k < length (m_processers sc)" "p_state ?p = Running" "runableQueue ?p = []" "rep (newQueue ?p) (ys k)"
    "p_newfiberCount ?p = of_nat (length (ys k))" "distinct (ys k)"
    using Cons.prems(1) by simp_all
  have "\<exists>h1 p1 o1. exec_loop ops k (?tns k) (h, ?p) = Some (Inr ((h1, p1), o1)) \<and>
      filter (\<lambda>x. x \<noteq> Polled) o1 = map Ran (ys k) \<and>
      (\<forall>y \<in> set (ys k). f_state (h1 y) = (if segs y = Yields then Block else Done)) \<and>
      (\<forall>x. x \<notin> set (ys k) \<longrightarrow> h1 x = h x) \<and> (\<forall>x. \<not> f_eptr (h1 x))"
  proof (cases "ys k = []")
    case True
    with Cons.prems(4) show ?thesis by (simp add: drain_def)
  next
    case False
    obtain s' where "exec_loop ops k (?tns k) (h, ?p) = Some (Inr (s', Polled # map Ran (ys k)))"
      "\<forall>y \<in> set (ys k). f_state (fst s' y) = (if segs y = Yields then Block else Done)"
      "\<forall>x. x \<notin> set (ys k) \<longrightarrow> fst s' x = h x" "\<forall>x. \<not> f_eptr (fst s' x)"
      using poll_then_run [of "(h, ?p)" "ys k" k segs] kk False Cons.prems(4) by (auto simp: drain_def)
    with False show ?thesis by (cases s') (auto simp: filter_map o_def drain_def)
  qed
  then obtain h1 p1 o1 where e: "exec_loop ops k (?tns k) (h, ?p) = Some (Inr ((h1, p1), o1))"
    "filter (\<lambda>x. x \<noteq> Polled) o1 = map Ran (ys k)"
    "\<forall>y \<in> set (ys k). f_state (h1 y) = (if segs y = Yields then Block else Done)"
    "\<forall>x. x \<notin> set (ys k) \<longrightarrow> h1 x = h x" "\<And>x. \<not> f_eptr (h1 x)" by blast
  let ?sc = "sc\<lparr>m_processers := (m_processers sc)[k := p1]\<rparr>"
  have one: "sys_exec ops k (?tns k) (h, sc) = Some (Inr ((h1, ?sc), o1))" using e(1) by (simp add: sys_exec_def)
  have ks: "j \<noteq> k" if "j \<in> set ks" for j using that Cons.prems(2) by auto
  have sp: "m_processers ?sc ! j = m_processers sc ! j" if "j \<in> set ks" for j using ks [OF that] by simp
  have ih1: "j < length (m_processers ?sc) \<and> p_state (m_processers ?sc ! j) = Running \<and>
      runableQueue (m_processers ?sc ! j) = [] \<and> rep (newQueue (m_processers ?sc ! j)) (ys j) \<and>
      p_newfiberCount (m_processers ?sc ! j) = of_nat (length (ys j)) \<and> distinct (ys j)" if "j \<in> set ks" for j
    using Cons.prems(1) [of j] that unfolding sp [OF that] by simp
  have ih2: "distinct ks" using Cons.prems(2) by simp
  have ih3: "set (ys i) \<inter> set (ys j) = {}" if "i \<in> set ks" "j \<in> set ks" "i \<noteq> j" for i j
    using Cons.prems(3) [of i j] that by simp
  obtain h' sc' o2 where r: "sys_exec_all ops (map (\<lambda>k. (k, ?tns k)) ks) (h1, ?sc) = Some (Inr ((h', sc'), o2))"
    "filter (\<lambda>x. x \<noteq> Polled) o2 = map Ran (concat (map ys ks))"
    "\<forall>k \<in> set ks. \<forall>y \<in> set (ys k). f_state (h' y) = (if segs y = Yields then Block else Done)"
    "\<forall>x. x \<notin> (\<Union>k \<in> set ks. set (ys k)) \<longrightarrow> h' x = h1 x"
    using Cons.IH [of ?sc h1, OF ih1 ih2 ih3 e(5)] by blast
  have "f_state (h' y) = (if segs y = Yields then Block else Done)" if "y \<in> set (ys k)" for y
  proof -
    have "y \<notin> (\<Union>j \<in> set ks. set (ys j))" using that Cons.prems(3) ks by fastforce
    with r(4) e(3) that show ?thesis by simp
  qed
  with one r e(2,4) show ?case by (intro exI [of _ h'] exI [of _ sc'] exI [of _ "o1 @ o2"]) auto
qed

end

section \<open>Every fiber has one place\<close>

lemma mset_concat_append:
  "mset (concat (map (\<lambda>k. a k @ b k) ks)) = mset (concat (map a ks)) + mset (concat (map b ks))"
  by (induction ks) simp_all

lemma concat_single:
  "distinct ks \<Longrightarrow> i \<in> set ks \<Longrightarrow> concat (map (\<lambda>k. if i = k then [x] else []) ks) = [x]"
proof (induction ks)
  case (Cons k ks)
  show ?case
  proof (cases "i = k")
    case True
    then have "concat (map (\<lambda>k. if i = k then [x] else []) ks) = []" using Cons.prems(1) by auto
    with True show ?thesis by simp
  next
    case False
    with Cons show ?thesis by simp
  qed
qed simp

lemma mset_shares:
  assumes "distinct ks" and "set ks = {..<n}"
  shows "i < n \<Longrightarrow> mset (concat (map (\<lambda>k. share n i k fbs) ks)) = mset fbs"
proof (induction fbs arbitrary: i)
  case Nil
  then show ?case by (simp add: share_def)
next
  case (Cons fb fbs)
  have "0 < n" using Cons.prems by simp
  then have i': "(i + 1) mod n < n" by simp
  have "concat (map (\<lambda>k. if i = k then [fb] else []) ks) = [fb]"
    using concat_single [OF assms(1)] assms(2) Cons.prems by simp
  with Cons.IH [OF i'] show ?case
    by (simp add: share_Cons [OF Cons.prems] mset_concat_append del: append_Cons)
qed

lemma share_distinct:
  "distinct fbs \<Longrightarrow> distinct (share n i k fbs)"
  by (auto simp: share_def distinct_map inj_on_def nth_eq_iff_index_eq)

lemma share_disjoint:
  "distinct fbs \<Longrightarrow> j \<noteq> k \<Longrightarrow> set (share n i j fbs) \<inter> set (share n i k fbs) = {}"
  by (auto simp: share_def nth_eq_iff_index_eq)

section \<open>Sleeping\<close>

text \<open>A turn in which nothing is shut down and no descriptor is ready.\<close>

definition plain_turn :: "turn \<Rightarrow> bool" where
  "plain_turn tn \<longleftrightarrow> \<not> stop1 tn \<and> \<not> stop2 tn \<and> (\<forall>k. \<not> stop_cbs tn k) \<and> now_probe tn = now_exec tn \<and>
     (\<forall>t. waited tn t = Inr [])"

lemma create_expired_all: "(\<forall>k. \<not> stopped k) \<Longrightarrow> create_expired stopped k cbs = cbs"
  by (induction cbs arbitrary: k) simp_all

lemma plain_turn_expires:
  assumes "plain_turn tn"
  shows "poller_turn low32 tn pl =
     (let (t, cbs) = getExecuteTask (now_exec tn) (now_exec tn) (probe tn) (fst (getNextExecuteTime (now_next tn) (pl_timer pl)))
      in Inr (pl\<lparr>pl_timer := t\<rparr>, cbs, False))"
  using assms by (simp add: plain_turn_def poller_turn_def create_expired_all split_beta Let_def)

lemma suspended:
  assumes "suspend_for True cap p cb ms now pl = Inr (Some pl')"
  shows "pl_timer pl' = fst (createTimer p (Some cb) ms False now (pl_timer pl))"
  using assms by (auto simp: suspend_for_def pl_createTimer_def onTimerInsertedAtFront_def notify_def Let_def split_beta
      bindR_eq_Inr split: if_splits)


text \<open>A poller in which callback 7 sleeps for two seconds from time 1000, and a turn at 3000.\<close>

definition demo_sleeper :: "nat poller" where
  "demo_sleeper = the (projr (hooked_sleep True 65536 7 7 2 1000 demo_poller))"

definition quiet_turn :: turn where
  "quiet_turn = \<lparr>now_next = 3000, stop1 = False, stop2 = False, stop_cbs = (\<lambda>_. False), now_exec = 3000,
     now_probe = 3000, probe = 9, waited = (\<lambda>_. Inr [])\<rparr>"

lemma demo_sleeper_eq: "hooked_sleep True 65536 7 7 2 1000 demo_poller = Inr (Some demo_sleeper)"
  by (simp add: demo_sleeper_def hooked_sleep_def suspend_for_def pl_createTimer_def onTimerInsertedAtFront_def
      notify_def createTimer_def addTimerTask_def demo_poller_def Poller_ctor_def Timer_ctor_def Let_def epoll_log_def)

lemma demo_sleeper_timer:
  "pl_timer demo_sleeper = fst (createTimer 7 (Some 7) 2000 False 1000 (Timer_ctor (\<lambda>_. TimerTask_ctor None 0 False 0) 0))"
  using suspended [OF demo_sleeper_eq [unfolded hooked_sleep_def]]
  by (simp add: sleep_ms_def demo_poller_def Poller_ctor_def epoll_log_def)

lemma quiet_turn_plain: "plain_turn quiet_turn"
  by (simp add: plain_turn_def quiet_turn_def)

lemma demo_sleeper_tasks: "m_tasks (pl_timer demo_poller) = []" "m_previouseTime (pl_timer demo_poller) = 0"
  by (simp_all add: demo_poller_def Poller_ctor_def epoll_log_def Timer_ctor_def)

lemma demo_poller_ok: "timer_ok {} (pl_timer demo_poller)"
  using timer_ok_ctor by (simp add: demo_poller_def Poller_ctor_def epoll_log_def)


lemma quiet_turn_wakes:
  "\<exists>pl'. poller_turn int quiet_turn demo_sleeper = Inr (pl', [Some 7], False)"
proof -
  let ?t = "fst (getNextExecuteTime 3000 (pl_timer demo_sleeper))"
  have ok: "timer_ok {7} ?t"
    unfolding demo_sleeper_timer by (intro timer_ok_getNextExecuteTime timer_ok_createTimer timer_ok_ctor) simp
  have t: "m_tasks (pl_timer demo_sleeper) = [7]" "m_previouseTime (pl_timer demo_sleeper) = 0"
    "heap (pl_timer demo_sleeper) 7 = TimerTask_ctor (Some 7) 2000 False 1000"
    by (simp_all add: demo_sleeper_timer createTimer_def Timer_ctor_def)
  have "expired_prefix 3000 3000 9 ?t = [7]"
    using expired_prefix_normal [OF ok, of 9 3000 3000] by (simp add: t detectClockRollover_def TimerTask_ctor_def is_due_def)
  then have "snd (getExecuteTask 3000 3000 9 ?t) = [Some 7]"
    unfolding getExecuteTask_cbs [OF ok] by (simp add: t TimerTask_ctor_def)
  then show ?thesis
    unfolding plain_turn_expires [OF quiet_turn_plain] by (simp add: split_beta quiet_turn_def)
qed

section \<open>From the poller to the fibers\<close>

lemma sys_poll_ok:
  assumes "sc_poller sc = Some pl" and "poller_turn low32 tn pl = Inr (pl', outs, broke)"
    and "add_all ops fbs sc = Some (Inr sc')" and "length fbs = length outs" and "distinct fbs"
  shows "\<exists>h' tls' n'. sys_poll ops low32 tn fbs (h, tls, sc) =
       Some (Inr ((h', tls', sc'\<lparr>m_fiberNumber := n', sc_poller := Some pl'\<rparr>), broke)) \<and>
     (\<forall>i < length fbs. f_fn (h' (fbs ! i)) = outs ! i) \<and> (\<forall>x. f_eptr (h' x) \<longrightarrow> f_eptr (h x))"
proof -
  obtain h' tls' n' where
    "create_all ops (zip outs fbs) (h, tls, sc\<lparr>m_fiberNumber := m_fiberNumber sc, sc_poller := Some pl'\<rparr>) =
       Some (Inr (h', tls', sc'\<lparr>m_fiberNumber := n', sc_poller := Some pl'\<rparr>))"
    "\<forall>i < length fbs. f_fn (h' (fbs ! i)) = outs ! i" "\<forall>x. f_eptr (h' x) \<longrightarrow> f_eptr (h x)"
    using create_all_add [where h = h and tls = tls and n = "m_fiberNumber sc" and pl = "Some pl'",
      OF assms(3) assms(4) [symmetric] assms(5)] by blast
  with assms(1,2) show ?thesis
    by (intro exI [of _ h'] exI [of _ tls'] exI [of _ n']) (simp add: sys_poll_def)
qed

definition idle_scheduler :: "('q \<Rightarrow> nat list \<Rightarrow> bool) \<Rightarrow> ('q, 'cb) scheduler \<Rightarrow> bool" where
  "idle_scheduler rep sc \<longleftrightarrow> sc_rr sc < length (m_processers sc) \<and>
     (\<forall>p \<in> set (m_processers sc). p_state p = Running \<and> runableQueue p = [] \<and> rep (newQueue p) [] \<and>
        p_newfiberCount p = 0)"

lemma idle_schedulerD:
  assumes "idle_scheduler rep sc"
  shows "sc_rr sc < length (m_processers sc)"
    and "k < length (m_processers sc) \<Longrightarrow> p_state (m_processers sc ! k) = Running \<and> runableQueue (m_processers sc ! k) = []
      \<and> rep (newQueue (m_processers sc ! k)) [] \<and> p_newfiberCount (m_processers sc ! k) = 0"
    and "\<forall>p \<in> set (m_processers sc). p_state p = Running"
  using assms by (auto simp: idle_scheduler_def)


definition demo_system :: "(nat lf_list, nat) scheduler" where
  "demo_system = (Scheduler_ctor 2 ''s'' 8 0)\<lparr>m_processers :=
     map (\<lambda>i. (Processer_ctor (of_nat i) demo_queue)\<lparr>p_state := Running\<rparr>) [0..<2], sc_poller := Some demo_sleeper\<rparr>"

definition demo_memory :: "nat \<Rightarrow> nat option fiber" where
  "demo_memory = (\<lambda>_. fst (Fiber_ctor None 0 \<lparr>s_fiber_id = 0, s_fiber_count = 0\<rparr>))"

lemma demo_system_procs: "m_processers demo_system = [(Processer_ctor 0 demo_queue)\<lparr>p_state := Running\<rparr>,
    (Processer_ctor 1 demo_queue)\<lparr>p_state := Running\<rparr>]" "sc_rr demo_system = 0" "sc_poller demo_system = Some demo_sleeper"
  by (simp_all add: demo_system_def upt_rec Scheduler_ctor_def)

lemma demo_memory_quiet: "\<not> f_eptr (demo_memory x)"
  by (simp add: demo_memory_def Fiber_ctor_def)


end
