(* ===== verification/FiberSystem.thy ===== *)
theory FiberSystem
  imports Scheduler Hook "HOL-Library.Multiset"
begin

text \<open>
  Many fibers on many processers, with the poller thread, in any interleaving: what
  \<open>Processer::execute\<close>, \<open>do_io\<close>, \<open>sleep\<close>, \<open>Scheduler::addFiber\<close> and the poller thread do
  together. One step is one call on the poller or the timers, which hold their locks, one
  choice of a processer, one push to a queue or one switch between fiber and processer.

  A processer is reduced to its state, the fiber it runs and the fibers it has been given,
  in order: \<open>runableQueue\<close> followed by \<open>newQueue\<close>, as a list. A push is one step and is not lost;
  that is the contract of the queue, which \<open>boost::lockfree::spsc_queue\<close> has while one thread
  pushes at a time and the queue has room. A processer may go idle and wake up whenever it
  runs no fiber, which is more than the code does (\<open>Wakeup\<close> has the protocol). Removing an event
  and creating the fiber for it are separate steps, also more than the code does, which holds the
  lock of the context meanwhile. The poller with its timers is the one of the theories \<open>Poller\<close>
  and \<open>Timer\<close>. The scheduler does not stop.
\<close>

section \<open>State\<close>

text \<open>
  The callbacks the library itself registers: \<open>bind (&Scheduler::addFiber, sche, fb)\<close>, and the
  lambda of \<open>do_io\<close> with its weak pointer to a \<open>timer_info\<close>.
\<close>

datatype callback = Resume nat | TimeOut nat int u32

text \<open>
  Where a fiber is. \<open>Fresh cb\<close> has not run: its body is the callback, or a function of the user.
  \<open>Io...\<close> is \<open>do_io\<close> on a descriptor, for an event, with a timeout, its \<open>timer_info\<close> and its
  timer: before the call of the original function, before \<open>createCondTimer\<close>, before \<open>addEvent\<close>,
  before the return when that failed, before \<open>toYield\<close>, before \<open>cancel\<close>, before the test of
  \<open>canclelled\<close>. \<open>Res...\<close> is \<open>Scheduler::addFiber\<close> of a fiber, before the choice and before the
  push. \<open>Tm...\<close> is the lambda of the timer. \<open>Spawn\<close> has callbacks to create fibers for.
\<close>

datatype fpc =
    Fresh "callback option"
  | InUser
  | IoTry int u32 u64 nat
  | IoTimer int u32 u64 nat
  | IoAdd int u32 u64 nat "nat option"
  | IoFail nat "nat option"
  | IoYield int u32 u64 nat "nat option"
  | IoBack int u32 u64 nat "nat option"
  | IoLook int u32 u64 nat
  | SleepTimer u64
  | SleepYield
  | SleepBack
  | ResPick nat
  | ResPush nat nat
  | TmTest nat int u32
  | TmCancel int u32
  | Spawn "callback option list" bool
  | Leaving
  | Ended

record worker =
  w_state :: TaskState
  w_queue :: "nat list"
  w_cur :: "nat option"

text \<open>
  \<open>fs_pc\<close> and \<open>fs_proc\<close> (\<open>m_proc\<close>) belong to the fibers, of which there are \<open>fs_fibers\<close>;
  \<open>fs_tasks\<close> is the address of the next timer task; \<open>fs_info\<close> holds the \<open>timer_info\<close> objects,
  \<open>None\<close> for one that is gone; \<open>fs_todo\<close> are callbacks the poller thread has taken out and has
  still to create fibers for.
\<close>

record fsys =
  fs_poller :: "callback poller"
  fs_pc :: "nat \<Rightarrow> fpc"
  fs_proc :: "nat \<Rightarrow> nat option"
  fs_fibers :: nat
  fs_tasks :: nat
  fs_info :: "nat \<Rightarrow> int option"
  fs_infos :: nat
  fs_workers :: "worker list"
  fs_rr :: nat
  fs_todo :: "callback option list"

definition worker_new :: worker where
  "worker_new = \<lparr>w_state = Running, w_queue = [], w_cur = None\<rparr>"

definition fs_init :: "callback poller \<Rightarrow> nat \<Rightarrow> fsys" where
  "fs_init pl n = \<lparr>fs_poller = pl, fs_pc = (\<lambda>_. Ended), fs_proc = (\<lambda>_. None), fs_fibers = 0, fs_tasks = 0,
     fs_info = (\<lambda>_. None), fs_infos = 0, fs_workers = replicate n worker_new, fs_rr = 0, fs_todo = []\<rparr>"

section \<open>Steps\<close>

text \<open>What the user and the kernel decide at a step of a fiber.\<close>

datatype decision =
    UIo int u32 u64 | USleep u64 | UClose int int | USpawn | UReturn
  | KAgain bool | KTime u64 | KCtl int | Go

datatype fmove =
    Take nat | ToIdle nat | FromIdle nat
  | Act nat decision
  | Expire u64 u64
  | Reported epoll_event int
  | MakeFiber
  | Outside

definition set_pc :: "nat \<Rightarrow> fpc \<Rightarrow> fsys \<Rightarrow> fsys" where
  "set_pc f pc s = s\<lparr>fs_pc := (fs_pc s)(f := pc)\<rparr>"

definition set_worker :: "nat \<Rightarrow> worker \<Rightarrow> fsys \<Rightarrow> fsys" where
  "set_worker k w s = s\<lparr>fs_workers := (fs_workers s)[k := w]\<rparr>"

definition set_info :: "nat \<Rightarrow> int option \<Rightarrow> fsys \<Rightarrow> fsys" where
  "set_info t v s = s\<lparr>fs_info := (fs_info s)(t := v)\<rparr>"

text \<open>The processers as the scheduler sees them when it chooses one.\<close>

definition as_proc :: "worker \<Rightarrow> unit processer" where
  "as_proc w = (Processer_ctor 0 ())\<lparr>p_state := w_state w\<rparr>"

definition fs_pick :: "nat option \<Rightarrow> fsys \<Rightarrow> (nat \<times> nat) result" where
  "fs_pick own s = pick own (map as_proc (fs_workers s)) (fs_rr s)"

definition fs_push :: "nat \<Rightarrow> nat \<Rightarrow> fsys \<Rightarrow> fsys" where
  "fs_push f k s = (let w = fs_workers s ! k in set_worker k (w\<lparr>w_queue := w_queue w @ [f]\<rparr>) s)"

text \<open>\<open>createFiber\<close>: a new fiber, which no processer knows, is given to one of them.\<close>

definition fs_create :: "callback option \<Rightarrow> fsys \<Rightarrow> fsys result" where
  "fs_create cb s = bindR (fs_pick None s) (\<lambda>(k, i).
     Inr (fs_push (fs_fibers s) k (s\<lparr>fs_pc := (fs_pc s)(fs_fibers s := Fresh cb),
            fs_proc := (fs_proc s)(fs_fibers s := None), fs_fibers := Suc (fs_fibers s), fs_rr := i\<rparr>)))"

text \<open>The body of a fiber that starts.\<close>

definition enter :: "fpc \<Rightarrow> fpc" where
  "enter pc = (case pc of
     Fresh None \<Rightarrow> InUser
   | Fresh (Some (Resume g)) \<Rightarrow> ResPick g
   | Fresh (Some (TimeOut t fd ev)) \<Rightarrow> TmTest t fd ev
   | _ \<Rightarrow> pc)"

text \<open>A processer takes its next fiber and switches to it.\<close>

definition take_step :: "nat \<Rightarrow> fsys \<Rightarrow> fsys option" where
  "take_step k s = (let w = fs_workers s ! k in
     case (w_cur w, w_queue w) of
       (None, f # q) \<Rightarrow>
         (if w_state w = Running
          then Some (set_pc f (enter (fs_pc s f)) (set_worker k (w\<lparr>w_queue := q, w_cur := Some f\<rparr>)
                 (s\<lparr>fs_proc := (fs_proc s)(f := Some k)\<rparr>)))
          else None)
     | _ \<Rightarrow> None)"

text \<open>A fiber switches back to its processer.\<close>

definition switch_out :: "nat \<Rightarrow> nat \<Rightarrow> fpc \<Rightarrow> fsys \<Rightarrow> fsys" where
  "switch_out k f pc s = set_pc f pc (set_worker k ((fs_workers s ! k)\<lparr>w_cur := None\<rparr>) s)"

definition new_task :: "nat \<Rightarrow> callback \<Rightarrow> u64 \<Rightarrow> u64 \<Rightarrow> fsys \<Rightarrow> fsys result" where
  "new_task cap cb ms now s = bindR (pl_createTimer cap (fs_tasks s) (Some cb) ms False now (fs_poller s))
     (\<lambda>pl. Inr (s\<lparr>fs_poller := pl, fs_tasks := Suc (fs_tasks s)\<rparr>))"

definition cancel_task :: "nat option \<Rightarrow> fsys \<Rightarrow> fsys result" where
  "cancel_task tm s = (case tm of
     None \<Rightarrow> Inr s
   | Some p \<Rightarrow> bindR (cancel p (pl_timer (fs_poller s))) (\<lambda>(t, b).
       Inr (s\<lparr>fs_poller := (fs_poller s)\<lparr>pl_timer := t\<rparr>\<rparr>)))"

text \<open>\<open>do_io\<close>, from the call of the original function to the test of \<open>canclelled\<close>.\<close>

definition io_step :: "nat \<Rightarrow> nat \<Rightarrow> nat \<Rightarrow> decision \<Rightarrow> fsys \<Rightarrow> fsys result option" where
  "io_step cap k f c s = (case (fs_pc s f, c) of
     (IoTry fd ev to t, KAgain again) \<Rightarrow>
       Some (Inr (if again then set_pc f (IoTimer fd ev to t) s else set_pc f InUser (set_info t None s)))
   | (IoTimer fd ev to t, KTime now) \<Rightarrow>
       Some (if to \<noteq> - 1
             then bindR (new_task cap (TimeOut t fd ev) to now s) (\<lambda>s'. Inr (set_pc f (IoAdd fd ev to t (Some (fs_tasks s))) s'))
             else Inr (set_pc f (IoAdd fd ev to t None) s))
   | (IoAdd fd ev to t tm, KCtl rt) \<Rightarrow>
       Some (bindR (addEvent fd ev (Some (Resume f)) rt (fs_poller s)) (\<lambda>(pl, r).
         Inr (set_pc f (if r \<noteq> 0 then IoFail t tm else IoYield fd ev to t tm) (s\<lparr>fs_poller := pl\<rparr>))))
   | (IoFail t tm, Go) \<Rightarrow> Some (bindR (cancel_task tm s) (\<lambda>s'. Inr (set_pc f InUser (set_info t None s'))))
   | (IoYield fd ev to t tm, Go) \<Rightarrow> Some (Inr (switch_out k f (IoBack fd ev to t tm) s))
   | (IoBack fd ev to t tm, Go) \<Rightarrow> Some (bindR (cancel_task tm s) (\<lambda>s'. Inr (set_pc f (IoLook fd ev to t) s')))
   | (IoLook fd ev to t, Go) \<Rightarrow>
       Some (Inr (if fs_info s t \<noteq> Some 0 then set_pc f InUser (set_info t None s) else set_pc f (IoTry fd ev to t) s))
   | _ \<Rightarrow> None)"

text \<open>\<open>sleep\<close>, \<open>usleep\<close> and \<open>nanosleep\<close>, for a number of milliseconds.\<close>

definition sleep_step :: "nat \<Rightarrow> nat \<Rightarrow> nat \<Rightarrow> decision \<Rightarrow> fsys \<Rightarrow> fsys result option" where
  "sleep_step cap k f c s = (case (fs_pc s f, c) of
     (SleepTimer ms, KTime now) \<Rightarrow> Some (bindR (new_task cap (Resume f) ms now s) (\<lambda>s'. Inr (set_pc f SleepYield s')))
   | (SleepYield, Go) \<Rightarrow> Some (Inr (switch_out k f SleepBack s))
   | (SleepBack, Go) \<Rightarrow> Some (Inr (set_pc f InUser s))
   | _ \<Rightarrow> None)"

text \<open>\<open>Scheduler::addFiber (g)\<close>, run by the fiber \<open>f\<close>.\<close>

definition resume_step :: "nat \<Rightarrow> decision \<Rightarrow> fsys \<Rightarrow> fsys result option" where
  "resume_step f c s = (case (fs_pc s f, c) of
     (ResPick g, Go) \<Rightarrow> Some (bindR (fs_pick (fs_proc s g) s) (\<lambda>(k, i). Inr (set_pc f (ResPush g k) (s\<lparr>fs_rr := i\<rparr>))))
   | (ResPush g k, Go) \<Rightarrow> Some (Inr (set_pc f Leaving (fs_push g k s)))
   | _ \<Rightarrow> None)"

text \<open>The lambda of the timer of \<open>do_io\<close>.\<close>

definition timeout_step :: "nat \<Rightarrow> decision \<Rightarrow> fsys \<Rightarrow> fsys result option" where
  "timeout_step f c s = (case (fs_pc s f, c) of
     (TmTest t fd ev, Go) \<Rightarrow>
       Some (Inr (if fs_info s t = Some 0 then set_pc f (TmCancel fd ev) (set_info t (Some ETIMEDOUT) s) else set_pc f Leaving s))
   | (TmCancel fd ev, KCtl rt) \<Rightarrow>
       Some (bindR (cancelEvent fd ev rt (fs_poller s)) (\<lambda>(pl, out, b). Inr (set_pc f (Spawn out False) (s\<lparr>fs_poller := pl\<rparr>))))
   | _ \<Rightarrow> None)"

text \<open>What a function of the user may do.\<close>

definition user_step :: "nat \<Rightarrow> decision \<Rightarrow> fsys \<Rightarrow> fsys result option" where
  "user_step f c s = (if fs_pc s f \<noteq> InUser then None else case c of
     UIo fd ev to \<Rightarrow> Some (Inr (set_pc f (IoTry fd ev to (fs_infos s)) (set_info (fs_infos s) (Some 0) (s\<lparr>fs_infos := Suc (fs_infos s)\<rparr>))))
   | USleep ms \<Rightarrow> Some (Inr (set_pc f (SleepTimer ms) s))
   | UClose fd rt \<Rightarrow> Some (bindR (cancelAll fd rt (fs_poller s)) (\<lambda>(pl, out, b). Inr (set_pc f (Spawn out True) (s\<lparr>fs_poller := pl\<rparr>))))
   | USpawn \<Rightarrow> Some (Inr (set_pc f (Spawn [None] True) s))
   | UReturn \<Rightarrow> Some (Inr (set_pc f Leaving s))
   | _ \<Rightarrow> None)"

text \<open>Creating fibers for callbacks, and the end of a body.\<close>

definition spawn_step :: "nat \<Rightarrow> nat \<Rightarrow> decision \<Rightarrow> fsys \<Rightarrow> fsys result option" where
  "spawn_step k f c s = (case (fs_pc s f, c) of
     (Spawn (cb # cbs) back, Go) \<Rightarrow> Some (fs_create cb (set_pc f (Spawn cbs back) s))
   | (Spawn [] back, Go) \<Rightarrow> Some (Inr (set_pc f (if back then InUser else Leaving) s))
   | (Leaving, Go) \<Rightarrow> Some (Inr (switch_out k f Ended s))
   | _ \<Rightarrow> None)"

definition act_step :: "nat \<Rightarrow> nat \<Rightarrow> decision \<Rightarrow> fsys \<Rightarrow> fsys result option" where
  "act_step cap k c s = (case w_cur (fs_workers s ! k) of
     None \<Rightarrow> None
   | Some f \<Rightarrow> (case fs_pc s f of
       InUser \<Rightarrow> user_step f c s
     | SleepTimer _ \<Rightarrow> sleep_step cap k f c s | SleepYield \<Rightarrow> sleep_step cap k f c s | SleepBack \<Rightarrow> sleep_step cap k f c s
     | ResPick _ \<Rightarrow> resume_step f c s | ResPush _ _ \<Rightarrow> resume_step f c s
     | TmTest _ _ _ \<Rightarrow> timeout_step f c s | TmCancel _ _ \<Rightarrow> timeout_step f c s
     | Spawn _ _ \<Rightarrow> spawn_step k f c s | Leaving \<Rightarrow> spawn_step k f c s
     | Fresh _ \<Rightarrow> None | Ended \<Rightarrow> None
     | _ \<Rightarrow> io_step cap k f c s))"

text \<open>The poller thread: expired timers, a report of the kernel, the fibers for them.\<close>

definition poller_thread :: "(nat \<Rightarrow> int) \<Rightarrow> fmove \<Rightarrow> fsys \<Rightarrow> fsys result option" where
  "poller_thread low32 m s = (case m of
     Expire now_ms now2 \<Rightarrow>
       (let (t, cbs) = getExecuteTask now_ms now2 (fs_tasks s) (pl_timer (fs_poller s))
        in Some (Inr (s\<lparr>fs_poller := (fs_poller s)\<lparr>pl_timer := t\<rparr>, fs_todo := fs_todo s @ cbs\<rparr>)))
   | Reported ev rt \<Rightarrow>
       Some (bindR (handle_event low32 ev rt (fs_poller s)) (\<lambda>(pl, out). Inr (s\<lparr>fs_poller := pl, fs_todo := fs_todo s @ out\<rparr>)))
   | MakeFiber \<Rightarrow> (case fs_todo s of [] \<Rightarrow> None | cb # cbs \<Rightarrow> Some (fs_create cb (s\<lparr>fs_todo := cbs\<rparr>)))
   | _ \<Rightarrow> None)"

definition fs_step :: "nat \<Rightarrow> (nat \<Rightarrow> int) \<Rightarrow> fmove \<Rightarrow> fsys \<Rightarrow> fsys result option" where
  "fs_step cap low32 m s = (case m of
     Take k \<Rightarrow> (if k < length (fs_workers s) then map_option Inr (take_step k s) else None)
   | ToIdle k \<Rightarrow>
       (if k < length (fs_workers s) \<and> w_cur (fs_workers s ! k) = None \<and> w_state (fs_workers s ! k) = Running
        then Some (Inr (set_worker k ((fs_workers s ! k)\<lparr>w_state := Idle\<rparr>) s)) else None)
   | FromIdle k \<Rightarrow>
       (if k < length (fs_workers s) \<and> w_state (fs_workers s ! k) = Idle
        then Some (Inr (set_worker k ((fs_workers s ! k)\<lparr>w_state := Running\<rparr>) s)) else None)
   | Act k c \<Rightarrow> (if k < length (fs_workers s) then act_step cap k c s else None)
   | Outside \<Rightarrow> Some (fs_create None s)
   | _ \<Rightarrow> poller_thread low32 m s)"

text \<open>A schedule, as long as its moves are possible and do not fault.\<close>

fun fs_run :: "nat \<Rightarrow> (nat \<Rightarrow> int) \<Rightarrow> fmove list \<Rightarrow> fsys \<Rightarrow> fsys result option" where
  "fs_run cap low32 [] s = Some (Inr s)"
| "fs_run cap low32 (m # ms) s = (case fs_step cap low32 m s of
     Some (Inr s') \<Rightarrow> fs_run cap low32 ms s'
   | r \<Rightarrow> r)"

end
