(* ===== verification/FiberWakes.thy ===== *)
theory FiberWakes
  imports FiberSystem
begin

text \<open>
  The pending wake-ups that the poller and its timers hold, as the multiset of the fibers they
  will resume, and that the operations of the poller neither lose nor invent one: what leaves the
  contexts or the timers is in the callbacks the operation hands out.
\<close>

section \<open>Pending wake-ups\<close>

text \<open>The fibers that a callback, a list of callbacks, the poller or another fiber will resume.\<close>

definition resume_of :: "callback option \<Rightarrow> nat multiset" where
  "resume_of cb = (case cb of Some (Resume f) \<Rightarrow> {#f#} | _ \<Rightarrow> {#})"

definition resumes :: "callback option list \<Rightarrow> nat multiset" where
  "resumes cbs = sum_list (map resume_of cbs)"

definition event_wakes :: "callback fd_context list \<Rightarrow> nat multiset" where
  "event_wakes cs = sum_list (map (\<lambda>c. resumes (out_of (fc_events c) c)) cs)"

definition timer_wakes :: "callback timer \<Rightarrow> nat multiset" where
  "timer_wakes t = (\<Sum>p \<in> set (m_tasks t). resume_of (m_cb (heap t p)))"

definition poller_wakes :: "callback poller \<Rightarrow> nat multiset" where
  "poller_wakes pl = event_wakes (m_fdContexts pl) + timer_wakes (pl_timer pl)"

lemma resumes_simps [simp]:
  "resumes [] = {#}" "resumes (cb # cbs) = resume_of cb + resumes cbs" "resumes (as @ bs) = resumes as + resumes bs"
  "resume_of None = {#}" "resume_of (Some (Resume f)) = {#f#}" "resume_of (Some (TimeOut t fd ev)) = {#}"
  by (simp_all add: resumes_def resume_of_def)

lemma sum_list_upd:
  "i < length xs \<Longrightarrow> sum_list (xs[i := x]) + xs ! i = sum_list xs + (x :: 'b :: comm_monoid_add)"
  by (induction xs arbitrary: i) (auto simp: ac_simps split: nat.split)


section \<open>The contexts of the descriptors\<close>

lemma event_wakes_upd:
  assumes "i < length cs"
  shows "event_wakes (cs[i := c]) + resumes (out_of (fc_events (cs ! i)) (cs ! i)) = event_wakes cs + resumes (out_of (fc_events c) c)"
  using sum_list_upd [of i "map (\<lambda>c. resumes (out_of (fc_events c) c)) cs" "resumes (out_of (fc_events c) c)"] assms
  by (simp add: event_wakes_def map_update)

lemma out_of_events [simp]: "out_of flags (ctx\<lparr>fc_events := e\<rparr>) = out_of flags ctx" "out_of 0 ctx = []"
  by (simp_all add: out_of_def)

lemma out_of_new [simp]: "out_of (fc_events (FdContext_new i)) (FdContext_new i) = []"
  by (simp add: out_of_def FdContext_new_def EV_NONE_def)

lemma event_wakes_resize:
  assumes "length cs \<le> n"
  shows "event_wakes (resize n cs) = event_wakes cs"
  using assms by (simp add: event_wakes_def resize_def comp_def resumes_def)

lemma resumes_add:
  assumes e: "fc_events ctx \<in> {0, 1, 4, 5}" and ev: "event \<in> {EV_READ, EV_WRITE}" and fr: "fc_events ctx AND event = 0"
  shows "resumes (out_of (fc_events ctx OR event) (ctx_add event cb ctx)) = resumes (out_of (fc_events ctx) ctx) + resume_of cb"
proof -
  have "fc_events ctx = 0 \<or> fc_events ctx = 1 \<or> fc_events ctx = 4 \<or> fc_events ctx = 5" using e by simp
  moreover have "EV_WRITE \<noteq> EV_READ" by (simp add: EV_READ_def EV_WRITE_def)
  then have "ctx_add EV_READ cb ctx = ctx\<lparr>fc_events := fc_events ctx OR EV_READ, fc_read := \<lparr>ev_scheduler = True, ev_cb = cb\<rparr>\<rparr>"
    "ctx_add EV_WRITE cb ctx = ctx\<lparr>fc_events := fc_events ctx OR EV_WRITE, fc_write := \<lparr>ev_scheduler = True, ev_cb = cb\<rparr>\<rparr>"
    by (simp_all add: ctx_add_def)
  moreover have "event = EV_READ \<or> event = EV_WRITE" using ev by simp
  ultimately show ?thesis
    using fr by (elim disjE) (simp_all add: out_of_def EV_READ_def EV_WRITE_def union_ac)
qed

lemma resumes_remove:
  assumes e: "e \<in> {0, 1, 4, 5}" and r: "r \<in> {0, 1, 4, 5}" and sub: "r AND NOT e = 0"
  shows "resumes (out_of e ctx) = resumes (out_of (e AND NOT r) ctx) + resumes (out_of r ctx)"
proof -
  have "e = 0 \<or> e = 1 \<or> e = 4 \<or> e = 5" "r = 0 \<or> r = 1 \<or> r = 4 \<or> r = 5" using e r by auto
  then show ?thesis
    using sub by (elim disjE) (simp_all add: out_of_def EV_READ_def EV_WRITE_def union_ac)
qed

lemma out_of_side: "event \<in> {EV_READ, EV_WRITE} \<Longrightarrow> [ev_cb (side event ctx)] = out_of event ctx"
  by (auto simp: out_of_def side_def EV_READ_def EV_WRITE_def)

lemma one_event:
  assumes "e \<in> {0, 1, 4, 5}" and "event \<in> {EV_READ, EV_WRITE}" and "e AND event \<noteq> 0"
  shows "event AND NOT e = 0" and "event \<in> {0, 1, 4, 5}"
  using assms by (auto simp: EV_READ_def EV_WRITE_def)

text \<open>What a removal takes out of a context goes to the callbacks.\<close>

lemma taken_out:
  assumes ok: "poller_ok pl" and fd: "fd_usable fd pl" and r: "r \<in> {0, 1, 4, 5}"
    and sub: "r AND NOT (fc_events (watched_ctx fd pl)) = 0"
  shows "event_wakes ((m_fdContexts pl)[nat fd := (watched_ctx fd pl)\<lparr>fc_events := fc_events (watched_ctx fd pl) AND NOT r\<rparr>]) +
    resumes (out_of r (watched_ctx fd pl)) = event_wakes (m_fdContexts pl)"
proof -
  let ?c = "watched_ctx fd pl"
  have "nat fd < length (m_fdContexts pl)" using fd by (auto simp: fd_usable_def)
  from event_wakes_upd [OF this, of "?c\<lparr>fc_events := fc_events ?c AND NOT r\<rparr>"]
  show ?thesis
    using resumes_remove [OF ctx_ok_events [OF usable_ctx_ok [OF ok fd]] r sub, of ?c]
    by (simp add: watched_ctx_def [symmetric])
qed

text \<open>What the operations of a fiber and a report of the kernel do to the pending wake-ups.\<close>

definition op_adds :: "callback poller_op \<Rightarrow> nat multiset" where
  "op_adds op = (case op of AddEvent fd ev cb rt \<Rightarrow> (if rt = 0 then resume_of cb else {#}) | _ \<Rightarrow> {#})"

definition op_moves :: "callback poller_op \<Rightarrow> bool" where
  "op_moves op \<longleftrightarrow> (case op of DelEvent _ _ _ _ \<Rightarrow> False | TimerTick _ \<Rightarrow> False | _ \<Rightarrow> True)"

lemma addEvent_wakes:
  assumes ok: "poller_ok pl" and fd: "fd_usable fd pl" and ev: "event \<in> {EV_READ, EV_WRITE}"
    and fr: "fc_events (watched_ctx fd pl) AND event = 0" and a: "addEvent fd event cb rt pl = Inr (pl', b)"
  shows "event_wakes (m_fdContexts pl') = event_wakes (m_fdContexts pl) + (if rt = 0 then resume_of cb else {#})"
    and "pl_timer pl' = pl_timer pl"
proof -
  let ?c = "watched_ctx fd pl"
  have "nat fd < length (m_fdContexts pl)" using fd by (auto simp: fd_usable_def)
  from event_wakes_upd [OF this, of "ctx_add event cb ?c"]
  have "event_wakes ((m_fdContexts pl)[nat fd := ctx_add event cb ?c]) = event_wakes (m_fdContexts pl) + resume_of cb"
    using resumes_add [OF ctx_ok_events [OF usable_ctx_ok [OF ok fd]] ev fr, of cb]
    by (simp add: watched_ctx_def [symmetric])
  then show "event_wakes (m_fdContexts pl') = event_wakes (m_fdContexts pl) + (if rt = 0 then resume_of cb else {#})"
    using a by (auto simp: addEvent_eq [OF fd ev] Let_def split: if_splits)
  show "pl_timer pl' = pl_timer pl"
    using a by (auto simp: addEvent_eq [OF fd ev] Let_def split: if_splits)
qed

lemma poller_do_wakes:
  assumes ok: "poller_ok pl" and val: "poller_op_ok low32 op pl" and fr: "op_fresh op pl" and mv: "op_moves op"
    and r: "poller_do low32 op pl = Inr (pl', out)"
  shows "event_wakes (m_fdContexts pl') + resumes out = event_wakes (m_fdContexts pl) + op_adds op \<and> pl_timer pl' = pl_timer pl"
proof (cases op)
  case (AddEvent fd ev cb rt)
  from r obtain b where a: "addEvent fd ev cb rt pl = Inr (pl', b)" and out: "out = []"
    by (auto simp: AddEvent poller_do_def bindR_eq_Inr)
  have v: "0 \<le> fd" "fd < 2 ^ 30" "fd \<noteq> int (length (m_fdContexts pl))" "fd \<noteq> m_pipe0 pl"
    "ev \<in> {EV_READ, EV_WRITE}"
    using val by (simp_all add: AddEvent poller_op_ok_def)
  show ?thesis
  proof (rule usable_or_grow [OF v(1,3,4)])
    assume u: "fd_usable fd pl"
    then have "fc_events (watched_ctx fd pl) AND ev = 0" using fr by (simp add: AddEvent op_fresh_def)
    from addEvent_wakes [OF ok u v(5) this a] show ?thesis by (simp add: out AddEvent op_adds_def)
  next
    assume g: "int (length (m_fdContexts pl)) < fd"
    let ?pl = "pl\<lparr>m_fdContexts := resize (nat (fd * 2)) (m_fdContexts pl)\<rparr>"
    have "watched_ctx fd ?pl = FdContext_new (int (nat fd))"
      using g by (auto simp: watched_ctx_def nth_resize)
    then have "fc_events (watched_ctx fd ?pl) AND ev = 0" by (simp add: FdContext_new_def EV_NONE_def)
    from addEvent_wakes [OF grow_ok [OF ok g] grow_usable [OF g v(4)] v(5) this a [unfolded addEvent_grow [OF g v(2)]]]
    show ?thesis using event_wakes_resize [of "m_fdContexts pl" "nat (fd * 2)"] g
      by (simp add: out AddEvent op_adds_def nat_mult_distrib)
  qed
next
  case (CancelEvent fd ev rt)
  have v: "fd_usable fd pl" "ev \<in> {EV_READ, EV_WRITE}" using val by (simp_all add: CancelEvent poller_op_ok_def)
  let ?c = "watched_ctx fd pl"
  have "event_wakes ((m_fdContexts pl)[nat fd := ?c\<lparr>fc_events := fc_events ?c AND NOT ev\<rparr>]) + resumes [ev_cb (side ev ?c)] =
      event_wakes (m_fdContexts pl)" if "fc_events ?c AND ev \<noteq> 0"
    using one_event [OF ctx_ok_events [OF usable_ctx_ok [OF ok v(1)]] v(2) that] unfolding out_of_side [OF v(2)]
    by (intro taken_out [OF ok v(1)])
  with r show ?thesis
    by (auto simp: CancelEvent poller_do_def cancelEvent_eq [OF ok v] Let_def op_adds_def split: if_splits)
next
  case (CancelAll fd rt)
  have v: "fd_usable fd pl" using val by (simp add: CancelAll poller_op_ok_def)
  let ?c = "watched_ctx fd pl"
  have "event_wakes ((m_fdContexts pl)[nat fd := ?c\<lparr>fc_events := 0\<rparr>]) + resumes (out_of (fc_events ?c) ?c) =
      event_wakes (m_fdContexts pl)"
    using taken_out [OF ok v ctx_ok_events [OF usable_ctx_ok [OF ok v]]] by simp
  with r show ?thesis
    by (auto simp: CancelAll poller_do_def cancelAll_eq [OF ok v] Let_def op_adds_def split: if_splits)
next
  case (Report ev rt)
  have rep: "report_ok low32 ev pl" using val by (simp add: Report poller_op_ok_def)
  have h: "handle_event low32 ev rt pl = Inr (pl', out)" using r by (simp add: Report poller_do_def)
  show ?thesis
  proof (cases "ee_data ev")
    case (DataFd x)
    with rep h have "pl' = pl\<lparr>pipe_bytes := 0\<rparr>" "out = []"
      by (auto simp: report_ok_def handle_event_def data_fd_def)
    then show ?thesis by (simp add: Report op_adds_def)
  next
    case (DataPtr i)
    let ?c = "watched_ctx (int i) pl" and ?r = "real_events (ee_events ev)"
    have u: "fd_usable (int i) pl" and dis: "fc_events ?c AND ?r = 0 \<or> ?r AND NOT (fc_events ?c) = 0"
      using rep by (simp_all add: report_ok_def DataPtr Let_def)
    have "event_wakes ((m_fdContexts pl)[i := ?c\<lparr>fc_events := fc_events ?c AND NOT ?r\<rparr>]) + resumes (out_of ?r ?c) =
      event_wakes (m_fdContexts pl)" if "fc_events ?c AND ?r \<noteq> 0"
      using taken_out [OF ok u real_events_range] dis that by simp
    with h show ?thesis
      by (auto simp: Report op_adds_def handle_event_eq [OF ok rep DataPtr] Let_def split: if_splits)
  qed
next
  case (Wakeup cap)
  with r val show ?thesis by (auto simp: poller_do_def poller_op_ok_def notify_def op_adds_def)
qed (use mv in \<open>simp_all add: op_moves_def\<close>)

section \<open>The timers\<close>

lemma createTimer_wakes:
  assumes ok: "timer_ok C t" and p: "p \<notin> C" and t': "t' = fst (createTimer p cb ms rec now t)"
  shows "timer_wakes t' = timer_wakes t + resume_of cb"
    and "heap t' = (heap t)(p := TimerTask_ctor cb ms rec now)"
proof -
  show h: "heap t' = (heap t)(p := TimerTask_ctor cb ms rec now)" by (simp add: t' createTimer_def)
  have "set (m_tasks t') = insert p (set (m_tasks t))"
    by (simp add: t' createTimer_def tcmp.set_insert_set)
  moreover have "p \<notin> set (m_tasks t)" using timer_okD(2) [OF ok] p by blast
  moreover have "(\<Sum>q \<in> set (m_tasks t). resume_of (m_cb (heap t' q))) = timer_wakes t"
    unfolding timer_wakes_def by (rule sum.cong) (use calculation(2) in \<open>auto simp: h\<close>)
  ultimately show "timer_wakes t' = timer_wakes t + resume_of cb"
    by (simp add: timer_wakes_def h TimerTask_ctor_def union_ac)
qed

lemma cancel_wakes:
  assumes ok: "timer_ok C t" and p: "p \<in> C" and cb: "resume_of (m_cb (heap t p)) = {#}"
    and c: "cancel p t = Inr (t', b)"
  shows "timer_wakes t' = timer_wakes t" and "resume_of (m_cb (heap t q)) = {#} \<Longrightarrow> resume_of (m_cb (heap t' q)) = {#}"
    and "m_recurring (heap t' q) = m_recurring (heap t q)"
proof -
  have t': "t' = t \<or> heap t' = (heap t)(p := (heap t p)\<lparr>m_cb := None\<rparr>) \<and> set (m_tasks t') = set (m_tasks t) - {p}"
    using c unfolding cancel_eq [OF ok p] by (auto split: if_splits)
  show "timer_wakes t' = timer_wakes t"
  proof (cases "t' = t")
    case False
    then have h: "heap t' = (heap t)(p := (heap t p)\<lparr>m_cb := None\<rparr>)" "set (m_tasks t') = set (m_tasks t) - {p}"
      using t' by auto
    have "(\<Sum>q \<in> set (m_tasks t) - {p}. resume_of (m_cb (heap t' q))) = (\<Sum>q \<in> set (m_tasks t) - {p}. resume_of (m_cb (heap t q)))"
      by (rule sum.cong) (auto simp: h)
    also have "\<dots> = (\<Sum>q \<in> set (m_tasks t). resume_of (m_cb (heap t q)))"
      by (rule sum.mono_neutral_left) (use cb in auto)
    finally show ?thesis by (simp add: timer_wakes_def h)
  qed simp
  show "m_recurring (heap t' q) = m_recurring (heap t q)" 
    using t' by (elim disjE conjE) simp_all
  show "resume_of (m_cb (heap t q)) = {#} \<Longrightarrow> resume_of (m_cb (heap t' q)) = {#}" 
    using t' by (elim disjE conjE) simp_all
qed

lemma resumes_map: "distinct ps \<Longrightarrow> resumes (map f ps) = (\<Sum>p \<in> set ps. resume_of (f p))"
  by (induction ps) simp_all

lemma getExecuteTask_wakes:
  assumes ok: "timer_ok C t" and rec: "\<And>p. \<not> m_recurring (heap t p)"
    and g: "getExecuteTask now_ms now2 np t = (t', cbs)"
  shows "timer_wakes t' + resumes cbs = timer_wakes t"
    and "resume_of (m_cb (heap t q)) = {#} \<Longrightarrow> resume_of (m_cb (heap t' q)) = {#}" and "\<not> m_recurring (heap t' q)"
proof -
  define ps where "ps = expired_prefix now_ms now2 np t"
  have t': "t' = fst (getExecuteTask now_ms now2 np t)" and cbs: "cbs = map (\<lambda>p. m_cb (heap t p)) ps"
    using g getExecuteTask_cbs [OF ok, of now_ms now2 np] by (simp_all add: ps_def)
  note a = getExecuteTask_after [OF ok ps_def t']
  have "ps = [] \<or> (\<exists>n. ps = take n (m_tasks t))" by (auto simp: ps_def expired_prefix_def)
  then obtain n where n: "ps = take n (m_tasks t)" by (metis take0)
  have "distinct (m_tasks t)" using timer_okD(1) [OF ok] tcmp.sorted_distinct by blast
  then have ps: "distinct ps" "set ps \<subseteq> set (m_tasks t)" by (simp_all add: n set_take_subset)
  show "resume_of (m_cb (heap t q)) = {#} \<Longrightarrow> resume_of (m_cb (heap t' q)) = {#}"
    by (simp add: a(2) expired_task_def rec)
  show "\<not> m_recurring (heap t' q)" by (simp add: a(2) expired_task_def rec)
  have "timer_wakes t' = (\<Sum>p \<in> set (m_tasks t) - set ps. resume_of (m_cb (heap t p)))"
    unfolding timer_wakes_def by (rule sum.cong) (auto simp: a rec)
  moreover have "resumes cbs = (\<Sum>p \<in> set ps. resume_of (m_cb (heap t p)))" by (simp add: cbs resumes_map [OF ps(1)])
  ultimately show "timer_wakes t' + resumes cbs = timer_wakes t"
    unfolding timer_wakes_def using sum.subset_diff [OF ps(2)] by (metis List.finite_set)
qed

end
