(* ===== verification/FiberPlaces.thy ===== *)
theory FiberPlaces
  imports FiberWakes
begin

text \<open>
  Every fiber has one place. In any interleaving of the processers and the poller thread of
  \<open>FiberSystem\<close>, an unfinished fiber is run by one processer, or queued on one, or one pending
  event, timer, callback or call of \<open>addFiber\<close> will resume it; between the registration of its
  wake-up and its switch it is in two places, and then, if it is queued already, on the processer
  that runs it.
\<close>

section \<open>Where a fiber is\<close>

text \<open>The fibers that another fiber will resume, and all the pending wake-ups.\<close>

definition pc_wakes :: "fpc \<Rightarrow> nat multiset" where
  "pc_wakes pc = (case pc of
     Fresh cb \<Rightarrow> resume_of cb | ResPick g \<Rightarrow> {#g#} | ResPush g k \<Rightarrow> {#g#} | Spawn cbs b \<Rightarrow> resumes cbs | _ \<Rightarrow> {#})"

definition wakes :: "fsys \<Rightarrow> nat multiset" where
  "wakes s = poller_wakes (fs_poller s) + (\<Sum>g < fs_fibers s. pc_wakes (fs_pc s g)) + resumes (fs_todo s)"

definition cur_of :: "worker \<Rightarrow> nat multiset" where
  "cur_of w = (case w_cur w of None \<Rightarrow> {#} | Some f \<Rightarrow> {#f#})"

definition running :: "fsys \<Rightarrow> nat multiset" where
  "running s = sum_list (map cur_of (fs_workers s))"

definition queued_on :: "fsys \<Rightarrow> nat multiset" where
  "queued_on s = sum_list (map (\<lambda>w. mset (w_queue w)) (fs_workers s))"

text \<open>
  In how many of these places a fiber is: one, but two between the registration of its
  wake-up and its switch.
\<close>

definition weight :: "fpc \<Rightarrow> nat" where
  "weight pc = (case pc of Ended \<Rightarrow> 0 | IoYield _ _ _ _ _ \<Rightarrow> 2 | SleepYield \<Rightarrow> 2 | _ \<Rightarrow> 1)"

definition due :: "fsys \<Rightarrow> nat multiset" where
  "due s = (\<Sum>f < fs_fibers s. replicate_mset (weight (fs_pc s f)) f)"

text \<open>Where only a running fiber can be.\<close>

definition on_cpu :: "fpc \<Rightarrow> bool" where
  "on_cpu pc \<longleftrightarrow> (case pc of Fresh _ \<Rightarrow> False | IoBack _ _ _ _ _ \<Rightarrow> False | SleepBack \<Rightarrow> False | Ended \<Rightarrow> False | _ \<Rightarrow> True)"

definition tm_of :: "fpc \<Rightarrow> nat option" where
  "tm_of pc = (case pc of IoAdd _ _ _ _ tm \<Rightarrow> tm | IoFail _ tm \<Rightarrow> tm | IoYield _ _ _ _ tm \<Rightarrow> tm
     | IoBack _ _ _ _ tm \<Rightarrow> tm | _ \<Rightarrow> None)"

definition on_worker :: "fsys \<Rightarrow> nat \<Rightarrow> nat \<Rightarrow> bool" where
  "on_worker s k f \<longleftrightarrow> k < length (fs_workers s) \<and> w_cur (fs_workers s ! k) = Some f"

definition in_queue :: "fsys \<Rightarrow> nat \<Rightarrow> nat \<Rightarrow> bool" where
  "in_queue s k f \<longleftrightarrow> k < length (fs_workers s) \<and> f \<in> set (w_queue (fs_workers s ! k))"

definition workers_inv :: "fsys \<Rightarrow> bool" where
  "workers_inv s \<longleftrightarrow> fs_rr s < length (fs_workers s) \<and>
     (\<forall>k < length (fs_workers s). w_state (fs_workers s ! k) \<in> {Running, Idle}) \<and>
     (\<forall>k f. on_worker s k f \<longrightarrow> w_state (fs_workers s ! k) = Running \<and> fs_proc s f = Some k \<and> f < fs_fibers s) \<and>
     (\<forall>f < fs_fibers s. on_cpu (fs_pc s f) \<longrightarrow> (\<exists>k. on_worker s k f)) \<and>
     (\<forall>j k f. in_queue s j f \<longrightarrow> on_worker s k f \<longrightarrow> j = k) \<and>
     (\<forall>g < fs_fibers s. \<forall>f j. fs_pc s g = ResPush f j \<longrightarrow> j < length (fs_workers s) \<and> (\<forall>k. on_worker s k f \<longrightarrow> j = k)) \<and>
     (\<forall>f k. fs_proc s f = Some k \<longrightarrow> k < length (fs_workers s))"

definition timers_inv :: "fsys \<Rightarrow> bool" where
  "timers_inv s \<longleftrightarrow> (let t = pl_timer (fs_poller s)
     in timer_ok {..<fs_tasks s} t \<and> (\<forall>p. \<not> m_recurring (heap t p)) \<and>
        (\<forall>f < fs_fibers s. \<forall>p. tm_of (fs_pc s f) = Some p \<longrightarrow> p < fs_tasks s \<and> resume_of (m_cb (heap t p)) = {#}))"

text \<open>The invariant, with the resumptions that a step has in hand.\<close>

definition fs_inv :: "nat multiset \<Rightarrow> fsys \<Rightarrow> bool" where
  "fs_inv m s \<longleftrightarrow> workers_inv s \<and> timers_inv s \<and> poller_ok (fs_poller s) \<and>
     running s + queued_on s + wakes s + m = due s"

subsection \<open>Sums\<close>

lemma sum_fun_upd:
  fixes G :: "nat \<Rightarrow> 'c \<Rightarrow> 'b :: comm_monoid_add"
  assumes "f < n"
  shows "(\<Sum>g < n. G g ((h(f := x)) g)) + G f (h f) = (\<Sum>g < n. G g (h g)) + G f x"
proof -
  have "(\<Sum>g < n. G g ((h(f := x)) g)) = G f x + (\<Sum>g \<in> {..<n} - {f}. G g ((h(f := x)) g))"
    using assms by (subst sum.remove [of _ f]) auto
  also have "(\<Sum>g \<in> {..<n} - {f}. G g ((h(f := x)) g)) = (\<Sum>g \<in> {..<n} - {f}. G g (h g))"
    by (rule sum.cong) auto
  also have "(\<Sum>g < n. G g (h g)) = G f (h f) + (\<Sum>g \<in> {..<n} - {f}. G g (h g))"
    using assms by (subst sum.remove [of _ f]) auto
  ultimately show ?thesis by (simp add: ac_simps)
qed

lemma worker_upd:
  assumes "k < length (fs_workers s)" and "fs_workers s' = (fs_workers s)[k := w]"
  shows "running s' + cur_of (fs_workers s ! k) = running s + cur_of w"
    and "queued_on s' + mset (w_queue (fs_workers s ! k)) = queued_on s + mset (w_queue w)"
  using sum_list_upd [of k "map cur_of (fs_workers s)" "cur_of w"]
    sum_list_upd [of k "map (\<lambda>w. mset (w_queue w)) (fs_workers s)" "mset (w_queue w)"] assms
  by (simp_all add: running_def queued_on_def map_update)

lemma same_workers:
  "fs_workers s' = fs_workers s \<Longrightarrow> running s' = running s" "fs_workers s' = fs_workers s \<Longrightarrow> queued_on s' = queued_on s"
  by (simp_all add: running_def queued_on_def)

lemma pc_upd:
  assumes "f < fs_fibers s" and "fs_pc s' = (fs_pc s)(f := x)" and "fs_fibers s' = fs_fibers s"
  shows "(\<Sum>g < fs_fibers s'. pc_wakes (fs_pc s' g)) + pc_wakes (fs_pc s f) = (\<Sum>g < fs_fibers s. pc_wakes (fs_pc s g)) + pc_wakes x"
    and "due s' + replicate_mset (weight (fs_pc s f)) f = due s + replicate_mset (weight x) f"
  using sum_fun_upd [OF assms(1), of "\<lambda>g pc. pc_wakes pc" "fs_pc s" x]
    sum_fun_upd [OF assms(1), of "\<lambda>g pc. replicate_mset (weight pc) g" "fs_pc s" x] assms(2,3)
  by (simp_all add: due_def)

text \<open>How often a fiber is somewhere.\<close>

lemma count_due: "count (due s) f = (if f < fs_fibers s then weight (fs_pc s f) else 0)"
  by (simp add: due_def count_sum)

lemma ex_nth: "(\<exists>x \<in> set xs. P x) \<longleftrightarrow> (\<exists>k. k < length xs \<and> P (xs ! k))"
  by (metis in_set_conv_nth)

lemma member_running: "f \<in># running s \<longleftrightarrow> (\<exists>k. on_worker s k f)"
proof -
  have "f \<in># cur_of w \<longleftrightarrow> w_cur w = Some f" for w by (auto simp: cur_of_def split: option.splits)
  then have "f \<in># sum_list (map cur_of ws) \<longleftrightarrow> (\<exists>w \<in> set ws. w_cur w = Some f)" for ws by (induction ws) auto
  then show ?thesis by (simp add: running_def on_worker_def ex_nth)
qed

lemma member_queued: "f \<in># queued_on s \<longleftrightarrow> (\<exists>k. in_queue s k f)"
proof -
  have "f \<in># sum_list (map (\<lambda>w. mset (w_queue w)) ws) \<longleftrightarrow> (\<exists>w \<in> set ws. f \<in> set (w_queue w))" for ws
    by (induction ws) auto
  then show ?thesis by (simp add: queued_on_def in_queue_def ex_nth)
qed

lemma fs_invD:
  assumes "fs_inv m s"
  shows "workers_inv s" "timers_inv s" "poller_ok (fs_poller s)" "running s + queued_on s + wakes s + m = due s"
  using assms by (simp_all add: fs_inv_def)

lemma fs_count:
  assumes "fs_inv m s"
  shows "count (running s) f + count (queued_on s) f + count (wakes s) f + count m f =
    (if f < fs_fibers s then weight (fs_pc s f) else 0)"
  using arg_cong [OF fs_invD(4) [OF assms], of "\<lambda>M. count M f"] by (simp add: count_due)

subsection \<open>What a step does to the invariant\<close>

lemma workers_invD:
  assumes "workers_inv s"
  shows "fs_rr s < length (fs_workers s)"
    and "k < length (fs_workers s) \<Longrightarrow> w_state (fs_workers s ! k) = Running \<or> w_state (fs_workers s ! k) = Idle"
    and "on_worker s k f \<Longrightarrow> w_state (fs_workers s ! k) = Running"
    and "on_worker s k f \<Longrightarrow> fs_proc s f = Some k" and "on_worker s k f \<Longrightarrow> f < fs_fibers s"
    and "f < fs_fibers s \<Longrightarrow> on_cpu (fs_pc s f) \<Longrightarrow> \<exists>k. on_worker s k f"
    and "in_queue s j f \<Longrightarrow> on_worker s k f \<Longrightarrow> j = k"
    and "g < fs_fibers s \<Longrightarrow> fs_pc s g = ResPush f j \<Longrightarrow> j < length (fs_workers s)"
    and "g < fs_fibers s \<Longrightarrow> fs_pc s g = ResPush f j \<Longrightarrow> on_worker s k f \<Longrightarrow> j = k"
    and "fs_proc s f = Some k \<Longrightarrow> k < length (fs_workers s)"
  using assms unfolding workers_inv_def by blast+

lemma timers_invD:
  assumes "timers_inv s"
  shows "timer_ok {..<fs_tasks s} (pl_timer (fs_poller s))" and "\<not> m_recurring (heap (pl_timer (fs_poller s)) p)"
    and "f < fs_fibers s \<Longrightarrow> tm_of (fs_pc s f) = Some p \<Longrightarrow> p < fs_tasks s"
    and "f < fs_fibers s \<Longrightarrow> tm_of (fs_pc s f) = Some p \<Longrightarrow> resume_of (m_cb (heap (pl_timer (fs_poller s)) p)) = {#}"
  using assms unfolding timers_inv_def Let_def by blast+

lemma one_worker: "workers_inv s \<Longrightarrow> on_worker s j f \<Longrightarrow> on_worker s k f \<Longrightarrow> j = k"
  using workers_invD(4) by (metis option.inject)

text \<open>The timers and handles after a step that keeps the fibers' handles.\<close>

definition timer_kept :: "fsys \<Rightarrow> fsys \<Rightarrow> bool" where
  "timer_kept s s' \<longleftrightarrow> timer_ok {..<fs_tasks s'} (pl_timer (fs_poller s')) \<and> fs_tasks s \<le> fs_tasks s' \<and>
     (\<forall>p. \<not> m_recurring (heap (pl_timer (fs_poller s')) p)) \<and>
     (\<forall>p < fs_tasks s. resume_of (m_cb (heap (pl_timer (fs_poller s)) p)) = {#} \<longrightarrow>
        resume_of (m_cb (heap (pl_timer (fs_poller s')) p)) = {#})"

lemma timer_kept_same:
  "timers_inv s \<Longrightarrow> pl_timer (fs_poller s') = pl_timer (fs_poller s) \<Longrightarrow> fs_tasks s' = fs_tasks s \<Longrightarrow> timer_kept s s'"
  using timers_invD by (simp add: timer_kept_def)

lemma timers_inv_kept:
  assumes "timers_inv s" and "timer_kept s s'" and "fs_fibers s \<le> fs_fibers s'"
    and "\<And>f p. f < fs_fibers s' \<Longrightarrow> tm_of (fs_pc s' f) = Some p \<Longrightarrow>
      (f < fs_fibers s \<and> tm_of (fs_pc s f) = Some p) \<or>
      (p < fs_tasks s' \<and> resume_of (m_cb (heap (pl_timer (fs_poller s')) p)) = {#})"
  shows "timers_inv s'"
  unfolding timers_inv_def Let_def
proof (intro conjI allI impI)
  show "timer_ok {..<fs_tasks s'} (pl_timer (fs_poller s'))" "\<And>p. \<not> m_recurring (heap (pl_timer (fs_poller s')) p)"
    using assms(2) by (simp_all add: timer_kept_def)
  fix f p assume fp: "f < fs_fibers s'" "tm_of (fs_pc s' f) = Some p"
  from assms(4) [OF this] show "p < fs_tasks s'" "resume_of (m_cb (heap (pl_timer (fs_poller s')) p)) = {#}"
    using assms(2) timers_invD [OF assms(1)] by (auto simp: timer_kept_def intro: less_le_trans)
qed

lemma timers_inv_pc:
  assumes ti: "timers_inv s" and f: "f < fs_fibers s"
    and s': "fs_pc s' = (fs_pc s)(f := x)" "fs_fibers s' = fs_fibers s" "fs_poller s' = fs_poller s" "fs_tasks s' = fs_tasks s"
    and x: "tm_of x = None \<or> tm_of x = tm_of (fs_pc s f)"
  shows "timers_inv s'"
proof (rule timers_inv_kept [OF ti timer_kept_same [OF ti]])
  fix g p assume g: "g < fs_fibers s'" "tm_of (fs_pc s' g) = Some p"
  show "(g < fs_fibers s \<and> tm_of (fs_pc s g) = Some p) \<or>
      (p < fs_tasks s' \<and> resume_of (m_cb (heap (pl_timer (fs_poller s')) p)) = {#})"
    using g x by (cases "g = f") (simp_all add: s')
qed (simp_all add: s')

text \<open>A step of a running fiber that goes on running.\<close>

lemma inv_local:
  assumes inv: "fs_inv m s" and w: "on_worker s k f"
    and s': "fs_workers s' = fs_workers s" "fs_pc s' = (fs_pc s)(f := x)" "fs_fibers s' = fs_fibers s"
      "fs_proc s' = fs_proc s" "fs_todo s' = fs_todo s" "fs_rr s' < length (fs_workers s)"
    and cpu: "on_cpu x" and pl: "poller_ok (fs_poller s')" and tk: "timer_kept s s'"
    and tm: "\<And>p. tm_of x = Some p \<Longrightarrow> p < fs_tasks s' \<and> resume_of (m_cb (heap (pl_timer (fs_poller s')) p)) = {#}"
    and res: "\<And>g j. x = ResPush g j \<Longrightarrow> j < length (fs_workers s) \<and> (\<forall>i. on_worker s i g \<longrightarrow> j = i)"
    and bal: "poller_wakes (fs_poller s') + pc_wakes x + m' + replicate_mset (weight (fs_pc s f)) f =
      poller_wakes (fs_poller s) + pc_wakes (fs_pc s f) + m + replicate_mset (weight x) f"
  shows "fs_inv m' s'"
proof -
  note wi = workers_invD [OF fs_invD(1) [OF inv]]
  have f: "f < fs_fibers s" using wi(5) w by blast
  have ow: "on_worker s' = on_worker s" "in_queue s' = in_queue s"
    by (simp_all add: on_worker_def in_queue_def s'(1) fun_eq_iff)
  have "workers_inv s'"
    unfolding workers_inv_def ow s'(1,3,4)
  proof (intro conjI allI impI)
    fix g assume g: "g < fs_fibers s" "on_cpu (fs_pc s' g)"
    show "\<exists>k. on_worker s k g" using w wi(6) [of g] g by (cases "g = f") (auto simp: s'(2))
  next
    fix g h j assume g: "g < fs_fibers s" "fs_pc s' g = ResPush h j"
    show "j < length (fs_workers s)" using wi(8) [of g h j] g res [of h j] by (cases "g = f") (auto simp: s'(2))
    fix i assume "on_worker s i h"
    then show "j = i" using wi(9) [of g h j i] g res [of h j] by (cases "g = f") (auto simp: s'(2))
  qed (use s'(6) wi in \<open>auto simp: s'(1)\<close>)
  moreover have "timers_inv s'"
    by (rule timers_inv_kept [OF fs_invD(2) [OF inv] tk]) (use tm in \<open>auto simp: s' split: if_splits\<close>)
  moreover have "running s' + queued_on s' + wakes s' + m' = due s'"
  proof -
    note p = pc_upd [OF f s'(2,3)]
    have "(running s' + queued_on s' + wakes s' + m') + (pc_wakes (fs_pc s f) + replicate_mset (weight (fs_pc s f)) f + poller_wakes (fs_poller s)) =
      running s + queued_on s + ((\<Sum>g < fs_fibers s'. pc_wakes (fs_pc s' g)) + pc_wakes (fs_pc s f)) + resumes (fs_todo s) +
      (poller_wakes (fs_poller s') + m' + replicate_mset (weight (fs_pc s f)) f) + poller_wakes (fs_poller s)"
      by (simp add: wakes_def same_workers [OF s'(1)] s'(3,5) ac_simps)
    also have "\<dots> = running s + queued_on s + (\<Sum>g < fs_fibers s. pc_wakes (fs_pc s g)) + resumes (fs_todo s) +
      (poller_wakes (fs_poller s') + pc_wakes x + m' + replicate_mset (weight (fs_pc s f)) f) + poller_wakes (fs_poller s)"
      by (simp only: p(1)) (simp add: ac_simps)
    also have "\<dots> = (running s + queued_on s + wakes s + m) + replicate_mset (weight x) f + pc_wakes (fs_pc s f) + poller_wakes (fs_poller s)"
      by (simp only: bal) (simp add: wakes_def ac_simps)
    also have "\<dots> = (due s + replicate_mset (weight x) f) + (pc_wakes (fs_pc s f) + poller_wakes (fs_poller s))"
      by (simp only: fs_invD(4) [OF inv]) (simp add: ac_simps)
    also have "\<dots> = due s' + (pc_wakes (fs_pc s f) + replicate_mset (weight (fs_pc s f)) f + poller_wakes (fs_poller s))"
      by (simp only: p(2) [symmetric]) (simp add: ac_simps)
    finally show ?thesis by (simp only: add_right_cancel)
  qed
  ultimately show ?thesis using pl by (simp add: fs_inv_def)
qed

text \<open>A fiber that leaves its processer.\<close>

lemma inv_off:
  assumes inv: "fs_inv m s" and w: "on_worker s k f"
    and x: "\<not> on_cpu x" "pc_wakes x = {#}" "pc_wakes (fs_pc s f) = {#}" "weight (fs_pc s f) = Suc (weight x)"
      "tm_of x = None \<or> tm_of x = tm_of (fs_pc s f)"
  shows "fs_inv m (switch_out k f x s)"
proof -
  let ?s = "switch_out k f x s" and ?w = "(fs_workers s ! k)\<lparr>w_cur := None\<rparr>"
  note wi = workers_invD [OF fs_invD(1) [OF inv]]
  have f: "f < fs_fibers s" and k: "k < length (fs_workers s)" and cur: "w_cur (fs_workers s ! k) = Some f"
    using wi(5) w by (auto simp: on_worker_def)
  have s': "fs_workers ?s = (fs_workers s)[k := ?w]" "fs_pc ?s = (fs_pc s)(f := x)" "fs_fibers ?s = fs_fibers s"
    "fs_proc ?s = fs_proc s" "fs_todo ?s = fs_todo s" "fs_rr ?s = fs_rr s" "fs_poller ?s = fs_poller s" "fs_tasks ?s = fs_tasks s"
    by (simp_all add: switch_out_def set_pc_def set_worker_def)
  have ow: "on_worker ?s j g \<longleftrightarrow> on_worker s j g \<and> j \<noteq> k" for j g
    by (cases "j = k") (use k in \<open>auto simp: on_worker_def s'(1)\<close>)
  have iq: "in_queue ?s j g \<longleftrightarrow> in_queue s j g" for j g
    by (cases "j = k") (use k in \<open>auto simp: in_queue_def s'(1)\<close>)
  have "workers_inv ?s"
    unfolding workers_inv_def iq ow s'(3,4,6)
  proof (intro conjI allI impI)
    fix g assume g: "g < fs_fibers s" "on_cpu (fs_pc ?s g)"
    then have "g \<noteq> f" using x(1) by (auto simp: s'(2))
    then obtain j where "on_worker s j g" using g wi(6) [of g] by (auto simp: s'(2))
    moreover have "j \<noteq> k" using calculation cur \<open>g \<noteq> f\<close> by (auto simp: on_worker_def)
    ultimately show "\<exists>j. on_worker s j g \<and> j \<noteq> k" by blast
  next
    fix g h j assume g: "g < fs_fibers s" "fs_pc ?s g = ResPush h j"
    have "fs_pc s g = ResPush h j" using g x(2) by (cases "g = f") (auto simp: s'(2) pc_wakes_def)
    from wi(8) [OF g(1) this] show "j < length (fs_workers ?s)" by (simp add: s'(1))
    fix i assume "on_worker s i h \<and> i \<noteq> k"
    with wi(9) [OF g(1) \<open>fs_pc s g = ResPush h j\<close>] show "j = i" by blast
  next
    fix j assume "j < length (fs_workers ?s)"
    then show "w_state (fs_workers ?s ! j) \<in> {Running, Idle}" using wi(2) [of j] wi(2) [of k] k by (auto simp: s'(1) nth_list_update)
  next
    fix j g assume g: "on_worker s j g \<and> j \<noteq> k"
    show "w_state (fs_workers ?s ! j) = Running" using wi(3) [of j g] g by (simp add: s'(1))
    show "fs_proc s g = Some j" "g < fs_fibers s" using wi(4,5) g by blast+
  next
    fix i j g assume "in_queue s i g" "on_worker s j g \<and> j \<noteq> k"
    then show "i = j" using wi(7) by blast
  next
    fix g j assume "fs_proc s g = Some j"
    then show "j < length (fs_workers ?s)" using wi(10) by (simp add: s'(1))
  qed (use wi(1) in \<open>simp add: s'(1)\<close>)
  moreover have "timers_inv ?s"
    by (rule timers_inv_pc [OF fs_invD(2) [OF inv] f s'(2,3,7,8) x(5)])
  moreover have "running ?s + queued_on ?s + wakes ?s + m = due ?s"
  proof -
    note p = pc_upd [OF f s'(2,3)] and q = worker_upd [OF k s'(1)]
    have c: "cur_of (fs_workers s ! k) = {#f#}" "cur_of ?w = {#}" by (simp_all add: cur_of_def cur)
    have q1: "running ?s + {#f#} = running s" using q(1) by (simp add: c)
    have q2: "queued_on ?s = queued_on s" using q(2) by simp
    have q3: "wakes ?s = wakes s" using p(1) by (simp add: wakes_def s' x)
    have "(running ?s + queued_on ?s + wakes ?s + m) + (replicate_mset (weight x) f + {#f#}) =
      (running ?s + {#f#}) + queued_on ?s + wakes ?s + m + replicate_mset (weight x) f"
      by (simp only: ac_simps)
    also have "\<dots> = due s + replicate_mset (weight x) f"
      unfolding q1 q2 q3 fs_invD(4) [OF inv, symmetric] ..
    also have "\<dots> = due ?s + (replicate_mset (weight x) f + {#f#})"
      using p(2) by (simp add: x)
    finally show ?thesis by (simp only: add_right_cancel)
  qed
  ultimately show ?thesis using fs_invD(3) [OF inv] by (simp add: fs_inv_def s')
qed

text \<open>A processer takes a fiber from its queue.\<close>

lemma enter_simps:
  "weight (enter pc) = weight pc" "pc_wakes (enter pc) = pc_wakes pc" "tm_of (enter pc) = tm_of pc"
  "enter pc \<noteq> ResPush g j \<or> pc = ResPush g j"
  by (auto simp: enter_def weight_def pc_wakes_def tm_of_def split: fpc.splits option.splits callback.splits)

lemma weight_le: "weight pc \<le> 1 \<or> on_cpu pc"
  by (cases pc) (simp_all add: weight_def on_cpu_def)

lemma queued_count:
  assumes "k < length (fs_workers s)"
  shows "count_list (w_queue (fs_workers s ! k)) f \<le> count (queued_on s) f"
proof -
  have "queued_on (s\<lparr>fs_workers := (fs_workers s)[k := (fs_workers s ! k)\<lparr>w_queue := []\<rparr>]\<rparr>) +
      mset (w_queue (fs_workers s ! k)) = queued_on s"
    using worker_upd(2) [OF assms, of "s\<lparr>fs_workers := (fs_workers s)[k := (fs_workers s ! k)\<lparr>w_queue := []\<rparr>]\<rparr>"] by simp
  from arg_cong [OF this, of "\<lambda>M. count M f"] show ?thesis by (simp add: count_mset)
qed

lemma two_queues:
  assumes "j \<noteq> k" and "in_queue s j f" and "in_queue s k f"
  shows "2 \<le> count (queued_on s) f"
proof -
  let ?s = "s\<lparr>fs_workers := (fs_workers s)[k := (fs_workers s ! k)\<lparr>w_queue := []\<rparr>]\<rparr>"
  have k: "k < length (fs_workers s)" using assms(3) by (simp add: in_queue_def)
  have "in_queue ?s j f" using assms(1,2) by (simp add: in_queue_def)
  then have "0 < count (queued_on ?s) f" using member_queued [of f ?s] by auto
  moreover have "0 < count (mset (w_queue (fs_workers s ! k))) f" using assms(3) by (simp add: in_queue_def)
  moreover have "queued_on ?s + mset (w_queue (fs_workers s ! k)) = queued_on s"
    using worker_upd(2) [OF k, of ?s] by simp
  moreover have "count (queued_on s) f = count (queued_on ?s) f + count (mset (w_queue (fs_workers s ! k))) f"
    using calculation(3) by (metis count_union)
  ultimately show ?thesis by linarith
qed

lemma in_sum: "finite A \<Longrightarrow> x \<in> A \<Longrightarrow> f \<in># G x \<Longrightarrow> f \<in># sum G A"
  by (subst sum.remove [of _ x]) simp_all

lemma inv_take:
  assumes inv: "fs_inv {#} s" and k: "k < length (fs_workers s)" and t: "take_step k s = Some s'"
  shows "fs_inv {#} s'"
proof -
  obtain f q where fq: "w_cur (fs_workers s ! k) = None" "w_queue (fs_workers s ! k) = f # q" "w_state (fs_workers s ! k) = Running"
    and s'_def: "s' = set_pc f (enter (fs_pc s f)) (set_worker k ((fs_workers s ! k)\<lparr>w_queue := q, w_cur := Some f\<rparr>)
                 (s\<lparr>fs_proc := (fs_proc s)(f := Some k)\<rparr>))"
    using t by (auto simp: take_step_def Let_def split: option.splits list.splits if_splits)
  let ?w = "(fs_workers s ! k)\<lparr>w_queue := q, w_cur := Some f\<rparr>"
  note wi = workers_invD [OF fs_invD(1) [OF inv]]
  have s': "fs_workers s' = (fs_workers s)[k := ?w]" "fs_pc s' = (fs_pc s)(f := enter (fs_pc s f))" "fs_fibers s' = fs_fibers s"
    "fs_proc s' = (fs_proc s)(f := Some k)" "fs_todo s' = fs_todo s" "fs_rr s' = fs_rr s" "fs_poller s' = fs_poller s"
    "fs_tasks s' = fs_tasks s"
    by (simp_all add: s'_def set_pc_def set_worker_def)
  have qk: "in_queue s k f" using k fq(2) by (simp add: in_queue_def)
  have cq: "Suc (count_list q f) \<le> count (queued_on s) f" using queued_count [OF k, of f] fq(2) by simp
  have cnt: "count (running s) f + count (queued_on s) f + count (wakes s) f = (if f < fs_fibers s then weight (fs_pc s f) else 0)"
    using fs_count [OF inv, of f] by simp
  have f: "f < fs_fibers s" using cnt cq by (auto split: if_splits)
  have off: "\<not> on_worker s j f" for j
  proof
    assume j: "on_worker s j f"
    then have "k = j" using wi(7) qk by blast
    with j fq(1) show False by (simp add: on_worker_def)
  qed
  then have "\<not> on_cpu (fs_pc s f)" using wi(6) f by blast
  then have one: "count (queued_on s) f = 1" "count (wakes s) f = 0" using cnt cq f weight_le [of "fs_pc s f"] by auto
  have ow: "on_worker s' j g \<longleftrightarrow> (if j = k then g = f else on_worker s j g)" for j g
    by (cases "j = k") (use k in \<open>auto simp: on_worker_def s'(1)\<close>)
  have iq: "in_queue s' j g \<Longrightarrow> in_queue s j g \<and> g \<noteq> f" for j g
  proof -
    assume g: "in_queue s' j g"
    have "in_queue s j g" using g fq(2) by (cases "j = k") (auto simp: in_queue_def s'(1))
    moreover have "g \<noteq> f"
    proof
      assume "g = f"
      show False
      proof (cases "j = k")
        case True
        with g k \<open>g = f\<close> have "0 < count_list q f" by (simp add: in_queue_def s'(1) count_list_0_iff flip: neq0_conv)
        with cq one show False by simp
      next
        case False
        with two_queues [OF False _ qk] \<open>in_queue s j g\<close> \<open>g = f\<close> one(1) show False by simp
      qed
    qed
    ultimately show ?thesis by blast
  qed
  have nores: "fs_pc s g \<noteq> ResPush f j" if "g < fs_fibers s" for g j
  proof
    assume "fs_pc s g = ResPush f j"
    then have "f \<in># pc_wakes (fs_pc s g)" by (simp add: pc_wakes_def)
    then have "f \<in># (\<Sum>g < fs_fibers s. pc_wakes (fs_pc s g))"
      using in_sum [of "{..<fs_fibers s}" g f "\<lambda>g. pc_wakes (fs_pc s g)"] that by simp
    moreover have "count (\<Sum>g < fs_fibers s. pc_wakes (fs_pc s g)) f = 0" using one(2) by (simp only: wakes_def count_union)
    ultimately show False unfolding not_in_iff [symmetric] by blast
  qed
  have "workers_inv s'"
    unfolding workers_inv_def s'(3,6)
  proof (intro conjI allI impI)
    fix g assume g: "g < fs_fibers s" "on_cpu (fs_pc s' g)"
    show "\<exists>j. on_worker s' j g"
    proof (cases "g = f")
      case True
      then show ?thesis by (auto simp: ow)
    next
      case False
      then obtain j where "on_worker s j g" using g wi(6) [of g] by (auto simp: s'(2))
      moreover have "j \<noteq> k" using calculation fq(1) by (auto simp: on_worker_def)
      ultimately show ?thesis by (auto simp: ow)
    qed
  next
    fix j i g assume "in_queue s' j g" "on_worker s' i g"
    with iq [of j g] wi(7) [of j g i] show "j = i" by (auto simp: ow split: if_splits)
  next
    fix g h j assume g: "g < fs_fibers s" "fs_pc s' g = ResPush h j"
    then have p: "fs_pc s g = ResPush h j" using enter_simps(4) by (cases "g = f") (auto simp: s'(2))
    show "j < length (fs_workers s')" using wi(8) [OF g(1) p] by (simp add: s'(1))
    fix i assume "on_worker s' i h"
    with nores [OF g(1), of j] p wi(9) [OF g(1) p, of i] show "j = i" by (auto simp: ow split: if_splits)
  next
    fix j g assume "on_worker s' j g"
    then show "w_state (fs_workers s' ! j) = Running" "fs_proc s' g = Some j" "g < fs_fibers s"
      using wi(3-5) [of j g] fq(3) k f off by (auto simp: ow s'(1,4) nth_list_update split: if_splits)
  next
    fix g j assume "fs_proc s' g = Some j"
    then show "j < length (fs_workers s')" using wi(10) [of g j] k by (auto simp: s'(1,4) split: if_splits)
  next
    fix j assume "j < length (fs_workers s')"
    then show "w_state (fs_workers s' ! j) \<in> {Running, Idle}" using wi(2) [of j] fq(3) k by (cases "j = k") (auto simp: s'(1))
  qed (use wi(1) in \<open>simp add: s'(1)\<close>)
  moreover have "timers_inv s'"
    by (rule timers_inv_pc [OF fs_invD(2) [OF inv] f s'(2,3,7,8)]) (simp add: enter_simps)
  moreover have "running s' + queued_on s' + wakes s' = due s'"
  proof -
    note p = pc_upd [OF f s'(2,3)] and q = worker_upd [OF k s'(1)]
    have q1: "running s' = running s + {#f#}" using q(1) by (simp add: cur_of_def fq)
    have q2: "queued_on s = queued_on s' + {#f#}" using q(2) by (simp add: fq)
    have "wakes s' = wakes s" using p(1) by (simp add: wakes_def s' enter_simps)
    moreover have "due s' = due s" using p(2) by (simp add: enter_simps)
    ultimately show ?thesis using fs_invD(4) [OF inv] by (simp add: q1 q2 ac_simps)
  qed
  ultimately show ?thesis using fs_invD(3) [OF inv] by (simp add: fs_inv_def s')
qed

text \<open>A fiber is pushed to the queue of a processer, its own one while it runs.\<close>

lemma inv_push:
  assumes inv: "fs_inv ({#g#} + m) s" and k: "k < length (fs_workers s)" and own: "\<And>j. on_worker s j g \<Longrightarrow> j = k"
  shows "fs_inv m (fs_push g k s)"
proof -
  let ?s = "fs_push g k s" and ?w = "(fs_workers s ! k)\<lparr>w_queue := w_queue (fs_workers s ! k) @ [g]\<rparr>"
  note wi = workers_invD [OF fs_invD(1) [OF inv]]
  have s': "fs_workers ?s = (fs_workers s)[k := ?w]" "fs_pc ?s = fs_pc s" "fs_fibers ?s = fs_fibers s"
    "fs_proc ?s = fs_proc s" "fs_todo ?s = fs_todo s" "fs_rr ?s = fs_rr s" "fs_poller ?s = fs_poller s" "fs_tasks ?s = fs_tasks s"
    by (simp_all add: fs_push_def Let_def set_worker_def)
  have ow: "on_worker ?s j f \<longleftrightarrow> on_worker s j f" for j f
    by (cases "j = k") (use k in \<open>auto simp: on_worker_def s'(1)\<close>)
  have iq: "in_queue ?s j f \<longleftrightarrow> in_queue s j f \<or> j = k \<and> f = g" for j f
    by (cases "j = k") (use k in \<open>auto simp: in_queue_def s'(1)\<close>)
  have st: "w_state (fs_workers ?s ! j) = w_state (fs_workers s ! j)" if "j < length (fs_workers s)" for j
    by (cases "j = k") (use that in \<open>simp_all add: s'(1)\<close>)
  have "workers_inv ?s"
    unfolding workers_inv_def iq ow s'(2,3,4,6)
  proof (intro conjI allI impI)
    fix j assume "j < length (fs_workers ?s)"
    then show "w_state (fs_workers ?s ! j) \<in> {Running, Idle}" using wi(2) [of j] st [of j] by (simp add: s'(1))
  next
    fix j f assume j: "on_worker s j f"
    then have "j < length (fs_workers s)" by (simp add: on_worker_def)
    with wi(3) [OF j] st show "w_state (fs_workers ?s ! j) = Running" by simp
    show "fs_proc s f = Some j" "f < fs_fibers s" using wi(4,5) j by blast+
  next
    fix i j f assume "in_queue s i f \<or> i = k \<and> f = g" "on_worker s j f"
    then show "i = j" using wi(7) own by blast
  next
    fix h f j assume h: "h < fs_fibers s" "fs_pc s h = ResPush f j"
    show "j < length (fs_workers ?s)" using wi(8) [OF h] by (simp add: s'(1))
    fix i assume "on_worker s i f"
    then show "j = i" using wi(9) [OF h] by blast
  next
    fix f j assume "fs_proc s f = Some j"
    then show "j < length (fs_workers ?s)" using wi(10) by (simp add: s'(1))
  qed (use wi(1,6) in \<open>simp_all add: s'(1)\<close>)
  moreover have "timers_inv ?s" using fs_invD(2) [OF inv] by (simp add: timers_inv_def s')
  moreover have "running ?s + queued_on ?s + wakes ?s + m = due ?s"
  proof -
    note q = worker_upd [OF k s'(1)]
    have "running ?s = running s" "queued_on ?s = queued_on s + {#g#}" using q by (simp_all add: cur_of_def)
    moreover have "wakes ?s = wakes s" "due ?s = due s" by (simp_all add: wakes_def due_def s')
    ultimately show ?thesis using fs_invD(4) [OF inv] by (simp add: union_ac)
  qed
  ultimately show ?thesis using fs_invD(3) [OF inv] by (simp add: fs_inv_def s')
qed

text \<open>The choice of a processer.\<close>

lemma pick_bound:
  assumes i: "i < length ps" and own: "\<And>j. own = Some j \<Longrightarrow> j < length ps"
  obtains k n where "pick own ps i = Inr (k, n)" and "k < length ps" and "n < length ps"
    and "\<And>j. own = Some j \<Longrightarrow> isRunning (ps ! j) \<Longrightarrow> k = j"
proof -
  have "\<exists>k n. pick_other ps i = Inr (k, n) \<and> k < length ps \<and> n < length ps"
  proof (rule pick_other_cases [OF i])
    have n: "0 < length ps" using i by linarith
    fix m assume "pick_other ps i = Inr ((i + m) mod length ps, (i + m + 1) mod length ps)"
    then show ?thesis using mod_less_divisor [OF n] by auto
  next
    have n: "0 < length ps" using i by linarith
    assume "pick_other ps i = Inr (i, (i + 1) mod length ps)"
    then show ?thesis using mod_less_divisor [OF n] i by auto
  next
    fix k assume "pick_other ps i = Inr (k, i)" "k < length ps"
    then show ?thesis using i by auto
  qed
  then obtain k n where o: "pick_other ps i = Inr (k, n)" "k < length ps" "n < length ps" by blast
  show thesis
  proof (cases "\<exists>j. own = Some j \<and> isRunning (ps ! j)")
    case True
    then obtain j where j: "own = Some j" "isRunning (ps ! j)" by blast
    with own i show thesis by (intro that [of j i]) (simp_all add: pick_def)
  next
    case False
    then have "pick own ps i = Inr (k, n)" using o(1) own by (auto simp: pick_def split: option.split)
    with o(2,3) False show thesis by (intro that [of k n]) auto
  qed
qed

lemma fs_pick_ok:
  assumes wi: "workers_inv s" and own: "\<And>j. own = Some j \<Longrightarrow> j < length (fs_workers s)"
  obtains k i where "fs_pick own s = Inr (k, i)" and "k < length (fs_workers s)" and "i < length (fs_workers s)"
    and "\<And>j f. own = Some j \<Longrightarrow> on_worker s j f \<Longrightarrow> k = j"
proof -
  obtain k i where ki: "pick own (map as_proc (fs_workers s)) (fs_rr s) = Inr (k, i)"
    "k < length (fs_workers s)" "i < length (fs_workers s)"
    "\<And>j. own = Some j \<Longrightarrow> isRunning (map as_proc (fs_workers s) ! j) \<Longrightarrow> k = j"
    using pick_bound [of "fs_rr s" "map as_proc (fs_workers s)" own] workers_invD(1) [OF wi] own by auto
  show thesis
  proof (rule that [OF _ ki(2,3)])
    show "fs_pick own s = Inr (k, i)" using ki(1) by (simp add: fs_pick_def)
    fix j f assume j: "own = Some j" "on_worker s j f"
    then have "isRunning (map as_proc (fs_workers s) ! j)"
      using workers_invD(3) [OF wi j(2)] by (simp add: on_worker_def as_proc_def isRunning_def)
    with ki(4) j(1) show "k = j" by blast
  qed
qed

text \<open>A new fiber is created and placed.\<close>

lemma inv_create:
  assumes inv: "fs_inv (resume_of cb + m) s"
  obtains s' where "fs_create cb s = Inr s'" and "fs_inv m s'"
proof -
  note wi = workers_invD [OF fs_invD(1) [OF inv]]
  obtain k i where ki: "fs_pick None s = Inr (k, i)" "k < length (fs_workers s)" "i < length (fs_workers s)"
    using fs_pick_ok [OF fs_invD(1) [OF inv], of None] by auto
  let ?f = "fs_fibers s"
  define s1 where "s1 = s\<lparr>fs_pc := (fs_pc s)(?f := Fresh cb), fs_proc := (fs_proc s)(?f := None),
    fs_fibers := Suc ?f, fs_rr := i\<rparr>"
  have s1: "fs_workers s1 = fs_workers s" "fs_pc s1 = (fs_pc s)(?f := Fresh cb)" "fs_proc s1 = (fs_proc s)(?f := None)"
    "fs_fibers s1 = Suc ?f" "fs_rr s1 = i" "fs_todo s1 = fs_todo s" "fs_poller s1 = fs_poller s" "fs_tasks s1 = fs_tasks s"
    by (simp_all add: s1_def)
  have ow: "on_worker s1 = on_worker s" "in_queue s1 = in_queue s"
    by (simp_all add: on_worker_def in_queue_def s1(1) fun_eq_iff)
  have new: "\<not> on_worker s j ?f" for j using wi(5) by blast
  have "workers_inv s1"
    unfolding workers_inv_def ow s1(1,4,5)
  proof (intro conjI allI impI)
    fix j f assume j: "on_worker s j f"
    show "w_state (fs_workers s ! j) = Running" "f < Suc ?f" using wi(3,5) [OF j] by simp_all
    show "fs_proc s1 f = Some j" using wi(4) [OF j] j new by (auto simp: s1(3))
  next
    fix f assume f: "f < Suc ?f" "on_cpu (fs_pc s1 f)"
    then have "f \<noteq> ?f" by (auto simp: s1(2) on_cpu_def)
    with f wi(6) [of f] show "\<exists>k. on_worker s k f" by (simp add: s1(2))
  next
    fix h f j assume h: "h < Suc ?f" "fs_pc s1 h = ResPush f j"
    then have h': "h < ?f" "fs_pc s h = ResPush f j" by (auto simp: s1(2) less_Suc_eq split: if_splits)
    show "j < length (fs_workers s)" using wi(8) [OF h'] .
    show "\<And>n. on_worker s n f \<Longrightarrow> j = n" using wi(9) [OF h'] .
  next
    fix f j assume "fs_proc s1 f = Some j"
    then show "j < length (fs_workers s)" using wi(10) by (auto simp: s1(3) split: if_splits)
  next
    show "\<And>j. j < length (fs_workers s) \<Longrightarrow> w_state (fs_workers s ! j) \<in> {Running, Idle}" using wi(2) by simp
    show "\<And>j n f. in_queue s j f \<Longrightarrow> on_worker s n f \<Longrightarrow> j = n" using wi(7) by blast
  qed (rule ki(3))
  moreover have "timers_inv s1"
    by (rule timers_inv_kept [OF fs_invD(2) [OF inv] timer_kept_same [OF fs_invD(2) [OF inv]]])
      (auto simp: s1 less_Suc_eq tm_of_def split: if_splits)
  moreover have "running s1 + queued_on s1 + wakes s1 + ({#?f#} + m) = due s1"
  proof -
    have "(\<Sum>g < ?f. G g (fs_pc s1 g)) = (\<Sum>g < ?f. G g (fs_pc s g))" for G :: "nat \<Rightarrow> fpc \<Rightarrow> nat multiset"
      by (rule sum.cong) (simp_all add: s1(2))
    then have "due s1 = due s + {#?f#}" "wakes s1 = wakes s + resume_of cb"
      unfolding due_def wakes_def s1(4,6,7) lessThan_Suc
      by (simp_all add: s1(2) weight_def pc_wakes_def union_ac)
    moreover have "running s1 = running s" "queued_on s1 = queued_on s"
      by (rule same_workers [OF s1(1)])+
    ultimately show ?thesis using fs_invD(4) [OF inv] by (simp add: union_ac)
  qed
  ultimately have "fs_inv ({#?f#} + m) s1" using fs_invD(3) [OF inv] by (simp add: fs_inv_def s1(7))
  from inv_push [OF this, of k] have "fs_inv m (fs_push ?f k s1)"
    using ki(2) new by (simp add: s1(1) ow)
  moreover have "fs_create cb s = Inr (fs_push ?f k s1)" by (simp add: fs_create_def ki(1) s1_def)
  ultimately show thesis using that by blast
qed

text \<open>The poller thread changes the poller and its callbacks.\<close>

lemma inv_poller:
  assumes inv: "fs_inv m s" and s': "s' = s\<lparr>fs_poller := pl, fs_todo := cbs\<rparr>"
    and pl: "poller_ok pl" and tk: "timer_kept s s'"
    and bal: "poller_wakes pl + resumes cbs + m' = poller_wakes (fs_poller s) + resumes (fs_todo s) + m"
  shows "fs_inv m' s'"
proof -
  have ow: "on_worker s' = on_worker s" "in_queue s' = in_queue s"
    by (simp_all add: on_worker_def in_queue_def s' fun_eq_iff)
  have eqs: "fs_workers s' = fs_workers s" "fs_rr s' = fs_rr s" "fs_proc s' = fs_proc s" "fs_pc s' = fs_pc s" "fs_fibers s' = fs_fibers s"
    by (simp_all add: s')
  have "workers_inv s'" using fs_invD(1) [OF inv] unfolding workers_inv_def ow eqs .
  moreover have "timers_inv s'"
    by (rule timers_inv_kept [OF fs_invD(2) [OF inv] tk]) (simp_all add: s')
  moreover have "running s' + queued_on s' + wakes s' + m' = due s'"
  proof -
    have "wakes s' + m' = (poller_wakes pl + resumes cbs + m') + (\<Sum>g < fs_fibers s. pc_wakes (fs_pc s g))"
      by (simp add: wakes_def s' union_ac)
    also have "\<dots> = wakes s + m" unfolding bal by (simp add: wakes_def union_ac)
    finally have "running s' + queued_on s' + (wakes s' + m') = running s + queued_on s + (wakes s + m)"
      by (simp add: running_def queued_on_def s')
    moreover have "due s' = due s" by (simp add: due_def s')
    ultimately show ?thesis using fs_invD(4) [OF inv] by (simp add: union_assoc)
  qed
  ultimately show ?thesis using pl by (simp add: fs_inv_def s')
qed

subsection \<open>Timers of the fibers\<close>

lemma new_task_ok:
  assumes ti: "timers_inv s" and cap: "pipe_bytes (fs_poller s) < cap"
  obtains pl where "new_task cap cb ms now s = Inr (s\<lparr>fs_poller := pl, fs_tasks := Suc (fs_tasks s)\<rparr>)"
    and "poller_wakes pl = poller_wakes (fs_poller s) + resume_of (Some cb)"
    and "poller_ok (fs_poller s) \<Longrightarrow> poller_ok pl" and "m_cb (heap (pl_timer pl) (fs_tasks s)) = Some cb"
    and "timer_kept s (s\<lparr>fs_poller := pl, fs_tasks := Suc (fs_tasks s)\<rparr>)"
proof -
  let ?t = "pl_timer (fs_poller s)" and ?n = "fs_tasks s"
  note ti' = timers_invD [OF ti]
  obtain t front where c: "createTimer ?n (Some cb) ms False now ?t = (t, front)" by fastforce
  then have t: "t = fst (createTimer ?n (Some cb) ms False now ?t)" by simp
  have n: "?n \<notin> {..<?n}" by simp
  note w = createTimer_wakes [OF ti'(1) n t]
  have ok: "timer_ok {..<Suc ?n} t"
    using timer_ok_createTimer [OF ti'(1) n, of "Some cb" ms False now] by (simp add: t lessThan_Suc)
  define pl where "pl = (if front then (fs_poller s)\<lparr>pl_timer := t, pipe_bytes := Suc (pipe_bytes (fs_poller s))\<rparr>
    else (fs_poller s)\<lparr>pl_timer := t\<rparr>)"
  have "pl_createTimer cap ?n (Some cb) ms False now (fs_poller s) = Inr pl"
    using cap by (simp add: pl_createTimer_def c onTimerInsertedAtFront_def notify_def pl_def)
  then have 1: "new_task cap cb ms now s = Inr (s\<lparr>fs_poller := pl, fs_tasks := Suc ?n\<rparr>)" by (simp add: new_task_def)
  have pl: "pl_timer pl = t" "m_fdContexts pl = m_fdContexts (fs_poller s)" "m_pipe0 pl = m_pipe0 (fs_poller s)"
    "ctl_log pl = ctl_log (fs_poller s)" by (simp_all add: pl_def)
  show thesis
  proof (rule that [OF 1])
    show "poller_wakes pl = poller_wakes (fs_poller s) + resume_of (Some cb)"
      using w(1) by (simp add: poller_wakes_def pl union_assoc)
    show "poller_ok (fs_poller s) \<Longrightarrow> poller_ok pl" using poller_ok_cong [of pl "fs_poller s"] pl by simp
    show "m_cb (heap (pl_timer pl) ?n) = Some cb" by (simp add: pl w(2) TimerTask_ctor_def)
    show "timer_kept s (s\<lparr>fs_poller := pl, fs_tasks := Suc ?n\<rparr>)"
      using ok ti'(2) by (simp add: timer_kept_def pl w(2) TimerTask_ctor_def)
  qed
qed

lemma cancel_task_ok:
  assumes ti: "timers_inv s" and tm: "\<And>p. tm = Some p \<Longrightarrow> p < fs_tasks s \<and> resume_of (m_cb (heap (pl_timer (fs_poller s)) p)) = {#}"
  obtains pl where "cancel_task tm s = Inr (s\<lparr>fs_poller := pl\<rparr>)" and "poller_wakes pl = poller_wakes (fs_poller s)"
    and "poller_ok (fs_poller s) \<Longrightarrow> poller_ok pl" and "timer_kept s (s\<lparr>fs_poller := pl\<rparr>)"
proof (cases tm)
  case None
  have "timer_kept s s" by (rule timer_kept_same [OF ti]) simp_all
  then show thesis by (intro that [of "fs_poller s"]) (simp_all add: None cancel_task_def)
next
  case (Some p)
  let ?t = "pl_timer (fs_poller s)"
  note ti' = timers_invD [OF ti]
  have p: "p \<in> {..<fs_tasks s}" and cb: "resume_of (m_cb (heap ?t p)) = {#}" using tm Some by simp_all
  have "\<not> isl (cancel p ?t)" by (simp add: cancel_eq [OF ti'(1) p])
  then obtain t b where c: "cancel p ?t = Inr (t, b)" by (cases "cancel p ?t") auto
  note w = cancel_wakes [OF ti'(1) p cb c]
  show thesis
  proof (rule that [of "(fs_poller s)\<lparr>pl_timer := t\<rparr>"])
    show "cancel_task tm s = Inr (s\<lparr>fs_poller := (fs_poller s)\<lparr>pl_timer := t\<rparr>\<rparr>)"
      by (simp add: cancel_task_def Some c)
    show "poller_wakes ((fs_poller s)\<lparr>pl_timer := t\<rparr>) = poller_wakes (fs_poller s)"
      by (simp add: poller_wakes_def w(1))
    show "poller_ok (fs_poller s) \<Longrightarrow> poller_ok ((fs_poller s)\<lparr>pl_timer := t\<rparr>)" by (simp add: poller_ok_def)
    show "timer_kept s (s\<lparr>fs_poller := (fs_poller s)\<lparr>pl_timer := t\<rparr>\<rparr>)"
      using timer_ok_cancel [OF ti'(1) p c] ti'(2) w(2,3) by (simp add: timer_kept_def)
  qed
qed

end
