(* ===== verification/FiberSteps.thy ===== *)
theory FiberSteps
  imports FiberPlaces
begin

text \<open>
  Every move of \<open>FiberSystem\<close> that its users and the kernel may make succeeds and keeps the
  invariant of \<open>FiberPlaces\<close>: one lemma for each group of steps.
\<close>

section \<open>The steps\<close>

text \<open>
  What the users of the library and the kernel owe at a move: descriptors the poller can handle,
  no event registered twice, a pipe with room, reports as in \<open>report_ok\<close>.
\<close>

definition act_op :: "fpc \<Rightarrow> nat \<Rightarrow> decision \<Rightarrow> callback poller_op option" where
  "act_op pc f c = (case (pc, c) of
     (InUser, UClose fd rt) \<Rightarrow> Some (CancelAll fd rt)
   | (IoAdd fd ev to t tm, KCtl rt) \<Rightarrow> Some (AddEvent fd ev (Some (Resume f)) rt)
   | (TmCancel fd ev, KCtl rt) \<Rightarrow> Some (CancelEvent fd ev rt)
   | _ \<Rightarrow> None)"

text \<open>A timer may cancel before \<open>addEvent\<close> made room for the descriptor.\<close>

definition op_allowed :: "(nat \<Rightarrow> int) \<Rightarrow> callback poller_op \<Rightarrow> callback poller \<Rightarrow> bool" where
  "op_allowed low32 op pl \<longleftrightarrow> poller_op_ok low32 op pl \<and> op_fresh op pl \<or>
     (case op of CancelEvent fd ev rt \<Rightarrow> int (length (m_fdContexts pl)) < fd | _ \<Rightarrow> False)"

definition move_ok :: "nat \<Rightarrow> (nat \<Rightarrow> int) \<Rightarrow> fmove \<Rightarrow> fsys \<Rightarrow> bool" where
  "move_ok cap low32 m s = (case m of
     Act k c \<Rightarrow> (case w_cur (fs_workers s ! k) of
       None \<Rightarrow> True
     | Some f \<Rightarrow> (case c of KTime _ \<Rightarrow> pipe_bytes (fs_poller s) < cap | _ \<Rightarrow> True) \<and>
         (case act_op (fs_pc s f) f c of
            None \<Rightarrow> True
          | Some op \<Rightarrow> op_allowed low32 op (fs_poller s)))
   | Reported ev rt \<Rightarrow> report_ok low32 ev (fs_poller s)
   | _ \<Rightarrow> True)"

text \<open>A step that only moves the running fiber on.\<close>

lemma inv_pc:
  assumes inv: "fs_inv m s" and w: "on_worker s k f"
    and s': "fs_workers s' = fs_workers s" "fs_pc s' = (fs_pc s)(f := x)" "fs_fibers s' = fs_fibers s"
      "fs_proc s' = fs_proc s" "fs_todo s' = fs_todo s" "fs_rr s' < length (fs_workers s)"
      "fs_poller s' = fs_poller s" "fs_tasks s' = fs_tasks s"
    and x: "on_cpu x" "weight x = weight (fs_pc s f)" "tm_of x = None \<or> tm_of x = tm_of (fs_pc s f)"
    and res: "\<And>g j. x = ResPush g j \<Longrightarrow> j < length (fs_workers s) \<and> (\<forall>i. on_worker s i g \<longrightarrow> j = i)"
    and bal: "pc_wakes x + m' = pc_wakes (fs_pc s f) + m"
  shows "fs_inv m' s'"
proof (rule inv_local [OF inv w s'(1-6) x(1)])
  show "poller_ok (fs_poller s')" using fs_invD(3) [OF inv] s'(7) by simp
  show "timer_kept s s'" by (rule timer_kept_same [OF fs_invD(2) [OF inv]]) (simp_all add: s')
  have f: "f < fs_fibers s" by (rule workers_invD(5) [OF fs_invD(1) [OF inv] w])
  show "p < fs_tasks s' \<and> resume_of (m_cb (heap (pl_timer (fs_poller s')) p)) = {#}" if "tm_of x = Some p" for p
    using timers_invD(3,4) [OF fs_invD(2) [OF inv] f] x(3) that by (simp add: s')
  show "poller_wakes (fs_poller s') + pc_wakes x + m' + replicate_mset (weight (fs_pc s f)) f =
      poller_wakes (fs_poller s) + pc_wakes (fs_pc s f) + m + replicate_mset (weight x) f"
    using arg_cong [OF bal, of "\<lambda>M. poller_wakes (fs_poller s) + M + replicate_mset (weight x) f"]
    by (simp only: s'(7) x(2) [symmetric] union_assoc)
qed (rule res)

lemmas pc_simps = weight_def pc_wakes_def on_cpu_def tm_of_def

lemma set_simps [simp]:
  "fs_workers (set_pc f x s) = fs_workers s" "fs_pc (set_pc f x s) = (fs_pc s)(f := x)" "fs_fibers (set_pc f x s) = fs_fibers s"
  "fs_proc (set_pc f x s) = fs_proc s" "fs_todo (set_pc f x s) = fs_todo s" "fs_rr (set_pc f x s) = fs_rr s"
  "fs_poller (set_pc f x s) = fs_poller s" "fs_tasks (set_pc f x s) = fs_tasks s"
  "fs_workers (set_info t v s) = fs_workers s" "fs_pc (set_info t v s) = fs_pc s" "fs_fibers (set_info t v s) = fs_fibers s"
  "fs_proc (set_info t v s) = fs_proc s" "fs_todo (set_info t v s) = fs_todo s" "fs_rr (set_info t v s) = fs_rr s"
  "fs_poller (set_info t v s) = fs_poller s" "fs_tasks (set_info t v s) = fs_tasks s"
  by (simp_all add: set_pc_def set_info_def)

lemma inv_move:
  assumes inv: "fs_inv m s" and w: "on_worker s k f"
    and s1: "fs_workers s1 = fs_workers s" "fs_pc s1 = fs_pc s" "fs_fibers s1 = fs_fibers s" "fs_proc s1 = fs_proc s"
      "fs_todo s1 = fs_todo s" "fs_rr s1 < length (fs_workers s)" "fs_poller s1 = fs_poller s" "fs_tasks s1 = fs_tasks s"
    and x: "on_cpu x" "weight x = weight (fs_pc s f)" "tm_of x = None \<or> tm_of x = tm_of (fs_pc s f)"
      "\<And>g j. x = ResPush g j \<Longrightarrow> j < length (fs_workers s) \<and> (\<forall>i. on_worker s i g \<longrightarrow> j = i)"
      "pc_wakes x + m' = pc_wakes (fs_pc s f) + m"
  shows "fs_inv m' (set_pc f x s1)"
  by (rule inv_pc [OF inv w _ _ _ _ _ _ _ _ x]) (simp_all add: s1)

text \<open>The operations of the poller that a fiber calls.\<close>

lemma op_allowed_ok:
  assumes ok: "poller_ok pl" and al: "op_allowed low32 op pl" and mv: "op_moves op"
  obtains pl' out where "poller_do low32 op pl = Inr (pl', out)" and "poller_ok pl'" and "pl_timer pl' = pl_timer pl"
    and "poller_wakes pl' + resumes out = poller_wakes pl + op_adds op"
proof (cases "poller_op_ok low32 op pl \<and> op_fresh op pl")
  case True
  then have v: "poller_op_ok low32 op pl" "op_fresh op pl" by simp_all
  obtain pl' out where r: "poller_do low32 op pl = Inr (pl', out)" using poller_do_total [OF ok v(1)] by blast
  have w: "event_wakes (m_fdContexts pl') + resumes out = event_wakes (m_fdContexts pl) + op_adds op" "pl_timer pl' = pl_timer pl"
    using poller_do_wakes [OF ok v mv r] by simp_all
  have "poller_wakes pl' + resumes out = (event_wakes (m_fdContexts pl') + resumes out) + timer_wakes (pl_timer pl)"
    by (simp add: poller_wakes_def w(2) union_ac)
  also have "\<dots> = poller_wakes pl + op_adds op" unfolding w(1) by (simp add: poller_wakes_def union_ac)
  finally show thesis using that [OF r poller_do_ok [OF ok v(1) r] w(2)] by simp
next
  case False
  then obtain fd ev rt where op: "op = CancelEvent fd ev rt" "int (length (m_fdContexts pl)) < fd"
    using al by (auto simp: op_allowed_def split: poller_op.splits)
  then have "poller_do low32 op pl = Inr (pl, [])" by (simp add: poller_do_def cancelEvent_def)
  then show thesis using that [of pl "[]"] ok by (simp add: op(1) op_adds_def)
qed

lemma timer_kept_event:
  "timers_inv s \<Longrightarrow> pl_timer pl = pl_timer (fs_poller s) \<Longrightarrow> fs_poller s' = pl \<Longrightarrow> fs_tasks s' = fs_tasks s \<Longrightarrow> timer_kept s s'"
  by (rule timer_kept_same) simp_all

text \<open>A step of the running fiber with a new poller that gives it no new timer.\<close>

lemma inv_event:
  assumes inv: "fs_inv {#} s" and w: "on_worker s k f" and s': "s' = set_pc f x (s\<lparr>fs_poller := pl\<rparr>)"
    and pl: "poller_ok pl" "pl_timer pl = pl_timer (fs_poller s)"
    and x: "on_cpu x" "tm_of x = None \<or> tm_of x = tm_of (fs_pc s f)" "\<And>g j. x \<noteq> ResPush g j"
    and bal: "poller_wakes pl + pc_wakes x + replicate_mset (weight (fs_pc s f)) f =
      poller_wakes (fs_poller s) + pc_wakes (fs_pc s f) + replicate_mset (weight x) f"
  shows "fs_inv {#} s'"
proof (rule inv_local [OF inv w, where x = x])
  show "timer_kept s s'" by (rule timer_kept_event [OF fs_invD(2) [OF inv] pl(2)]) (simp_all add: s')
  have f: "f < fs_fibers s" by (rule workers_invD(5) [OF fs_invD(1) [OF inv] w])
  show "p < fs_tasks s' \<and> resume_of (m_cb (heap (pl_timer (fs_poller s')) p)) = {#}" if "tm_of x = Some p" for p
    using timers_invD(3,4) [OF fs_invD(2) [OF inv] f] x(2) that by (simp add: s' pl(2))
  show "fs_rr s' < length (fs_workers s)" using workers_invD(1) [OF fs_invD(1) [OF inv]] by (simp add: s')
qed (use x pl bal in \<open>simp_all add: s'\<close>)

text \<open>A step of the running fiber with a new poller and new timers.\<close>

lemma inv_timer:
  assumes inv: "fs_inv {#} s" and w: "on_worker s k f" and s': "s' = set_pc f x s1"
    and s1: "fs_workers s1 = fs_workers s" "fs_pc s1 = fs_pc s" "fs_fibers s1 = fs_fibers s" "fs_proc s1 = fs_proc s"
      "fs_todo s1 = fs_todo s" "fs_rr s1 = fs_rr s"
    and pl: "poller_ok (fs_poller s1)" "timer_kept s s1"
    and x: "on_cpu x" "\<And>g j. x \<noteq> ResPush g j"
      "\<And>p. tm_of x = Some p \<Longrightarrow> p < fs_tasks s1 \<and> resume_of (m_cb (heap (pl_timer (fs_poller s1)) p)) = {#}"
    and bal: "poller_wakes (fs_poller s1) + pc_wakes x + replicate_mset (weight (fs_pc s f)) f =
      poller_wakes (fs_poller s) + pc_wakes (fs_pc s f) + replicate_mset (weight x) f"
  shows "fs_inv {#} s'"
proof (rule inv_local [OF inv w, where x = x])
  show "timer_kept s s'" using pl(2) by (simp add: timer_kept_def s')
  show "fs_rr s' < length (fs_workers s)" using workers_invD(1) [OF fs_invD(1) [OF inv]] by (simp add: s' s1)
qed (use x pl bal s1 in \<open>simp_all add: s'\<close>)

text \<open>A step has not faulted and the invariant holds.\<close>

definition step_ok :: "fsys result \<Rightarrow> bool" where
  "step_ok r \<longleftrightarrow> (case r of Inl e \<Rightarrow> False | Inr s \<Rightarrow> fs_inv {#} s)"

lemma step_ok_Inr [simp]: "step_ok (Inr s) = fs_inv {#} s"
  by (simp add: step_ok_def)

lemma user_step_ok:
  assumes inv: "fs_inv {#} s" and w: "on_worker s k f" and r: "user_step f c s = Some r"
    and al: "\<And>op. act_op (fs_pc s f) f c = Some op \<Longrightarrow> op_allowed low32 op (fs_poller s)"
  shows "step_ok r"
proof -
  note wi = workers_invD [OF fs_invD(1) [OF inv]]
  have pc: "fs_pc s f = InUser" using r by (auto simp: user_step_def split: if_splits)
  show ?thesis
  proof (cases c)
    case (UIo fd ev to)
    have "fs_inv {#} (set_pc f (IoTry fd ev to (fs_infos s)) (set_info (fs_infos s) (Some 0) (s\<lparr>fs_infos := Suc (fs_infos s)\<rparr>)))"
      by (rule inv_move [OF inv w]) (use wi(1) in \<open>simp_all add: pc pc_simps\<close>)
    with r show ?thesis by (auto simp: user_step_def pc UIo)
  next
    case (USleep ms)
    have "fs_inv {#} (set_pc f (SleepTimer ms) s)"
      by (rule inv_move [OF inv w]) (use wi(1) in \<open>simp_all add: pc pc_simps\<close>)
    with r show ?thesis by (auto simp: user_step_def pc USleep)
  next
    case (UClose fd rt)
    have "op_allowed low32 (CancelAll fd rt) (fs_poller s)" using al by (simp add: act_op_def pc UClose)
    from op_allowed_ok [OF fs_invD(3) [OF inv] this]
    obtain pl out where p: "poller_do low32 (CancelAll fd rt) (fs_poller s) = Inr (pl, out)" "poller_ok pl"
      "pl_timer pl = pl_timer (fs_poller s)" "poller_wakes pl + resumes out = poller_wakes (fs_poller s)"
      by (auto simp: op_moves_def op_adds_def)
    then obtain b where "cancelAll fd rt (fs_poller s) = Inr (pl, out, b)"
      by (auto simp: poller_do_def bindR_eq_Inr)
    moreover have "fs_inv {#} (set_pc f (Spawn out True) (s\<lparr>fs_poller := pl\<rparr>))"
      by (rule inv_event [OF inv w refl p(2,3)]) (simp_all add: pc pc_simps p(4))
    ultimately show ?thesis using r by (auto simp: user_step_def pc UClose)
  next
    case USpawn
    have "fs_inv {#} (set_pc f (Spawn [None] True) s)"
      by (rule inv_move [OF inv w]) (use wi(1) in \<open>simp_all add: pc pc_simps\<close>)
    with r show ?thesis by (auto simp: user_step_def pc USpawn)
  next
    case UReturn
    have "fs_inv {#} (set_pc f Leaving s)"
      by (rule inv_move [OF inv w]) (use wi(1) in \<open>simp_all add: pc pc_simps\<close>)
    with r show ?thesis by (auto simp: user_step_def pc UReturn)
  qed (use r in \<open>simp_all add: user_step_def pc\<close>)
qed

lemma sleep_step_ok:
  assumes inv: "fs_inv {#} s" and w: "on_worker s k f" and r: "sleep_step cap k f c s = Some r"
    and room: "\<And>now. c = KTime now \<Longrightarrow> pipe_bytes (fs_poller s) < cap"
  shows "step_ok r"
proof -
  note wi = workers_invD [OF fs_invD(1) [OF inv]]
  consider (timer) ms now where "fs_pc s f = SleepTimer ms" "c = KTime now" | (yield) "fs_pc s f = SleepYield" "c = Go"
    | (woken) "fs_pc s f = SleepBack" "c = Go"
    using r by (auto simp: sleep_step_def split: fpc.splits decision.splits)
  then show ?thesis
  proof cases
    case timer
    obtain pl where p: "new_task cap (Resume f) ms now s = Inr (s\<lparr>fs_poller := pl, fs_tasks := Suc (fs_tasks s)\<rparr>)"
      "poller_wakes pl = poller_wakes (fs_poller s) + {#f#}" "poller_ok pl"
      "timer_kept s (s\<lparr>fs_poller := pl, fs_tasks := Suc (fs_tasks s)\<rparr>)"
      using new_task_ok [OF fs_invD(2) [OF inv] room [OF timer(2)]] fs_invD(3) [OF inv] by (metis resumes_simps(5))
    have "fs_inv {#} (set_pc f SleepYield (s\<lparr>fs_poller := pl, fs_tasks := Suc (fs_tasks s)\<rparr>))"
      by (rule inv_timer [OF inv w refl]) (use p(2-4) in \<open>simp_all add: timer pc_simps numeral_2_eq_2\<close>)
    with r p(1) show ?thesis by (auto simp: sleep_step_def timer)
  next
    case yield
    have "fs_inv {#} (switch_out k f SleepBack s)" by (rule inv_off [OF inv w]) (simp_all add: yield pc_simps)
    with r show ?thesis by (auto simp: sleep_step_def yield)
  next
    case woken
    have "fs_inv {#} (set_pc f InUser s)"
      by (rule inv_move [OF inv w]) (use wi(1) in \<open>simp_all add: woken pc_simps\<close>)
    with r show ?thesis by (auto simp: sleep_step_def woken)
  qed
qed

lemma io_step_ok:
  assumes inv: "fs_inv {#} s" and w: "on_worker s k f" and r: "io_step cap k f c s = Some r"
    and room: "\<And>now. c = KTime now \<Longrightarrow> pipe_bytes (fs_poller s) < cap"
    and al: "\<And>op. act_op (fs_pc s f) f c = Some op \<Longrightarrow> op_allowed low32 op (fs_poller s)"
  shows "step_ok r"
proof -
  note wi = workers_invD [OF fs_invD(1) [OF inv]]
  have f: "f < fs_fibers s" using wi(5) w by blast
  consider (attempt) fd ev to t again where "fs_pc s f = IoTry fd ev to t" "c = KAgain again"
    | (timer) fd ev to t now where "fs_pc s f = IoTimer fd ev to t" "c = KTime now"
    | (add) fd ev to t tm rt where "fs_pc s f = IoAdd fd ev to t tm" "c = KCtl rt"
    | (fail) t tm where "fs_pc s f = IoFail t tm" "c = Go"
    | (yield) fd ev to t tm where "fs_pc s f = IoYield fd ev to t tm" "c = Go"
    | (woken) fd ev to t tm where "fs_pc s f = IoBack fd ev to t tm" "c = Go"
    | (look) fd ev to t where "fs_pc s f = IoLook fd ev to t" "c = Go"
    using r by (auto simp: io_step_def split: fpc.splits decision.splits)
  then show ?thesis
  proof cases
    case attempt
    have "fs_inv {#} (set_pc f (IoTimer fd ev to t) s)" "fs_inv {#} (set_pc f InUser (set_info t None s))"
      by (rule inv_move [OF inv w]; use wi(1) in \<open>simp add: attempt pc_simps\<close>)+
    with r show ?thesis by (auto simp: io_step_def attempt)
  next
    case timer
    show ?thesis
    proof (cases "to = - 1")
      case True
      have "fs_inv {#} (set_pc f (IoAdd fd ev to t None) s)"
        by (rule inv_move [OF inv w]) (use wi(1) in \<open>simp_all add: timer pc_simps\<close>)
      with r True show ?thesis by (auto simp: io_step_def timer)
    next
      case False
      obtain pl where p: "new_task cap (TimeOut t fd ev) to now s = Inr (s\<lparr>fs_poller := pl, fs_tasks := Suc (fs_tasks s)\<rparr>)"
        "poller_wakes pl = poller_wakes (fs_poller s)" "poller_ok pl"
        "timer_kept s (s\<lparr>fs_poller := pl, fs_tasks := Suc (fs_tasks s)\<rparr>)"
        "m_cb (heap (pl_timer pl) (fs_tasks s)) = Some (TimeOut t fd ev)"
        using new_task_ok [OF fs_invD(2) [OF inv] room [OF timer(2)]] fs_invD(3) [OF inv] by (metis resumes_simps(6) add.right_neutral)
      have "fs_inv {#} (set_pc f (IoAdd fd ev to t (Some (fs_tasks s))) (s\<lparr>fs_poller := pl, fs_tasks := Suc (fs_tasks s)\<rparr>))"
        by (rule inv_timer [OF inv w refl]) (use p(2-5) in \<open>simp_all add: timer pc_simps\<close>)
      with r p(1) False show ?thesis by (auto simp: io_step_def timer)
    qed
  next
    case add
    have "op_allowed low32 (AddEvent fd ev (Some (Resume f)) rt) (fs_poller s)" using al by (simp add: act_op_def add)
    moreover have "op_moves (AddEvent fd ev (Some (Resume f)) rt)" by (simp add: op_moves_def)
    ultimately obtain pl out where p: "poller_do low32 (AddEvent fd ev (Some (Resume f)) rt) (fs_poller s) = Inr (pl, out)" "poller_ok pl"
      "pl_timer pl = pl_timer (fs_poller s)"
      "poller_wakes pl + resumes out = poller_wakes (fs_poller s) + op_adds (AddEvent fd ev (Some (Resume f)) rt)"
      using op_allowed_ok [OF fs_invD(3) [OF inv]] by blast
    obtain b where b: "addEvent fd ev (Some (Resume f)) rt (fs_poller s) = Inr (pl, b)" "out = []"
      using p(1) by (auto simp: poller_do_def bindR_eq_Inr)
    have rt: "b = rt" using b(1) by (auto simp: addEvent_def Let_def bindR_eq_Inr split: if_splits)
    have "fs_inv {#} (set_pc f (if b \<noteq> 0 then IoFail t tm else IoYield fd ev to t tm) (s\<lparr>fs_poller := pl\<rparr>))"
      by (rule inv_event [OF inv w refl p(2,3)]) (use p(4) in \<open>simp_all add: add op_adds_def pc_simps rt b(2) numeral_2_eq_2\<close>)
    with r b(1) show ?thesis by (auto simp: io_step_def add)
  next
    case fail
    obtain pl where p: "cancel_task tm s = Inr (s\<lparr>fs_poller := pl\<rparr>)" "poller_wakes pl = poller_wakes (fs_poller s)"
      "poller_ok pl" "timer_kept s (s\<lparr>fs_poller := pl\<rparr>)"
      using cancel_task_ok [OF fs_invD(2) [OF inv], of tm] timers_invD(3,4) [OF fs_invD(2) [OF inv] f] fs_invD(3) [OF inv]
      by (auto simp: fail tm_of_def)
    have "fs_inv {#} (set_pc f InUser (set_info t None (s\<lparr>fs_poller := pl\<rparr>)))"
      by (rule inv_timer [OF inv w refl]) (use p(2-4) in \<open>simp_all add: fail pc_simps timer_kept_def\<close>)
    with r p(1) show ?thesis by (auto simp: io_step_def fail)
  next
    case yield
    have "fs_inv {#} (switch_out k f (IoBack fd ev to t tm) s)" by (rule inv_off [OF inv w]) (simp_all add: yield pc_simps)
    with r show ?thesis by (auto simp: io_step_def yield)
  next
    case woken
    obtain pl where p: "cancel_task tm s = Inr (s\<lparr>fs_poller := pl\<rparr>)" "poller_wakes pl = poller_wakes (fs_poller s)"
      "poller_ok pl" "timer_kept s (s\<lparr>fs_poller := pl\<rparr>)"
      using cancel_task_ok [OF fs_invD(2) [OF inv], of tm] timers_invD(3,4) [OF fs_invD(2) [OF inv] f] fs_invD(3) [OF inv]
      by (auto simp: woken tm_of_def)
    have "fs_inv {#} (set_pc f (IoLook fd ev to t) (s\<lparr>fs_poller := pl\<rparr>))"
      by (rule inv_timer [OF inv w refl]) (use p(2-4) in \<open>simp_all add: woken pc_simps\<close>)
    with r p(1) show ?thesis by (auto simp: io_step_def woken)
  next
    case look
    have "fs_inv {#} (set_pc f InUser (set_info t None s))" "fs_inv {#} (set_pc f (IoTry fd ev to t) s)"
      by (rule inv_move [OF inv w]; use wi(1) in \<open>simp add: look pc_simps\<close>)+
    with r show ?thesis by (auto simp: io_step_def look)
  qed
qed

lemma timeout_step_ok:
  assumes inv: "fs_inv {#} s" and w: "on_worker s k f" and r: "timeout_step f c s = Some r"
    and al: "\<And>op. act_op (fs_pc s f) f c = Some op \<Longrightarrow> op_allowed low32 op (fs_poller s)"
  shows "step_ok r"
proof -
  note wi = workers_invD [OF fs_invD(1) [OF inv]]
  consider (test) t fd ev where "fs_pc s f = TmTest t fd ev" "c = Go"
    | (cancels) fd ev rt where "fs_pc s f = TmCancel fd ev" "c = KCtl rt"
    using r by (auto simp: timeout_step_def split: fpc.splits decision.splits)
  then show ?thesis
  proof cases
    case test
    have "fs_inv {#} (set_pc f (TmCancel fd ev) (set_info t (Some ETIMEDOUT) s))" "fs_inv {#} (set_pc f Leaving s)"
      by (rule inv_move [OF inv w]; use wi(1) in \<open>simp add: test pc_simps\<close>)+
    with r show ?thesis by (auto simp: timeout_step_def test)
  next
    case cancels
    have "op_allowed low32 (CancelEvent fd ev rt) (fs_poller s)" using al by (simp add: act_op_def cancels)
    moreover have "op_moves (CancelEvent fd ev rt)" by (simp add: op_moves_def)
    ultimately obtain pl out where p: "poller_do low32 (CancelEvent fd ev rt) (fs_poller s) = Inr (pl, out)" "poller_ok pl"
      "pl_timer pl = pl_timer (fs_poller s)" "poller_wakes pl + resumes out = poller_wakes (fs_poller s) + op_adds (CancelEvent fd ev rt)"
      using op_allowed_ok [OF fs_invD(3) [OF inv]] by blast
    then obtain b where "cancelEvent fd ev rt (fs_poller s) = Inr (pl, out, b)"
      by (auto simp: poller_do_def bindR_eq_Inr)
    moreover have "fs_inv {#} (set_pc f (Spawn out False) (s\<lparr>fs_poller := pl\<rparr>))"
      by (rule inv_event [OF inv w refl p(2,3)]) (use p(4) in \<open>simp_all add: cancels op_adds_def pc_simps\<close>)
    ultimately show ?thesis using r by (auto simp: timeout_step_def cancels)
  qed
qed

lemma push_set_pc: "set_pc f x (fs_push g k s) = fs_push g k (set_pc f x s)"
  by (simp add: set_pc_def fs_push_def Let_def set_worker_def)

lemma resume_step_ok:
  assumes inv: "fs_inv {#} s" and w: "on_worker s k f" and r: "resume_step f c s = Some r"
  shows "step_ok r"
proof -
  note wi = workers_invD [OF fs_invD(1) [OF inv]]
  have f: "f < fs_fibers s" using wi(5) w by blast
  consider (choice) g where "fs_pc s f = ResPick g" "c = Go" | (push) g j where "fs_pc s f = ResPush g j" "c = Go"
    using r by (auto simp: resume_step_def split: fpc.splits decision.splits)
  then show ?thesis
  proof cases
    case choice
    obtain j i where ji: "fs_pick (fs_proc s g) s = Inr (j, i)" "j < length (fs_workers s)" "i < length (fs_workers s)"
      "\<And>n h. fs_proc s g = Some n \<Longrightarrow> on_worker s n h \<Longrightarrow> j = n"
      using fs_pick_ok [OF fs_invD(1) [OF inv], of "fs_proc s g"] wi(10) by blast
    have own: "j = n" if "on_worker s n g" for n using ji(4) wi(4) that by blast
    have "fs_inv {#} (set_pc f (ResPush g j) (s\<lparr>fs_rr := i\<rparr>))"
      by (rule inv_move [OF inv w]) (use ji(2,3) own in \<open>simp_all add: choice pc_simps\<close>)
    with r ji(1) show ?thesis by (auto simp: resume_step_def choice)
  next
    case push
    have 1: "fs_inv ({#g#} + {#}) (set_pc f Leaving s)"
      by (rule inv_move [OF inv w]) (use wi(1) in \<open>simp_all add: push pc_simps\<close>)
    have ow: "on_worker (set_pc f Leaving s) = on_worker s" by (simp add: on_worker_def fun_eq_iff)
    have "fs_inv {#} (fs_push g j (set_pc f Leaving s))"
      by (rule inv_push [OF 1]) (use wi(8,9) [OF f push(1)] in \<open>auto simp: ow\<close>)
    with r show ?thesis by (auto simp: resume_step_def push push_set_pc)
  qed
qed

lemma create_ok: "fs_inv (resume_of cb) s \<Longrightarrow> step_ok (fs_create cb s)"
  by (rule inv_create [of cb "{#}" s]) simp_all

lemma spawn_step_ok:
  assumes inv: "fs_inv {#} s" and w: "on_worker s k f" and r: "spawn_step k f c s = Some r"
  shows "step_ok r"
proof -
  note wi = workers_invD [OF fs_invD(1) [OF inv]]
  consider (make) cb cbs b where "fs_pc s f = Spawn (cb # cbs) b" "c = Go" | (none) b where "fs_pc s f = Spawn [] b" "c = Go"
    | (leave) "fs_pc s f = Leaving" "c = Go"
    using r by (auto simp: spawn_step_def split: fpc.splits decision.splits list.splits)
  then show ?thesis
  proof cases
    case make
    have "fs_inv (resume_of cb) (set_pc f (Spawn cbs b) s)"
      by (rule inv_move [OF inv w]) (use wi(1) in \<open>simp_all add: make pc_simps\<close>)
    from create_ok [OF this] show ?thesis using r by (auto simp: spawn_step_def make)
  next
    case none
    have "fs_inv {#} (set_pc f (if b then InUser else Leaving) s)"
      by (rule inv_move [OF inv w]) (use wi(1) in \<open>simp_all add: none pc_simps split: if_splits\<close>)
    with r show ?thesis by (auto simp: spawn_step_def none)
  next
    case leave
    have "fs_inv {#} (switch_out k f Ended s)" by (rule inv_off [OF inv w]) (simp_all add: leave pc_simps)
    with r show ?thesis by (auto simp: spawn_step_def leave)
  qed
qed

lemma act_step_ok:
  assumes inv: "fs_inv {#} s" and k: "k < length (fs_workers s)" and r: "act_step cap k c s = Some r"
    and ok: "move_ok cap low32 (Act k c) s"
  shows "step_ok r"
proof -
  obtain f where cur: "w_cur (fs_workers s ! k) = Some f"
    using r by (auto simp: act_step_def split: option.splits)
  have w: "on_worker s k f" using k cur by (simp add: on_worker_def)
  have room: "pipe_bytes (fs_poller s) < cap" if "c = KTime now" for now using ok that by (simp add: move_ok_def cur)
  have al: "op_allowed low32 op (fs_poller s)" if "act_op (fs_pc s f) f c = Some op" for op
    using ok that by (simp add: move_ok_def cur)
  have "user_step f c s = Some r \<or> sleep_step cap k f c s = Some r \<or> resume_step f c s = Some r \<or>
      timeout_step f c s = Some r \<or> spawn_step k f c s = Some r \<or> io_step cap k f c s = Some r"
    using r by (auto simp: act_step_def cur split: fpc.splits)
  then show ?thesis
  proof (elim disjE)
    assume "user_step f c s = Some r"
    then show ?thesis by (rule user_step_ok [OF inv w _ al])
  next
    assume "sleep_step cap k f c s = Some r"
    then show ?thesis by (rule sleep_step_ok [OF inv w _ room])
  next
    assume "timeout_step f c s = Some r"
    then show ?thesis by (rule timeout_step_ok [OF inv w _ al])
  next
    assume "io_step cap k f c s = Some r"
    then show ?thesis by (rule io_step_ok [OF inv w _ room al])
  qed (rule resume_step_ok [OF inv w], assumption, rule spawn_step_ok [OF inv w])
qed

text \<open>The poller thread.\<close>

lemma expire_ok:
  assumes inv: "fs_inv {#} s" and r: "poller_thread low32 (Expire now_ms now2) s = Some r"
  shows "step_ok r"
proof -
  note ti = timers_invD [OF fs_invD(2) [OF inv]]
  obtain t cbs where g: "getExecuteTask now_ms now2 (fs_tasks s) (pl_timer (fs_poller s)) = (t, cbs)" by fastforce
  note w = getExecuteTask_wakes [OF ti(1,2) g]
  let ?pl = "(fs_poller s)\<lparr>pl_timer := t\<rparr>"
  have "timer_ok {..<fs_tasks s} t" using timer_ok_getExecuteTask [OF ti(1), of now_ms now2 "fs_tasks s"] by (simp add: g)
  then have tk: "timer_kept s (s\<lparr>fs_poller := ?pl, fs_todo := fs_todo s @ cbs\<rparr>)"
    using w(2,3) by (simp add: timer_kept_def)
  have "poller_wakes ?pl + resumes (fs_todo s @ cbs) + {#} =
      event_wakes (m_fdContexts (fs_poller s)) + (timer_wakes t + resumes cbs) + resumes (fs_todo s)"
    by (simp add: poller_wakes_def union_ac)
  also have "\<dots> = poller_wakes (fs_poller s) + resumes (fs_todo s) + {#}"
    unfolding w(1) by (simp add: poller_wakes_def)
  finally have "fs_inv {#} (s\<lparr>fs_poller := ?pl, fs_todo := fs_todo s @ cbs\<rparr>)"
    using fs_invD(3) [OF inv] by (intro inv_poller [OF inv refl _ tk]) (simp_all add: poller_ok_def)
  with r show ?thesis by (auto simp: poller_thread_def g)
qed

lemma reported_ok:
  assumes inv: "fs_inv {#} s" and r: "poller_thread low32 (Reported ev rt) s = Some r" and ok: "report_ok low32 ev (fs_poller s)"
  shows "step_ok r"
proof -
  have "op_allowed low32 (Report ev rt) (fs_poller s)"
    using ok by (simp add: op_allowed_def poller_op_ok_def op_fresh_def)
  moreover have "op_moves (Report ev rt)" by (simp add: op_moves_def)
  ultimately obtain pl out where p: "poller_do low32 (Report ev rt) (fs_poller s) = Inr (pl, out)" "poller_ok pl"
    "pl_timer pl = pl_timer (fs_poller s)" "poller_wakes pl + resumes out = poller_wakes (fs_poller s) + op_adds (Report ev rt)"
    using op_allowed_ok [OF fs_invD(3) [OF inv]] by blast
  have tk: "timer_kept s (s\<lparr>fs_poller := pl, fs_todo := fs_todo s @ out\<rparr>)"
    by (rule timer_kept_same [OF fs_invD(2) [OF inv]]) (simp_all add: p(3))
  have "poller_wakes pl + resumes (fs_todo s @ out) + {#} = (poller_wakes pl + resumes out) + resumes (fs_todo s)"
    by (simp add: union_ac)
  also have "\<dots> = poller_wakes (fs_poller s) + resumes (fs_todo s) + {#}" unfolding p(4) by (simp add: op_adds_def)
  finally have "fs_inv {#} (s\<lparr>fs_poller := pl, fs_todo := fs_todo s @ out\<rparr>)"
    by (intro inv_poller [OF inv refl p(2) tk])
  with r p(1) show ?thesis by (auto simp: poller_thread_def poller_do_def)
qed

lemma make_ok:
  assumes inv: "fs_inv {#} s" and r: "poller_thread low32 MakeFiber s = Some r"
  shows "step_ok r"
proof -
  obtain cb cbs where todo: "fs_todo s = cb # cbs" and c: "r = fs_create cb (s\<lparr>fs_todo := cbs\<rparr>)"
    using r by (auto simp: poller_thread_def split: list.splits)
  have same: "s\<lparr>fs_todo := cbs\<rparr> = s\<lparr>fs_poller := fs_poller s, fs_todo := cbs\<rparr>" by simp
  have "timer_kept s (s\<lparr>fs_todo := cbs\<rparr>)" by (rule timer_kept_same [OF fs_invD(2) [OF inv]]) simp_all
  then have "fs_inv (resume_of cb) (s\<lparr>fs_todo := cbs\<rparr>)"
    by (intro inv_poller [OF inv same fs_invD(3) [OF inv]]) (simp_all add: todo union_ac)
  from create_ok [OF this] show ?thesis by (simp add: c)
qed

text \<open>A processer that waits, and wakes up.\<close>

lemma inv_idle:
  assumes inv: "fs_inv {#} s" and k: "k < length (fs_workers s)" and off: "w_cur (fs_workers s ! k) = None"
    and st: "st = Running \<or> st = Idle"
  shows "fs_inv {#} (set_worker k ((fs_workers s ! k)\<lparr>w_state := st\<rparr>) s)"
proof -
  let ?w = "(fs_workers s ! k)\<lparr>w_state := st\<rparr>"
  let ?s = "set_worker k ?w s"
  note wi = workers_invD [OF fs_invD(1) [OF inv]]
  have s': "fs_workers ?s = (fs_workers s)[k := ?w]" "fs_pc ?s = fs_pc s" "fs_fibers ?s = fs_fibers s"
    "fs_proc ?s = fs_proc s" "fs_todo ?s = fs_todo s" "fs_rr ?s = fs_rr s" "fs_poller ?s = fs_poller s" "fs_tasks ?s = fs_tasks s"
    by (simp_all add: set_worker_def)
  have ow: "on_worker ?s j f \<longleftrightarrow> on_worker s j f" "in_queue ?s j f \<longleftrightarrow> in_queue s j f" for j f
    by (cases "j = k"; use k in \<open>simp add: on_worker_def in_queue_def s'(1)\<close>)+
  have len: "length (fs_workers ?s) = length (fs_workers s)" by (simp add: s'(1))
  have "workers_inv ?s"
    unfolding workers_inv_def ow s'(2,3,4,6) len
  proof (intro conjI allI impI)
    fix j assume "j < length (fs_workers s)"
    then show "w_state (fs_workers ?s ! j) \<in> {Running, Idle}" using wi(2) [of j] st by (cases "j = k") (auto simp: s'(1))
  next
    fix j f assume j: "on_worker s j f"
    with off have "j \<noteq> k" by (auto simp: on_worker_def)
    then show "w_state (fs_workers ?s ! j) = Running" using wi(3) [OF j] by (simp add: s'(1))
    show "fs_proc s f = Some j" "f < fs_fibers s" using wi(4,5) j by blast+
  next
    fix i j f assume "in_queue s i f" "on_worker s j f"
    then show "i = j" using wi(7) by blast
  next
    fix h f j assume h: "h < fs_fibers s" "fs_pc s h = ResPush f j"
    show "j < length (fs_workers s)" using wi(8) [OF h] .
    show "\<And>i. on_worker s i f \<Longrightarrow> j = i" using wi(9) [OF h] .
  qed (use wi(1,6,10) in blast)+
  moreover have "timers_inv ?s" using fs_invD(2) [OF inv] by (simp add: timers_inv_def s')
  moreover have "running ?s + queued_on ?s + wakes ?s + {#} = due ?s"
  proof -
    have "running ?s = running s" "queued_on ?s = queued_on s"
      using worker_upd [OF k s'(1)] by (simp_all add: cur_of_def)
    moreover have "wakes ?s = wakes s" "due ?s = due s" by (simp_all add: wakes_def due_def s')
    ultimately show ?thesis using fs_invD(4) [OF inv] by simp
  qed
  ultimately show ?thesis using fs_invD(3) [OF inv] by (simp add: fs_inv_def s')
qed

text \<open>Every allowed move that is possible succeeds and keeps the invariant.\<close>

lemma fs_step_ok:
  assumes inv: "fs_inv {#} s" and ok: "move_ok cap low32 m s" and r: "fs_step cap low32 m s = Some r"
  shows "step_ok r"
proof (cases m)
  case (Take k)
  with r inv_take [OF inv, of k] show ?thesis by (auto simp: fs_step_def split: if_splits)
next
  case (ToIdle k)
  with r inv_idle [OF inv, of k Idle] show ?thesis by (auto simp: fs_step_def split: if_splits)
next
  case (FromIdle k)
  have "w_cur (fs_workers s ! k) = None" if "k < length (fs_workers s)" "w_state (fs_workers s ! k) = Idle"
    using workers_invD(3) [OF fs_invD(1) [OF inv], of k] that by (cases "w_cur (fs_workers s ! k)") (auto simp: on_worker_def)
  with FromIdle r inv_idle [OF inv, of k Running] show ?thesis by (auto simp: fs_step_def split: if_splits)
next
  case (Act k c)
  with r ok act_step_ok [OF inv, of k cap c r low32] show ?thesis by (auto simp: fs_step_def split: if_splits)
next
  case (Expire now_ms now2)
  with r expire_ok [OF inv] show ?thesis by (auto simp: fs_step_def)
next
  case (Reported ev rt)
  with r ok reported_ok [OF inv, of low32 ev rt] show ?thesis by (auto simp: fs_step_def move_ok_def)
next
  case MakeFiber
  with r make_ok [OF inv] show ?thesis by (auto simp: fs_step_def)
next
  case Outside
  with r create_ok [of None s] inv show ?thesis by (auto simp: fs_step_def)
qed

end
