(* ===== verification/FiberRuns.thy ===== *)
theory FiberRuns
  imports FiberSteps
begin

text \<open>
  The states that fibers, processers and poller reach together from the start, what holds in all
  of them, and two runs with which the code does not do what it means to.
\<close>

section \<open>Reachable states\<close>

text \<open>
  From a new poller, with no timers and any memory for them, and \<open>n\<close> processers that run.
\<close>

inductive fs_reach :: "nat \<Rightarrow> (nat \<Rightarrow> int) \<Rightarrow> fsys \<Rightarrow> bool" for cap low32 where
  start: "Poller_ctor rt_pipe rt_add pipe0 (Timer_ctor h now) = Inr pl \<Longrightarrow> (\<forall>p. \<not> m_recurring (h p)) \<Longrightarrow> 0 < n \<Longrightarrow>
          fs_reach cap low32 (fs_init pl n)"
| step: "fs_reach cap low32 s \<Longrightarrow> move_ok cap low32 m s \<Longrightarrow> fs_step cap low32 m s = Some (Inr s') \<Longrightarrow>
         fs_reach cap low32 s'"

lemma fs_init_inv:
  assumes pl: "Poller_ctor rt_pipe rt_add pipe0 (Timer_ctor h now) = Inr pl" and h: "\<forall>p. \<not> m_recurring (h p)" and n: "0 < n"
  shows "fs_inv {#} (fs_init pl n)"
proof -
  let ?s = "fs_init pl n"
  have pl': "pl_timer pl = Timer_ctor h now" "m_fdContexts pl = resize 64 []"
    using pl by (auto simp: Poller_ctor_def epoll_log_def split: if_splits)
  have s: "fs_poller ?s = pl" "fs_fibers ?s = 0" "fs_tasks ?s = 0" "fs_todo ?s = []" "fs_rr ?s = 0"
    "fs_workers ?s = replicate n worker_new" "fs_proc ?s = (\<lambda>_. None)" by (simp_all add: fs_init_def)
  have "\<not> on_worker ?s k f" "\<not> in_queue ?s k f" for k f by (auto simp: on_worker_def in_queue_def s(6) worker_new_def)
  then have "workers_inv ?s" using n by (simp add: workers_inv_def s worker_new_def)
  moreover have "timers_inv ?s" using timer_ok_ctor [of h now] h by (simp add: timers_inv_def s pl') (simp add: Timer_ctor_def)
  moreover have "sum_list (replicate n ({#} :: nat multiset)) = {#}" by (induction n) simp_all
  then have "running ?s = {#}" "queued_on ?s = {#}" by (simp_all add: running_def queued_on_def s(6) worker_new_def cur_of_def)
  moreover have "wakes ?s = {#}"
    using event_wakes_resize [of "[]" 64] by (simp add: wakes_def poller_wakes_def s pl' event_wakes_def timer_wakes_def Timer_ctor_def)
  moreover have "due ?s = {#}" by (simp add: due_def s(2))
  ultimately show ?thesis using Poller_ctor_ok [OF pl] by (simp add: fs_inv_def s(1))
qed

lemma fs_reach_inv: "fs_reach cap low32 s \<Longrightarrow> fs_inv {#} s"
proof (induction rule: fs_reach.induct)
  case (start rt_pipe rt_add pipe0 h now pl n)
  then show ?case by (rule fs_init_inv)
next
  case (step s m s')
  then show ?case using fs_step_ok [of s cap low32 m "Inr s'"] by simp
qed

text \<open>A schedule whose moves are all allowed leads to a reachable state.\<close>

fun moves_ok :: "nat \<Rightarrow> (nat \<Rightarrow> int) \<Rightarrow> fmove list \<Rightarrow> fsys \<Rightarrow> bool" where
  "moves_ok cap low32 [] s = True"
| "moves_ok cap low32 (m # ms) s = (move_ok cap low32 m s \<and> (case fs_step cap low32 m s of
     Some (Inr s') \<Rightarrow> moves_ok cap low32 ms s' | _ \<Rightarrow> False))"

lemma fs_run_reach:
  "fs_reach cap low32 s \<Longrightarrow> moves_ok cap low32 ms s \<Longrightarrow> fs_run cap low32 ms s = Some (Inr s') \<Longrightarrow> fs_reach cap low32 s'"
proof (induction ms arbitrary: s)
  case (Cons m ms)
  then obtain s1 where s1: "fs_step cap low32 m s = Some (Inr s1)" "move_ok cap low32 m s" "moves_ok cap low32 ms s1"
    by (auto split: option.splits sum.splits)
  then have "fs_reach cap low32 s1" using Cons.prems(1) by (blast intro: fs_reach.step)
  with Cons.IH s1 Cons.prems(3) show ?case by simp
qed simp

subsection \<open>Schedules for witnesses\<close>

definition demo_timer :: "callback timer" where
  "demo_timer = Timer_ctor (\<lambda>_. TimerTask_ctor None 0 False 0) 0"

definition demo_fs :: "nat \<Rightarrow> fsys" where
  "demo_fs n = fs_init (case Poller_ctor 0 0 3 demo_timer of Inr pl \<Rightarrow> pl | Inl e \<Rightarrow> undefined) n"

lemma demo_fs_reach: "0 < n \<Longrightarrow> fs_reach cap low32 (demo_fs n)"
  unfolding demo_fs_def demo_timer_def
  by (rule fs_reach.start [of 0 0 3 "\<lambda>_. TimerTask_ctor None 0 False 0" 0]) (simp_all add: Poller_ctor_def TimerTask_ctor_def)

text \<open>Two processers; a fiber waits for descriptor 5 with a timeout of 100 milliseconds.\<close>

definition wait_moves :: "fmove list" where
  "wait_moves = [Outside, Take 0, Act 0 (UIo 5 EV_READ 100), Act 0 (KAgain True), Act 0 (KTime 0), Act 0 (KCtl 0)]"

lemma run_case: "(case r of Some (Inr s) \<Rightarrow> P s | _ \<Rightarrow> False) \<longleftrightarrow> (\<exists>s. r = Some (Inr s) \<and> P s)"
  by (auto split: option.split sum.split)

lemma wait_run:
  "\<exists>s. fs_run 8 int wait_moves (demo_fs 2) = Some (Inr s) \<and> length (fs_workers s) = 2 \<and> w_cur (fs_workers s ! 0) = Some 0 \<and>
     fs_fibers s = 1 \<and> fs_pc s 0 = IoYield 5 EV_READ 100 0 (Some 0)"
  unfolding run_case [symmetric] by code_simp

lemma wait_reach: "fs_run 8 int wait_moves (demo_fs 2) = Some (Inr s) \<Longrightarrow> fs_reach 8 int s"
proof (rule fs_run_reach [OF demo_fs_reach, where ms = wait_moves])
  show "moves_ok 8 int wait_moves (demo_fs 2)" by code_simp
qed simp_all

text \<open>The same, but its timer goes off after it was set and before the event is registered.\<close>

definition lost_moves :: "fmove list" where
  "lost_moves = [Outside, Take 0, Act 0 (UIo 5 EV_READ 100), Act 0 (KAgain True), Act 0 (KTime 0),
     Expire 200 200, ToIdle 1, MakeFiber, FromIdle 1, Take 1, Act 1 Go, Act 1 (KCtl 0), Act 1 Go, Act 1 Go,
     Act 0 (KCtl 0), Act 0 Go]"

text \<open>
  A fiber waits to write on descriptor 5, is woken and returns; another waits to read on it, and
  the kernel reports a hang-up.
\<close>

definition hangup_moves :: "fmove list" where
  "hangup_moves = [Outside, Take 0, Act 0 (UIo 5 EV_WRITE (- 1)), Act 0 (KAgain True), Act 0 (KTime 0), Act 0 (KCtl 0), Act 0 Go,
     Reported \<lparr>ee_events = EPOLLIN, ee_data = DataPtr 5\<rparr> 0, MakeFiber, Take 0, Act 0 Go, Act 0 Go, Act 0 Go,
     Take 0, Act 0 Go, Act 0 Go, Act 0 (KAgain False), Act 0 UReturn, Act 0 Go,
     Outside, Take 0, Act 0 (UIo 5 EV_READ (- 1)), Act 0 (KAgain True), Act 0 (KTime 0), Act 0 (KCtl 0), Act 0 Go]"

definition hangup_rest :: "fmove list" where
  "hangup_rest = [Reported \<lparr>ee_events = EPOLLHUP, ee_data = DataPtr 5\<rparr> 0, MakeFiber, MakeFiber,
     Take 0, Act 0 Go, Act 0 Go, Act 0 Go, Take 0, Act 0 Go, Act 0 Go, Act 0 Go,
     Take 0, Act 0 Go, Act 0 Go, Act 0 (KAgain False), Act 0 UReturn, Act 0 Go, Take 0]"

section \<open>Properties\<close>

lemma queued_once:
  assumes inv: "fs_inv {#} s"
  shows "count (queued_on s) f \<le> 1"
proof -
  have c: "count (running s) f + count (queued_on s) f \<le> (if f < fs_fibers s then weight (fs_pc s f) else 0)"
    using fs_count [OF inv, of f] by linarith
  show ?thesis
  proof (cases "f < fs_fibers s \<and> on_cpu (fs_pc s f)")
    case True
    then have "f \<in># running s" using workers_invD(6) [OF fs_invD(1) [OF inv]] by (simp add: member_running)
    then have "0 < count (running s) f" by simp
    moreover have "weight (fs_pc s f) \<le> 2" by (cases "fs_pc s f") (simp_all add: weight_def)
    ultimately show ?thesis using c True by (simp only: simp_thms if_True)
  next
    case False
    with c weight_le [of "fs_pc s f"] show ?thesis by (auto split: if_splits)
  qed
qed









end
