(* ===== verification/Shutdown.thy ===== *)
theory Shutdown
  imports Wakeup
begin

text \<open>
  Shutting the scheduler down while everything runs: the thread that destroys it
  (\<open>~Scheduler\<close> and \<open>Scheduler::stop\<close> of \<open>src/fiber/scheduler.cc\<close>), the threads of the processers
  (\<open>Processer::execute\<close>) and the thread of the poller (\<open>Poller::networkPoller\<close>), one step for each
  access to what they share. The inner steps of \<open>getNewFibers\<close>, \<open>idle\<close>, \<open>notify\<close> and \<open>addFiber\<close>
  are those of \<open>Wakeup\<close>.
\<close>

section \<open>Program counters and shared state\<close>

text \<open>
  A processer: before \<open>m_state = running\<close>; at the test of the outer loop; at the test for a
  runnable fiber; in \<open>getNewFibers\<close>, followed by \<open>idle\<close> or not (the place is the consumer of its
  \<open>wk\<close>); at the test of the inner loop, with a fiber in hand; in the fiber, which still adds
  fibers to the listed processers before it switches out, and is in a call of \<open>addFiber\<close> for the
  first; at the test of \<open>m_newfiberCount\<close> after the switch; out of \<open>execute\<close>.
\<close>

datatype proc_pc = SStart | SHead | SPick | SNew bool | SInner | SSeg "nat list" apc | SMore | SExit

text \<open>
  The poller: before \<open>m_state = running\<close>; at the two reads of the first test; before
  \<open>epoll_wait\<close>; at the two reads of the second test; handing out fibers, to the listed
  processers (\<open>True\<close> for a timer, which is dropped once the poller is stopping), in a call of
  \<open>addFiber\<close> or before one; out of the loop.
\<close>

datatype poll_pc =
    LStart | LTop | LTop2 | LWait | LTest | LTest2 | LWork "(bool \<times> nat) list" "apc option" | LExit

text \<open>
  The owner: using the scheduler, perhaps in a call of \<open>addFiber\<close>; in \<open>stop\<close>, before it sets the
  state of a processer and in its \<open>notify\<close>; joining a processer; at \<open>m_poller->stopping()\<close>; before
  \<open>m_poller->setState\<close>; before \<open>m_poller->notify()\<close>; joining the poller; deleting; done.
\<close>

datatype own_pc =
    MRun "(nat \<times> apc) option" | MState nat | MNote nat apc | MJoin nat | MTest | MSet | MWake
  | MJoinP | MDel | MDone

record shut =
  sd_n :: nat
  sd_sched :: TaskState
  sd_wk :: "nat \<Rightarrow> wk"
  sd_pc :: "nat \<Rightarrow> proc_pc"
  sd_pstate :: TaskState
  sd_ppc :: poll_pc
  sd_main :: own_pc

text \<open>
  After \<open>start\<close>: the threads exist, and each may or may not have begun its function; for the
  poller this is said by \<open>begun\<close>.
\<close>

definition sd_init :: "nat \<Rightarrow> bool \<Rightarrow> shut" where
  "sd_init n begun = \<lparr>sd_n = n, sd_sched = Running, sd_wk = (\<lambda>_. (wk_init 0)\<lparr>wk_state := Init\<rparr>),
     sd_pc = (\<lambda>_. SStart), sd_pstate = (if begun then Running else Init),
     sd_ppc = (if begun then LTop else LStart), sd_main = MRun None\<rparr>"

section \<open>Steps\<close>

text \<open>One step of thread \<open>i\<close> in \<open>addFiber\<close> or \<open>notify\<close> of processer \<open>k\<close>.\<close>

definition sd_call :: "nat \<Rightarrow> nat \<Rightarrow> nat \<Rightarrow> apc \<Rightarrow> shut \<Rightarrow> (shut \<times> apc) option" where
  "sd_call cap i k pc s = (case call_step cap i pc (sd_wk s k) of
     None \<Rightarrow> None
   | Some (w, pc') \<Rightarrow> Some (s\<lparr>sd_wk := (sd_wk s)(k := w)\<rparr>, pc'))"

definition proc_at :: "nat \<Rightarrow> wk \<Rightarrow> proc_pc \<Rightarrow> shut \<Rightarrow> shut" where
  "proc_at k w pc s = s\<lparr>sd_wk := (sd_wk s)(k := w), sd_pc := (sd_pc s)(k := pc)\<rparr>"

text \<open>In \<open>getNewFibers\<close>, and in \<open>idle\<close> when it follows and nothing is runnable.\<close>

definition proc_new :: "nat \<Rightarrow> bool \<Rightarrow> shut \<Rightarrow> shut option" where
  "proc_new k idle s = (let w = sd_wk s k in
     if consumer w = CCheck \<and> (\<not> idle \<or> runnable_n w \<noteq> 0)
     then Some (proc_at k (w\<lparr>consumer := CPoll\<rparr>) SHead s)
     else (case cstep w of
       None \<Rightarrow> None
     | Some w' \<Rightarrow> Some (proc_at k w' (if consumer w' = CPoll then SHead else SNew idle) s)))"

text \<open>
  \<open>ks\<close> are the processers to which a fiber that is switched to now adds fibers before it
  switches out; \<open>b\<close> says that it is still in the state running then.
\<close>

definition proc_step :: "nat \<Rightarrow> nat \<Rightarrow> nat list \<Rightarrow> bool \<Rightarrow> shut \<Rightarrow> shut option" where
  "proc_step cap k ks b s = (let w = sd_wk s k in case sd_pc s k of
     SStart \<Rightarrow> Some (proc_at k (w\<lparr>wk_state := Running\<rparr>) SHead s)
   | SHead \<Rightarrow> Some (proc_at k w (if sd_sched s = Stop then SExit else SPick) s)
   | SPick \<Rightarrow>
       (if runnable_n w = 0 then Some (proc_at k w (SNew True) s)
        else Some (proc_at k (w\<lparr>runnable_n := runnable_n w - 1\<rparr>) SInner s))
   | SNew idle \<Rightarrow> proc_new k idle s
   | SInner \<Rightarrow>
       (if sd_sched s = Stop then Some (proc_at k w SHead s)
        else if list_all (\<lambda>j. j < sd_n s) ks then Some (proc_at k w (SSeg ks AStart) s) else None)
   | SSeg [] _ \<Rightarrow>
       (if b then Some (proc_at k (w\<lparr>runnable_n := Suc (runnable_n w)\<rparr>) SMore s)
        else Some (proc_at k w SHead s))
   | SSeg (j # js) pc \<Rightarrow>
       (if pc = ADone then Some (proc_at k w (SSeg js AStart) s)
        else case sd_call cap (k + 2) j pc s of
          None \<Rightarrow> None
        | Some (s', pc') \<Rightarrow> Some (s'\<lparr>sd_pc := (sd_pc s')(k := SSeg (j # js) pc')\<rparr>))
   | SMore \<Rightarrow> Some (proc_at k w (if 32 < newcount w then SNew False else SHead) s)
   | SExit \<Rightarrow> None)"

text \<open>
  \<open>c\<close> is \<open>None\<close> when \<open>epoll_wait\<close> is interrupted, else the fibers that the due timers and the
  reported events make, with the processers they go to. \<open>epoll_wait\<close> always returns, since its
  timeout is at most three seconds.
\<close>

definition poll_begin :: "(bool \<times> nat) list option \<Rightarrow> shut \<Rightarrow> shut option" where
  "poll_begin c s = (case c of
     None \<Rightarrow> None
   | Some xs \<Rightarrow> if list_all (\<lambda>x. snd x < sd_n s) xs then Some (s\<lparr>sd_ppc := LWork xs None\<rparr>) else None)"

definition poll_step :: "nat \<Rightarrow> (bool \<times> nat) list option \<Rightarrow> shut \<Rightarrow> shut option" where
  "poll_step cap c s = (case sd_ppc s of
     LStart \<Rightarrow> Some (s\<lparr>sd_pstate := Running, sd_ppc := LTop\<rparr>)
   | LTop \<Rightarrow> Some (s\<lparr>sd_ppc := (if sd_pstate s = Stop then LTop2 else LWait)\<rparr>)
   | LTop2 \<Rightarrow> Some (s\<lparr>sd_ppc := (if sd_sched s = Stop then LExit else LWait)\<rparr>)
   | LWait \<Rightarrow> Some (s\<lparr>sd_ppc := (if c = None then LTop else LTest)\<rparr>)
   | LTest \<Rightarrow> if sd_pstate s = Stop then Some (s\<lparr>sd_ppc := LTest2\<rparr>) else poll_begin c s
   | LTest2 \<Rightarrow> if sd_sched s = Stop then Some (s\<lparr>sd_ppc := LExit\<rparr>) else poll_begin c s
   | LWork [] _ \<Rightarrow> Some (s\<lparr>sd_ppc := LTop\<rparr>)
   | LWork ((t, k) # xs) None \<Rightarrow>
       Some (s\<lparr>sd_ppc := (if t \<and> sd_pstate s = Stop then LWork xs None else LWork ((t, k) # xs) (Some AStart))\<rparr>)
   | LWork ((t, k) # xs) (Some pc) \<Rightarrow>
       (if pc = ADone then Some (s\<lparr>sd_ppc := LWork xs None\<rparr>)
        else case sd_call cap 1 k pc s of
          None \<Rightarrow> None
        | Some (s', pc') \<Rightarrow> Some (s'\<lparr>sd_ppc := LWork ((t, k) # xs) (Some pc')\<rparr>))
   | LExit \<Rightarrow> None)"

text \<open>\<open>c\<close> is what the owner does with the scheduler: a new fiber for a processer, or the destructor.\<close>

definition main_step :: "nat \<Rightarrow> nat option \<Rightarrow> shut \<Rightarrow> shut option" where
  "main_step cap c s = (case sd_main s of
     MRun None \<Rightarrow> (case c of
         None \<Rightarrow> Some (s\<lparr>sd_sched := Stop, sd_main := MState 0\<rparr>)
       | Some k \<Rightarrow> if k < sd_n s then Some (s\<lparr>sd_main := MRun (Some (k, AStart))\<rparr>) else None)
   | MRun (Some (k, pc)) \<Rightarrow>
       (if pc = ADone then Some (s\<lparr>sd_main := MRun None\<rparr>)
        else case sd_call cap 0 k pc s of
          None \<Rightarrow> None
        | Some (s', pc') \<Rightarrow> Some (s'\<lparr>sd_main := MRun (Some (k, pc'))\<rparr>))
   | MState i \<Rightarrow>
       (if i < sd_n s
        then Some (s\<lparr>sd_wk := (sd_wk s)(i := (sd_wk s i)\<lparr>wk_state := Stop\<rparr>), sd_main := MNote i ALock\<rparr>)
        else Some (s\<lparr>sd_main := MJoin 0\<rparr>))
   | MNote i pc \<Rightarrow>
       (if pc = ADone then Some (s\<lparr>sd_main := MState (Suc i)\<rparr>)
        else case sd_call cap 0 i pc s of
          None \<Rightarrow> None
        | Some (s', pc') \<Rightarrow> Some (s'\<lparr>sd_main := MNote i pc'\<rparr>))
   | MJoin i \<Rightarrow>
       (if i < sd_n s then (if sd_pc s i = SExit then Some (s\<lparr>sd_main := MJoin (Suc i)\<rparr>) else None)
        else Some (s\<lparr>sd_main := MTest\<rparr>))
   | MTest \<Rightarrow> Some (s\<lparr>sd_main := (if sd_pstate s = Stop then MWake else MSet)\<rparr>)
   | MSet \<Rightarrow> Some (s\<lparr>sd_pstate := Stop, sd_main := MWake\<rparr>)
   | MWake \<Rightarrow> Some (s\<lparr>sd_main := MJoinP\<rparr>)
   | MJoinP \<Rightarrow> (if sd_ppc s = LExit then Some (s\<lparr>sd_main := MDel\<rparr>) else None)
   | MDel \<Rightarrow> Some (s\<lparr>sd_sched := Done, sd_main := MDone\<rparr>)
   | MDone \<Rightarrow> None)"

datatype sd_move = ByMain "nat option" | ByPoller "(bool \<times> nat) list option" | ByProc nat "nat list" bool

fun sd_step :: "nat \<Rightarrow> sd_move \<Rightarrow> shut \<Rightarrow> shut option" where
  "sd_step cap (ByMain c) s = main_step cap c s"
| "sd_step cap (ByPoller c) s = poll_step cap c s"
| "sd_step cap (ByProc k ks b) s = (if k < sd_n s then proc_step cap k ks b s else None)"

fun sd_run :: "nat \<Rightarrow> sd_move list \<Rightarrow> shut \<Rightarrow> shut option" where
  "sd_run cap [] s = Some s"
| "sd_run cap (m # ms) s = (case sd_step cap m s of None \<Rightarrow> None | Some s' \<Rightarrow> sd_run cap ms s')"

inductive sd_reach :: "nat \<Rightarrow> nat \<Rightarrow> bool \<Rightarrow> shut \<Rightarrow> bool" for cap n begun where
  init: "sd_reach cap n begun (sd_init n begun)"
| step: "sd_reach cap n begun s \<Longrightarrow> sd_step cap m s = Some s' \<Longrightarrow> sd_reach cap n begun s'"

lemma sd_run_append: "sd_run cap (as @ bs) s = Option.bind (sd_run cap as s) (sd_run cap bs)"
  by (induction as arbitrary: s) (auto split: option.splits)

lemma sd_run_reach: "sd_reach cap n begun s \<Longrightarrow> sd_run cap ms s = Some s' \<Longrightarrow> sd_reach cap n begun s'"
  by (induction ms arbitrary: s) (auto split: option.splits intro: sd_reach.step)

section \<open>Who holds which mutex\<close>

text \<open>The call of \<open>addFiber\<close> or \<open>notify\<close> in which a thread is: owner 0, poller 1, processer \<open>k\<close> \<open>k + 2\<close>.\<close>

fun main_call :: "own_pc \<Rightarrow> (nat \<times> apc) option" where
  "main_call (MRun c) = c"
| "main_call (MNote i pc) = Some (i, pc)"
| "main_call _ = None"

fun poll_call :: "poll_pc \<Rightarrow> (nat \<times> apc) option" where
  "poll_call (LWork ((t, k) # xs) (Some pc)) = Some (k, pc)"
| "poll_call _ = None"

fun seg_call :: "proc_pc \<Rightarrow> (nat \<times> apc) option" where
  "seg_call (SSeg (k # ks) pc) = Some (k, pc)"
| "seg_call _ = None"

definition sd_calls :: "shut \<Rightarrow> nat \<Rightarrow> (nat \<times> apc) option" where
  "sd_calls s i = (case i of 0 \<Rightarrow> main_call (sd_main s) | Suc 0 \<Rightarrow> poll_call (sd_ppc s)
     | Suc (Suc k) \<Rightarrow> seg_call (sd_pc s k))"

lemma sd_calls_simps [simp]:
  "sd_calls s 0 = main_call (sd_main s)"
  "sd_calls s (Suc 0) = poll_call (sd_ppc s)"
  "sd_calls s (Suc (Suc k)) = seg_call (sd_pc s k)"
  by (simp_all add: sd_calls_def)

fun in_lock :: "(nat \<times> apc) option \<Rightarrow> nat \<Rightarrow> bool" where
  "in_lock (Some (k', pc)) k \<longleftrightarrow> k' = k \<and> (pc = ANote \<or> pc = ASignal)"
| "in_lock None k \<longleftrightarrow> False"

definition holds :: "(nat \<Rightarrow> wk) \<Rightarrow> (nat \<Rightarrow> (nat \<times> apc) option) \<Rightarrow> owner \<Rightarrow> nat \<Rightarrow> bool" where
  "holds w c ow k = (case ow of
     Consumer \<Rightarrow> consumer (w k) \<in> {CTest, CSetIdle, CWhile, CSetRun}
   | Adder i \<Rightarrow> in_lock (c i) k)"

text \<open>
  The mutex of a processer belongs to the thread that is in the locked part of \<open>idle\<close> or
  \<open>notify\<close>; whoever is about to signal, and the processer when it has been signalled, finds
  the flag set.
\<close>

definition locks_ok :: "(nat \<Rightarrow> wk) \<Rightarrow> (nat \<Rightarrow> (nat \<times> apc) option) \<Rightarrow> bool" where
  "locks_ok w c \<longleftrightarrow> (\<forall>k ow. mutex (w k) = Some ow \<longleftrightarrow> holds w c ow k) \<and>
     (\<forall>k. consumer (w k) = CWake \<longrightarrow> flag (w k)) \<and>
     (\<forall>i k. c i = Some (k, ASignal) \<longrightarrow> flag (w k))"

lemma locks_okI:
  assumes "\<And>k ow. mutex (w k) = Some ow \<longleftrightarrow> holds w c ow k"
    and "\<And>k. consumer (w k) = CWake \<Longrightarrow> flag (w k)"
    and "\<And>i k. c i = Some (k, ASignal) \<Longrightarrow> flag (w k)"
  shows "locks_ok w c"
  using assms by (auto simp: locks_ok_def)

lemma locks_okD:
  assumes "locks_ok w c"
  shows "mutex (w k) = Some ow \<longleftrightarrow> holds w c ow k"
    and "consumer (w k) = CWake \<Longrightarrow> flag (w k)"
    and "c i = Some (k, ASignal) \<Longrightarrow> flag (w k)"
  using assms by (auto simp: locks_ok_def)

lemma locks_call:
  assumes ok: "locks_ok w c" and i: "c i = Some (k, pc)" and st: "call_step cap i pc (w k) = Some (v, pc')"
  shows "locks_ok (w(k := v)) (c(i := Some (k, pc')))"
proof -
  have own: "mutex (w k) = Some (Adder i) \<longleftrightarrow> pc = ANote \<or> pc = ASignal"
    using locks_okD(1) [OF ok, of k "Adder i"] i by (simp add: holds_def)
  have cons: "consumer (w k) \<in> {CTest, CSetIdle, CWhile, CSetRun} \<longleftrightarrow> mutex (w k) = Some Consumer"
    using locks_okD(1) [OF ok, of k Consumer] by (simp add: holds_def)
  have other: "in_lock (c j) k \<longleftrightarrow> mutex (w k) = Some (Adder j)" for j
    using locks_okD(1) [OF ok, of k "Adder j"] by (simp add: holds_def)
  have sig: "c j = Some (k, ASignal) \<Longrightarrow> mutex (w k) = Some (Adder j)" for j
    using other [of j] by simp
  show ?thesis
  proof (rule locks_okI)
    fix k' ow
    show "mutex ((w(k := v)) k') = Some ow \<longleftrightarrow> holds (w(k := v)) (c(i := Some (k, pc'))) ow k'"
    proof (cases "k' = k")
      case False
      then show ?thesis using locks_okD(1) [OF ok, of k' ow] i by (auto simp: holds_def split: owner.splits)
    next
      case True
      have "mutex v = Some ow \<longleftrightarrow> holds (w(k := v)) (c(i := Some (k, pc'))) ow k"
      proof (cases ow)
        case Consumer
        with st own cons show ?thesis by (cases pc) (auto simp: call_step_def holds_def split: if_splits)
      next
        case (Adder j)
        with st own other [of j] show ?thesis
          by (cases "j = i"; cases pc) (auto simp: call_step_def holds_def split: if_splits)
      qed
      with True show ?thesis by simp
    qed
  next
    fix k' assume "consumer ((w(k := v)) k') = CWake"
    then show "flag ((w(k := v)) k')"
      using st i locks_okD(2) [OF ok] locks_okD(3) [OF ok, of i k]
      by (cases "k' = k"; cases pc) (auto simp: call_step_def split: if_splits)
  next
    fix j k' assume j: "(c(i := Some (k, pc'))) j = Some (k', ASignal)"
    show "flag ((w(k := v)) k')"
    proof (cases "j = i")
      case True
      with j st show ?thesis by (cases pc) (auto simp: call_step_def split: if_splits)
    next
      case False
      with j have "flag (w k')" using locks_okD(3) [OF ok, of j k'] by simp
      with st show ?thesis by (cases "k' = k"; cases pc) (auto simp: call_step_def split: if_splits)
    qed
  qed
qed

lemma locks_consume:
  assumes ok: "locks_ok w c" and st: "cstep (w k) = Some v"
  shows "locks_ok (w(k := v)) c"
proof -
  have cons: "consumer (w k) \<in> {CTest, CSetIdle, CWhile, CSetRun} \<longleftrightarrow> mutex (w k) = Some Consumer"
    using locks_okD(1) [OF ok, of k Consumer] by (simp add: holds_def)
  have other: "in_lock (c j) k \<longleftrightarrow> mutex (w k) = Some (Adder j)" for j
    using locks_okD(1) [OF ok, of k "Adder j"] by (simp add: holds_def)
  show ?thesis
  proof (rule locks_okI)
    fix k' ow
    show "mutex ((w(k := v)) k') = Some ow \<longleftrightarrow> holds (w(k := v)) c ow k'"
    proof (cases "k' = k")
      case False
      then show ?thesis using locks_okD(1) [OF ok, of k' ow] by (auto simp: holds_def split: owner.splits)
    next
      case True
      have "mutex v = Some ow \<longleftrightarrow> holds (w(k := v)) c ow k"
      proof (cases ow)
        case Consumer
        with st cons show ?thesis
          by (cases "consumer (w k)") (auto simp: cstep_def holds_def split: nat.splits if_splits)
      next
        case (Adder j)
        with st cons other [of j] show ?thesis
          by (cases "consumer (w k)") (auto simp: cstep_def holds_def split: nat.splits if_splits)
      qed
      with True show ?thesis by simp
    qed
  next
    fix k' assume "consumer ((w(k := v)) k') = CWake"
    then show "flag ((w(k := v)) k')"
      using st locks_okD(2) [OF ok]
      by (cases "k' = k") (auto simp: cstep_def split: cpc.splits nat.splits if_splits)
  next
    fix j k' assume j: "c j = Some (k', ASignal)"
    then have "flag (w k')" and "k' = k \<Longrightarrow> mutex (w k) = Some (Adder j)"
      using locks_okD(3) [OF ok, of j k'] other [of j] by auto
    with st cons show "flag ((w(k := v)) k')"
      by (cases "k' = k") (auto simp: cstep_def split: cpc.splits nat.splits if_splits)
  qed
qed

lemma locks_move:
  assumes "locks_ok w c" and "\<And>k. \<not> in_lock (c i) k" and "\<And>k. \<not> in_lock x k"
  shows "locks_ok w (c(i := x))"
proof -
  have "x \<noteq> Some (k, ASignal)" for k using assms(3) [of k] by auto
  with assms show ?thesis by (auto simp: locks_ok_def holds_def split: owner.splits)
qed

lemma locks_local:
  assumes "locks_ok w c" and "mutex v = mutex (w k)" and "flag v = flag (w k)"
    and "consumer v = consumer (w k) \<or> {consumer v, consumer (w k)} \<subseteq> {CPoll, CCheck}"
  shows "locks_ok (w(k := v)) c"
  using assms by (auto simp: locks_ok_def holds_def split: owner.splits)

section \<open>The invariant\<close>

text \<open>The owner has notified processer \<open>k\<close>, has joined it, has stopped the poller.\<close>

fun was_told :: "own_pc \<Rightarrow> nat \<Rightarrow> bool" where
  "was_told (MRun _) k \<longleftrightarrow> False"
| "was_told (MState i) k \<longleftrightarrow> k < i"
| "was_told (MNote i pc) k \<longleftrightarrow> k < i \<or> k = i \<and> pc = ADone"
| "was_told _ k \<longleftrightarrow> True"

fun joined :: "own_pc \<Rightarrow> nat \<Rightarrow> bool" where
  "joined (MRun _) k \<longleftrightarrow> False"
| "joined (MState i) k \<longleftrightarrow> False"
| "joined (MNote i pc) k \<longleftrightarrow> False"
| "joined (MJoin i) k \<longleftrightarrow> k < i"
| "joined _ k \<longleftrightarrow> True"

definition asked :: "own_pc \<Rightarrow> bool" where
  "asked m \<longleftrightarrow> m \<in> {MWake, MJoinP, MDel, MDone}"

definition main_ok :: "nat \<Rightarrow> TaskState \<Rightarrow> own_pc \<Rightarrow> bool" where
  "main_ok n st m \<longleftrightarrow> (case m of
     MRun c \<Rightarrow> st = Running
   | MState i \<Rightarrow> st = Stop \<and> i \<le> n
   | MNote i pc \<Rightarrow> st = Stop \<and> i < n \<and> pc \<in> {ALock, ANote, ASignal, ADone}
   | MJoin i \<Rightarrow> st = Stop \<and> i \<le> n
   | MDone \<Rightarrow> st = Done
   | _ \<Rightarrow> st = Stop)"

definition targets_ok :: "shut \<Rightarrow> bool" where
  "targets_ok s \<longleftrightarrow> (\<forall>k ks pc. sd_pc s k = SSeg ks pc \<longrightarrow> list_all (\<lambda>j. j < sd_n s) ks) \<and>
     (\<forall>xs c. sd_ppc s = LWork xs c \<longrightarrow> list_all (\<lambda>x. snd x < sd_n s) xs)"

definition roused :: "proc_pc \<Rightarrow> wk \<Rightarrow> bool" where
  "roused pc w \<longleftrightarrow> pc = SHead \<or> pc = SExit \<or> flag w \<and> consumer w \<noteq> CWait"

definition sd_ok :: "bool \<Rightarrow> shut \<Rightarrow> bool" where
  "sd_ok begun s \<longleftrightarrow> locks_ok (sd_wk s) (sd_calls s) \<and>
     (\<forall>k. (\<forall>b. sd_pc s k \<noteq> SNew b) \<longrightarrow> consumer (sd_wk s k) = CPoll) \<and>
     (\<forall>k. was_told (sd_main s) k \<longrightarrow> roused (sd_pc s k) (sd_wk s k) \<or> sd_n s \<le> k) \<and>
     (\<forall>k < sd_n s. joined (sd_main s) k \<longrightarrow> sd_pc s k = SExit) \<and>
     main_ok (sd_n s) (sd_sched s) (sd_main s) \<and> targets_ok s \<and>
     (begun \<longrightarrow> sd_ppc s \<noteq> LStart \<and> (asked (sd_main s) \<longrightarrow> sd_pstate s = Stop)) \<and>
     (sd_main s \<in> {MDel, MDone} \<longrightarrow> sd_ppc s = LExit)"

lemma sd_okI:
  assumes "locks_ok (sd_wk s) (sd_calls s)"
    and "\<And>k. \<forall>b. sd_pc s k \<noteq> SNew b \<Longrightarrow> consumer (sd_wk s k) = CPoll"
    and "\<And>k. was_told (sd_main s) k \<Longrightarrow> k < sd_n s \<Longrightarrow> roused (sd_pc s k) (sd_wk s k)"
    and "\<And>k. k < sd_n s \<Longrightarrow> joined (sd_main s) k \<Longrightarrow> sd_pc s k = SExit"
    and "main_ok (sd_n s) (sd_sched s) (sd_main s)" and "targets_ok s"
    and "begun \<Longrightarrow> sd_ppc s \<noteq> LStart \<and> (asked (sd_main s) \<longrightarrow> sd_pstate s = Stop)"
    and "sd_main s \<in> {MDel, MDone} \<Longrightarrow> sd_ppc s = LExit"
  shows "sd_ok begun s"
  using assms by (auto simp: sd_ok_def not_le [symmetric])

lemma sd_okD:
  assumes "sd_ok begun s"
  shows "locks_ok (sd_wk s) (sd_calls s)"
    and "\<forall>b. sd_pc s k \<noteq> SNew b \<Longrightarrow> consumer (sd_wk s k) = CPoll"
    and "was_told (sd_main s) k \<Longrightarrow> k < sd_n s \<Longrightarrow> roused (sd_pc s k) (sd_wk s k)"
    and "k < sd_n s \<Longrightarrow> joined (sd_main s) k \<Longrightarrow> sd_pc s k = SExit"
    and "main_ok (sd_n s) (sd_sched s) (sd_main s)" and "targets_ok s"
    and "begun \<Longrightarrow> sd_ppc s \<noteq> LStart"
    and "begun \<Longrightarrow> asked (sd_main s) \<Longrightarrow> sd_pstate s = Stop"
    and "sd_main s \<in> {MDel, MDone} \<Longrightarrow> sd_ppc s = LExit"
  using assms by (auto simp: sd_ok_def not_le [symmetric])

lemma sd_ok_init: "sd_ok begun (sd_init n begun)"
proof (rule sd_okI)
  show "locks_ok (sd_wk (sd_init n begun)) (sd_calls (sd_init n begun))"
    by (rule locks_okI)
      (auto simp: sd_init_def wk_init_def holds_def sd_calls_def split: owner.splits nat.splits if_splits)
qed (auto simp: sd_init_def wk_init_def main_ok_def targets_ok_def asked_def)

text \<open>Only the owner decides who is was_told, joined or asked; a call of anybody rouses.\<close>

lemma call_roused: "call_step cap i pc w = Some (v, pc') \<Longrightarrow> roused p w \<Longrightarrow> roused p v"
  by (cases pc) (auto simp: call_step_def roused_def split: if_splits)

lemma call_consumer: "call_step cap i pc w = Some (v, pc') \<Longrightarrow> consumer w = CPoll \<Longrightarrow> consumer v = CPoll"
  by (cases pc) (auto simp: call_step_def split: if_splits)

lemma sd_callE:
  assumes "sd_call cap i k pc s = Some (s', pc')"
  obtains v where "call_step cap i pc (sd_wk s k) = Some (v, pc')" "s' = s\<lparr>sd_wk := (sd_wk s)(k := v)\<rparr>"
  using assms by (auto simp: sd_call_def split: option.splits)

lemma calls_other [simp]:
  "sd_calls (s\<lparr>sd_wk := w\<rparr>) = sd_calls s"
  "sd_calls (s\<lparr>sd_pstate := t\<rparr>) = sd_calls s"
  "sd_calls (s\<lparr>sd_sched := t\<rparr>) = sd_calls s"
  by (auto simp: sd_calls_def fun_eq_iff split: nat.splits)

lemma calls_proc: "sd_calls (s\<lparr>sd_pc := (sd_pc s)(k := p)\<rparr>) = (sd_calls s)(k + 2 := seg_call p)"
  by (auto simp: sd_calls_def fun_eq_iff split: nat.splits)

lemma calls_poll: "sd_calls (s\<lparr>sd_ppc := p\<rparr>) = (sd_calls s)(1 := poll_call p)"
  by (auto simp: sd_calls_def fun_eq_iff split: nat.splits)

lemma calls_main: "sd_calls (s\<lparr>sd_main := m\<rparr>) = (sd_calls s)(0 := main_call m)"
  by (auto simp: sd_calls_def fun_eq_iff split: nat.splits)

section \<open>Every step keeps the invariant\<close>

lemma seg_targets: "targets_ok s \<Longrightarrow> sd_pc s k = SSeg (j # js) pc \<Longrightarrow> j < sd_n s \<and> list_all (\<lambda>i. i < sd_n s) js"
  by (fastforce simp: targets_ok_def)

lemma work_targets: "targets_ok s \<Longrightarrow> sd_ppc s = LWork ((t, j) # xs) c \<Longrightarrow> j < sd_n s \<and> list_all (\<lambda>x. snd x < sd_n s) xs"
  by (fastforce simp: targets_ok_def)

lemma ok_proc_at:
  assumes ok: "sd_ok begun s" and k: "k < sd_n s" "sd_pc s k \<noteq> SExit"
    and l: "locks_ok ((sd_wk s)(k := w)) (sd_calls s)"
    and c: "\<And>j. \<not> in_lock (seg_call (sd_pc s k)) j" "\<And>j. \<not> in_lock (seg_call p) j"
    and p: "\<forall>b. p \<noteq> SNew b \<Longrightarrow> consumer w = CPoll"
    and r: "roused (sd_pc s k) (sd_wk s k) \<Longrightarrow> was_told (sd_main s) k \<Longrightarrow> roused p w"
    and t: "\<And>ks pc. p = SSeg ks pc \<Longrightarrow> list_all (\<lambda>j. j < sd_n s) ks"
  shows "sd_ok begun (proc_at k w p s)"
proof (rule sd_okI)
  show "locks_ok (sd_wk (proc_at k w p s)) (sd_calls (proc_at k w p s))"
    using l c calls_proc [of "s\<lparr>sd_wk := (sd_wk s)(k := w)\<rparr>"] by (auto simp: proc_at_def intro!: locks_move)
  show "consumer (sd_wk (proc_at k w p s) j) = CPoll" if "\<forall>b. sd_pc (proc_at k w p s) j \<noteq> SNew b" for j
    using that p sd_okD(2) [OF ok, of j] by (auto simp: proc_at_def split: if_splits)
  show "roused (sd_pc (proc_at k w p s) j) (sd_wk (proc_at k w p s) j)"
    if "was_told (sd_main (proc_at k w p s)) j" "j < sd_n (proc_at k w p s)" for j
    using that r sd_okD(3) [OF ok, of j] by (auto simp: proc_at_def)
  show "sd_pc (proc_at k w p s) j = SExit" if "j < sd_n (proc_at k w p s)" "joined (sd_main (proc_at k w p s)) j" for j
    using that k sd_okD(4) [OF ok, of j] by (auto simp: proc_at_def)
  show "targets_ok (proc_at k w p s)"
    using sd_okD(6) [OF ok] t by (auto simp: targets_ok_def proc_at_def)
qed (use sd_okD [OF ok] in \<open>auto simp: proc_at_def\<close>)

lemma ok_proc_call:
  assumes ok: "sd_ok begun s" and k: "sd_pc s k = SSeg (j # js) pc"
    and st: "call_step cap (k + 2) pc (sd_wk s j) = Some (v, pc')"
  shows "sd_ok begun (s\<lparr>sd_wk := (sd_wk s)(j := v), sd_pc := (sd_pc s)(k := SSeg (j # js) pc')\<rparr>)"
    (is "sd_ok begun ?s")
proof (rule sd_okI)
  have c: "sd_calls s (k + 2) = Some (j, pc)" using k by (simp add: sd_calls_def)
  show "locks_ok (sd_wk ?s) (sd_calls ?s)"
    using locks_call [OF sd_okD(1) [OF ok] c st] calls_proc [of "s\<lparr>sd_wk := (sd_wk s)(j := v)\<rparr>"] by simp
  show "consumer (sd_wk ?s i) = CPoll" if "\<forall>b. sd_pc ?s i \<noteq> SNew b" for i
    using that k st sd_okD(2) [OF ok, of i] by (auto dest: call_consumer split: if_splits)
  show "roused (sd_pc ?s i) (sd_wk ?s i)" if "was_told (sd_main ?s) i" "i < sd_n ?s" for i
    using that k st sd_okD(3) [OF ok, of i] call_roused [OF st, of "sd_pc s j"]
    by (auto simp: roused_def split: if_splits)
  show "sd_pc ?s i = SExit" if "i < sd_n ?s" "joined (sd_main ?s) i" for i
    using that k sd_okD(4) [OF ok, of i] by auto
  show "targets_ok ?s" using sd_okD(6) [OF ok] seg_targets [OF sd_okD(6) [OF ok] k] by (auto simp: targets_ok_def)
qed (use sd_okD [OF ok] in auto)

lemma told_running: "main_ok n t m \<Longrightarrow> was_told m k \<Longrightarrow> t = Stop \<or> m = MDone"
  by (cases m) (auto simp: main_ok_def)

lemma done_joined: "main_ok n t m \<Longrightarrow> m = MDone \<Longrightarrow> joined m k"
  by simp

lemma cstep_roused:
  assumes "cstep w = Some v" and "roused (SNew b) w"
  shows "roused (if consumer v = CPoll then SHead else SNew b) v"
  using assms by (cases "consumer w") (auto simp: cstep_def roused_def split: nat.splits if_splits)

text \<open>A step that leaves the mutex, the flag and the place in \<open>getNewFibers\<close> and \<open>idle\<close> alone.\<close>

lemma ok_proc_same:
  assumes ok: "sd_ok begun s" and k: "k < sd_n s" "sd_pc s k \<noteq> SExit" "\<And>b. sd_pc s k \<noteq> SNew b"
    and w: "mutex w = mutex (sd_wk s k)" "flag w = flag (sd_wk s k)" "consumer w = consumer (sd_wk s k)"
    and c: "\<And>j. \<not> in_lock (seg_call (sd_pc s k)) j" "\<And>j. \<not> in_lock (seg_call p) j"
    and h: "sd_pc s k = SHead \<Longrightarrow> sd_sched s = Stop \<Longrightarrow> p = SExit"
    and t: "\<And>ks pc. p = SSeg ks pc \<Longrightarrow> list_all (\<lambda>j. j < sd_n s) ks"
  shows "sd_ok begun (proc_at k w p s)"
proof (rule ok_proc_at [OF ok k(1,2) _ c _ _ t])
  show "locks_ok ((sd_wk s)(k := w)) (sd_calls s)"
    by (rule locks_local [OF sd_okD(1) [OF ok]]) (use w in auto)
  show "consumer w = CPoll" using w(3) sd_okD(2) [OF ok, of k] k(3) by simp
  assume r: "roused (sd_pc s k) (sd_wk s k)" and was_told: "was_told (sd_main s) k"
  have "sd_sched s = Stop"
    using told_running [OF sd_okD(5) [OF ok] was_told] sd_okD(4) [OF ok k(1)] k(2) by auto
  with r h k(2) w show "roused p w" by (auto simp: roused_def)
qed auto

lemma proc_new_ok:
  assumes ok: "sd_ok begun s" and k: "k < sd_n s" "sd_pc s k = SNew idle" and st: "proc_new k idle s = Some s'"
  shows "sd_ok begun s'"
proof (cases "consumer (sd_wk s k) = CCheck \<and> (\<not> idle \<or> runnable_n (sd_wk s k) \<noteq> 0)")
  case True
  with st have s': "s' = proc_at k ((sd_wk s k)\<lparr>consumer := CPoll\<rparr>) SHead s"
    by (auto simp: proc_new_def Let_def)
  have "locks_ok ((sd_wk s)(k := (sd_wk s k)\<lparr>consumer := CPoll\<rparr>)) (sd_calls s)"
    by (rule locks_local [OF sd_okD(1) [OF ok]]) (use True in auto)
  then show ?thesis unfolding s' by (rule ok_proc_at [OF ok k(1), rotated]) (use k in \<open>auto simp: roused_def\<close>)
next
  case False
  with st obtain v where v: "cstep (sd_wk s k) = Some v"
    and s': "s' = proc_at k v (if consumer v = CPoll then SHead else SNew idle) s"
    by (auto simp: proc_new_def Let_def split: option.splits if_splits)
  show ?thesis unfolding s'
  proof (rule ok_proc_at [OF ok k(1)])
    show "locks_ok ((sd_wk s)(k := v)) (sd_calls s)" by (rule locks_consume [OF sd_okD(1) [OF ok] v])
    show "roused (if consumer v = CPoll then SHead else SNew idle) v" if "roused (sd_pc s k) (sd_wk s k)"
      using cstep_roused [OF v] that k(2) by simp
  qed (use k in \<open>auto split: if_splits\<close>)
qed

lemma no_lock_start [simp]: "\<not> in_lock (seg_call (SSeg ks AStart)) j" "\<not> in_lock (seg_call (SSeg ks ADone)) j"
  by (cases ks; simp)+

lemma proc_step_ok:
  assumes ok: "sd_ok begun s" and k: "k < sd_n s" and st: "proc_step cap k ks b s = Some s'"
  shows "sd_ok begun s'"
proof (cases "sd_pc s k")
  case (SNew idle)
  with st proc_new_ok [OF ok k SNew] show ?thesis by (simp add: proc_step_def Let_def)
next
  case (SSeg js pc)
  show ?thesis
  proof (cases js)
    case Nil
    with SSeg st show ?thesis
      by (auto simp: proc_step_def Let_def intro!: ok_proc_same [OF ok k] split: if_splits)
  next
    case (Cons j ks')
    show ?thesis
    proof (cases "pc = ADone")
      case True
      with Cons SSeg st seg_targets [OF sd_okD(6) [OF ok]] show ?thesis
        by (auto simp: proc_step_def Let_def intro!: ok_proc_same [OF ok k])
    next
      case False
      with Cons SSeg st obtain t pc' where t: "sd_call cap (k + 2) j pc s = Some (t, pc')"
        "s' = t\<lparr>sd_pc := (sd_pc t)(k := SSeg (j # ks') pc')\<rparr>"
        by (auto simp: proc_step_def Let_def split: option.splits)
      from t(1) obtain v where "call_step cap (k + 2) pc (sd_wk s j) = Some (v, pc')"
        "t = s\<lparr>sd_wk := (sd_wk s)(j := v)\<rparr>" by (rule sd_callE)
      with ok_proc_call [OF ok _ this(1)] SSeg Cons t(2) show ?thesis by simp
    qed
  qed
qed (use st in \<open>auto simp: proc_step_def Let_def intro!: ok_proc_same [OF ok k] split: if_splits\<close>)

lemma ok_poll:
  assumes ok: "sd_ok begun s" and l: "sd_ppc s \<noteq> LExit" "sd_ppc s \<noteq> LStart" "p \<noteq> LStart"
    and c: "\<And>j. \<not> in_lock (poll_call (sd_ppc s)) j" "\<And>j. \<not> in_lock (poll_call p) j"
    and t: "\<And>xs pc. p = LWork xs pc \<Longrightarrow> list_all (\<lambda>x. snd x < sd_n s) xs"
  shows "sd_ok begun (s\<lparr>sd_ppc := p\<rparr>)"
proof (rule sd_okI)
  show "locks_ok (sd_wk (s\<lparr>sd_ppc := p\<rparr>)) (sd_calls (s\<lparr>sd_ppc := p\<rparr>))"
    unfolding calls_poll using sd_okD(1) [OF ok] c by (auto intro!: locks_move)
  show "targets_ok (s\<lparr>sd_ppc := p\<rparr>)" using sd_okD(6) [OF ok] t by (auto simp: targets_ok_def)
qed (use sd_okD [OF ok] l in auto)

lemma ok_poll_call:
  assumes ok: "sd_ok begun s" and k: "sd_ppc s = LWork ((t, j) # xs) (Some pc)"
    and st: "call_step cap 1 pc (sd_wk s j) = Some (v, pc')"
  shows "sd_ok begun (s\<lparr>sd_wk := (sd_wk s)(j := v), sd_ppc := LWork ((t, j) # xs) (Some pc')\<rparr>)"
    (is "sd_ok begun ?s")
proof (rule sd_okI)
  have c: "sd_calls s 1 = Some (j, pc)" using k by simp
  show "locks_ok (sd_wk ?s) (sd_calls ?s)"
    using locks_call [OF sd_okD(1) [OF ok] c st] by (simp add: calls_poll)
  show "consumer (sd_wk ?s i) = CPoll" if "\<forall>b. sd_pc ?s i \<noteq> SNew b" for i
    using that k st sd_okD(2) [OF ok, of i] by (auto dest: call_consumer)
  show "roused (sd_pc ?s i) (sd_wk ?s i)" if "was_told (sd_main ?s) i" "i < sd_n ?s" for i
    using that sd_okD(3) [OF ok, of i] call_roused [OF st, of "sd_pc s j"] by auto
  show "targets_ok ?s"
    using sd_okD(6) [OF ok] work_targets [OF sd_okD(6) [OF ok] k] by (auto simp: targets_ok_def)
qed (use sd_okD [OF ok] k in auto)

lemma poll_step_ok:
  assumes ok: "sd_ok begun s" and st: "poll_step cap c s = Some s'"
  shows "sd_ok begun s'"
proof (cases "sd_ppc s")
  case LStart
  with st have s': "s' = s\<lparr>sd_pstate := Running, sd_ppc := LTop\<rparr>" by (simp add: poll_step_def)
  show ?thesis unfolding s'
  proof (rule sd_okI)
    show "locks_ok (sd_wk (s\<lparr>sd_pstate := Running, sd_ppc := LTop\<rparr>)) (sd_calls (s\<lparr>sd_pstate := Running, sd_ppc := LTop\<rparr>))"
      using sd_okD(1) [OF ok] LStart by (auto simp: calls_poll intro!: locks_move)
  qed (use sd_okD [OF ok] LStart in \<open>auto simp: targets_ok_def\<close>)
next
  case (LWork xs pc)
  show ?thesis
  proof (cases xs)
    case Nil
    with LWork st show ?thesis by (auto simp: poll_step_def intro!: ok_poll [OF ok])
  next
    case (Cons x ys)
    obtain t j where x: "x = (t, j)" by (cases x)
    show ?thesis
    proof (cases pc)
      case None
      with Cons x LWork st work_targets [OF sd_okD(6) [OF ok]] show ?thesis
        by (auto simp: poll_step_def intro!: ok_poll [OF ok] split: if_splits)
    next
      case (Some a)
      show ?thesis
      proof (cases "a = ADone")
        case True
        with Some Cons x LWork st work_targets [OF sd_okD(6) [OF ok]] show ?thesis
          by (auto simp: poll_step_def intro!: ok_poll [OF ok])
      next
        case False
        with Some Cons x LWork st obtain r pc' where t: "sd_call cap 1 j a s = Some (r, pc')"
          "s' = r\<lparr>sd_ppc := LWork ((t, j) # ys) (Some pc')\<rparr>"
          by (auto simp: poll_step_def split: option.splits)
        from t(1) obtain v where "call_step cap 1 a (sd_wk s j) = Some (v, pc')"
          "r = s\<lparr>sd_wk := (sd_wk s)(j := v)\<rparr>" by (rule sd_callE)
        with ok_poll_call [OF ok _ this(1)] LWork Some Cons x t(2) show ?thesis by simp
      qed
    qed
  qed
qed (use st in \<open>auto simp: poll_step_def poll_begin_def intro!: ok_poll [OF ok] split: if_splits option.splits\<close>)

lemma ok_main:
  assumes ok: "sd_ok begun s" and main: "main_ok (sd_n s) st m"
    and c: "\<And>j. \<not> in_lock (main_call (sd_main s)) j" "\<And>j. \<not> in_lock (main_call m) j"
    and t: "\<And>k. was_told m k \<Longrightarrow> k < sd_n s \<Longrightarrow> was_told (sd_main s) k"
    and j: "\<And>k. joined m k \<Longrightarrow> k < sd_n s \<Longrightarrow> joined (sd_main s) k \<or> sd_pc s k = SExit"
    and p: "begun \<Longrightarrow> asked m \<Longrightarrow> asked (sd_main s) \<or> pst = Stop" "sd_pstate s = Stop \<Longrightarrow> pst = Stop"
    and l: "m \<in> {MDel, MDone} \<Longrightarrow> sd_ppc s = LExit"
  shows "sd_ok begun (s\<lparr>sd_sched := st, sd_pstate := pst, sd_main := m\<rparr>)" (is "sd_ok begun ?s")
proof (rule sd_okI)
  have "sd_calls ?s = (sd_calls s)(0 := main_call m)" by (auto simp: sd_calls_def fun_eq_iff split: nat.splits)
  then show "locks_ok (sd_wk ?s) (sd_calls ?s)" using sd_okD(1) [OF ok] c by (auto intro!: locks_move)
  show "sd_pc ?s k = SExit" if "k < sd_n ?s" "joined (sd_main ?s) k" for k
    using that j sd_okD(4) [OF ok, of k] by auto
  show "targets_ok ?s" using sd_okD(6) [OF ok] by (auto simp: targets_ok_def)
qed (use sd_okD [OF ok] main t p l in auto)

lemma ok_main_call:
  assumes ok: "sd_ok begun s" and k: "sd_calls s 0 = Some (k, pc)"
    and st: "call_step cap 0 pc (sd_wk s k) = Some (v, pc')"
    and m: "main_call m = Some (k, pc')" "main_ok (sd_n s) (sd_sched s) m" "\<not> asked m"
    and t: "\<And>i. was_told m i \<Longrightarrow> was_told (sd_main s) i \<or> i = k \<and> flag v \<and> consumer v \<noteq> CWait"
    and j: "\<And>i. \<not> joined m i"
  shows "sd_ok begun (s\<lparr>sd_wk := (sd_wk s)(k := v), sd_main := m\<rparr>)" (is "sd_ok begun ?s")
proof (rule sd_okI)
  show "locks_ok (sd_wk ?s) (sd_calls ?s)"
    using locks_call [OF sd_okD(1) [OF ok] k st] m(1) by (simp add: calls_main)
  show "consumer (sd_wk ?s i) = CPoll" if "\<forall>b. sd_pc ?s i \<noteq> SNew b" for i
    using that st sd_okD(2) [OF ok, of i] by (auto dest: call_consumer)
  show "roused (sd_pc ?s i) (sd_wk ?s i)" if "was_told (sd_main ?s) i" "i < sd_n ?s" for i
    using that t [of i] sd_okD(3) [OF ok, of i] call_roused [OF st, of "sd_pc s k"]
    by (auto simp: roused_def)
  show "targets_ok ?s" using sd_okD(6) [OF ok] by (auto simp: targets_ok_def)
  show "begun \<Longrightarrow> sd_ppc ?s \<noteq> LStart \<and> (asked (sd_main ?s) \<longrightarrow> sd_pstate ?s = Stop)"
    using sd_okD(7) [OF ok] m(3) by simp
  show "sd_main ?s \<in> {MDel, MDone} \<Longrightarrow> sd_ppc ?s = LExit" using m(1) by auto
qed (use m j in auto)

text \<open>\<open>notify\<close> ends with the flag set and the processer not waiting.\<close>

lemma note_rouses:
  assumes ok: "sd_ok begun s" and m: "sd_main s = MNote i pc" and pc: "pc \<noteq> ADone"
    and st: "call_step cap 0 pc (sd_wk s i) = Some (v, pc')" "pc' = ADone"
  shows "flag v \<and> consumer v \<noteq> CWait"
proof -
  have "pc \<in> {ALock, ANote, ASignal}" using sd_okD(5) [OF ok] m pc by (auto simp: main_ok_def)
  moreover have "pc = ASignal \<Longrightarrow> flag (sd_wk s i)"
    using locks_okD(3) [OF sd_okD(1) [OF ok], of 0 i] m by simp
  ultimately show ?thesis using st by (auto simp: call_step_def split: if_splits)
qed

lemma ok_main_state:
  assumes ok: "sd_ok begun s" and i: "i < sd_n s" "sd_main s = MState i"
  shows "sd_ok begun (s\<lparr>sd_wk := (sd_wk s)(i := (sd_wk s i)\<lparr>wk_state := Stop\<rparr>), sd_main := MNote i ALock\<rparr>)"
    (is "sd_ok begun ?s")
proof (rule sd_okI)
  have "locks_ok ((sd_wk s)(i := (sd_wk s i)\<lparr>wk_state := Stop\<rparr>)) (sd_calls s)"
    by (rule locks_local [OF sd_okD(1) [OF ok]]) simp_all
  then show "locks_ok (sd_wk ?s) (sd_calls ?s)" using i by (auto simp: calls_main intro!: locks_move)
  show "roused (sd_pc ?s k) (sd_wk ?s k)" if "was_told (sd_main ?s) k" "k < sd_n ?s" for k
    using that i sd_okD(3) [OF ok, of k] by (auto simp: roused_def)
  show "targets_ok ?s" using sd_okD(6) [OF ok] by (auto simp: targets_ok_def)
  show "main_ok (sd_n ?s) (sd_sched ?s) (sd_main ?s)" using sd_okD(5) [OF ok] i by (simp add: main_ok_def)
qed (use sd_okD [OF ok] i in \<open>auto simp: asked_def\<close>)

lemma main_step_ok:
  assumes ok: "sd_ok begun s" and st: "main_step cap c s = Some s'"
  shows "sd_ok begun s'"
proof -
  note main = sd_okD(5) [OF ok]
  note steps = main_step_def main_ok_def asked_def less_Suc_eq
  note goto = ok_main [OF ok, of "sd_sched s" _ "sd_pstate s", simplified]
  note stop = ok_main [OF ok, of _ _ "sd_pstate s", simplified]
  note halt = ok_main [OF ok, of "sd_sched s", simplified]
  show ?thesis
  proof (cases "sd_main s")
    case (MRun x)
    show ?thesis
    proof (cases x)
      case None
      with MRun main st show ?thesis by (auto simp: steps intro!: goto stop split: if_splits option.splits)
    next
      case (Some y)
      obtain k pc where y: "y = (k, pc)" by (cases y)
      show ?thesis
      proof (cases "pc = ADone")
        case True
        with MRun main st Some y show ?thesis by (auto simp: steps intro!: goto)
      next
        case False
        with MRun st Some y obtain r pc' where t: "sd_call cap 0 k pc s = Some (r, pc')"
          "s' = r\<lparr>sd_main := MRun (Some (k, pc'))\<rparr>"
          by (auto simp: main_step_def split: option.splits)
        from t(1) obtain v where v: "call_step cap 0 pc (sd_wk s k) = Some (v, pc')"
          "r = s\<lparr>sd_wk := (sd_wk s)(k := v)\<rparr>" by (rule sd_callE)
        with MRun Some y main t(2) show ?thesis
          by (auto simp: main_ok_def asked_def intro!: ok_main_call [OF ok _ v(1)])
      qed
    qed
  next
    case (MNote i pc)
    show ?thesis
    proof (cases "pc = ADone")
      case True
      with MNote main st show ?thesis by (auto simp: steps intro!: goto)
    next
      case False
      with MNote st obtain r pc' where t: "sd_call cap 0 i pc s = Some (r, pc')"
        "s' = r\<lparr>sd_main := MNote i pc'\<rparr>"
        by (auto simp: main_step_def split: option.splits)
      from t(1) obtain v where v: "call_step cap 0 pc (sd_wk s i) = Some (v, pc')"
        "r = s\<lparr>sd_wk := (sd_wk s)(i := v)\<rparr>" by (rule sd_callE)
      have "pc' \<in> {ALock, ANote, ASignal, ADone}" using main MNote False v(1)
        by (auto simp: main_ok_def call_step_def split: if_splits)
      with MNote main False note_rouses [OF ok MNote False v(1)] t(2) v(2) show ?thesis
        by (auto simp: main_ok_def asked_def intro!: ok_main_call [OF ok _ v(1)])
    qed
  next
    case (MState i)
    with main st ok_main_state [OF ok _ MState] show ?thesis
      by (auto simp: steps intro!: goto split: if_splits)
  qed (use main st sd_okD [OF ok] in \<open>auto simp: steps intro!: goto stop halt split: if_splits\<close>)
qed

lemma sd_step_ok: "sd_ok begun s \<Longrightarrow> sd_step cap m s = Some s' \<Longrightarrow> sd_ok begun s'"
  by (cases m) (auto intro: main_step_ok poll_step_ok proc_step_ok split: if_splits)

lemma sd_reach_ok: "sd_reach cap n begun s \<Longrightarrow> sd_ok begun s"
  by (induction rule: sd_reach.induct) (auto intro: sd_ok_init sd_step_ok)

end
