(* ===== verification/ShutdownRuns.thy ===== *)
theory ShutdownRuns
  imports Shutdown "HOL-Library.Product_Lexorder"
begin

text \<open>
  What the shutdown of \<open>Shutdown\<close> comes to: a measure of what is left to do, no deadlock, the
  order of joining and freeing, and the two ways in which it can fail to end.
\<close>

section \<open>What is left to do\<close>

text \<open>
  Once the scheduler is stopping, every thread goes through the rest of its code once. \<open>stage\<close>
  tells a processer that has not exchanged \<open>m_newfiberCount\<close> for the last time from one that
  has; within a stage \<open>prank\<close> counts down.
\<close>

definition crank :: "apc \<Rightarrow> nat" where
  "crank pc = (case pc of AStart \<Rightarrow> 10 | APush \<Rightarrow> 9 | ACount \<Rightarrow> 8 | ATest \<Rightarrow> 7 | ASetN \<Rightarrow> 6
     | ALock \<Rightarrow> 5 | ANote \<Rightarrow> 4 | ASignal \<Rightarrow> 3 | ASetR \<Rightarrow> 1 | ADone \<Rightarrow> 0)"

definition stage :: "proc_pc \<Rightarrow> wk \<Rightarrow> nat" where
  "stage pc w = (case pc of SPick \<Rightarrow> 1 | SSeg _ _ \<Rightarrow> 1 | SMore \<Rightarrow> 1
     | SNew _ \<Rightarrow> if consumer w = CPoll then 1 else 0 | _ \<Rightarrow> 0)"

definition new_rank :: "wk \<Rightarrow> nat" where
  "new_rank w = (case consumer w of CPoll \<Rightarrow> 11 | CPop k \<Rightarrow> 11 + k | CCheck \<Rightarrow> 10 | CLock \<Rightarrow> 9
     | CTest \<Rightarrow> 8 | CSetIdle \<Rightarrow> 7 | CWhile \<Rightarrow> if flag w then 3 else 6 | CWait \<Rightarrow> 5 | CWake \<Rightarrow> 4
     | CSetRun \<Rightarrow> 2)"

definition prank :: "proc_pc \<Rightarrow> wk \<Rightarrow> nat" where
  "prank pc w = (case pc of SExit \<Rightarrow> 0 | SHead \<Rightarrow> 1 | SStart \<Rightarrow> 2 | SInner \<Rightarrow> 2 | SNew _ \<Rightarrow> new_rank w
     | SPick \<Rightarrow> 12 | SMore \<Rightarrow> 12 | SSeg ks pc \<Rightarrow> 13 + 11 * length ks + crank pc)"

definition lrank :: "poll_pc \<Rightarrow> nat" where
  "lrank pc = (case pc of LExit \<Rightarrow> 0 | LTop2 \<Rightarrow> 1 | LTest2 \<Rightarrow> 1 | LTop \<Rightarrow> 2 | LTest \<Rightarrow> 2 | LWait \<Rightarrow> 3
     | LWork xs c \<Rightarrow> 3 + 12 * length xs + (case c of None \<Rightarrow> 11 | Some a \<Rightarrow> crank a) | LStart \<Rightarrow> 4)"

definition mrank :: "nat \<Rightarrow> own_pc \<Rightarrow> nat" where
  "mrank n m = (case m of MState i \<Rightarrow> n + 10 + 10 * (n - i)
     | MNote i pc \<Rightarrow> n + 11 + 10 * (n - Suc i) + crank pc
     | MJoin i \<Rightarrow> 6 + (n - i) | MTest \<Rightarrow> 5 | MSet \<Rightarrow> 4 | MWake \<Rightarrow> 3 | MJoinP \<Rightarrow> 2 | MDel \<Rightarrow> 1 | _ \<Rightarrow> 0)"

definition rest :: "shut \<Rightarrow> nat \<times> nat" where
  "rest s =
     ((\<Sum>k < sd_n s. stage (sd_pc s k) (sd_wk s k)) + (if sd_pstate s = Stop then 0 else 1),
      (\<Sum>k < sd_n s. prank (sd_pc s k) (sd_wk s k)) + mrank (sd_n s) (sd_main s) +
        (if sd_pstate s = Stop then lrank (sd_ppc s) else 0))"

lemma rest_le:
  assumes "sd_n t = sd_n s" "sd_pstate t = sd_pstate s"
    and "\<And>k. k < sd_n s \<Longrightarrow> stage (sd_pc t k) (sd_wk t k) \<le> stage (sd_pc s k) (sd_wk s k)"
    and "\<And>k. k < sd_n s \<Longrightarrow> prank (sd_pc t k) (sd_wk t k) \<le> prank (sd_pc s k) (sd_wk s k)"
    and "mrank (sd_n s) (sd_main t) \<le> mrank (sd_n s) (sd_main s)"
    and "sd_pstate s = Stop \<Longrightarrow> lrank (sd_ppc t) \<le> lrank (sd_ppc s)"
  shows "rest t \<le> rest s"
    and "mrank (sd_n s) (sd_main t) < mrank (sd_n s) (sd_main s) \<or>
      sd_pstate s = Stop \<and> lrank (sd_ppc t) < lrank (sd_ppc s) \<Longrightarrow> rest t < rest s"
proof -
  have "(\<Sum>k < sd_n s. stage (sd_pc t k) (sd_wk t k)) \<le> (\<Sum>k < sd_n s. stage (sd_pc s k) (sd_wk s k))"
    "(\<Sum>k < sd_n s. prank (sd_pc t k) (sd_wk t k)) \<le> (\<Sum>k < sd_n s. prank (sd_pc s k) (sd_wk s k))"
    by (rule sum_mono; use assms(3,4) in simp)+
  then show "rest t \<le> rest s"
    and "mrank (sd_n s) (sd_main t) < mrank (sd_n s) (sd_main s) \<or>
      sd_pstate s = Stop \<and> lrank (sd_ppc t) < lrank (sd_ppc s) \<Longrightarrow> rest t < rest s"
    using assms(1,2,5,6) by (auto simp: rest_def less_eq_prod_def less_prod_def)
qed

lemma rest_proc_less:
  assumes same: "sd_n t = sd_n s" "sd_pstate t = sd_pstate s" "sd_main t = sd_main s" "sd_ppc t = sd_ppc s"
    and j: "j < sd_n s"
    and less: "stage (sd_pc t j) (sd_wk t j) < stage (sd_pc s j) (sd_wk s j) \<or>
      stage (sd_pc t j) (sd_wk t j) \<le> stage (sd_pc s j) (sd_wk s j) \<and>
      prank (sd_pc t j) (sd_wk t j) < prank (sd_pc s j) (sd_wk s j)"
    and other: "\<And>k. k < sd_n s \<Longrightarrow> k \<noteq> j \<Longrightarrow> stage (sd_pc t k) (sd_wk t k) \<le> stage (sd_pc s k) (sd_wk s k)"
      "\<And>k. k < sd_n s \<Longrightarrow> k \<noteq> j \<Longrightarrow> prank (sd_pc t k) (sd_wk t k) \<le> prank (sd_pc s k) (sd_wk s k)"
  shows "rest t < rest s"
proof -
  let ?st = "\<lambda>u. \<Sum>k < sd_n s. stage (sd_pc u k) (sd_wk u k)"
  let ?pr = "\<lambda>u. \<Sum>k < sd_n s. prank (sd_pc u k) (sd_wk u k)"
  have le: "\<forall>k \<in> {..<sd_n s}. stage (sd_pc t k) (sd_wk t k) \<le> stage (sd_pc s k) (sd_wk s k)"
    using less other(1) by (metis lessThan_iff order.strict_implies_order)
  then have "?st t \<le> ?st s" by (intro sum_mono) simp
  moreover have "?st t < ?st s" if "stage (sd_pc t j) (sd_wk t j) < stage (sd_pc s j) (sd_wk s j)"
    by (rule sum_strict_mono_ex1) (use le that j in auto)
  moreover have "?pr t < ?pr s" if "prank (sd_pc t j) (sd_wk t j) < prank (sd_pc s j) (sd_wk s j)"
  proof (rule sum_strict_mono_ex1)
    show "\<forall>k \<in> {..<sd_n s}. prank (sd_pc t k) (sd_wk t k) \<le> prank (sd_pc s k) (sd_wk s k)"
      using that other(2) by (metis lessThan_iff order.strict_implies_order)
  qed (use that j in auto)
  ultimately show ?thesis using less same by (auto simp: rest_def less_prod_def)
qed

lemma call_rank:
  assumes "call_step cap i pc w = Some (v, pc')"
  shows "crank pc' < crank pc" and "stage p v = stage p w" and "prank p v \<le> prank p w"
  using assms
  by (cases pc; auto simp: call_step_def crank_def stage_def prank_def new_rank_def split: proc_pc.splits cpc.splits if_splits)+

lemma cstep_rank:
  assumes "cstep w = Some v" and "consumer w = CWake \<Longrightarrow> flag w" and "consumer v \<noteq> CPoll"
  shows "consumer w = CPoll \<or> new_rank v < new_rank w"
  using assms by (cases "consumer w") (auto simp: cstep_def new_rank_def split: nat.splits if_splits)

lemma new_rank_pos: "1 < new_rank w"
  by (auto simp: new_rank_def split: cpc.splits)

lemma seg_ranks: "stage (SSeg ks pc) w = 1" "prank (SSeg ks pc) w = 13 + 11 * length ks + crank pc"
  by (simp_all add: stage_def prank_def)

lemma proc_at_rest:
  assumes "k < sd_n s" and "stage p w < stage (sd_pc s k) (sd_wk s k) \<or>
    stage p w \<le> stage (sd_pc s k) (sd_wk s k) \<and> prank p w < prank (sd_pc s k) (sd_wk s k)"
  shows "rest (proc_at k w p s) < rest s"
  by (rule rest_proc_less [of _ _ k]) (use assms in \<open>auto simp: proc_at_def\<close>)

lemma proc_step_rest:
  assumes ok: "sd_ok begun s" and k: "k < sd_n s" and stop: "sd_sched s = Stop"
    and st: "proc_step cap k ks b s = Some s'"
  shows "rest s' < rest s"
proof (cases "sd_pc s k")
  case (SNew idle)
  let ?w = "sd_wk s k"
  show ?thesis
  proof (cases "consumer ?w = CCheck \<and> (\<not> idle \<or> runnable_n ?w \<noteq> 0)")
    case True
    with SNew st k show ?thesis
      by (auto simp: proc_step_def proc_new_def Let_def stage_def prank_def new_rank_def intro!: proc_at_rest)
  next
    case False
    with SNew st obtain v where v: "cstep ?w = Some v"
      and s': "s' = proc_at k v (if consumer v = CPoll then SHead else SNew idle) s"
      by (auto simp: proc_step_def proc_new_def Let_def split: option.splits if_splits)
    have "consumer v = CPoll \<or> consumer ?w = CPoll \<or> new_rank v < new_rank ?w"
      using cstep_rank [OF v locks_okD(2) [OF sd_okD(1) [OF ok]]] by blast
    then show ?thesis unfolding s'
      using SNew new_rank_pos [of ?w] by (intro proc_at_rest [OF k]) (auto simp: stage_def prank_def)
  qed
next
  case (SSeg js pc)
  show ?thesis
  proof (cases "js = [] \<or> pc = ADone")
    case True
    with SSeg st k show ?thesis
      by (cases js) (auto simp: proc_step_def Let_def stage_def prank_def crank_def intro!: proc_at_rest split: if_splits)
  next
    case False
    then obtain j js' where js: "js = j # js'" by (cases js) auto
    with False SSeg st obtain t pc' where t: "sd_call cap (k + 2) j pc s = Some (t, pc')"
      "s' = t\<lparr>sd_pc := (sd_pc t)(k := SSeg (j # js') pc')\<rparr>"
      by (auto simp: proc_step_def Let_def split: option.splits)
    from t(1) obtain v where v: "call_step cap (k + 2) pc (sd_wk s j) = Some (v, pc')"
      "t = s\<lparr>sd_wk := (sd_wk s)(j := v)\<rparr>" by (rule sd_callE)
    show ?thesis
      by (rule rest_proc_less [of _ _ k])
        (use SSeg js k t(2) v(2) call_rank [OF v(1)] in \<open>auto simp: seg_ranks\<close>)
  qed
qed (use st stop k in \<open>auto simp: proc_step_def Let_def stage_def prank_def new_rank_def
    dest: sd_okD(2) [OF ok] intro!: proc_at_rest split: if_splits\<close>)

lemma poll_step_rest:
  assumes ok: "sd_ok True s" and stop: "sd_sched s = Stop" and st: "poll_step cap c s = Some s'"
  shows "rest s' \<le> rest s" and "sd_pstate s = Stop \<Longrightarrow> rest s' < rest s"
proof -
  have "(sd_pstate s = Stop \<longrightarrow> lrank (sd_ppc s') < lrank (sd_ppc s)) \<and> sd_n s' = sd_n s \<and> sd_main s' = sd_main s \<and>
    sd_pc s' = sd_pc s \<and> sd_pstate s' = sd_pstate s \<and>
    (\<forall>k p. stage p (sd_wk s' k) = stage p (sd_wk s k) \<and> prank p (sd_wk s' k) \<le> prank p (sd_wk s k))"
  proof (cases "sd_ppc s")
    case (LWork xs pc)
    show ?thesis
    proof (cases "\<exists>t k ys a. xs = (t, k) # ys \<and> pc = Some a \<and> a \<noteq> ADone")
      case True
      then obtain t k ys a where xs: "xs = (t, k) # ys" "pc = Some a" "a \<noteq> ADone" by blast
      with LWork st obtain r pc' where t: "sd_call cap 1 k a s = Some (r, pc')"
        "s' = r\<lparr>sd_ppc := LWork ((t, k) # ys) (Some pc')\<rparr>"
        by (auto simp: poll_step_def split: option.splits)
      from t(1) obtain v where v: "call_step cap 1 a (sd_wk s k) = Some (v, pc')"
        "r = s\<lparr>sd_wk := (sd_wk s)(k := v)\<rparr>" by (rule sd_callE)
      with LWork xs t(2) call_rank [OF v(1)] show ?thesis by (auto simp: lrank_def)
    next
      case False
      with LWork st show ?thesis
        by (cases xs; cases pc) (auto simp: poll_step_def lrank_def crank_def split: if_splits)
    qed
  qed (use sd_okD(7) [OF ok] stop st in
    \<open>auto simp: poll_step_def poll_begin_def lrank_def split: if_splits option.splits\<close>)
  then show "rest s' \<le> rest s" and "sd_pstate s = Stop \<Longrightarrow> rest s' < rest s"
    using rest_le [of s' s] by auto
qed

lemma main_step_rest:
  assumes ok: "sd_ok begun s" and stop: "sd_sched s = Stop" and st: "main_step cap c s = Some s'"
  shows "rest s' < rest s"
proof -
  note main = sd_okD(5) [OF ok]
  have goto: "rest (s\<lparr>sd_main := m\<rparr>) < rest s" "rest (s\<lparr>sd_sched := t, sd_main := m\<rparr>) < rest s"
    if "mrank (sd_n s) m < mrank (sd_n s) (sd_main s)" for m t
    by (rule rest_le(2); use that in simp)+
  show ?thesis
  proof (cases "sd_main s")
    case (MState i)
    with st main show ?thesis
      by (auto simp: main_step_def main_ok_def mrank_def stage_def prank_def new_rank_def crank_def
          intro!: goto rest_le(2) split: if_splits proc_pc.splits cpc.splits)
  next
    case (MNote i pc)
    show ?thesis
    proof (cases "pc = ADone")
      case True
      with MNote st main show ?thesis by (auto simp: main_step_def main_ok_def mrank_def crank_def intro!: goto)
    next
      case False
      with MNote st obtain r pc' where t: "sd_call cap 0 i pc s = Some (r, pc')" "s' = r\<lparr>sd_main := MNote i pc'\<rparr>"
        by (auto simp: main_step_def split: option.splits)
      from t(1) obtain v where v: "call_step cap 0 pc (sd_wk s i) = Some (v, pc')"
        "r = s\<lparr>sd_wk := (sd_wk s)(i := v)\<rparr>" by (rule sd_callE)
      show ?thesis
        by (rule rest_le(2)) (use MNote t(2) v(2) call_rank [OF v(1)] in \<open>auto simp: mrank_def\<close>)
    qed
  next
    case MSet
    with st show ?thesis
      by (cases "sd_pstate s = Stop") (auto simp: main_step_def rest_def less_prod_def mrank_def)
  qed (use st main stop in \<open>auto simp: main_step_def main_ok_def mrank_def intro!: goto split: if_splits\<close>)
qed

section \<open>Somebody can always go on\<close>

text \<open>A thread spins in \<open>newQueue.push\<close> because the queue is full.\<close>

definition push_blocked :: "nat \<Rightarrow> shut \<Rightarrow> bool" where
  "push_blocked cap s \<longleftrightarrow> (\<exists>i k. sd_calls s i = Some (k, APush) \<and> cap \<le> queued (sd_wk s k))"

definition outside_ok :: "shut \<Rightarrow> bool" where
  "outside_ok s \<longleftrightarrow> (\<forall>k \<ge> sd_n s. sd_pc s k = SStart)"

lemma proc_step_outside:
  "proc_step cap k ks b s = Some s' \<Longrightarrow> sd_n s' = sd_n s \<and> (\<forall>j. j \<noteq> k \<longrightarrow> sd_pc s' j = sd_pc s j)"
  by (auto simp: proc_step_def proc_new_def proc_at_def Let_def elim!: sd_callE
      split: proc_pc.splits list.splits option.splits if_splits)

lemma other_step_outside:
  "poll_step cap c s = Some s' \<Longrightarrow> sd_n s' = sd_n s \<and> sd_pc s' = sd_pc s"
  "main_step cap d s = Some s' \<Longrightarrow> sd_n s' = sd_n s \<and> sd_pc s' = sd_pc s"
  by (auto simp: poll_step_def poll_begin_def elim!: sd_callE
        split: poll_pc.splits list.splits prod.splits option.splits if_splits)
    (auto simp: main_step_def elim!: sd_callE split: own_pc.splits prod.splits option.splits if_splits)

lemma step_outside: "sd_step cap m s = Some s' \<Longrightarrow> outside_ok s \<Longrightarrow> outside_ok s'"
  by (cases m) (auto simp: outside_ok_def dest: proc_step_outside other_step_outside split: if_splits)

lemma reach_outside: "sd_reach cap n begun s \<Longrightarrow> outside_ok s"
  by (induction rule: sd_reach.induct) (auto simp: outside_ok_def sd_init_def dest: step_outside)

lemma call_stuck:
  "call_step cap i pc w = None \<Longrightarrow> pc = ADone \<or> pc = APush \<and> cap \<le> queued w \<or> pc = ALock \<and> mutex w \<noteq> None"
  by (cases pc) (auto simp: call_step_def split: if_splits)

lemma not_blocked: "\<not> push_blocked cap s \<Longrightarrow> sd_calls s i = Some (k, APush) \<Longrightarrow> \<not> cap \<le> queued (sd_wk s k)"
  by (auto simp: push_blocked_def)

text \<open>A state in which the shutdown goes on, with the poller outside the locked part of \<open>notify\<close>.\<close>

definition going :: "nat \<Rightarrow> shut \<Rightarrow> bool" where
  "going cap s \<longleftrightarrow> sd_ok True s \<and> outside_ok s \<and> sd_sched s = Stop \<and> \<not> push_blocked cap s"

definition nearer :: "nat \<Rightarrow> shut \<Rightarrow> bool" where
  "nearer cap s \<longleftrightarrow> (\<exists>m s'. sd_step cap m s = Some s' \<and> rest s' < rest s)"

lemma main_nearer: "going cap s \<Longrightarrow> main_step cap c s = Some s' \<Longrightarrow> nearer cap s"
  unfolding nearer_def going_def by (metis main_step_rest sd_step.simps(1))

lemma poll_nearer: "going cap s \<Longrightarrow> sd_pstate s = Stop \<Longrightarrow> poll_step cap c s = Some s' \<Longrightarrow> nearer cap s"
  unfolding nearer_def going_def by (metis poll_step_rest(2) sd_step.simps(2))

lemma proc_nearer: "going cap s \<Longrightarrow> k < sd_n s \<Longrightarrow> proc_step cap k ks b s = Some s' \<Longrightarrow> nearer cap s"
  unfolding nearer_def going_def by (metis proc_step_rest sd_step.simps(3))

lemma holder_nearer:
  assumes g: "going cap s" and m: "mutex (sd_wk s k) = Some ow" and k: "k < sd_n s"
    and l: "\<And>j. \<not> in_lock (poll_call (sd_ppc s)) j"
  shows "nearer cap s"
proof -
  have ok: "sd_ok True s" and out: "outside_ok s" using g by (auto simp: going_def)
  have h: "holds (sd_wk s) (sd_calls s) ow k" using locks_okD(1) [OF sd_okD(1) [OF ok]] m by simp
  show ?thesis
  proof (cases ow)
    case Consumer
    with h have c: "consumer (sd_wk s k) \<in> {CTest, CSetIdle, CWhile, CSetRun}" by (simp add: holds_def)
    have "consumer (sd_wk s k) \<noteq> CPoll" using c by auto
    then obtain idle where "sd_pc s k = SNew idle" using sd_okD(2) [OF ok, of k] by blast
    with c have "\<exists>s'. proc_step cap k [] False s = Some s'"
      by (auto simp: proc_step_def proc_new_def cstep_def Let_def)
    with proc_nearer [OF g k] show ?thesis by blast
  next
    case (Adder i)
    with h obtain pc where c: "sd_calls s i = Some (k, pc)" "pc = ANote \<or> pc = ASignal"
      by (cases "sd_calls s i") (auto simp: holds_def)
    consider "i = 0" | "i = 1" | j where "i = j + 2"
      by (metis One_nat_def Suc_eq_plus1 add_2_eq_Suc' not0_implies_Suc)
    then show ?thesis
    proof cases
      case 1
      with c have "\<exists>s'. main_step cap None s = Some s'"
        by (cases "sd_main s") (auto simp: main_step_def sd_call_def call_step_def)
      with main_nearer [OF g] show ?thesis by blast
    next
      case 2
      with c l [of k] show ?thesis by auto
    next
      case (3 j)
      with c have "j < sd_n s" using out by (force simp: outside_ok_def not_less [symmetric])
      moreover from 3 c have "\<exists>s'. proc_step cap j [] False s = Some s'"
        by (cases "sd_pc s j" rule: seg_call.cases) (auto simp: proc_step_def sd_call_def call_step_def)
      ultimately show ?thesis using proc_nearer [OF g] by blast
    qed
  qed
qed

lemma proc_can_go:
  assumes g: "going cap s" and k: "k < sd_n s" "sd_pc s k \<noteq> SExit" "consumer (sd_wk s k) \<noteq> CWait"
    and l: "\<And>j. \<not> in_lock (poll_call (sd_ppc s)) j"
  shows "nearer cap s"
proof (cases "proc_step cap k [] False s")
  case (Some s')
  then show ?thesis by (rule proc_nearer [OF g k(1)])
next
  case None
  have ok: "sd_ok True s" and nb: "\<not> push_blocked cap s" using g by (auto simp: going_def)
  show ?thesis
  proof (cases "sd_pc s k")
    case (SNew idle)
    with None k(3) have "mutex (sd_wk s k) \<noteq> None"
      by (cases "consumer (sd_wk s k)")
        (auto simp: proc_step_def proc_new_def cstep_def Let_def split: nat.splits if_splits)
    then show ?thesis using holder_nearer [OF g _ k(1) l] by auto
  next
    case (SSeg js pc)
    with None obtain j js' where js: "js = j # js'" "call_step cap (k + 2) pc (sd_wk s j) = None" "pc \<noteq> ADone"
      by (cases js) (auto simp: proc_step_def sd_call_def Let_def split: option.splits if_splits)
    have "mutex (sd_wk s j) \<noteq> None"
      using call_stuck [OF js(2)] js not_blocked [OF nb, of "k + 2" j] SSeg by auto
    moreover have "j < sd_n s" using seg_targets [OF sd_okD(6) [OF ok]] SSeg js by blast
    ultimately show ?thesis using holder_nearer [OF g _ _ l] by auto
  qed (use None k g in \<open>auto simp: proc_step_def Let_def going_def split: if_splits\<close>)
qed

lemma going_nearer:
  assumes g: "going cap s" and l: "\<And>j. \<not> in_lock (poll_call (sd_ppc s)) j"
  shows "nearer cap s"
proof (cases "main_step cap None s")
  case (Some s')
  then show ?thesis by (rule main_nearer [OF g])
next
  case None
  have ok: "sd_ok True s" and stop: "sd_sched s = Stop" and nb: "\<not> push_blocked cap s"
    using g by (auto simp: going_def)
  note main = sd_okD(5) [OF ok]
  show ?thesis
  proof (cases "sd_main s")
    case (MNote i pc)
    with None have "call_step cap 0 pc (sd_wk s i) = None"
      by (auto simp: main_step_def sd_call_def split: option.splits if_splits)
    with call_stuck [OF this] MNote None main have "mutex (sd_wk s i) \<noteq> None" "i < sd_n s"
      by (auto simp: main_step_def main_ok_def)
    with holder_nearer [OF g _ _ l] show ?thesis by auto
  next
    case (MJoin i)
    with None have i: "i < sd_n s" "sd_pc s i \<noteq> SExit" by (auto simp: main_step_def split: if_splits)
    have "consumer (sd_wk s i) \<noteq> CWait"
      using sd_okD(3) [OF ok, of i] sd_okD(2) [OF ok, of i] MJoin i by (auto simp: roused_def)
    with proc_can_go [OF g i _ l] show ?thesis by blast
  next
    case MJoinP
    with None have x: "sd_ppc s \<noteq> LExit" by (auto simp: main_step_def split: if_splits)
    have ps: "sd_pstate s = Stop" using sd_okD(8) [OF ok] MJoinP by (simp add: asked_def)
    show ?thesis
    proof (cases "poll_step cap (Some []) s")
      case (Some s')
      then show ?thesis by (rule poll_nearer [OF g ps])
    next
      case nop: None
      then obtain t k xs pc where w: "sd_ppc s = LWork ((t, k) # xs) (Some pc)" "call_step cap 1 pc (sd_wk s k) = None"
          "pc \<noteq> ADone"
        using x by (cases "sd_ppc s" rule: poll_call.cases)
          (auto simp: poll_step_def poll_begin_def sd_call_def split: option.splits if_splits list.splits)
      have "mutex (sd_wk s k) \<noteq> None"
        using call_stuck [OF w(2)] w not_blocked [OF nb, of 1 k] by auto
      moreover have "k < sd_n s" using work_targets [OF sd_okD(6) [OF ok] w(1)] by simp
      ultimately show ?thesis using holder_nearer [OF g _ _ l] by auto
    qed
  qed (use None main stop in \<open>auto simp: main_step_def main_ok_def split: if_splits\<close>)
qed

text \<open>When the poller is in the locked part of \<open>notify\<close> it can leave it.\<close>

lemma poll_sched: "poll_step cap c s = Some s' \<Longrightarrow> sd_sched s' = sd_sched s"
  by (auto simp: poll_step_def poll_begin_def elim!: sd_callE
        split: poll_pc.splits list.splits prod.splits option.splits if_splits)

lemma poll_run:
  assumes "sd_ok True s" and "outside_ok s" and "sd_sched s = Stop" and st: "poll_step cap c s = Some s'"
  shows "sd_ok True s' \<and> outside_ok s' \<and> sd_sched s' = Stop \<and> rest s' \<le> rest s"
  using assms(1-3) poll_step_ok [OF assms(1) st] poll_step_rest(1) [OF assms(1,3) st] poll_sched [OF st]
    step_outside [of cap "ByPoller c"] st by simp

lemma poll_leaves:
  assumes ok: "sd_ok True s" "outside_ok s" "sd_sched s = Stop"
  shows "\<exists>ms s'. sd_run cap ms s = Some s' \<and> sd_ok True s' \<and> outside_ok s' \<and> sd_sched s' = Stop \<and>
    rest s' \<le> rest s \<and> (\<forall>j. \<not> in_lock (poll_call (sd_ppc s')) j)"
proof (cases "\<exists>j. in_lock (poll_call (sd_ppc s)) j")
  case False
  with ok show ?thesis by (intro exI [of _ "[]"]) auto
next
  case True
  then obtain t k xs pc where w: "sd_ppc s = LWork ((t, k) # xs) (Some pc)" "pc = ANote \<or> pc = ASignal"
    by (cases "sd_ppc s" rule: poll_call.cases) auto
  have last: "\<exists>r'. poll_step cap None r = Some r' \<and> sd_ppc r' = LWork ((t, k) # xs) (Some ADone)"
    if "sd_ppc r = LWork ((t, k) # xs) (Some ASignal)" for r
    using that by (simp add: poll_step_def sd_call_def call_step_def)
  show ?thesis
  proof (cases "pc = ASignal")
    case True
    with w last obtain r where r: "poll_step cap None s = Some r" "sd_ppc r = LWork ((t, k) # xs) (Some ADone)"
      by blast
    with poll_run [OF ok r(1)] show ?thesis by (intro exI [of _ "[ByPoller None]"] exI [of _ r]) auto
  next
    case False
    with w obtain r where r: "poll_step cap None s = Some r" "sd_ppc r = LWork ((t, k) # xs) (Some ASignal)"
      by (auto simp: poll_step_def sd_call_def call_step_def)
    with last obtain q where q: "poll_step cap None r = Some q" "sd_ppc q = LWork ((t, k) # xs) (Some ADone)"
      by blast
    note okr = poll_run [OF ok r(1)]
    then have "sd_ok True q \<and> outside_ok q \<and> sd_sched q = Stop \<and> rest q \<le> rest r"
      using poll_run [OF _ _ _ q(1)] by blast
    with okr r q show ?thesis by (intro exI [of _ "[ByPoller None, ByPoller None]"] exI [of _ q]) auto
  qed
qed

lemma step_sched:
  assumes "sd_step cap m s = Some s'" and "sd_sched s = Stop"
  shows "sd_sched s' = Stop \<or> sd_main s' = MDone"
proof (cases m)
  case (ByMain c)
  with assms show ?thesis
    by (auto simp: main_step_def elim!: sd_callE split: own_pc.splits prod.splits option.splits if_splits)
next
  case (ByPoller c)
  with assms poll_sched show ?thesis by auto
next
  case (ByProc k ks b)
  with assms show ?thesis
    by (auto simp: proc_step_def proc_new_def proc_at_def Let_def elim!: sd_callE
        split: proc_pc.splits list.splits option.splits if_splits)
qed

lemma shutdown_reachable:
  "sd_ok True s \<Longrightarrow> outside_ok s \<Longrightarrow> sd_sched s = Stop \<Longrightarrow>
    \<exists>ms s'. sd_run cap ms s = Some s' \<and> (sd_main s' = MDone \<or> push_blocked cap s')"
proof (induction "rest s" arbitrary: s rule: less_induct)
  case less
  obtain ms r where r: "sd_run cap ms s = Some r" "sd_ok True r" "outside_ok r" "sd_sched r = Stop" "rest r \<le> rest s"
    and l: "\<And>j. \<not> in_lock (poll_call (sd_ppc r)) j"
    using poll_leaves [OF less.prems, of cap] by blast
  show ?case
  proof (cases "push_blocked cap r")
    case True
    with r(1) show ?thesis by blast
  next
    case False
    with r have "nearer cap r" by (intro going_nearer l) (simp add: going_def)
    then obtain m q where q: "sd_step cap m r = Some q" "rest q < rest r" by (auto simp: nearer_def)
    have run: "sd_run cap (ms @ [m]) s = Some q" using r(1) q(1) by (simp add: sd_run_append)
    show ?thesis
    proof (cases "sd_main q = MDone")
      case True
      with run show ?thesis by blast
    next
      case False
      then have "sd_sched q = Stop" using step_sched [OF q(1) r(4)] by simp
      moreover have "rest q < rest s" using q(2) r(5) by (rule less_le_trans)
      ultimately
      obtain ns s' where "sd_run cap ns q = Some s'" "sd_main s' = MDone \<or> push_blocked cap s'"
        using less.hyps [OF _ sd_step_ok [OF r(2) q(1)] step_outside [OF q(1) r(3)]] by blast
      with run have "sd_run cap ((ms @ [m]) @ ns) s = Some s'" by (simp only: sd_run_append bind.simps)
      with \<open>sd_main s' = MDone \<or> _\<close> show ?thesis by blast
    qed
  qed
qed

section \<open>Properties\<close>

text \<open>
  C11: Nothing is freed while a thread can still use it: when the owner deletes the processers and
  the poller, every processer and the poller are out of their loops and no call of \<open>addFiber\<close> or
  \<open>notify\<close> is under way, in every interleaving, also of a scheduler that has only just started.
\<close>

theorem shutdown_frees_after_exit:
  assumes "sd_reach cap n begun s" and "sd_main s \<in> {MDel, MDone}"
  shows "(\<forall>k < sd_n s. sd_pc s k = SExit) \<and> sd_ppc s = LExit \<and> (\<forall>i. sd_calls s i = None)"
proof -
  note ok = sd_reach_ok [OF assms(1)]
  have p: "\<forall>k < sd_n s. sd_pc s k = SExit" "sd_ppc s = LExit" using sd_okD(4,9) [OF ok] assms(2) by auto
  then have "seg_call (sd_pc s k) = None" for k
    using reach_outside [OF assms(1)] by (cases "k < sd_n s") (auto simp: outside_ok_def)
  with p assms(2) show ?thesis by (auto simp: sd_calls_def split: nat.splits)
qed

text \<open>A shutdown from beginning to end, with one processer, which is idle.\<close>

definition main_moves :: "nat \<Rightarrow> sd_move list" where
  "main_moves k = replicate k (ByMain None)"

definition idle_moves :: "sd_move list" where
  "idle_moves = replicate 10 (ByProc 0 [] False)"

definition full_shutdown :: "sd_move list" where
  "full_shutdown = idle_moves @ main_moves 7 @ replicate 4 (ByProc 0 [] False) @ main_moves 5 @
     replicate 2 (ByPoller None) @ main_moves 2"

lemma full_shutdown_run:
  "\<exists>s. sd_run cap full_shutdown (sd_init 1 True) = Some s \<and> sd_main s = MDone \<and> sd_n s = 1"
  by (simp add: full_shutdown_def idle_moves_def main_moves_def sd_init_def wk_init_def numeral_eq_Suc
      main_step_def proc_step_def proc_new_def poll_step_def proc_at_def sd_call_def call_step_def cstep_def)

lemma shutdown_frees_after_exit_witness:
  "\<exists>s. sd_run 128 full_shutdown (sd_init 1 True) = Some s \<and> sd_main s = MDone \<and> sd_pc s 0 = SExit \<and> sd_ppc s = LExit"
proof -
  obtain s where s: "sd_run 128 full_shutdown (sd_init 1 True) = Some s" "sd_main s = MDone" "sd_n s = 1"
    using full_shutdown_run by blast
  have "sd_reach 128 1 True s" by (rule sd_run_reach [OF sd_reach.init s(1)])
  from shutdown_frees_after_exit [OF this] s show ?thesis by simp
qed


lemma begun_shutdown_run:
  "\<exists>s. sd_run cap (idle_moves @ main_moves 1) (sd_init 1 True) = Some s \<and> sd_sched s = Stop"
  by (simp add: idle_moves_def main_moves_def sd_init_def wk_init_def numeral_eq_Suc
      main_step_def proc_step_def proc_new_def proc_at_def cstep_def)


text \<open>The poller begins after the owner has gone through \<open>stop\<close> as far as the join.\<close>

definition late_poller :: "sd_move list" where
  "late_poller = main_moves 7 @ replicate 2 (ByProc 0 [] False) @ main_moves 5 @ [ByPoller None]"

definition forever :: "shut \<Rightarrow> bool" where
  "forever s \<longleftrightarrow> sd_main s = MJoinP \<and> sd_pstate s = Running \<and> sd_ppc s \<notin> {LStart, LTop2, LTest2, LExit}"

lemma forever_step: "forever s \<Longrightarrow> sd_step cap m s = Some s' \<Longrightarrow> forever s'"
proof (cases m)
  case (ByPoller c)
  assume "forever s" "sd_step cap m s = Some s'"
  with ByPoller show ?thesis
    by (auto simp: forever_def poll_step_def poll_begin_def elim!: sd_callE
        split: poll_pc.splits list.splits prod.splits option.splits if_splits)
next
  case (ByProc k ks b)
  assume "forever s" "sd_step cap m s = Some s'"
  with ByProc show ?thesis
    by (auto simp: forever_def proc_step_def proc_new_def proc_at_def Let_def elim!: sd_callE
        split: proc_pc.splits list.splits option.splits if_splits)
qed (auto simp: forever_def main_step_def)

lemma forever_run: "forever s \<Longrightarrow> sd_run cap ms s = Some s' \<Longrightarrow> forever s'"
  by (induction ms arbitrary: s) (auto split: option.splits dest: forever_step)

lemma late_poller_run:
  "\<exists>s. sd_run cap late_poller (sd_init 1 False) = Some s \<and> sd_pc s 0 = SExit \<and> sd_main s = MJoinP \<and>
     sd_pstate s = Running \<and> sd_ppc s = LTop"
  by (simp add: late_poller_def main_moves_def sd_init_def wk_init_def numeral_eq_Suc
      main_step_def proc_step_def poll_step_def proc_at_def sd_call_def call_step_def)

text \<open>
  C39: A poller that begins only after the owner has stopped it writes \<open>running\<close> over \<open>stop\<close>; then
  the owner waits for it for ever.
\<close>

theorem late_poller_never_stops:
  "\<exists>s. sd_run cap late_poller (sd_init 1 False) = Some s \<and> sd_pc s 0 = SExit \<and>
     (\<forall>ms. case sd_run cap ms s of None \<Rightarrow> True | Some s' \<Rightarrow> sd_main s' = MJoinP)"
proof -
  obtain s where s: "sd_run cap late_poller (sd_init 1 False) = Some s" "sd_pc s 0 = SExit"
    and f: "sd_main s = MJoinP" "sd_pstate s = Running" "sd_ppc s = LTop"
    using late_poller_run [of cap] by blast
  from f have "forever s" by (simp add: forever_def)
  have "case sd_run cap ms s of None \<Rightarrow> True | Some s' \<Rightarrow> sd_main s' = MJoinP" for ms
    using forever_run [OF \<open>forever s\<close>, of cap ms] by (auto simp: forever_def split: option.splits)
  with s show ?thesis by blast
qed

text \<open>A turn of the poller with one fiber more than the queue holds.\<close>

definition push_moves :: "sd_move list" where
  "push_moves = replicate 7 (ByPoller None)"

definition poll_before :: "nat \<Rightarrow> sd_move list" where
  "poll_before cap = [ByPoller None, ByPoller (Some []), ByPoller (Some (replicate (Suc cap) (False, 0)))]"

definition stop_idle :: "sd_move list" where
  "stop_idle = idle_moves @ main_moves 7 @ replicate 4 (ByProc 0 [] False) @ main_moves 5"

lemma list_all_replicate: "P x \<Longrightarrow> list_all P (replicate j x)"
  by (induction j) auto

lemma push_one:
  assumes "sd_ppc s = LWork ((False, 0) # xs) None" and "wk_state (sd_wk s 0) = Running"
    and "queued (sd_wk s 0) < cap"
  shows "\<exists>w. sd_run cap push_moves s = Some (s\<lparr>sd_wk := (sd_wk s)(0 := w), sd_ppc := LWork xs None\<rparr>) \<and>
    wk_state w = Running \<and> queued w = Suc (queued (sd_wk s 0))"
  by (rule exI [of _ "(sd_wk s 0)\<lparr>queued := Suc (queued (sd_wk s 0)), newcount := Suc (newcount (sd_wk s 0)), flag := True\<rparr>"])
    (use assms in \<open>simp add: push_moves_def numeral_eq_Suc poll_step_def sd_call_def call_step_def\<close>)

lemma push_all:
  assumes "sd_ppc s = LWork (replicate (j + k) (False, 0)) None" and "wk_state (sd_wk s 0) = Running"
    and "queued (sd_wk s 0) + j \<le> cap"
  shows "\<exists>w. sd_run cap (concat (replicate j push_moves)) s =
      Some (s\<lparr>sd_wk := (sd_wk s)(0 := w), sd_ppc := LWork (replicate k (False, 0)) None\<rparr>) \<and>
    wk_state w = Running \<and> queued w = queued (sd_wk s 0) + j"
  using assms
proof (induction j arbitrary: s)
  case 0
  then show ?case by (intro exI [of _ "sd_wk s 0"]) simp
next
  case (Suc j)
  obtain w where w: "sd_run cap push_moves s =
      Some (s\<lparr>sd_wk := (sd_wk s)(0 := w), sd_ppc := LWork (replicate (j + k) (False, 0)) None\<rparr>)"
    "wk_state w = Running" "queued w = Suc (queued (sd_wk s 0))"
    using push_one [of s "replicate (j + k) (False, 0)" cap] Suc.prems by auto
  let ?r = "s\<lparr>sd_wk := (sd_wk s)(0 := w), sd_ppc := LWork (replicate (j + k) (False, 0)) None\<rparr>"
  have "\<exists>v. sd_run cap (concat (replicate j push_moves)) ?r =
      Some (?r\<lparr>sd_wk := (sd_wk ?r)(0 := v), sd_ppc := LWork (replicate k (False, 0)) None\<rparr>) \<and>
    wk_state v = Running \<and> queued v = queued (sd_wk ?r 0) + j"
    by (rule Suc.IH) (use Suc.prems w in simp_all)
  then obtain v where "sd_run cap (concat (replicate j push_moves)) ?r =
      Some (?r\<lparr>sd_wk := (sd_wk ?r)(0 := v), sd_ppc := LWork (replicate k (False, 0)) None\<rparr>)"
    "wk_state v = Running" "queued v = queued (sd_wk ?r 0) + j" by blast
  moreover have "?r\<lparr>sd_wk := (sd_wk ?r)(0 := v), sd_ppc := LWork (replicate k (False, 0)) None\<rparr> =
      s\<lparr>sd_wk := (sd_wk s)(0 := v), sd_ppc := LWork (replicate k (False, 0)) None\<rparr>" for v
    by (rule shut.equality) (simp_all add: fun_eq_iff)
  ultimately have "sd_run cap (push_moves @ concat (replicate j push_moves)) s =
      Some (s\<lparr>sd_wk := (sd_wk s)(0 := v), sd_ppc := LWork (replicate k (False, 0)) None\<rparr>)"
    "wk_state v = Running" "queued v = queued (sd_wk s 0) + Suc j"
    using w by (simp_all only: sd_run_append bind.simps) simp
  then show ?case unfolding replicate_Suc concat.simps by blast
qed

text \<open>
  The poller hands more fibers than a queue can hold to a processer that was idle, which has
  written \<open>running\<close> over the \<open>stop\<close> of the owner and left its loop: nobody empties the queue,
  the poller spins in \<open>push\<close>, and the owner waits for it.
\<close>

theorem full_queue_blocks_shutdown:
  "\<exists>s. sd_reach cap 1 True s \<and> sd_main s = MJoinP \<and> sd_pc s 0 = SExit \<and> push_blocked cap s \<and>
     (\<forall>m. sd_step cap m s = None)"
proof -
  obtain r where r: "sd_run cap (poll_before cap @ stop_idle) (sd_init 1 True) = Some r"
    "sd_ppc r = LWork (replicate (cap + 1) (False, 0)) None" "wk_state (sd_wk r 0) = Running" "queued (sd_wk r 0) = 0"
    "sd_main r = MJoinP" "sd_pc r 0 = SExit" "sd_n r = 1"
    by (simp add: poll_before_def stop_idle_def idle_moves_def main_moves_def sd_init_def wk_init_def numeral_eq_Suc
      main_step_def proc_step_def proc_new_def poll_step_def poll_begin_def proc_at_def sd_call_def call_step_def cstep_def
      list_all_replicate)
  obtain w where w: "sd_run cap (concat (replicate cap push_moves)) r =
      Some (r\<lparr>sd_wk := (sd_wk r)(0 := w), sd_ppc := LWork (replicate 1 (False, 0)) None\<rparr>)"
    "wk_state w = Running" "queued w = cap"
    using push_all [of r cap 1 cap] r by auto
  let ?s = "r\<lparr>sd_wk := (sd_wk r)(0 := w), sd_ppc := LWork [(False, 0)] (Some APush)\<rparr>"
  have two: "sd_run cap [ByPoller None, ByPoller None]
      (r\<lparr>sd_wk := (sd_wk r)(0 := w), sd_ppc := LWork (replicate 1 (False, 0)) None\<rparr>) = Some ?s"
    using w(2) by (simp add: poll_step_def sd_call_def call_step_def)
  have "sd_run cap ((poll_before cap @ stop_idle) @ concat (replicate cap push_moves) @ [ByPoller None, ByPoller None])
      (sd_init 1 True) = Some ?s"
    using r(1) w(1) two by (simp only: sd_run_append bind.simps)
  then have "sd_reach cap 1 True ?s" by (rule sd_run_reach [OF sd_reach.init])
  moreover have "push_blocked cap ?s" unfolding push_blocked_def
    by (rule exI [of _ 1], rule exI [of _ 0]) (use w(3) in simp)
  moreover have "sd_step cap m ?s = None" for m
    using r(5-7) w(3) by (cases m) (auto simp: main_step_def poll_step_def proc_step_def sd_call_def call_step_def)
  ultimately show ?thesis using r(5,6) by (intro exI [of _ ?s]) simp
qed

end
