(* ===== verification/Sync.thy ===== *)
theory Sync
  imports Locks
begin

text \<open>
  \<open>src/thread/semaphore.h\<close>, \<open>semaphore.cc\<close>, \<open>barrier.h\<close>, \<open>barrier.cc\<close>, \<open>condition_variable.h\<close> and
  \<open>condition_cariable.cc\<close>. A POSIX semaphore is its value. What the waiting functions of
  POSIX return is a parameter, a stream of return codes read by position.
\<close>

section \<open>\<open>Semaphore\<close>\<close>

definition SEM_VALUE_MAX :: nat where "SEM_VALUE_MAX = 2147483647"

text \<open>\<open>sem_init\<close>, \<open>sem_wait\<close> and \<open>sem_post\<close> return -1 on an error. A wait on the value 0
  blocks until a post, or ends when a signal interrupts it.\<close>

definition sem_init :: "u32 \<Rightarrow> int \<times> nat" where
  "sem_init count = (if unat count \<le> SEM_VALUE_MAX then (0, unat count) else (- 1, 0))"

definition sem_wait :: "bool \<Rightarrow> nat \<Rightarrow> (int \<times> nat) option" where
  "sem_wait interrupted s =
     (if s > 0 then Some (0, s - 1) else if interrupted then Some (- 1, s) else None)"

definition sem_post :: "nat \<Rightarrow> int \<times> nat" where
  "sem_post s = (if s < SEM_VALUE_MAX then (0, Suc s) else (- 1, s))"

definition Semaphore_ctor :: "u32 \<Rightarrow> nat result" where
  "Semaphore_ctor count =
     (let (rt, s) = sem_init count in throws_if rt ''pthread_cond_init failed,'' s)"

definition Semaphore_wait :: "bool \<Rightarrow> nat \<Rightarrow> nat run" where
  "Semaphore_wait interrupted s = (case sem_wait interrupted s of
     None \<Rightarrow> None
   | Some (rt, s') \<Rightarrow> Some (throws_if rt ''pthread_cond_init failed,'' s'))"

definition Semaphore_notify :: "nat \<Rightarrow> nat result" where
  "Semaphore_notify s = (let (rt, s') = sem_post s in throws_if rt ''pthread_cond_init failed,'' s')"

text \<open>
  Threads that wait and notify: \<open>True\<close> is a \<open>notify\<close>, \<open>False\<close> a \<open>wait\<close>, which is tried again
  later if it blocks. The result counts the waits that returned.
\<close>

fun sem_run :: "bool list \<Rightarrow> nat \<Rightarrow> nat \<Rightarrow> (nat \<times> nat) result" where
  "sem_run [] s done_waits = Inr (s, done_waits)"
| "sem_run (True # xs) s done_waits = bindR (Semaphore_notify s) (\<lambda>s'. sem_run xs s' done_waits)"
| "sem_run (False # xs) s done_waits = (case Semaphore_wait False s of
     None \<Rightarrow> sem_run xs s done_waits
   | Some (Inl e) \<Rightarrow> Inl e
   | Some (Inr s') \<Rightarrow> sem_run xs s' (Suc done_waits))"

lemma sem_run_counts:
  assumes "sem_run ops s w = Inr (s', w')"
  shows "s' + w' = s + w + length (filter (\<lambda>n. n) ops) \<and> w \<le> w'"
  using assms
proof (induction ops s w rule: sem_run.induct)
  case (1 s w)
  then show ?case by simp
next
  case (2 xs s w)
  then show ?case
    by (auto simp: bindR_eq_Inr Semaphore_notify_def sem_post_def split: if_splits)
next
  case (3 xs s w)
  then show ?case
    by (cases "s > 0") (fastforce simp: Semaphore_wait_def sem_wait_def)+
qed

text \<open>
  A semaphore built with a count lets through at most that many waits more than there were
  notifications, and its value is exactly the difference; a notification is lost, with an
  exception, only at the greatest value.
\<close>

theorem semaphore_counts:
  assumes "Semaphore_ctor count = Inr s" and "sem_run ops s 0 = Inr (s', w)"
  shows "s' + w = unat count + length (filter (\<lambda>n. n) ops) \<and>
    (s' < SEM_VALUE_MAX \<longrightarrow> Semaphore_notify s' = Inr (Suc s')) \<and>
    (Semaphore_wait False s' = None \<longleftrightarrow> w = unat count + length (filter (\<lambda>n. n) ops))"
proof -
  have "s = unat count"
    using assms(1) by (auto simp: Semaphore_ctor_def sem_init_def split: if_splits)
  with sem_run_counts [OF assms(2)] show ?thesis
    by (auto simp: Semaphore_notify_def sem_post_def Semaphore_wait_def sem_wait_def)
qed

lemma semaphore_counts_witness:
  "\<exists>s' w. sem_run [False, True, False, True, True, False] 0 0 = Inr (s', w) \<and> s' + w = 3 \<and> w = 2"
proof -
  have c: "Semaphore_ctor 0 = Inr 0" by (simp add: Semaphore_ctor_def sem_init_def)
  have r: "sem_run [False, True, False, True, True, False] 0 0 = Inr (1, 2)"
    by (simp add: Semaphore_wait_def Semaphore_notify_def sem_wait_def sem_post_def SEM_VALUE_MAX_def)
  from semaphore_counts [OF c r] r show ?thesis by simp
qed

text \<open>
  \<open>Semaphore::wait\<close> does not go on waiting when a signal interrupts it: it throws, without
  having taken the semaphore.
\<close>

theorem semaphore_interrupted:
  "Semaphore_wait True 0 = Some (Inl (Throws ''pthread_cond_init failed,'')) \<and>
   Semaphore_wait False 0 = None"
  by (simp add: Semaphore_wait_def sem_wait_def)

section \<open>Waiting again after \<open>EINTR\<close>\<close>

text \<open>\<open>do { rt = f(); } while (rt == EINTR);\<close>, from position \<open>k\<close> of the stream.\<close>

definition until_not_eintr :: "(nat \<Rightarrow> int) \<Rightarrow> nat \<Rightarrow> (int \<times> nat) run" where
  "until_not_eintr rc k =
     loop (\<lambda>k. if rc k = EINTR then Inr (Inl (Suc k)) else Inr (Inr (rc k, Suc k))) k"

lemma until_not_eintr_steps:
  "rc k = EINTR \<Longrightarrow> until_not_eintr rc k = until_not_eintr rc (Suc k)"
  "rc k \<noteq> EINTR \<Longrightarrow> until_not_eintr rc k = Some (Inr (rc k, Suc k))"
  unfolding until_not_eintr_def by (rule loop_steps; simp)+

lemma until_not_eintr_first:
  "\<forall>j < n. rc (k + j) = EINTR \<Longrightarrow> rc (k + n) \<noteq> EINTR \<Longrightarrow>
   until_not_eintr rc k = Some (Inr (rc (k + n), Suc (k + n)))"
proof (induction n arbitrary: k)
  case 0
  then show ?case by (simp add: until_not_eintr_steps)
next
  case (Suc n)
  have "rc k = EINTR" using Suc.prems(1) by force
  moreover have "\<forall>j < n. rc (Suc k + j) = EINTR"
    using Suc.prems(1) by (metis Suc_less_eq add_Suc_right add_Suc)
  ultimately show ?case using Suc.IH [of "Suc k"] Suc.prems(2) by (simp add: until_not_eintr_steps)
qed

section \<open>\<open>Barrier\<close>\<close>

definition PTHREAD_BARRIER_SERIAL_THREAD :: int where "PTHREAD_BARRIER_SERIAL_THREAD = - 1"

definition Barrier_ctor :: "int \<Rightarrow> int \<Rightarrow> int result" where
  "Barrier_ctor rt cnt = throws_if rt ''pthread_barrier_init failed'' cnt"

definition Barrier_wait :: "(nat \<Rightarrow> int) \<Rightarrow> nat \<Rightarrow> (bool \<times> nat) run" where
  "Barrier_wait rc k = bindO (until_not_eintr rc k) (\<lambda>(rt, k').
     if rt = PTHREAD_BARRIER_SERIAL_THREAD then Some (Inr (True, k'))
     else Some (throws_if rt ''pthread_barrier_wait failed'' (False, k')))"

section \<open>\<open>Condition_variable\<close>\<close>

text \<open>
  \<open>pthread_cond_wait\<close> gives the mutex back, waits and takes it again. \<open>rc\<close> is the stream of
  its return codes; the \<open>w\<close>-th wake-up, in the positions of the stream, sees the predicate
  \<open>pred w\<close>.
\<close>

definition Condition_variable_ctor :: "int \<Rightarrow> int \<Rightarrow> unit result" where
  "Condition_variable_ctor rt1 rt2 =
     bindR (throws_if rt1 ''pthread_mutex_init failed,'' ()) (\<lambda>_.
     throws_if rt2 ''pthread_cond_init failed,'' ())"

definition cond_wait :: "(nat \<Rightarrow> int) \<Rightarrow> nat \<Rightarrow> nat run" where
  "cond_wait rc k = bindO (until_not_eintr rc k) (\<lambda>(rt, k').
     Some (throws_if rt ''pthread_cond_wait failed,'' k'))"

definition cond_wati :: "(nat \<Rightarrow> int) \<Rightarrow> (nat \<Rightarrow> bool) \<Rightarrow> nat \<Rightarrow> nat run" where
  "cond_wati rc pred k =
     loopO (\<lambda>k. if \<not> pred k then bindO (cond_wait rc k) (\<lambda>k'. Some (Inr (Inl k')))
                else Some (Inr (Inr k))) k"

definition cond_timeWait :: "(nat \<Rightarrow> int) \<Rightarrow> nat \<Rightarrow> nat run" where
  "cond_timeWait rc k = bindO (until_not_eintr rc k) (\<lambda>(rt, k').
     Some (throws_if rt ''pthread_cond_timedwait failed,'' k'))"

definition notify_one :: "int \<Rightarrow> unit result" where
  "notify_one rt = throws_if rt ''pthread_cond_signal failed,'' ()"

definition notify_all :: "int \<Rightarrow> unit result" where
  "notify_all rt = throws_if rt ''pthread_cond_broadcast failed,'' ()"

lemma cond_wait_ok:
  assumes "\<And>j. rc j = 0"
  shows "cond_wait rc k = Some (Inr (Suc k))"
  using until_not_eintr_steps(2) [of rc k] assms by (simp add: cond_wait_def EINTR_def)

lemma cond_wati_stop: "pred k \<Longrightarrow> cond_wati rc pred k = Some (Inr k)"
  unfolding cond_wati_def by (rule loopO_steps(3)) simp

lemma cond_wati_again:
  assumes "\<not> pred k" and "cond_wait rc k = Some (Inr k')"
  shows "cond_wati rc pred k = cond_wati rc pred k'"
  unfolding cond_wati_def by (rule loopO_steps(4)) (use assms in simp)

text \<open>
  \<open>wati\<close> with a predicate returns only when the predicate holds, and it returns after the
  first wake-up at which it does, however many spurious wake-ups come before.
\<close>

theorem cond_wati_until:
  assumes "\<And>j. rc j = 0"
  shows "(cond_wati rc pred k = Some (Inr k') \<longrightarrow> pred k') \<and>
    ((\<forall>j < n. \<not> pred (k + j)) \<and> pred (k + n) \<longrightarrow> cond_wati rc pred k = Some (Inr (k + n)))"
proof (intro conjI impI)
  assume "cond_wati rc pred k = Some (Inr k')"
  then show "pred k'"
    unfolding cond_wati_def
    by (rule loopO_result [where P = "\<lambda>_. True"]) (auto split: if_splits simp: bindO_eq_Some)
next
  have "cond_wati rc pred k = Some (Inr (k + n))"
    if "\<forall>j < n. \<not> pred (k + j)" "pred (k + n)" for k n
    using that
  proof (induction n arbitrary: k)
    case 0
    then show ?case by (simp add: cond_wati_stop)
  next
    case (Suc n)
    have "\<not> pred k" using Suc.prems(1) by force
    moreover have "\<forall>j < n. \<not> pred (Suc k + j)" using Suc.prems(1) by (metis Suc_less_eq add_Suc_right add_Suc)
    ultimately show ?case
      using Suc.IH [of "Suc k"] Suc.prems(2) cond_wait_ok [of rc k, OF assms] by (simp add: cond_wati_again)
  qed
  then show "cond_wati rc pred k = Some (Inr (k + n))"
    if "(\<forall>j < n. \<not> pred (k + j)) \<and> pred (k + n)" using that by blast
qed

lemma cond_wati_until_witness:
  "cond_wati (\<lambda>_. 0) (\<lambda>k. 3 \<le> k) 1 = Some (Inr 3)"
  using cond_wati_until [of "\<lambda>_. 0" "\<lambda>k. 3 \<le> k" 1 3 2] by (simp add: numeral_2_eq_2 less_Suc_eq)

text \<open>A timed wait on a condition that times out throws, like an error.\<close>

theorem timeWait_throws_on_timeout:
  assumes "\<forall>j < n. rc (k + j) = EINTR" and "rc (k + n) = ETIMEDOUT"
  shows "cond_timeWait rc k = Some (Inl (Throws ''pthread_cond_timedwait failed,''))"
  using until_not_eintr_first [OF assms(1)] assms(2) by (simp add: cond_timeWait_def errno_consts)

lemma timeWait_throws_on_timeout_witness:
  "cond_timeWait (\<lambda>k. if k < 2 then EINTR else ETIMEDOUT) 0 =
    Some (Inl (Throws ''pthread_cond_timedwait failed,''))"
  by (rule timeWait_throws_on_timeout [where n = 2]) simp_all

text \<open>
  Of the threads that a barrier releases together, \<open>wait\<close> tells the one that POSIX selects
  and no other, however often it is interrupted.
\<close>

theorem barrier_selects:
  assumes "\<forall>j < n. rc (k + j) = EINTR" and "rc (k + n) = (if serial then PTHREAD_BARRIER_SERIAL_THREAD else 0)"
  shows "Barrier_wait rc k = Some (Inr (serial, Suc (k + n)))"
  using until_not_eintr_first [OF assms(1)] assms(2)
  by (cases serial) (simp_all add: Barrier_wait_def PTHREAD_BARRIER_SERIAL_THREAD_def EINTR_def)

lemma barrier_selects_witness:
  "Barrier_wait (\<lambda>k. if k < 2 then EINTR else PTHREAD_BARRIER_SERIAL_THREAD) 0 = Some (Inr (True, 3))"
  using barrier_selects [of 2 "\<lambda>k. if k < 2 then EINTR else PTHREAD_BARRIER_SERIAL_THREAD" 0 True] by simp

end
