(* ===== verification/Thread.thy ===== *)
theory Thread
  imports Sync
begin

text \<open>
  \<open>src/thread/thread.h\<close>, \<open>thread.cc\<close>, \<open>thread_attributes.h\<close>, \<open>thread_attributes.cc\<close> and the
  parts of \<open>src/util/util.cc\<close> they use: starting a thread as an interleaving of the creator with
  the new thread, the operations on a started thread with the POSIX calls they make, stack sizes,
  clocks and stack traces. Results of the system are parameters.
\<close>

section \<open>The thread object\<close>

record thread =
  th_name :: string
  th_cb :: bool
  th_tid :: int
  th_threadId :: nat
  th_sem :: nat
  th_isRun :: bool
  th_isDetach :: bool
  th_isExit :: bool

text \<open>The constructors: the callback is bound and moved into the object, which then starts.\<close>

definition Thread_init :: "string \<Rightarrow> thread" where
  "Thread_init name = \<lparr>th_name = name, th_cb = True, th_tid = - 1, th_threadId = 0, th_sem = 0,
     th_isRun = False, th_isDetach = False, th_isExit = False\<rparr>"

text \<open>
  \<open>start_thread\<close> in the creator and \<open>run\<close> in the new thread, one step per access to the
  object; \<open>st_setname\<close> holds the arguments of \<open>pthread_setname_np\<close>. \<open>pthread_create\<close> is two steps, the new thread begins after the first. \<open>new_id\<close>
  and \<open>new_tid\<close> are the numbers the system gives it, \<open>rt\<close> the result of the creation.
\<close>

datatype creator_pc = CName | CCreate | CStoreId | CWait | CReturned | CThrew
datatype runner_pc = RNone | RIsRun | RSetTls | RSetTid | RSetName | RSwap | RNotify | RCall | RExit

record starting =
  st_obj :: thread
  st_cpc :: creator_pc
  st_rpc :: runner_pc
  st_tls_name :: string
  st_setname :: "(nat \<times> string) option"
  st_taken :: bool
  st_calls :: nat

definition start_init :: "string \<Rightarrow> starting" where
  "start_init name = \<lparr>st_obj = Thread_init name, st_cpc = CName, st_rpc = RNone,
     st_tls_name = ''UNKOWN'', st_setname = None, st_taken = False, st_calls = 0\<rparr>"

definition creator_step :: "int \<Rightarrow> nat \<Rightarrow> starting \<Rightarrow> starting option" where
  "creator_step rt new_id c = (let o1 = st_obj c in case st_cpc c of
     CName \<Rightarrow> Some (c\<lparr>st_obj := (if th_name o1 = [] then o1\<lparr>th_name := ''UNKOWN''\<rparr> else o1),
                       st_cpc := CCreate\<rparr>)
   | CCreate \<Rightarrow> (if rt \<noteq> 0 then Some (c\<lparr>st_cpc := CThrew\<rparr>)
                 else Some (c\<lparr>st_rpc := RIsRun, st_cpc := CStoreId\<rparr>))
   | CStoreId \<Rightarrow> Some (c\<lparr>st_obj := o1\<lparr>th_threadId := new_id\<rparr>, st_cpc := CWait\<rparr>)
   | CWait \<Rightarrow> (case Semaphore_wait False (th_sem o1) of
       Some (Inr s') \<Rightarrow> Some (c\<lparr>st_obj := o1\<lparr>th_sem := s'\<rparr>, st_cpc := CReturned\<rparr>)
     | _ \<Rightarrow> None)
   | CReturned \<Rightarrow> None
   | CThrew \<Rightarrow> None)"

definition run_step :: "int \<Rightarrow> starting \<Rightarrow> starting option" where
  "run_step new_tid c = (let o1 = st_obj c in case st_rpc c of
     RNone \<Rightarrow> None
   | RIsRun \<Rightarrow> Some (c\<lparr>st_obj := o1\<lparr>th_isRun := True\<rparr>, st_rpc := RSetTls\<rparr>)
   | RSetTls \<Rightarrow> Some (c\<lparr>st_tls_name := th_name o1, st_rpc := RSetTid\<rparr>)
   | RSetTid \<Rightarrow> Some (c\<lparr>st_obj := o1\<lparr>th_tid := new_tid\<rparr>, st_rpc := RSetName\<rparr>)
   | RSetName \<Rightarrow> Some (c\<lparr>st_setname := Some (th_threadId o1, take 15 (th_name o1)), st_rpc := RSwap\<rparr>)
   | RSwap \<Rightarrow> Some (c\<lparr>st_obj := o1\<lparr>th_cb := False\<rparr>, st_taken := th_cb o1, st_rpc := RNotify\<rparr>)
   | RNotify \<Rightarrow> (case Semaphore_notify (th_sem o1) of
       Inr s' \<Rightarrow> Some (c\<lparr>st_obj := o1\<lparr>th_sem := s'\<rparr>, st_rpc := RCall\<rparr>)
     | Inl e \<Rightarrow> None)
   | RCall \<Rightarrow> Some (c\<lparr>st_calls := (if st_taken c then Suc (st_calls c) else st_calls c), st_rpc := RExit\<rparr>)
   | RExit \<Rightarrow> None)"

text \<open>A schedule says who moves: \<open>True\<close> the creator. Who cannot move waits.\<close>

fun start_run :: "int \<Rightarrow> nat \<Rightarrow> int \<Rightarrow> bool list \<Rightarrow> starting \<Rightarrow> starting" where
  "start_run rt new_id new_tid [] c = c"
| "start_run rt new_id new_tid (b # bs) c =
     (case (if b then creator_step rt new_id c else run_step new_tid c) of
        None \<Rightarrow> start_run rt new_id new_tid bs c
      | Some c' \<Rightarrow> start_run rt new_id new_tid bs c')"

text \<open>How far the new thread is.\<close>

primrec rank :: "runner_pc \<Rightarrow> nat" where
  "rank RNone = 0" | "rank RIsRun = 1" | "rank RSetTls = 2" | "rank RSetTid = 3" | "rank RSetName = 4"
| "rank RSwap = 5" | "rank RNotify = 6" | "rank RCall = 7" | "rank RExit = 8"

definition runner_inv :: "int \<Rightarrow> starting \<Rightarrow> bool" where
  "runner_inv new_tid c \<longleftrightarrow>
     th_isRun (st_obj c) = (2 \<le> rank (st_rpc c)) \<and>
     (3 \<le> rank (st_rpc c) \<longrightarrow> st_tls_name c = th_name (st_obj c)) \<and>
     (4 \<le> rank (st_rpc c) \<longrightarrow> th_tid (st_obj c) = new_tid) \<and>
     (5 \<le> rank (st_rpc c) \<longrightarrow> map_option snd (st_setname c) = Some (take 15 (th_name (st_obj c)))) \<and>
     th_cb (st_obj c) = (rank (st_rpc c) < 6) \<and> st_taken c = (6 \<le> rank (st_rpc c)) \<and>
     st_calls c = (if rank (st_rpc c) = 8 then 1 else 0)"

definition creator_inv :: "nat \<Rightarrow> starting \<Rightarrow> bool" where
  "creator_inv new_id c \<longleftrightarrow>
     (st_cpc c = CReturned \<longrightarrow> 7 \<le> rank (st_rpc c)) \<and>
     th_sem (st_obj c) = (if 7 \<le> rank (st_rpc c) \<and> st_cpc c \<noteq> CReturned then 1 else 0) \<and>
     (rank (st_rpc c) = 0 \<longleftrightarrow> st_cpc c = CName \<or> st_cpc c = CCreate \<or> st_cpc c = CThrew) \<and>
     (st_cpc c = CWait \<or> st_cpc c = CReturned \<longrightarrow> th_threadId (st_obj c) = new_id) \<and>
     (th_threadId (st_obj c) = 0 \<or> th_threadId (st_obj c) = new_id) \<and>
     (\<forall>i n. st_setname c = Some (i, n) \<longrightarrow> i = 0 \<or> i = new_id) \<and>
     (st_cpc c \<noteq> CName \<longrightarrow> th_name (st_obj c) \<noteq> []) \<and> \<not> th_isDetach (st_obj c) \<and> \<not> th_isExit (st_obj c)"

definition start_inv :: "nat \<Rightarrow> int \<Rightarrow> starting \<Rightarrow> bool" where
  "start_inv new_id new_tid c \<longleftrightarrow> runner_inv new_tid c \<and> creator_inv new_id c"

lemmas start_inv_defs = start_inv_def runner_inv_def creator_inv_def

lemma start_init_inv: "start_inv new_id new_tid (start_init name)"
  by (simp add: start_inv_defs start_init_def Thread_init_def)

lemma creator_step_inv:
  assumes "start_inv new_id new_tid c" and "creator_step rt new_id c = Some c'"
  shows "start_inv new_id new_tid c'"
proof (cases "st_cpc c")
  case CName
  then have c': "c' = c\<lparr>st_obj := (if th_name (st_obj c) = [] then (st_obj c)\<lparr>th_name := ''UNKOWN''\<rparr>
      else st_obj c), st_cpc := CCreate\<rparr>" using assms(2) by (simp add: creator_step_def Let_def)
  from assms(1) CName have "rank (st_rpc c) = 0" by (simp add: start_inv_defs)
  with assms(1) CName show ?thesis by (simp add: start_inv_defs c')
next
  case CCreate
  then have c': "c' = (if rt \<noteq> 0 then c\<lparr>st_cpc := CThrew\<rparr> else c\<lparr>st_rpc := RIsRun, st_cpc := CStoreId\<rparr>)"
    using assms(2) by (simp add: creator_step_def Let_def split: if_splits)
  from assms(1) CCreate have "rank (st_rpc c) = 0" by (simp add: start_inv_defs)
  with assms(1) CCreate show ?thesis by (simp add: start_inv_defs c')
next
  case CStoreId
  then have c': "c' = c\<lparr>st_obj := (st_obj c)\<lparr>th_threadId := new_id\<rparr>, st_cpc := CWait\<rparr>"
    using assms(2) by (simp add: creator_step_def Let_def)
  from assms(1) CStoreId show ?thesis by (simp add: start_inv_defs c')
next
  case CWait
  have c': "c' = c\<lparr>st_obj := (st_obj c)\<lparr>th_sem := th_sem (st_obj c) - 1\<rparr>, st_cpc := CReturned\<rparr>"
    and s: "th_sem (st_obj c) > 0"
    using assms(2) CWait
    by (simp_all add: creator_step_def Let_def Semaphore_wait_def sem_wait_def split: if_splits)
  from s assms(1) CWait have "7 \<le> rank (st_rpc c)" "th_sem (st_obj c) = 1"
    by (simp_all add: start_inv_defs split: if_splits)
  with assms(1) CWait show ?thesis by (simp add: start_inv_defs c')
qed (use assms in \<open>simp_all add: creator_step_def\<close>)

lemma run_step_inv:
  assumes "start_inv new_id new_tid c" and "run_step new_tid c = Some c'"
  shows "start_inv new_id new_tid c'"
proof (cases "st_rpc c")
  case RNone
  with assms(2) show ?thesis by (simp add: run_step_def)
next
  case RIsRun
  then have c': "c' = c\<lparr>st_obj := (st_obj c)\<lparr>th_isRun := True\<rparr>, st_rpc := RSetTls\<rparr>" using assms(2) by (simp add: run_step_def Let_def)
  from assms(1) RIsRun show ?thesis by (simp add: start_inv_defs c')
next
  case RSetTls
  then have c': "c' = c\<lparr>st_tls_name := th_name (st_obj c), st_rpc := RSetTid\<rparr>" using assms(2) by (simp add: run_step_def Let_def)
  from assms(1) RSetTls show ?thesis by (simp add: start_inv_defs c')
next
  case RSetTid
  then have c': "c' = c\<lparr>st_obj := (st_obj c)\<lparr>th_tid := new_tid\<rparr>, st_rpc := RSetName\<rparr>" using assms(2) by (simp add: run_step_def Let_def)
  from assms(1) RSetTid show ?thesis by (simp add: start_inv_defs c')
next
  case RSetName
  then have c': "c' = c\<lparr>st_setname := Some (th_threadId (st_obj c), take 15 (th_name (st_obj c))), st_rpc := RSwap\<rparr>" using assms(2) by (simp add: run_step_def Let_def)
  from assms(1) RSetName show ?thesis by (simp add: start_inv_defs c')
next
  case RSwap
  then have c': "c' = c\<lparr>st_obj := (st_obj c)\<lparr>th_cb := False\<rparr>, st_taken := th_cb (st_obj c), st_rpc := RNotify\<rparr>" using assms(2) by (simp add: run_step_def Let_def)
  from assms(1) RSwap show ?thesis by (simp add: start_inv_defs c')
next
  case RNotify
  then have s: "th_sem (st_obj c) = 0" "st_cpc c \<noteq> CReturned" using assms(1) by (simp_all add: start_inv_defs)
  with RNotify have c': "c' = c\<lparr>st_obj := (st_obj c)\<lparr>th_sem := 1\<rparr>, st_rpc := RCall\<rparr>"
    using assms(2) by (simp add: run_step_def Let_def Semaphore_notify_def sem_post_def SEM_VALUE_MAX_def)
  from assms(1) RNotify s show ?thesis by (simp add: start_inv_defs c')
next
  case RCall
  then have c': "c' = c\<lparr>st_calls := (if st_taken c then Suc (st_calls c) else st_calls c), st_rpc := RExit\<rparr>" using assms(2) by (simp add: run_step_def Let_def)
  from assms(1) RCall show ?thesis by (simp add: start_inv_defs c')
next
  case RExit
  with assms(2) show ?thesis by (simp add: run_step_def)
qed

lemma start_run_inv: "start_inv new_id new_tid c \<Longrightarrow> start_inv new_id new_tid (start_run rt new_id new_tid bs c)"
proof (induction bs arbitrary: c)
  case Nil
  then show ?case by simp
next
  case (Cons b bs)
  then show ?case
    by (auto split: option.splits if_splits intro: creator_step_inv run_step_inv)
qed

text \<open>
  C29: in every interleaving of a creator with the thread it starts, when the constructor returns
  the new thread has taken its callback out of the object, entered its number and its name, given
  the system the name for its own number or for 0, and does not touch the object any more, so the object may be destroyed while the thread runs; the
  callback runs at most once. If the system cannot create the thread the constructor throws.
\<close>

theorem started_thread_is_ready:
  assumes "c = start_run rt new_id new_tid bs (start_init name)" and "st_cpc c = CReturned"
  shows "th_isRun (st_obj c) \<and> th_tid (st_obj c) = new_tid \<and> th_threadId (st_obj c) = new_id \<and>
    \<not> th_cb (st_obj c) \<and> st_taken c \<and> th_name (st_obj c) \<noteq> [] \<and> st_tls_name c = th_name (st_obj c) \<and>
    (\<exists>i. st_setname c = Some (i, take 15 (th_name (st_obj c))) \<and> (i = 0 \<or> i = new_id)) \<and> st_calls c \<le> 1 \<and>
    (\<forall>c'. run_step new_tid c = Some c' \<longrightarrow> st_obj c' = st_obj c)"
proof -
  have i: "start_inv new_id new_tid c" unfolding assms(1) by (rule start_run_inv [OF start_init_inv])
  then have r: "st_rpc c = RCall \<or> st_rpc c = RExit"
    using assms(2) by (cases "st_rpc c") (simp_all add: start_inv_defs)
  then have quiet: "\<forall>c'. run_step new_tid c = Some c' \<longrightarrow> st_obj c' = st_obj c"
    by (auto simp: run_step_def Let_def)
  have obj: "th_isRun (st_obj c) \<and> th_tid (st_obj c) = new_tid \<and> th_threadId (st_obj c) = new_id \<and>
    \<not> th_cb (st_obj c) \<and> st_taken c \<and> th_name (st_obj c) \<noteq> [] \<and> st_tls_name c = th_name (st_obj c) \<and> st_calls c \<le> 1"
    and n: "map_option snd (st_setname c) = Some (take 15 (th_name (st_obj c)))"
    using i assms(2) r by (elim disjE; simp add: start_inv_defs)+
  have id: "\<forall>i n. st_setname c = Some (i, n) \<longrightarrow> i = 0 \<or> i = new_id" using i by (simp add: start_inv_defs)
  obtain j where "st_setname c = Some (j, take 15 (th_name (st_obj c)))" using n by (cases "st_setname c") auto
  with id have "\<exists>i. st_setname c = Some (i, take 15 (th_name (st_obj c))) \<and> (i = 0 \<or> i = new_id)" by blast
  with obj quiet show ?thesis by blast
qed

lemma started_thread_is_ready_witness:
  "let c = start_run 0 7 1234 [True, True, False, True, False, True, False, False, False, False, False, True]
      (start_init ''worker'')
   in st_cpc c = CReturned \<and> th_tid (st_obj c) = 1234 \<and> st_tls_name c = ''worker''"
proof -
  let ?c = "start_run 0 7 1234 [True, True, False, True, False, True, False, False, False, False, False, True]
      (start_init ''worker'')"
  have r: "st_cpc ?c = CReturned" "th_name (st_obj ?c) = ''worker''"
    by (simp_all add: start_init_def Thread_init_def creator_step_def run_step_def Let_def Semaphore_wait_def
        Semaphore_notify_def sem_wait_def sem_post_def SEM_VALUE_MAX_def)
  from started_thread_is_ready [OF refl r(1)] r show ?thesis unfolding Let_def by metis
qed

text \<open>
  The new thread names itself by \<open>m_threadId\<close>, which the creator may not have stored yet:
  \<open>pthread_setname_np\<close> is then called for number 0.
\<close>

theorem named_before_id_stored:
  "let c = start_run 0 7 1234 [True, True, False, False, False, False, False, False, True, True] (start_init ''worker'')
   in st_cpc c = CReturned \<and> st_setname c = Some (0, ''worker'') \<and> th_threadId (st_obj c) = 7"
  by (simp add: start_init_def Thread_init_def creator_step_def run_step_def Let_def Semaphore_wait_def
        Semaphore_notify_def sem_wait_def sem_post_def SEM_VALUE_MAX_def)

section \<open>The static members\<close>

text \<open>
  The two variables every thread has of its own. \<open>run\<close> assigns only the name: its
  \<open>thread = thread\<close> leaves \<open>t_thread\<close> null.
\<close>

record thread_tls =
  t_thread :: "nat option"
  t_Thread_name :: string

definition tls_init :: thread_tls where
  "tls_init = \<lparr>t_thread = None, t_Thread_name = ''UNKOWN''\<rparr>"

definition GetThis :: "thread_tls \<Rightarrow> nat option" where "GetThis tls = t_thread tls"

definition GetThreadName :: "thread_tls \<Rightarrow> string" where "GetThreadName tls = t_Thread_name tls"

definition SetThreadName :: "string \<Rightarrow> thread_tls \<Rightarrow> thread_tls" where
  "SetThreadName name tls = (if name = [] then tls else tls\<lparr>t_Thread_name := name\<rparr>)"

definition run_tls :: "string \<Rightarrow> thread_tls \<Rightarrow> thread_tls" where
  "run_tls m_name tls = tls\<lparr>t_Thread_name := m_name\<rparr>"

text \<open>
  A thread never finds its own object, whatever it is called and however it renames itself; its
  name is the last one given that is not empty.
\<close>

theorem this_thread_never_known:
  "let tls = fold SetThreadName names (run_tls m_name tls_init)
   in GetThis tls = None \<and> GetThreadName tls = last (m_name # filter (\<lambda>n. n \<noteq> []) names)"
proof -
  have "t_thread (fold SetThreadName names tls) = t_thread tls \<and>
      t_Thread_name (fold SetThreadName names tls) = last (t_Thread_name tls # filter (\<lambda>n. n \<noteq> []) names)" for tls
    by (induction names arbitrary: tls) (auto simp: SetThreadName_def)
  then show ?thesis by (simp add: Let_def GetThis_def GetThreadName_def run_tls_def tls_init_def)
qed

text \<open>\<open>sysconf (_SC_NPROCESSORS_ONLN)\<close> is the parameter.\<close>

definition hardware_concurrency :: "int \<Rightarrow> int" where "hardware_concurrency online = online"

section \<open>Joining, detaching and cancelling\<close>

text \<open>The POSIX calls an operation makes, with the number they are made for and their result.\<close>

datatype pcall = PJoin nat int | PDetach nat | PCancel nat int

definition Thread_join :: "int \<Rightarrow> thread \<Rightarrow> bool result \<times> thread \<times> pcall list" where
  "Thread_join rt th =
     (if th_isDetach th then (Inr False, th, [])
      else if th_threadId th \<noteq> 0
      then (if rt \<noteq> 0 then (Inl (Throws ''thread_join error''), th, [PJoin (th_threadId th) rt])
            else (Inr True, th\<lparr>th_threadId := 0\<rparr>, [PJoin (th_threadId th) rt]))
      else (Inr True, th, []))"

definition Thread_detach :: "thread \<Rightarrow> bool result \<times> thread \<times> pcall list" where
  "Thread_detach th =
     (if th_threadId th \<noteq> 0 \<and> \<not> th_isDetach th
      then (Inr True, th\<lparr>th_threadId := 0, th_isDetach := True\<rparr>, [PDetach (th_threadId th)])
      else (Inr True, th, []))"

definition Thread_dtor :: "thread \<Rightarrow> bool result \<times> thread \<times> pcall list" where
  "Thread_dtor th = (let (r, th', l) = Thread_detach th in (r, th'\<lparr>th_isExit := True\<rparr>, l))"

definition Thread_cancel :: "int \<Rightarrow> thread \<Rightarrow> bool result \<times> thread \<times> pcall list" where
  "Thread_cancel rt th =
     (if th_isExit th then (Inr True, th, [])
      else (if rt \<noteq> 0 then Inl (Throws ''thread_join error'') else Inr True, th,
            [PCancel (th_threadId th) rt]))"

definition Thread_joinable :: "thread \<Rightarrow> bool" where
  "Thread_joinable th = (if th_isExit th \<or> th_isDetach th then False else True)"

definition Thread_equal :: "nat \<Rightarrow> thread \<Rightarrow> bool" where
  "Thread_equal oth th = (th_threadId th = oth)"

datatype thread_op = OpJoin int | OpDetach | OpCancel int

definition thread_do :: "thread_op \<Rightarrow> thread \<Rightarrow> bool result \<times> thread \<times> pcall list" where
  "thread_do op th = (case op of
     OpJoin rt \<Rightarrow> Thread_join rt th | OpDetach \<Rightarrow> Thread_detach th | OpCancel rt \<Rightarrow> Thread_cancel rt th)"

text \<open>The owner of the object may catch what an operation throws and go on.\<close>

fun thread_run :: "thread_op list \<Rightarrow> thread \<Rightarrow> thread \<times> pcall list" where
  "thread_run [] th = (th, [])"
| "thread_run (op # ops) th =
     (let (r, th1, l1) = thread_do op th; (th2, l2) = thread_run ops th1 in (th2, l1 @ l2))"

definition releases :: "pcall \<Rightarrow> bool" where
  "releases a = (case a of PJoin i rt \<Rightarrow> rt = 0 | PDetach i \<Rightarrow> True | PCancel i rt \<Rightarrow> False)"

lemma thread_do_releases:
  assumes "\<not> (th_threadId th \<noteq> 0 \<and> th_isDetach th)" and "thread_do op th = (r, th', l)"
  shows "length (filter releases l) + (if th_threadId th' \<noteq> 0 then 1 else 0) =
      (if th_threadId th \<noteq> 0 then 1 else 0) \<and>
    (th_threadId th' \<noteq> 0 \<longrightarrow> (th_isDetach th' \<longleftrightarrow> th_isDetach th))"
  using assms
  by (cases op)
    (auto simp: thread_do_def Thread_join_def Thread_detach_def Thread_cancel_def releases_def split: if_splits)

lemma thread_run_releases:
  assumes "\<not> (th_threadId th \<noteq> 0 \<and> th_isDetach th)" and "thread_run ops th = (th', l)"
  shows "length (filter releases l) + (if th_threadId th' \<noteq> 0 then 1 else 0) =
      (if th_threadId th \<noteq> 0 then 1 else 0) \<and> \<not> (th_threadId th' \<noteq> 0 \<and> th_isDetach th')"
  using assms
proof (induction ops arbitrary: th l)
  case Nil
  then show ?case by simp
next
  case (Cons op ops)
  obtain r th1 l1 where d: "thread_do op th = (r, th1, l1)" by (cases "thread_do op th") auto
  obtain l2 where t: "thread_run ops th1 = (th', l2)" "l = l1 @ l2"
    using Cons.prems(2) d by (cases "thread_run ops th1") auto
  note h = thread_do_releases [OF Cons.prems(1) d]
  have "\<not> (th_threadId th1 \<noteq> 0 \<and> th_isDetach th1)"
    using h Cons.prems(1) by (auto split: if_splits)
  from Cons.IH [OF this t(1)] h t(2) show ?case by simp
qed

text \<open>
  C30: whatever is done to a started thread, with whatever success, the system is asked at most
  once to release it, and exactly once by the time its object is destroyed: it is joined or
  detached, never both and never twice.
\<close>

theorem thread_released_once:
  assumes "th_threadId th \<noteq> 0" and "\<not> th_isDetach th"
  shows "(let (th1, l1) = thread_run ops th; (r, th2, l2) = Thread_dtor th1
     in length (filter releases l1) \<le> 1 \<and> length (filter releases (l1 @ l2)) = 1 \<and>
        th_isExit th2 \<and> \<not> Thread_joinable th2)"
proof -
  obtain th1 l1 where r: "thread_run ops th = (th1, l1)" by (cases "thread_run ops th") auto
  from thread_run_releases [OF _ r] assms show ?thesis
    by (auto simp: r Thread_dtor_def Thread_detach_def releases_def Thread_joinable_def split: if_splits)
qed

lemma thread_released_once_witness:
  "let (th1, l1) = thread_run [OpJoin 35, OpCancel 0, OpJoin 0, OpDetach] ((Thread_init ''w'')\<lparr>th_threadId := 7\<rparr>);
       (r, th2, l2) = Thread_dtor th1
   in length (filter releases l1) \<le> 1 \<and> length (filter releases (l1 @ l2)) = 1 \<and> th_isExit th2 \<and>
     \<not> Thread_joinable th2"
  by (rule thread_released_once) (simp_all add: Thread_init_def)

text \<open>
  A joined thread still counts as joinable, and cancelling it passes the number 0 to
  \<open>pthread_cancel\<close>.
\<close>

theorem cancel_after_join:
  assumes "th_threadId th \<noteq> 0" and "\<not> th_isDetach th" and "\<not> th_isExit th"
  shows "\<exists>th'. Thread_join 0 th = (Inr True, th', [PJoin (th_threadId th) 0]) \<and> Thread_joinable th' \<and>
    Thread_cancel rt th' = (if rt \<noteq> 0 then Inl (Throws ''thread_join error'') else Inr True, th', [PCancel 0 rt])"
  using assms by (simp add: Thread_join_def Thread_joinable_def Thread_cancel_def)

lemma cancel_after_join_witness:
  "\<exists>th'. Thread_join 0 ((Thread_init ''w'')\<lparr>th_threadId := 7\<rparr>) = (Inr True, th', [PJoin 7 0]) \<and>
    Thread_joinable th'"
  using cancel_after_join [of "(Thread_init ''w'')\<lparr>th_threadId := 7\<rparr>" 3] by (auto simp: Thread_init_def)

section \<open>Stack sizes\<close>

text \<open>
  \<open>GetPageSize\<close> hands the constant \<open>_SC_PAGE_SIZE\<close>, which is meant for \<open>sysconf\<close>, to
  \<open>syscall\<close>. \<open>syscalls\<close> is what a raw system call of that number returns.
\<close>

definition SC_PAGE_SIZE :: nat where "SC_PAGE_SIZE = 30"

definition GetPageSize :: "(nat \<Rightarrow> int) \<Rightarrow> u64" where
  "GetPageSize syscalls = word_of_int (syscalls SC_PAGE_SIZE)"

definition round_to_pages :: "u64 \<Rightarrow> u64 \<Rightarrow> u64 result" where
  "round_to_pages sz pageSize =
     (if pageSize = 0 then Inl DivByZero else Inr ((sz + pageSize - 1) div pageSize * pageSize))"

text \<open>
  \<open>pthread_attr_setstacksize\<close> refuses sizes below \<open>stack_min\<close>, the \<open>PTHREAD_STACK_MIN\<close> of
  the system. The attribute object is its stack sz.
\<close>

definition attr_setstacksize :: "u64 \<Rightarrow> u64 \<Rightarrow> u64 \<Rightarrow> int \<times> u64" where
  "attr_setstacksize stack_min sz attr = (if sz < stack_min then (EINVAL, attr) else (0, sz))"

definition Thread_Attributes_ctor :: "int \<Rightarrow> u64 \<Rightarrow> u64 result" where
  "Thread_Attributes_ctor rt default_size = throws_if rt ''pthread_attr_init failed'' default_size"

definition set_stack_size :: "(nat \<Rightarrow> int) \<Rightarrow> u64 \<Rightarrow> u64 \<Rightarrow> u64 \<Rightarrow> u64 result" where
  "set_stack_size syscalls stack_min sz attr =
     (let size1 = (if sz < stack_min then stack_min else sz)
      in bindR (round_to_pages size1 (GetPageSize syscalls)) (\<lambda>size2.
         let (rt, attr') = attr_setstacksize stack_min size2 attr
         in throws_if rt ''set_stack_size failed'' attr'))"

definition get_stack_size :: "int \<Rightarrow> u64 \<Rightarrow> u64 result" where
  "get_stack_size rt attr = throws_if rt ''get_stack_size failed'' attr"

text \<open>
  With the page sz of the system, \<open>set_stack_size\<close> sets the least multiple of it that is
  at least the requested sz and the minimum.
\<close>

theorem set_stack_size_rounds:
  assumes "GetPageSize syscalls = page" and "0 < page"
    and "unat (max sz stack_min) + unat page \<le> 2 ^ 64"
  shows "\<exists>attr'. set_stack_size syscalls stack_min sz attr = Inr attr' \<and> unat page dvd unat attr' \<and>
    max sz stack_min \<le> attr' \<and> unat attr' < unat (max sz stack_min) + unat page"
proof -
  define s where "s = unat (max sz stack_min)"
  define p where "p = unat page"
  have p: "0 < p" using assms(2) by (simp add: p_def word_less_nat_alt)
  let ?n = "(s + p - 1) div p * p"
  have le: "?n \<le> s + p - 1" by (simp add: div_times_less_eq_dividend)
  have ge: "s \<le> ?n"
    using p dividend_less_div_times [of p "s + p - 1"] by linarith
  have sum: "unat (max sz stack_min + page - 1) = s + p - 1"
  proof -
    have eq: "max sz stack_min + page - 1 = max sz stack_min + (page - 1)" by simp
    have "unat (page - 1) = p - 1" using assms(2) by (simp add: p_def unat_minus_one word_gt_0)
    with unat_plus_no_wrap [of "max sz stack_min" "page - 1"] p assms(3) show ?thesis
      unfolding eq by (simp add: s_def p_def)
  qed
  have "s + p \<le> 2 ^ 64" using assms(3) by (simp add: s_def p_def)
  then have "s + p - 1 < 2 ^ LENGTH(64)" using p by simp
  then have lt: "?n < 2 ^ LENGTH(64)" by (rule le_less_trans [OF le])
  define q where "q = (max sz stack_min + page - 1) div page * page"
  have "unat q = ?n"
    using unat_times_no_wrap [of "(max sz stack_min + page - 1) div page" page] lt
    by (simp add: q_def unat_div sum p_def [symmetric])
  then have q: "unat q = ?n" "\<not> q < stack_min" "max sz stack_min \<le> q"
    using ge by (auto simp: s_def word_le_nat_alt word_less_nat_alt max_def split: if_splits)
  have "set_stack_size syscalls stack_min sz attr = Inr q"
    using assms(1,2) q(2)
    by (auto simp: set_stack_size_def round_to_pages_def attr_setstacksize_def q_def max_def not_less
        word_gt_0 split: if_splits)
  moreover have "unat q < s + p" using le_less_trans [OF le, of "s + p"] p q(1) by simp
  moreover have "p dvd unat q" by (simp add: q(1))
  ultimately show ?thesis using q(3) unfolding p_def s_def by blast
qed

lemma set_stack_size_rounds_witness:
  "\<exists>attr'. set_stack_size (\<lambda>_. 4096) 16384 100000 8388608 = Inr attr' \<and> unat (4096::u64) dvd unat attr' \<and>
    max 100000 16384 \<le> attr' \<and> unat attr' < unat (max 100000 (16384::u64)) + unat (4096::u64)"
  by (rule set_stack_size_rounds) (simp_all add: GetPageSize_def max_def)

text \<open>
  When that system call fails, every \<open>set_stack_size\<close> throws: the page size becomes
  \<open>2 ^ 64 - 1\<close> and the size is rounded to 0.
\<close>

theorem set_stack_size_bad_page:
  assumes "syscalls SC_PAGE_SIZE = - 1" and "1 < stack_min"
  shows "set_stack_size syscalls stack_min sz attr = Inl (Throws ''set_stack_size failed'')"
proof -
  define s where "s = (if sz < stack_min then stack_min else sz)"
  have s: "1 < s" using assms(2) by (auto simp: s_def)
  have page: "GetPageSize syscalls = - 1" using assms(1) by (simp add: GetPageSize_def)
  from s have "s \<noteq> 1" by auto
  then have "round_to_pages s (- 1) = Inr 0" by (simp add: round_to_pages_def)
  moreover have "\<not> stack_min = 0" using assms(2) by auto
  ultimately show ?thesis
    by (simp add: set_stack_size_def page s_def [symmetric] attr_setstacksize_def word_gt_0 errno_consts)
qed

lemma set_stack_size_bad_page_witness:
  "set_stack_size (\<lambda>_. - 1) 16384 100000 8388608 = Inl (Throws ''set_stack_size failed'')"
  by (rule set_stack_size_bad_page) simp_all

section \<open>Clocks and stack traces\<close>

text \<open>\<open>gettimeofday\<close> gives seconds and microseconds; the sums are made in \<open>uint64_t\<close>.\<close>

definition GetThreadId :: "int \<Rightarrow> int" where "GetThreadId tid = tid"
definition GetFiberId :: u32 where "GetFiberId = 0"

definition GetCurrentMS :: "u64 \<times> u64 \<Rightarrow> u64" where
  "GetCurrentMS tv = fst tv * 1000 + snd tv div 1000"

definition GetCurrentUS :: "u64 \<times> u64 \<Rightarrow> u64" where
  "GetCurrentUS tv = fst tv * 1000 * 1000 + snd tv"

text \<open>
  \<open>Backtrace\<close>: \<open>frames\<close> are the descriptions of the frames of the call stack, \<open>None\<close> if
  there is no memory for them. A negative \<open>skip\<close> becomes a huge \<open>size_t\<close>.
\<close>

definition Backtrace :: "string list option \<Rightarrow> nat \<Rightarrow> int \<Rightarrow> string list \<Rightarrow> string list" where
  "Backtrace frames sz skip bt = (case frames of
     None \<Rightarrow> bt
   | Some fs \<Rightarrow> bt @ (if skip < 0 then [] else drop (nat skip) (take sz fs)))"

definition BacktraceToString :: "string list option \<Rightarrow> nat \<Rightarrow> int \<Rightarrow> string \<Rightarrow> string" where
  "BacktraceToString frames sz skip prefix =
     concat (map (\<lambda>l. prefix @ l @ [CHR 0x0A]) (Backtrace frames sz skip []))"

text \<open>
  The two clocks agree: for a valid time of day before the year 500000, the microseconds
  divided by 1000 are the milliseconds.
\<close>

theorem clocks_agree:
  assumes "unat (fst tv) < 2 ^ 44" and "unat (snd tv) < 1000000"
  shows "unat (GetCurrentUS tv) div 1000 = unat (GetCurrentMS tv) \<and>
    unat (GetCurrentMS tv) = unat (fst tv) * 1000 + unat (snd tv) div 1000"
proof -
  obtain s u where tv: "tv = (s, u)" by (cases tv)
  have s: "unat s < 17592186044416" and u: "unat u < 1000000" using assms by (simp_all add: tv)
  have 1: "unat (s * 1000) = unat s * 1000" using s by (simp add: unat_times_no_wrap)
  have 2: "unat (s * 1000 * 1000) = unat s * 1000000"
    using s 1 unat_times_no_wrap [of "s * 1000" 1000] by simp
  have 3: "unat (u div 1000) = unat u div 1000" by (simp add: unat_div)
  have 4: "unat u div 1000 < 1000" using u by linarith
  have ms: "unat (GetCurrentMS tv) = unat s * 1000 + unat u div 1000"
    unfolding GetCurrentMS_def tv fst_conv snd_conv
    using unat_plus_no_wrap [of "s * 1000" "u div 1000"] s 1 3 4 by simp
  have "unat (GetCurrentUS tv) = unat s * 1000000 + unat u"
    unfolding GetCurrentUS_def tv fst_conv snd_conv
    using unat_plus_no_wrap [of "s * 1000 * 1000" u] s u 2 by simp
  then have "unat (GetCurrentUS tv) = 1000 * (unat s * 1000) + unat u" by simp
  then have "unat (GetCurrentUS tv) div 1000 = unat s * 1000 + unat u div 1000" by simp
  with ms show ?thesis by (simp add: tv)
qed

lemma clocks_agree_witness:
  "unat (GetCurrentUS (1700000000, 123456)) div 1000 = unat (GetCurrentMS (1700000000, 123456)) \<and>
    unat (GetCurrentMS (1700000000, 123456)) =
      unat (fst (1700000000::u64, 123456::u64)) * 1000 + unat (snd (1700000000::u64, 123456::u64)) div 1000"
  by (rule clocks_agree) simp_all

end
