(* ===== verification/LoggerShared.thy ===== *)
theory LoggerShared
  imports Logger
begin

text \<open>
  \<open>src/log/logger.cc\<close>, a logger as threads share it. \<open>addAppender\<close>, \<open>delAppender\<close> and
  \<open>clearAllAppenders\<close> hold the spin lock of the logger and are one step; \<open>Logger::log\<close> walks
  over the list of appenders without the lock, one step for each appender. The list is a
  \<open>std::list\<close>: an iterator stays valid as long as its node is in the list.
\<close>

section \<open>The list of appenders\<close>

text \<open>
  \<open>ll_nodes\<close> holds the address of each node and its appender, \<open>ll_fresh\<close> the next address;
  \<open>ll_pc\<close> is the iterator of a thread in \<open>log\<close>, \<open>None\<close> for \<open>end()\<close>; \<open>ll_out\<close> the appenders its
  event has been given to.
\<close>

datatype log_pc = LogOut | LogAt "nat option"

record shared_logger =
  ll_nodes :: "(nat \<times> nat) list"
  ll_fresh :: nat
  ll_pc :: "nat \<Rightarrow> log_pc"
  ll_out :: "nat \<Rightarrow> nat list"

datatype log_move = LogBegin nat | LogNext nat | AddAppender nat | DelAppender nat | ClearAppenders

definition first_node :: "(nat \<times> nat) list \<Rightarrow> nat option" where
  "first_node ns = (case ns of [] \<Rightarrow> None | n # _ \<Rightarrow> Some (fst n))"

definition shared_log_step :: "log_move \<Rightarrow> shared_logger \<Rightarrow> shared_logger result option" where
  "shared_log_step m s = (case m of
     LogBegin t \<Rightarrow>
       (if ll_pc s t = LogOut
        then Some (Inr (s\<lparr>ll_pc := (ll_pc s)(t := LogAt (first_node (ll_nodes s))), ll_out := (ll_out s)(t := [])\<rparr>))
        else None)
   | LogNext t \<Rightarrow> (case ll_pc s t of
       LogOut \<Rightarrow> None
     | LogAt None \<Rightarrow> Some (Inr (s\<lparr>ll_pc := (ll_pc s)(t := LogOut)\<rparr>))
     | LogAt (Some p) \<Rightarrow> Some (case dropWhile (\<lambda>n. fst n \<noteq> p) (ll_nodes s) of
         [] \<Rightarrow> Inl NullDeref
       | n # ns \<Rightarrow> Inr (s\<lparr>ll_out := (ll_out s)(t := ll_out s t @ [snd n]), ll_pc := (ll_pc s)(t := LogAt (first_node ns))\<rparr>)))
   | AddAppender a \<Rightarrow> Some (Inr (s\<lparr>ll_nodes := ll_nodes s @ [(ll_fresh s, a)], ll_fresh := Suc (ll_fresh s)\<rparr>))
   | DelAppender a \<Rightarrow>
       Some (Inr (s\<lparr>ll_nodes := takeWhile (\<lambda>n. snd n \<noteq> a) (ll_nodes s) @ tl (dropWhile (\<lambda>n. snd n \<noteq> a) (ll_nodes s))\<rparr>))
   | ClearAppenders \<Rightarrow> Some (Inr (s\<lparr>ll_nodes := []\<rparr>)))"

fun shared_log_run :: "log_move list \<Rightarrow> shared_logger \<Rightarrow> shared_logger result option" where
  "shared_log_run [] s = Some (Inr s)"
| "shared_log_run (m # ms) s = (case shared_log_step m s of
     Some (Inr s') \<Rightarrow> shared_log_run ms s'
   | r \<Rightarrow> r)"

section \<open>Logging while appenders are added\<close>

text \<open>
  For a thread that started with the appenders \<open>as\<close>: its event has been given to the nodes in
  front of its iterator, and all of \<open>as\<close> once the iterator is at the end.
\<close>

definition walk_ok :: "nat list \<Rightarrow> nat \<Rightarrow> shared_logger \<Rightarrow> bool" where
  "walk_ok as t s \<longleftrightarrow> (\<forall>n \<in> set (ll_nodes s). fst n < ll_fresh s) \<and> distinct (map fst (ll_nodes s)) \<and>
     take (length as) (map snd (ll_nodes s)) = as \<and> length as \<le> length (ll_nodes s) \<and>
     (\<forall>p. ll_pc s t = LogAt (Some p) \<longrightarrow> (\<exists>pre n suf. ll_nodes s = pre @ n # suf \<and> fst n = p \<and> ll_out s t = map snd pre)) \<and>
     ((\<forall>p. ll_pc s t \<noteq> LogAt (Some p)) \<longrightarrow>
        (\<exists>k. length as \<le> k \<and> k \<le> length (ll_nodes s) \<and> ll_out s t = take k (map snd (ll_nodes s))))"

lemma walk_okD:
  assumes "walk_ok as t s"
  shows "ll_pc s t = LogAt (Some p) \<Longrightarrow> \<exists>pre n suf. ll_nodes s = pre @ n # suf \<and> fst n = p \<and> ll_out s t = map snd pre"
    and "(\<And>p. ll_pc s t \<noteq> LogAt (Some p)) \<Longrightarrow>
      \<exists>k. length as \<le> k \<and> k \<le> length (ll_nodes s) \<and> ll_out s t = take k (map snd (ll_nodes s))"
  using assms unfolding walk_ok_def by blast+

lemma walk_ok_cong:
  "ll_nodes s' = ll_nodes s \<Longrightarrow> ll_fresh s' = ll_fresh s \<Longrightarrow> ll_pc s' t = ll_pc s t \<Longrightarrow> ll_out s' t = ll_out s t \<Longrightarrow>
   walk_ok as t s' = walk_ok as t s"
  by (simp add: walk_ok_def)

definition no_removal :: "log_move \<Rightarrow> bool" where
  "no_removal m \<longleftrightarrow> (case m of DelAppender _ \<Rightarrow> False | ClearAppenders \<Rightarrow> False | _ \<Rightarrow> True)"

definition starts :: "nat \<Rightarrow> log_move \<Rightarrow> bool" where "starts t m \<longleftrightarrow> m = LogBegin t"

lemma dropWhile_at:
  "distinct (map fst (pre @ n # suf)) \<Longrightarrow> dropWhile (\<lambda>x. fst x \<noteq> fst n) (pre @ n # suf) = n # suf"
  by (induction pre) auto

lemma walk_next:
  assumes ok: "walk_ok as t s" and pc: "ll_pc s t = LogAt (Some p)"
  shows "\<exists>s'. shared_log_step (LogNext t) s = Some (Inr s') \<and> walk_ok as t s'"
proof -
  obtain pre n suf where n: "ll_nodes s = pre @ n # suf" "fst n = p" "ll_out s t = map snd pre"
    using ok by (auto simp: walk_ok_def pc)
  have d: "dropWhile (\<lambda>x. fst x \<noteq> p) (ll_nodes s) = n # suf"
    using ok dropWhile_at [of pre n suf] n by (simp add: walk_ok_def)
  let ?s = "s\<lparr>ll_out := (ll_out s)(t := ll_out s t @ [snd n]), ll_pc := (ll_pc s)(t := LogAt (first_node suf))\<rparr>"
  have "walk_ok as t ?s"
  proof (cases suf)
    case Nil
    then have "ll_out ?s t = take (length (ll_nodes s)) (map snd (ll_nodes s))" by (simp add: n)
    then show ?thesis using ok Nil by (auto simp: walk_ok_def first_node_def intro!: exI [of _ "length (ll_nodes s)"])
  next
    case (Cons r rs)
    have "ll_nodes ?s = (pre @ [n]) @ r # rs \<and> fst r = fst r \<and> ll_out ?s t = map snd (pre @ [n])"
      by (simp add: n Cons)
    then have "\<exists>pre n suf. ll_nodes ?s = pre @ n # suf \<and> fst n = fst r \<and> ll_out ?s t = map snd pre" by blast
    then show ?thesis using ok Cons by (simp add: walk_ok_def first_node_def)
  qed
  then show ?thesis by (simp add: shared_log_step_def pc d)
qed

text \<open>The steps of other threads, and a new appender at the end.\<close>

lemma walk_next_other:
  assumes ok: "walk_ok as t s" and u: "t \<noteq> u" and st: "shared_log_step (LogNext u) s = Some (Inr s')"
  shows "walk_ok as t s'"
proof -
  have "ll_nodes s' = ll_nodes s \<and> ll_fresh s' = ll_fresh s \<and> ll_pc s' t = ll_pc s t \<and> ll_out s' t = ll_out s t"
    using st u by (auto simp: shared_log_step_def split: log_pc.splits option.splits list.splits)
  with ok walk_ok_cong show ?thesis by blast
qed

lemma walk_add:
  assumes ok: "walk_ok as t s"
  shows "walk_ok as t (s\<lparr>ll_nodes := ll_nodes s @ [(ll_fresh s, a)], ll_fresh := Suc (ll_fresh s)\<rparr>)"
proof -
  let ?s = "s\<lparr>ll_nodes := ll_nodes s @ [(ll_fresh s, a)], ll_fresh := Suc (ll_fresh s)\<rparr>"
  have pre: "\<forall>n \<in> set (ll_nodes s). fst n < ll_fresh s" "distinct (map fst (ll_nodes s))"
    "take (length as) (map snd (ll_nodes s)) = as" "length as \<le> length (ll_nodes s)"
    using ok by (simp_all add: walk_ok_def)
  then have "\<forall>n \<in> set (ll_nodes ?s). fst n < ll_fresh ?s" "distinct (map fst (ll_nodes ?s))"
    "take (length as) (map snd (ll_nodes ?s)) = as" "length as \<le> length (ll_nodes ?s)"
    by (auto simp: less_Suc_eq)
  moreover have "\<exists>pre n suf. ll_nodes ?s = pre @ n # suf \<and> fst n = p \<and> ll_out ?s t = map snd pre"
    if at: "ll_pc s t = LogAt (Some p)" for p
  proof -
    obtain pre n suf where "ll_nodes s = pre @ n # suf" "fst n = p" "ll_out s t = map snd pre"
      using walk_okD(1) [OF ok at] by blast
    then have "ll_nodes ?s = pre @ n # (suf @ [(ll_fresh s, a)]) \<and> fst n = p \<and> ll_out ?s t = map snd pre" by simp
    then show ?thesis by blast
  qed
  moreover have "\<exists>k. length as \<le> k \<and> k \<le> length (ll_nodes ?s) \<and> ll_out ?s t = take k (map snd (ll_nodes ?s))"
    if out: "\<And>p. ll_pc s t \<noteq> LogAt (Some p)"
  proof -
    obtain k where "length as \<le> k" "k \<le> length (ll_nodes s)" "ll_out s t = take k (map snd (ll_nodes s))"
      using walk_okD(2) [OF ok out] by blast
    then show ?thesis by (intro exI [of _ k]) simp
  qed
  ultimately show ?thesis unfolding walk_ok_def by simp
qed

lemma walk_begin:
  assumes ok: "walk_ok as t s"
  shows "walk_ok (map snd (ll_nodes s)) t (s\<lparr>ll_pc := (ll_pc s)(t := LogAt (first_node (ll_nodes s))), ll_out := (ll_out s)(t := [])\<rparr>)"
proof (cases "ll_nodes s")
  case Nil
  with ok show ?thesis by (simp add: walk_ok_def first_node_def)
next
  case (Cons n ns)
  then have "\<exists>pre m suf. ll_nodes s = pre @ m # suf \<and> fst m = fst n \<and> [] = map snd pre" by (intro exI [of _ "[]"]) simp
  with ok Cons show ?thesis by (simp add: walk_ok_def first_node_def)
qed

lemma walk_end: "walk_ok as t s \<Longrightarrow> ll_pc s t = LogAt None \<Longrightarrow> walk_ok as t (s\<lparr>ll_pc := (ll_pc s)(t := LogOut)\<rparr>)"
  by (simp add: walk_ok_def)

definition begun :: "(nat \<Rightarrow> nat list) \<Rightarrow> log_move \<Rightarrow> shared_logger \<Rightarrow> nat \<Rightarrow> nat list" where
  "begun A m s t = (if m = LogBegin t then map snd (ll_nodes s) else A t)"

lemma walk_step:
  assumes ok: "\<And>t. walk_ok (A t) t s" and m: "no_removal m" and st: "shared_log_step m s = Some r"
  shows "\<exists>s'. r = Inr s' \<and> (\<forall>t. walk_ok (begun A m s t) t s')"
proof (cases m)
  case (LogBegin u)
  let ?s = "s\<lparr>ll_pc := (ll_pc s)(u := LogAt (first_node (ll_nodes s))), ll_out := (ll_out s)(u := [])\<rparr>"
  have "walk_ok (begun A m s t) t ?s" for t
    using walk_begin [OF ok, of u] walk_ok_cong [of ?s s t "A t"] ok [of t]
    by (cases "t = u") (simp_all add: begun_def LogBegin)
  moreover have "r = Inr ?s" using st by (auto simp: LogBegin shared_log_step_def split: if_splits)
  ultimately show ?thesis by blast
next
  case (LogNext u)
  have "\<exists>s'. shared_log_step (LogNext u) s = Some (Inr s') \<and> walk_ok (A u) u s'"
  proof (cases "ll_pc s u")
    case LogOut
    with st LogNext show ?thesis by (simp add: shared_log_step_def)
  next
    case (LogAt p)
    show ?thesis
    proof (cases p)
      case None
      with LogAt walk_end [OF ok, of u] show ?thesis by (simp add: shared_log_step_def)
    next
      case (Some q)
      with LogAt walk_next [OF ok, of u q] show ?thesis by simp
    qed
  qed
  then obtain s' where s': "shared_log_step (LogNext u) s = Some (Inr s')" "walk_ok (A u) u s'" by blast
  have "walk_ok (A t) t s'" for t using s'(2) walk_next_other [OF ok _ s'(1), of t] by (cases "t = u") auto
  moreover have "r = Inr s'" using s'(1) st LogNext by simp
  ultimately show ?thesis by (simp add: LogNext begun_def)
next
  case (AddAppender a)
  with st walk_add [OF ok] show ?thesis by (auto simp: shared_log_step_def begun_def)
qed (use m in \<open>simp_all add: no_removal_def\<close>)

lemma walk_run:
  assumes "\<And>t. walk_ok (A t) t s" and "\<forall>m \<in> set ms. no_removal m" and "shared_log_run ms s = Some r"
  shows "\<exists>s'. r = Inr s' \<and> (\<forall>t. LogBegin t \<notin> set ms \<longrightarrow> walk_ok (A t) t s') \<and> (\<forall>t. \<exists>as. walk_ok as t s')"
  using assms
proof (induction ms arbitrary: s A)
  case Nil
  then show ?case by auto
next
  case (Cons m ms)
  obtain r1 where r1: "shared_log_step m s = Some r1" using Cons.prems(3) by (auto split: option.splits)
  obtain s1 where s1: "r1 = Inr s1" "\<forall>t. walk_ok (begun A m s t) t s1"
    using walk_step [OF Cons.prems(1) _ r1] Cons.prems(2) by auto
  have "shared_log_run ms s1 = Some r" using Cons.prems(3) r1 s1(1) by simp
  from Cons.IH [of "begun A m s" s1, OF _ _ this] s1(2) Cons.prems(2)
  obtain s' where s': "r = Inr s'" "\<forall>t. LogBegin t \<notin> set ms \<longrightarrow> walk_ok (begun A m s t) t s'" "\<forall>t. \<exists>as. walk_ok as t s'"
    by auto
  have "walk_ok (A t) t s'" if "LogBegin t \<notin> set (m # ms)" for t
    using s'(2) that by (auto simp: begun_def split: if_splits)
  with s' show ?case by blast
qed

definition ll_init :: "nat list \<Rightarrow> shared_logger" where
  "ll_init as = \<lparr>ll_nodes = zip [0..<length as] as, ll_fresh = length as, ll_pc = (\<lambda>_. LogOut), ll_out = (\<lambda>_. [])\<rparr>"

lemma ll_init_ok: "walk_ok [] t (ll_init as)"
  by (auto simp: walk_ok_def ll_init_def dest: set_zip_leftD)

text \<open>
  While no thread removes appenders, logging by any number of threads does not fault, and an event
  is given to every appender the logger had when its \<open>log\<close> began, once and in order, and
  possibly to some that were added meanwhile.
\<close>

theorem log_reaches_all_appenders:
  assumes "shared_log_run ms1 (ll_init as) = Some (Inr s1)" and "shared_log_run (LogBegin t # ms2) s1 = Some r"
    and "\<forall>m \<in> set (ms1 @ ms2). no_removal m" and "LogBegin t \<notin> set ms2"
  shows "\<exists>s2. r = Inr s2 \<and> (ll_pc s2 t = LogAt None \<or> ll_pc s2 t = LogOut \<longrightarrow>
    (\<exists>k \<ge> length (ll_nodes s1). ll_out s2 t = take k (map snd (ll_nodes s2))) \<and>
    take (length (ll_nodes s1)) (ll_out s2 t) = map snd (ll_nodes s1))"
proof -
  obtain A where A: "\<And>u. walk_ok (A u) u s1"
    using walk_run [of "\<lambda>_. []" "ll_init as" ms1] ll_init_ok assms(1,3) by (metis Inr_inject Un_iff set_append)
  obtain r1 where r1: "shared_log_step (LogBegin t) s1 = Some r1" using assms(2) by (auto split: option.splits)
  obtain s' where s': "r1 = Inr s'" "\<And>u. walk_ok (begun A (LogBegin t) s1 u) u s'"
    using walk_step [OF A _ r1] by (auto simp: no_removal_def)
  have "shared_log_run ms2 s' = Some r" using assms(2) r1 s'(1) by simp
  from walk_run [OF s'(2) _ this] assms(3,4)
  obtain s2 where s2: "r = Inr s2" "walk_ok (begun A (LogBegin t) s1 t) t s2" by auto
  then have ok: "walk_ok (map snd (ll_nodes s1)) t s2" by (simp add: begun_def)
  have "(\<exists>k \<ge> length (ll_nodes s1). ll_out s2 t = take k (map snd (ll_nodes s2))) \<and>
      take (length (ll_nodes s1)) (ll_out s2 t) = map snd (ll_nodes s1)"
    if fin: "ll_pc s2 t = LogAt None \<or> ll_pc s2 t = LogOut"
  proof -
    have "ll_pc s2 t \<noteq> LogAt (Some p)" for p using fin by auto
    then obtain k where k: "length (ll_nodes s1) \<le> k" "ll_out s2 t = take k (map snd (ll_nodes s2))"
      using walk_okD(2) [OF ok] by auto
    moreover have "take (length (ll_nodes s1)) (map snd (ll_nodes s2)) = map snd (ll_nodes s1)"
      using ok by (simp add: walk_ok_def)
    ultimately show ?thesis by (auto simp: min_def)
  qed
  with s2(1) show ?thesis by blast
qed

lemma log_reaches_all_appenders_witness:
  "\<exists>s2. shared_log_run [LogBegin 0, LogNext 0, AddAppender 9, LogNext 0, LogNext 0] (ll_init [4, 5]) = Some (Inr s2) \<and>
     take 2 (ll_out s2 0) = [4, 5]"
proof -
  obtain s2 where s2: "shared_log_run [LogBegin 0, LogNext 0, AddAppender 9, LogNext 0, LogNext 0] (ll_init [4, 5]) = Some (Inr s2)"
    "ll_pc s2 0 = LogAt None"
    by (simp add: shared_log_step_def ll_init_def first_node_def upt_rec numeral_2_eq_2)
  have "shared_log_run [] (ll_init [4, 5]) = Some (Inr (ll_init [4, 5]))" by simp
  from log_reaches_all_appenders [OF this s2(1)] s2(2) have "take (length (ll_nodes (ll_init [4, 5]))) (ll_out s2 0) = map snd (ll_nodes (ll_init [4, 5]))"
    by (auto simp: no_removal_def)
  then have "take 2 (ll_out s2 0) = [4, 5]" by (simp add: ll_init_def upt_rec numeral_2_eq_2)
  with s2(1) show ?thesis by blast
qed

text \<open>
  When another thread removes the appender that a \<open>log\<close> has just reached, the loop goes on from
  a node that has been freed.
\<close>

theorem log_races_with_removal:
  "shared_log_run [LogBegin 0, DelAppender 4, LogNext 0] (ll_init [4, 5]) = Some (Inl NullDeref) \<and>
   shared_log_run [LogBegin 0, LogNext 0, ClearAppenders, LogNext 0] (ll_init [4, 5]) = Some (Inl NullDeref)"
  by (simp add: shared_log_step_def ll_init_def first_node_def upt_rec numeral_2_eq_2)

end
