(* ===== verification/LexicalCast.thy ===== *)
theory LexicalCast
  imports Config
begin

text \<open>
  \<open>src/config/lexical_cast.h\<close> and \<open>src/config/log_config.h\<close>: the conversions between containers
  and YAML text, and building appenders and loggers from YAML. \<open>load\<close> and \<open>emit\<close> are
  \<open>YAML::Load\<close> and \<open>operator<<\<close> of yaml-cpp, \<open>from_str\<close> and \<open>to_str\<close> the conversions of the
  elements. Reading a key or index that is not there gives an undefined node.
\<close>

section \<open>Nodes\<close>

definition node_size :: "yaml \<Rightarrow> nat" where
  "node_size n = (case n of YSeq xs \<Rightarrow> length xs | YMap es \<Rightarrow> length es | _ \<Rightarrow> 0)"

definition field :: "string \<Rightarrow> yaml \<Rightarrow> yaml option" where
  "field k n = (case n of YMap es \<Rightarrow> map_of es k | _ \<Rightarrow> None)"

definition node_at :: "yaml \<Rightarrow> nat \<Rightarrow> yaml" where
  "node_at n i = (case n of YSeq xs \<Rightarrow> xs ! i
     | _ \<Rightarrow> (case field (show_nat i) n of Some c \<Rightarrow> c | None \<Rightarrow> YNull))"

definition node_entries :: "yaml \<Rightarrow> (string \<times> yaml) list" where
  "node_entries n = (case n of YMap es \<Rightarrow> es | _ \<Rightarrow> [])"

definition scalar :: "yaml option \<Rightarrow> string option" where
  "scalar n = (case n of Some (YScalar s) \<Rightarrow> Some s | _ \<Rightarrow> None)"

fun map_result :: "('a \<Rightarrow> 'b result) \<Rightarrow> 'a list \<Rightarrow> 'b list result" where
  "map_result f [] = Inr []"
| "map_result f (x # xs) = bindR (f x) (\<lambda>y. bindR (map_result f xs) (\<lambda>ys. Inr (y # ys)))"

lemma map_result_ok: "(\<And>x. x \<in> set xs \<Longrightarrow> f x = Inr (g x)) \<Longrightarrow> map_result f xs = Inr (map g xs)"
  by (induction xs) auto

lemma map_result_const:
  "map_result (\<lambda>_. r) xs = (case r of Inl e \<Rightarrow> if xs = [] then Inr [] else Inl e
     | Inr y \<Rightarrow> Inr (replicate (length xs) y))"
  by (induction xs) (auto split: sum.splits)

definition load_node :: "(string \<Rightarrow> yaml option) \<Rightarrow> string \<Rightarrow> yaml result" where
  "load_node load s = (case load s of None \<Rightarrow> Inl (Throws ''YAML::ParserException'') | Some n \<Rightarrow> Inr n)"

section \<open>Containers\<close>

text \<open>In the loop for vectors the whole document is written again for every element.\<close>

definition cast_vector ::
  "(string \<Rightarrow> yaml option) \<Rightarrow> (yaml \<Rightarrow> string) \<Rightarrow> (string \<Rightarrow> 'a result) \<Rightarrow> string \<Rightarrow> 'a list result" where
  "cast_vector load emit from_str s = bindR (load_node load s) (\<lambda>node.
     map_result (\<lambda>i. from_str (emit node)) [0..<node_size node])"

definition cast_list ::
  "(string \<Rightarrow> yaml option) \<Rightarrow> (yaml \<Rightarrow> string) \<Rightarrow> (string \<Rightarrow> 'a result) \<Rightarrow> string \<Rightarrow> 'a list result" where
  "cast_list load emit from_str s = bindR (load_node load s) (\<lambda>node.
     map_result (\<lambda>i. from_str (emit (node_at node i))) [0..<node_size node])"

definition cast_set ::
  "(string \<Rightarrow> yaml option) \<Rightarrow> (yaml \<Rightarrow> string) \<Rightarrow> (string \<Rightarrow> 'a result) \<Rightarrow> string \<Rightarrow> 'a set result" where
  "cast_set load emit from_str s = bindR (load_node load s) (\<lambda>node.
     bindR (map_result (\<lambda>i. from_str (emit (node_at node i))) [0..<node_size node]) (\<lambda>xs. Inr (set xs)))"

text \<open>\<open>insert\<close> of a map keeps the first value of a key.\<close>

definition cast_map ::
  "(string \<Rightarrow> yaml option) \<Rightarrow> (yaml \<Rightarrow> string) \<Rightarrow> (string \<Rightarrow> 'a result) \<Rightarrow> string \<Rightarrow> (string \<rightharpoonup> 'a) result" where
  "cast_map load emit from_str s = bindR (load_node load s) (\<lambda>node.
     bindR (map_result (\<lambda>(k, n). bindR (from_str (emit n)) (\<lambda>v. Inr (k, v))) (node_entries node))
       (\<lambda>es. Inr (map_of es)))"

text \<open>A vector, a list or a set, in the order of its iteration, and a map.\<close>

definition seq_to_str ::
  "(string \<Rightarrow> yaml option) \<Rightarrow> (yaml \<Rightarrow> string) \<Rightarrow> ('a \<Rightarrow> string result) \<Rightarrow> 'a list \<Rightarrow> string result" where
  "seq_to_str load emit to_str xs =
     bindR (map_result (\<lambda>x. bindR (to_str x) (load_node load)) xs) (\<lambda>ns. Inr (emit (YSeq ns)))"

definition map_to_str ::
  "(string \<Rightarrow> yaml option) \<Rightarrow> (yaml \<Rightarrow> string) \<Rightarrow> ('a \<Rightarrow> string result) \<Rightarrow> (string \<times> 'a) list \<Rightarrow> string result" where
  "map_to_str load emit to_str es =
     bindR (map_result (\<lambda>(k, v). bindR (to_str v) (\<lambda>s. bindR (load_node load s) (\<lambda>n. Inr (k, n)))) es)
       (\<lambda>ns. Inr (emit (YMap ns)))"

text \<open>What the conversions rely on: elements survive their text, and so does the document.\<close>

definition element_ok ::
  "(string \<Rightarrow> yaml option) \<Rightarrow> (yaml \<Rightarrow> string) \<Rightarrow> (string \<Rightarrow> 'a result) \<Rightarrow> ('a \<Rightarrow> string result) \<Rightarrow>
   ('a \<Rightarrow> yaml) \<Rightarrow> 'a \<Rightarrow> bool" where
  "element_ok load emit from_str to_str node x \<longleftrightarrow>
     bindR (to_str x) (load_node load) = Inr (node x) \<and> from_str (emit (node x)) = Inr x"

lemma map_nth_upt: "map (\<lambda>i. f (xs ! i)) [0..<length xs] = map f xs"
  by (rule nth_equalityI) simp_all

lemma seq_to_str_ok:
  assumes "\<forall>x \<in> set xs. element_ok load emit from_str to_str node x"
  shows "seq_to_str load emit to_str xs = Inr (emit (YSeq (map node xs)))"
proof -
  have "map_result (\<lambda>x. bindR (to_str x) (load_node load)) xs = Inr (map node xs)"
    by (rule map_result_ok) (use assms in \<open>simp add: element_ok_def\<close>)
  then show ?thesis by (simp add: seq_to_str_def)
qed

lemma read_children:
  assumes "\<forall>x \<in> set xs. element_ok load emit from_str to_str node x"
  shows "map_result (\<lambda>i. from_str (emit (node_at (YSeq (map node xs)) i))) [0..<length xs] = Inr xs"
proof -
  have "map_result (\<lambda>i. from_str (emit (node_at (YSeq (map node xs)) i))) [0..<length xs] =
      Inr (map (\<lambda>i. xs ! i) [0..<length xs])"
    by (rule map_result_ok) (use assms in \<open>simp add: node_at_def element_ok_def\<close>)
  then show ?thesis by (simp add: map_nth)
qed

text \<open>
  C36: writing a list, a set or a map as text and reading it again gives it back, if its elements
  survive their text and the document survives yaml-cpp; a vector does not: it gets as many copies
  of what the element conversion makes of the whole document, or its exception.
\<close>

theorem container_text_roundtrip:
  assumes "\<forall>x \<in> set xs. element_ok load emit from_str to_str node x"
    and "load (emit (YSeq (map node xs))) = Some (YSeq (map node xs))"
  shows "\<exists>s. seq_to_str load emit to_str xs = Inr s \<and> cast_list load emit from_str s = Inr xs \<and>
    cast_set load emit from_str s = Inr (set xs) \<and>
    cast_vector load emit from_str s = (case from_str (emit (YSeq (map node xs))) of
      Inl e \<Rightarrow> if xs = [] then Inr [] else Inl e | Inr y \<Rightarrow> Inr (replicate (length xs) y))"
  using seq_to_str_ok [OF assms(1)] read_children [OF assms(1)] assms(2)
  by (simp add: cast_list_def cast_set_def cast_vector_def load_node_def node_size_def map_result_const
      split: sum.splits)

lemma map_roundtrip:
  assumes "\<forall>e \<in> set es. element_ok load emit from_str to_str node (snd e)"
    and "load (emit (YMap (map (\<lambda>e. (fst e, node (snd e))) es))) = Some (YMap (map (\<lambda>e. (fst e, node (snd e))) es))"
  shows "\<exists>s. map_to_str load emit to_str es = Inr s \<and> cast_map load emit from_str s = Inr (map_of es)"
proof -
  let ?ns = "map (\<lambda>e. (fst e, node (snd e))) es"
  have "map_result (\<lambda>(k, v). bindR (to_str v) (\<lambda>s. bindR (load_node load s) (\<lambda>n. Inr (k, n)))) es = Inr ?ns"
    by (rule map_result_ok)
      (use assms(1) in \<open>auto simp: element_ok_def split_beta bindR_eq_Inr\<close>)
  then have w: "map_to_str load emit to_str es = Inr (emit (YMap ?ns))" by (simp add: map_to_str_def)
  have "map_result (\<lambda>(k, n). bindR (from_str (emit n)) (\<lambda>v. Inr (k, v))) ?ns = Inr es"
    using assms(1) by (induction es) (auto simp: element_ok_def)
  with assms(2) w show ?thesis
    by (simp add: cast_map_def load_node_def node_entries_def)
qed

text \<open>
  Writing a map as text and reading it again gives it back, whatever its values are, if they
  survive their text and the document survives yaml-cpp.
\<close>

theorem map_text_roundtrip:
  assumes "\<forall>e \<in> set es. element_ok load emit from_str to_str node (snd e)"
    and "load (emit (YMap (map (\<lambda>e. (fst e, node (snd e))) es))) = Some (YMap (map (\<lambda>e. (fst e, node (snd e))) es))"
  shows "\<exists>s. map_to_str load emit to_str es = Inr s \<and> cast_map load emit from_str s = Inr (map_of es)"
  using assms by (rule map_roundtrip)

text \<open>A library that knows one document with a list and one with a map.\<close>

definition demo_load :: "string \<Rightarrow> yaml option" where
  "demo_load s = Some (if s = ''[a, b]'' then YSeq [YScalar ''a'', YScalar ''b'']
     else if s = ''{k: v}'' then YMap [(''k'', YScalar ''v'')] else YScalar s)"

definition demo_emit :: "yaml \<Rightarrow> string" where
  "demo_emit n = (case n of YScalar s \<Rightarrow> s | YMap es \<Rightarrow> ''{k: v}'' | _ \<Rightarrow> ''[a, b]'')"

lemma demo_elements: "\<forall>x \<in> {''a'', ''b'', ''v''}. element_ok demo_load demo_emit Inr Inr YScalar x"
  by (simp add: element_ok_def load_node_def demo_load_def demo_emit_def)

lemma container_text_roundtrip_witness:
  "\<exists>s. seq_to_str demo_load demo_emit Inr [''a'', ''b''] = Inr s \<and>
    cast_list demo_load demo_emit Inr s = Inr [''a'', ''b''] \<and>
    cast_vector demo_load demo_emit Inr s = Inr [''[a, b]'', ''[a, b]'']"
proof -
  have e: "\<forall>x \<in> set [''a'', ''b'']. element_ok demo_load demo_emit Inr Inr YScalar x"
    using demo_elements by simp
  have l: "demo_load (demo_emit (YSeq (map YScalar [''a'', ''b'']))) = Some (YSeq (map YScalar [''a'', ''b'']))"
    by (simp add: demo_load_def demo_emit_def)
  have y: "demo_emit (YSeq [YScalar ''a'', YScalar ''b'']) = ''[a, b]''" by (simp add: demo_emit_def)
  have "\<exists>s. seq_to_str demo_load demo_emit Inr [''a'', ''b''] = Inr s \<and>
      cast_list demo_load demo_emit Inr s = Inr [''a'', ''b''] \<and>
      cast_set demo_load demo_emit Inr s = Inr {''a'', ''b''} \<and>
      cast_vector demo_load demo_emit Inr s = Inr [''[a, b]'', ''[a, b]'']"
    using container_text_roundtrip [OF e l] by (simp add: y numeral_2_eq_2)
  then show ?thesis by blast
qed

lemma map_text_roundtrip_witness:
  "\<exists>s. map_to_str demo_load demo_emit Inr [(''k'', ''v'')] = Inr s \<and>
    cast_map demo_load demo_emit Inr s = Inr [''k'' \<mapsto> ''v'']"
proof -
  have e: "\<forall>e \<in> set [(''k'', ''v'')]. element_ok demo_load demo_emit Inr Inr YScalar (snd e)"
    using demo_elements by simp
  have l: "demo_load (demo_emit (YMap (map (\<lambda>e. (fst e, YScalar (snd e))) [(''k'', ''v'')]))) =
      Some (YMap (map (\<lambda>e. (fst e, YScalar (snd e))) [(''k'', ''v'')]))"
    by (simp add: demo_load_def demo_emit_def)
  from map_text_roundtrip [OF e l] show ?thesis by simp
qed

section \<open>Sets and unordered containers as text\<close>

text \<open>
  A \<open>std::set\<close> is written in the order of its elements; an unordered container in an order of
  its own, the parameter \<open>iter\<close>.
\<close>

definition list_to_str ::
  "(string \<Rightarrow> yaml option) \<Rightarrow> (yaml \<Rightarrow> string) \<Rightarrow> ('a \<Rightarrow> string result) \<Rightarrow> 'a list \<Rightarrow> string result" where
  "list_to_str load emit to_str xs =
     bindR (map_result (\<lambda>x. bindR (to_str x) (load_node load)) xs) (\<lambda>ns. Inr (emit (YSeq ns)))"

definition set_to_str ::
  "(string \<Rightarrow> yaml option) \<Rightarrow> (yaml \<Rightarrow> string) \<Rightarrow> ('a :: linorder \<Rightarrow> string result) \<Rightarrow> 'a set \<Rightarrow> string result" where
  "set_to_str load emit to_str S =
     bindR (map_result (\<lambda>x. bindR (to_str x) (load_node load)) (sorted_list_of_set S)) (\<lambda>ns. Inr (emit (YSeq ns)))"

definition unordered_set_to_str ::
  "('a set \<Rightarrow> 'a list) \<Rightarrow> (string \<Rightarrow> yaml option) \<Rightarrow> (yaml \<Rightarrow> string) \<Rightarrow> ('a \<Rightarrow> string result) \<Rightarrow> 'a set \<Rightarrow> string result" where
  "unordered_set_to_str iter load emit to_str S =
     bindR (map_result (\<lambda>x. bindR (to_str x) (load_node load)) (iter S)) (\<lambda>ns. Inr (emit (YSeq ns)))"

definition cast_unordered_set ::
  "(string \<Rightarrow> yaml option) \<Rightarrow> (yaml \<Rightarrow> string) \<Rightarrow> (string \<Rightarrow> 'a result) \<Rightarrow> string \<Rightarrow> 'a set result" where
  "cast_unordered_set load emit from_str s = bindR (load_node load s) (\<lambda>node.
     bindR (map_result (\<lambda>i. from_str (emit (node_at node i))) [0..<node_size node]) (\<lambda>xs. Inr (set xs)))"

definition unordered_map_to_str ::
  "((string \<rightharpoonup> 'a) \<Rightarrow> (string \<times> 'a) list) \<Rightarrow> (string \<Rightarrow> yaml option) \<Rightarrow> (yaml \<Rightarrow> string) \<Rightarrow> ('a \<Rightarrow> string result) \<Rightarrow>
   (string \<rightharpoonup> 'a) \<Rightarrow> string result" where
  "unordered_map_to_str iter load emit to_str m =
     bindR (map_result (\<lambda>(k, v). bindR (to_str v) (\<lambda>s. bindR (load_node load s) (\<lambda>n. Inr (k, n)))) (iter m))
       (\<lambda>ns. Inr (emit (YMap ns)))"

definition cast_unordered_map ::
  "(string \<Rightarrow> yaml option) \<Rightarrow> (yaml \<Rightarrow> string) \<Rightarrow> (string \<Rightarrow> 'a result) \<Rightarrow> string \<Rightarrow> (string \<rightharpoonup> 'a) result" where
  "cast_unordered_map load emit from_str s = bindR (load_node load s) (\<lambda>node.
     bindR (map_result (\<lambda>(k, n). bindR (from_str (emit n)) (\<lambda>v. Inr (k, v))) (node_entries node))
       (\<lambda>es. Inr (map_of es)))"

lemmas text_defs = list_to_str_def set_to_str_def unordered_set_to_str_def seq_to_str_def [symmetric]

text \<open>
  Every set survives its text, in sorted order and in any order of iteration, and so does every
  unordered map, if the elements and the documents survive theirs.
\<close>

theorem set_text_roundtrip:
  fixes S :: "'a :: linorder set"
  assumes "\<forall>x \<in> S. element_ok load emit from_str to_str node x" and "finite S" and "set (iter S) = S" and "distinct (iter S)"
    and "\<forall>xs. set xs = S \<and> distinct xs \<longrightarrow> load (emit (YSeq (map node xs))) = Some (YSeq (map node xs))"
  shows "\<exists>s u. set_to_str load emit to_str S = Inr s \<and> cast_set load emit from_str s = Inr S \<and>
    unordered_set_to_str iter load emit to_str S = Inr u \<and> cast_unordered_set load emit from_str u = Inr S"
proof -
  have "\<exists>s. seq_to_str load emit to_str xs = Inr s \<and> cast_set load emit from_str s = Inr S" if "set xs = S" "distinct xs" for xs
    using seq_to_str_ok [of xs] read_children [of xs] assms(1,5) that
    by (simp add: cast_set_def load_node_def node_size_def)
  moreover have "set (sorted_list_of_set S) = S" "distinct (sorted_list_of_set S)" using assms(2) by simp_all
  moreover have "cast_unordered_set load emit from_str = cast_set load emit from_str"
    by (simp add: cast_unordered_set_def cast_set_def fun_eq_iff)
  ultimately show ?thesis using assms(3,4) by (simp add: text_defs)
qed

lemma set_text_roundtrip_witness:
  "\<exists>s. set_to_str (\<lambda>s. Some (if s = ''[7]'' then YSeq [YScalar ''7''] else YScalar s))
      (\<lambda>n. case n of YScalar s \<Rightarrow> s | _ \<Rightarrow> ''[7]'') (\<lambda>x. Inr ''7'') {7 :: nat} = Inr s \<and>
    cast_set (\<lambda>s. Some (if s = ''[7]'' then YSeq [YScalar ''7''] else YScalar s))
      (\<lambda>n. case n of YScalar s \<Rightarrow> s | _ \<Rightarrow> ''[7]'') (\<lambda>s. Inr 7) s = Inr {7 :: nat}"
proof -
  let ?load = "\<lambda>s. Some (if s = ''[7]'' then YSeq [YScalar ''7''] else YScalar s)"
  let ?emit = "\<lambda>n. case n of YScalar s \<Rightarrow> s | _ \<Rightarrow> ''[7]''"
  have e: "\<forall>x \<in> {7 :: nat}. element_ok ?load ?emit (\<lambda>s. Inr 7) (\<lambda>x. Inr ''7'') (\<lambda>x. YScalar ''7'') x"
    by (simp add: element_ok_def load_node_def)
  have one: "xs = [7]" if "set xs = {7 :: nat}" "distinct xs" for xs
    using that by (cases xs; cases "tl xs") auto
  have l: "\<forall>xs. set xs = {7 :: nat} \<and> distinct xs \<longrightarrow>
      ?load (?emit (YSeq (map (\<lambda>x. YScalar ''7'') xs))) = Some (YSeq (map (\<lambda>x. YScalar ''7'') xs))"
    using one by (auto dest!: one)
  show ?thesis using set_text_roundtrip [OF e _ _ _ l, of "\<lambda>S. [7]"] by auto
qed

text \<open>
  The same for an unordered map, in any order of iteration.
\<close>

theorem unordered_map_text_roundtrip:
  assumes "\<forall>e \<in> set (iter m). element_ok load emit from_str to_str node (snd e)" and "map_of (iter m) = m"
    and "load (emit (YMap (map (\<lambda>e. (fst e, node (snd e))) (iter m)))) = Some (YMap (map (\<lambda>e. (fst e, node (snd e))) (iter m)))"
  shows "\<exists>s. unordered_map_to_str iter load emit to_str m = Inr s \<and> cast_unordered_map load emit from_str s = Inr m"
proof -
  have "\<exists>s. map_to_str load emit to_str (iter m) = Inr s \<and> cast_map load emit from_str s = Inr (map_of (iter m))"
    using assms(1,3) by (rule map_roundtrip)
  then show ?thesis
    by (simp add: assms(2) unordered_map_to_str_def map_to_str_def cast_unordered_map_def cast_map_def)
qed

lemma unordered_map_text_roundtrip_witness:
  "\<exists>s. unordered_map_to_str (\<lambda>m. [(''k'', the (m ''k''))]) demo_load demo_emit Inr [''k'' \<mapsto> ''v''] = Inr s \<and>
    cast_unordered_map demo_load demo_emit Inr s = Inr [''k'' \<mapsto> ''v'']"
  by (rule unordered_map_text_roundtrip [where node = YScalar])
    (simp_all add: element_ok_def load_node_def demo_load_def demo_emit_def)

end
