(* ===== verification/LogConfig.thy ===== *)
theory LogConfig
  imports LexicalCast "HOL-Library.Char_ord" "HOL-Library.List_Lexorder"
begin

text \<open>
  \<open>src/config/log_config.h\<close> and \<open>LogManager::loadLogger\<close>: building appenders and loggers from
  YAML. \<open>load\<close> and \<open>emit\<close> are \<open>YAML::Load\<close> and \<open>operator<<\<close>. An exception leaves what was done
  before it, so building a logger returns the manager with the result.
\<close>

section \<open>Building\<close>

text \<open>Subscripting a scalar throws; a key that is not there gives an undefined node.\<close>

definition sub :: "string \<Rightarrow> yaml \<Rightarrow> yaml option result" where
  "sub k n = (case n of YScalar s \<Rightarrow> Inl (Throws ''YAML::BadSubscript'') | _ \<Rightarrow> Inr (field k n))"

definition level_field :: "yaml \<Rightarrow> level" where
  "level_field n = FromString (case scalar (field ''level'' n) of Some s \<Rightarrow> s | None \<Rightarrow> [])"

definition finish_appender :: "yaml \<Rightarrow> appender \<Rightarrow> appender result" where
  "finish_appender n ap =
     bindR (sub ''level'' n) (\<lambda>_.
       let ap1 = ap\<lparr>ap_level := level_field n\<rparr>
       in case scalar (field ''formatter'' n) of Some p \<Rightarrow> ap_setPattern p ap1 | None \<Rightarrow> Inr ap1)"

definition cast_FileAppender :: "(string \<Rightarrow> yaml option) \<Rightarrow> string \<Rightarrow> appender result" where
  "cast_FileAppender load value = bindR (load_node load value) (\<lambda>n. bindR (sub ''path'' n) (\<lambda>path.
     case scalar path of
       None \<Rightarrow> Inl (Throws ''name is null'')
     | Some p \<Rightarrow> finish_appender n (FileAppender_ctor p)))"

definition cast_ConsoleAppender :: "(string \<Rightarrow> yaml option) \<Rightarrow> string \<Rightarrow> appender result" where
  "cast_ConsoleAppender load value = bindR (load_node load value) (\<lambda>n. finish_appender n ConsoleAppender_ctor)"

text \<open>One turn of the loop over the appenders; an unknown type leaves a null pointer to add.\<close>

definition appender_from :: "(string \<Rightarrow> yaml option) \<Rightarrow> (yaml \<Rightarrow> string) \<Rightarrow> yaml \<Rightarrow> appender result" where
  "appender_from load emit n = bindR (sub ''type'' n) (\<lambda>t. case scalar t of
     None \<Rightarrow> Inl (Throws ''YAML::BadConversion'')
   | Some str \<Rightarrow>
       if str = ''fileappender'' then cast_FileAppender load (emit n)
       else if str = ''consoleappender'' then cast_ConsoleAppender load (emit n)
       else Inl NullDeref)"

fun add_all_appenders ::
  "(string \<Rightarrow> yaml option) \<Rightarrow> (yaml \<Rightarrow> string) \<Rightarrow> nat \<Rightarrow> yaml list \<Rightarrow> log_store \<Rightarrow> log_store \<times> unit result" where
  "add_all_appenders load emit l [] st = (st, Inr ())"
| "add_all_appenders load emit l (n # ns) st = (case appender_from load emit n of
     Inl e \<Rightarrow> (st, Inl e)
   | Inr ap \<Rightarrow> add_all_appenders load emit l ns
       (addAppender l (length (ap_heap st)) (st\<lparr>ap_heap := ap_heap st @ [ap]\<rparr>)))"

definition name_field :: "(yaml \<Rightarrow> string) \<Rightarrow> yaml \<Rightarrow> string result" where
  "name_field emit n = bindR (sub ''name'' n) (\<lambda>v. case scalar v of
     None \<Rightarrow> Inl (Throws ''log config name is null'')
   | Some s \<Rightarrow> Inr (emit (YScalar s)))"

definition configure_logger ::
  "(string \<Rightarrow> yaml option) \<Rightarrow> (yaml \<Rightarrow> string) \<Rightarrow> yaml \<Rightarrow> nat \<Rightarrow> log_store \<Rightarrow> log_store \<times> nat result" where
  "configure_logger load emit n l st =
     (let st1 = set_lg l ((lg_at l st)\<lparr>lg_level := level_field n\<rparr>) st
      in case (case scalar (field ''formatter'' n) of None \<Rightarrow> Inr st1 | Some p \<Rightarrow> lg_setPattern l p st1) of
           Inl e \<Rightarrow> (st1, Inl e)
         | Inr st2 \<Rightarrow> (case field ''appenders'' n of
             Some (YSeq as) \<Rightarrow>
               (let (st3, r) = add_all_appenders load emit l as (clearAllAppenders l st2)
                in (st3, bindR r (\<lambda>_. Inr l)))
           | _ \<Rightarrow> (st2, Inr l)))"

definition cast_Logger ::
  "(string \<Rightarrow> yaml option) \<Rightarrow> (yaml \<Rightarrow> string) \<Rightarrow> string \<Rightarrow> manager \<Rightarrow> manager \<times> nat result" where
  "cast_Logger load emit value m =
     (case bindR (load_node load value) (\<lambda>n. bindR (name_field emit n) (\<lambda>name.
          bindR (getLogger name m) (\<lambda>(l, m1). Inr (n, l, m1)))) of
        Inl e \<Rightarrow> (m, Inl e)
      | Inr (n, l, m1) \<Rightarrow>
          (let (st, r) = configure_logger load emit n l (lm_store m1) in (m1\<lparr>lm_store := st\<rparr>, r)))"

text \<open>\<open>files\<close> is \<open>YAML::LoadFile\<close>; an undefined node is written as nothing.\<close>

definition loadLogger ::
  "(string \<Rightarrow> yaml result) \<Rightarrow> (string \<Rightarrow> yaml option) \<Rightarrow> (yaml \<Rightarrow> string) \<Rightarrow> string \<Rightarrow> string \<Rightarrow> manager \<Rightarrow>
   manager \<times> nat result" where
  "loadLogger files load emit path loggerName m =
     (case bindR (files path) (sub loggerName) of
        Inl e \<Rightarrow> (m, Inl e)
      | Inr v \<Rightarrow> cast_Logger load emit (case v of Some n \<Rightarrow> emit n | None \<Rightarrow> []) m)"

section \<open>What a configuration describes\<close>

record ap_conf =
  ac_kind :: appender_kind
  ac_level :: level
  ac_format :: "formatter option"

definition ap_conf_yaml :: "ap_conf \<Rightarrow> yaml" where
  "ap_conf_yaml c = YMap
     ((case ac_kind c of Console \<Rightarrow> [(''type'', YScalar ''consoleappender'')]
        | File p \<Rightarrow> [(''type'', YScalar ''fileappender''), (''path'', YScalar p)]) @
      [(''level'', YScalar (ToString (ac_level c)))] @
      (case ac_format c of None \<Rightarrow> [] | Some f \<Rightarrow> [(''formatter'', YScalar (f_pattern f))]))"

definition lg_conf_yaml :: "string \<Rightarrow> level \<Rightarrow> formatter \<Rightarrow> ap_conf list \<Rightarrow> yaml" where
  "lg_conf_yaml name lev f cs = YMap [(''name'', YScalar name), (''level'', YScalar (ToString lev)),
     (''formatter'', YScalar (f_pattern f)), (''appenders'', YSeq (map ap_conf_yaml cs))]"

text \<open>An appender of the configuration, with the formatter of the logger where it has none.\<close>

definition configured :: "formatter \<Rightarrow> ap_conf \<Rightarrow> appender" where
  "configured f c = \<lparr>ap_kind = ac_kind c, ap_level = ac_level c,
     ap_formatter = Some (case ac_format c of None \<Rightarrow> f | Some g \<Rightarrow> g), ap_hasFormatter = True\<rparr>"

definition built :: "ap_conf \<Rightarrow> appender" where
  "built c = \<lparr>ap_kind = ac_kind c, ap_level = ac_level c, ap_formatter = ac_format c,
     ap_hasFormatter = (ac_format c \<noteq> None)\<rparr>"

definition format_ok :: "formatter \<Rightarrow> bool" where "format_ok f \<longleftrightarrow> LogFormatter_ctor (f_pattern f) = Inr f"

definition conf_ok :: "(string \<Rightarrow> yaml option) \<Rightarrow> (yaml \<Rightarrow> string) \<Rightarrow> ap_conf \<Rightarrow> bool" where
  "conf_ok load emit c \<longleftrightarrow> load (emit (ap_conf_yaml c)) = Some (ap_conf_yaml c) \<and>
     (case ac_format c of None \<Rightarrow> True | Some f \<Rightarrow> format_ok f)"

lemmas field_simps' = sub_def field_def scalar_def level_field_def FromString_ToString

lemma appender_from_conf:
  assumes "conf_ok load emit c"
  shows "appender_from load emit (ap_conf_yaml c) = Inr (built c)"
proof (cases "ac_kind c")
  case Console
  with assms show ?thesis
    by (cases "ac_format c")
      (simp_all add: appender_from_def ap_conf_yaml_def conf_ok_def cast_ConsoleAppender_def load_node_def
        finish_appender_def field_simps' built_def ConsoleAppender_ctor_def Let_def ap_setPattern_def
        format_ok_def ap_setFormatter_def)
next
  case (File p)
  with assms show ?thesis
    by (cases "ac_format c")
      (simp_all add: appender_from_def ap_conf_yaml_def conf_ok_def cast_FileAppender_def load_node_def
        finish_appender_def field_simps' built_def FileAppender_ctor_def Let_def ap_setPattern_def
        format_ok_def ap_setFormatter_def)
qed

lemma lg_at_set [simp]: "l < length (lg_heap st) \<Longrightarrow> lg_at l (set_lg l x st) = x"
  by (simp add: lg_at_def set_lg_def)

lemma lg_heap_set [simp]: "length (lg_heap (set_lg l x st)) = length (lg_heap st)"
  by (simp add: set_lg_def)

lemma lg_at_ap [simp]: "lg_at l (st\<lparr>ap_heap := h\<rparr>) = lg_at l st" "lg_at l (set_ap a x st) = lg_at l st"
  by (simp_all add: lg_at_def)

lemma ap_new_at [simp]:
  "ap_at (length (ap_heap st)) (st\<lparr>ap_heap := ap_heap st @ [x]\<rparr>) = x"
  "b < length (ap_heap st) \<Longrightarrow> ap_at b (st\<lparr>ap_heap := ap_heap st @ [x]\<rparr>) = ap_at b st"
  by (simp_all add: ap_at_def nth_append)

text \<open>Adding a new appender to a logger with a formatter.\<close>

lemma add_new_appender:
  assumes "l < length (lg_heap st)" and "lg_formatter (lg_at l st) = Some f"
    and "st' = addAppender l (length (ap_heap st)) (st\<lparr>ap_heap := ap_heap st @ [built c]\<rparr>)"
  shows "length (lg_heap st') = length (lg_heap st)" and "length (ap_heap st') = Suc (length (ap_heap st))"
    and "lg_at l st' = (lg_at l st)\<lparr>lg_appenders := lg_appenders (lg_at l st) @ [length (ap_heap st)]\<rparr>"
    and "ap_at (length (ap_heap st)) st' = configured f c"
    and "\<And>b. b < length (ap_heap st) \<Longrightarrow> ap_at b st' = ap_at b st"
proof -
  have lg: "lg_at l (st\<lparr>ap_heap := ap_heap st @ [built c]\<rparr>) = lg_at l st" by simp
  show "length (lg_heap st') = length (lg_heap st)" "length (ap_heap st') = Suc (length (ap_heap st))"
    by (simp_all add: assms(3) addAppender_def Let_def)
  show "lg_at l st' = (lg_at l st)\<lparr>lg_appenders := lg_appenders (lg_at l st) @ [length (ap_heap st)]\<rparr>"
    using assms(1) by (simp add: assms(3) addAppender_def Let_def lg)
  show "ap_at (length (ap_heap st)) st' = configured f c"
    using assms(2)
    by (cases "ac_format c")
      (simp_all add: assms(3) addAppender_def Let_def lg built_def configured_def ap_setFormatter_def)
  show "ap_at b st' = ap_at b st" if "b < length (ap_heap st)" for b
    using that by (simp add: assms(3) addAppender_def Let_def lg)
qed

lemma add_all_configured:
  assumes "\<forall>c \<in> set cs. conf_ok load emit c" and "l < length (lg_heap st)" and "lg_formatter (lg_at l st) = Some f"
    and "\<forall>a \<in> set (lg_appenders (lg_at l st)). a < length (ap_heap st)"
  shows "\<exists>st'. add_all_appenders load emit l (map ap_conf_yaml cs) st = (st', Inr ()) \<and>
    lg_name (lg_at l st') = lg_name (lg_at l st) \<and> lg_level (lg_at l st') = lg_level (lg_at l st) \<and>
    lg_formatter (lg_at l st') = Some f \<and>
    map (\<lambda>a. ap_at a st') (lg_appenders (lg_at l st')) =
      map (\<lambda>a. ap_at a st) (lg_appenders (lg_at l st)) @ map (configured f) cs"
  using assms
proof (induction cs arbitrary: st)
  case Nil
  then show ?case by simp
next
  case (Cons c cs)
  define st1 where "st1 = addAppender l (length (ap_heap st)) (st\<lparr>ap_heap := ap_heap st @ [built c]\<rparr>)"
  note n = add_new_appender [OF Cons.prems(2,3) st1_def]
  have s: "add_all_appenders load emit l (map ap_conf_yaml (c # cs)) st =
      add_all_appenders load emit l (map ap_conf_yaml cs) st1"
    using Cons.prems(1) by (simp add: appender_from_conf st1_def)
  have p: "\<forall>c \<in> set cs. conf_ok load emit c" "l < length (lg_heap st1)" "lg_formatter (lg_at l st1) = Some f"
    "\<forall>a \<in> set (lg_appenders (lg_at l st1)). a < length (ap_heap st1)"
    using Cons.prems n(1-3) by (auto intro: less_SucI)
  have "map (\<lambda>a. ap_at a st1) (lg_appenders (lg_at l st1)) =
      map (\<lambda>a. ap_at a st) (lg_appenders (lg_at l st)) @ [configured f c]"
    using Cons.prems(4) n(3-5) by simp
  then show ?case using Cons.IH [OF p] s n(3) by auto
qed

section \<open>Configuring a logger\<close>

lemma set_all_lg [simp]: "lg_heap (set_all v as st) = lg_heap st" "length (ap_heap (set_all v as st)) = length (ap_heap st)"
  by (induction as arbitrary: st) simp_all

lemma setFormatter_lg:
  assumes "l < length (lg_heap st)"
  shows "lg_at l (lg_setFormatter l v st) = (lg_at l st)\<lparr>lg_formatter := v\<rparr>"
    and "length (lg_heap (lg_setFormatter l v st)) = length (lg_heap st)"
proof -
  have "lg_at l (set_all v as st') = lg_at l st'" for as st' by (simp add: lg_at_def)
  then show "lg_at l (lg_setFormatter l v st) = (lg_at l st)\<lparr>lg_formatter := v\<rparr>"
    "length (lg_heap (lg_setFormatter l v st)) = length (lg_heap st)"
    using assms by (simp_all add: lg_setFormatter_def)
qed

lemma clear_lg:
  assumes "l < length (lg_heap st)"
  shows "lg_at l (clearAllAppenders l st) = (lg_at l st)\<lparr>lg_appenders := []\<rparr>"
    and "length (lg_heap (clearAllAppenders l st)) = length (lg_heap st)"
  using assms by (simp_all add: clearAllAppenders_def)

lemma format_ok_error: "format_ok f \<Longrightarrow> \<not> f_error f"
  by (cases f)
    (auto simp: format_ok_def LogFormatter_ctor_def setPattern_def Let_def split: if_splits option.splits)

text \<open>The store when the loop over the appenders begins.\<close>

lemma configure_prefix:
  assumes "l < length (lg_heap st)" and "format_ok f" and "scalar (field ''formatter'' n) = Some (f_pattern f)"
    and "field ''appenders'' n = Some (YSeq as)"
  obtains st2 where "l < length (lg_heap st2)" "lg_at l st2 = (lg_at l st)\<lparr>lg_level := level_field n,
      lg_formatter := Some f, lg_appenders := []\<rparr>"
    "configure_logger load emit n l st = (fst (add_all_appenders load emit l as st2),
      bindR (snd (add_all_appenders load emit l as st2)) (\<lambda>_. Inr l))"
proof -
  define st1 where "st1 = set_lg l ((lg_at l st)\<lparr>lg_level := level_field n\<rparr>) st"
  define st2 where "st2 = clearAllAppenders l (lg_setFormatter l (Some f) st1)"
  have l1: "l < length (lg_heap st1)" "lg_at l st1 = (lg_at l st)\<lparr>lg_level := level_field n\<rparr>"
    using assms(1) by (simp_all add: st1_def)
  have p: "lg_setPattern l (f_pattern f) st1 = Inr (lg_setFormatter l (Some f) st1)"
    using assms(2) format_ok_error [OF assms(2)] by (simp add: lg_setPattern_def format_ok_def)
  have "l < length (lg_heap st2)" "lg_at l st2 = (lg_at l st)\<lparr>lg_level := level_field n,
      lg_formatter := Some f, lg_appenders := []\<rparr>"
    using l1 by (simp_all add: st2_def clear_lg setFormatter_lg)
  moreover have "configure_logger load emit n l st = (fst (add_all_appenders load emit l as st2),
      bindR (snd (add_all_appenders load emit l as st2)) (\<lambda>_. Inr l))"
    using assms(3,4) p by (simp add: configure_logger_def st1_def [symmetric] st2_def split_beta Let_def)
  ultimately show ?thesis using that by blast
qed

lemma cast_Logger_step:
  assumes "mgr_ok m" and "load value = Some n" and "name_field emit n = Inr name"
  obtains l m1 where "mgr_ok m1" "map_of (lm_map m1) name = Some l" "l < length (lg_heap (lm_store m1))"
    "lg_name (lg_at l (lm_store m1)) = name" "getLogger name m = Inr (l, m1)"
    "cast_Logger load emit value m = (m1\<lparr>lm_store := fst (configure_logger load emit n l (lm_store m1))\<rparr>,
       snd (configure_logger load emit n l (lm_store m1)))"
proof -
  obtain l m1 where g: "getLogger name m = Inr (l, m1)" "mgr_ok m1" "map_of (lm_map m1) name = Some l"
    using getLogger_ok [OF assms(1)] by metis
  moreover have "cast_Logger load emit value m = (m1\<lparr>lm_store := fst (configure_logger load emit n l (lm_store m1))\<rparr>,
       snd (configure_logger load emit n l (lm_store m1)))"
    using assms(2,3) g(1) by (simp add: cast_Logger_def load_node_def split_beta Let_def)
  moreover have "l < length (lg_heap (lm_store m1))" "lg_name (lg_at l (lm_store m1)) = name"
    using g(2,3) by (auto simp: mgr_ok_def)
  ultimately show ?thesis using that by blast
qed

text \<open>
  Loading the configuration of a logger gives the logger of that name the configured level and
  format and, in order, exactly the configured appenders, each with its kind, its level and its own
  format, or the logger's where none is given, whatever the logger was before.
\<close>

theorem logger_configured:
  assumes "mgr_ok m" and "load value = Some (lg_conf_yaml name lev f cs)" and "emit (YScalar name) = name"
    and "format_ok f" and "\<forall>c \<in> set cs. conf_ok load emit c"
  shows "\<exists>l m'. cast_Logger load emit value m = (m', Inr l) \<and> lg_name (lg_at l (lm_store m')) = name \<and>
    lg_level (lg_at l (lm_store m')) = lev \<and> lg_formatter (lg_at l (lm_store m')) = Some f \<and>
    map (\<lambda>a. ap_at a (lm_store m')) (lg_appenders (lg_at l (lm_store m'))) = map (configured f) cs"
proof -
  let ?n = "lg_conf_yaml name lev f cs"
  have n: "name_field emit ?n = Inr name"
    using assms(3) by (simp add: name_field_def lg_conf_yaml_def sub_def field_def scalar_def)
  obtain l m1 where c: "l < length (lg_heap (lm_store m1))" "lg_name (lg_at l (lm_store m1)) = name"
    "cast_Logger load emit value m = (m1\<lparr>lm_store := fst (configure_logger load emit ?n l (lm_store m1))\<rparr>,
       snd (configure_logger load emit ?n l (lm_store m1)))"
    using cast_Logger_step [of m load "value" "?n" emit name, OF assms(1,2) n] by blast
  have fs: "scalar (field ''formatter'' ?n) = Some (f_pattern f)"
    "field ''appenders'' ?n = Some (YSeq (map ap_conf_yaml cs))" "level_field ?n = lev"
    by (simp_all add: lg_conf_yaml_def field_simps')
  obtain st2 where s: "l < length (lg_heap st2)" "lg_at l st2 = (lg_at l (lm_store m1))\<lparr>lg_level := lev,
      lg_formatter := Some f, lg_appenders := []\<rparr>"
    "configure_logger load emit ?n l (lm_store m1) =
      (fst (add_all_appenders load emit l (map ap_conf_yaml cs) st2),
       bindR (snd (add_all_appenders load emit l (map ap_conf_yaml cs) st2)) (\<lambda>_. Inr l))"
    using configure_prefix [OF c(1) assms(4) fs(1,2), of load emit] fs(3) by metis
  have "lg_formatter (lg_at l st2) = Some f" "\<forall>a \<in> set (lg_appenders (lg_at l st2)). a < length (ap_heap st2)"
    by (simp_all add: s(2))
  from add_all_configured [OF assms(5) s(1) this] obtain st3 where
    st3: "add_all_appenders load emit l (map ap_conf_yaml cs) st2 = (st3, Inr ())"
    "lg_name (lg_at l st3) = lg_name (lg_at l st2)" "lg_level (lg_at l st3) = lg_level (lg_at l st2)"
    "lg_formatter (lg_at l st3) = Some f"
    "map (\<lambda>a. ap_at a st3) (lg_appenders (lg_at l st3)) =
      map (\<lambda>a. ap_at a st2) (lg_appenders (lg_at l st2)) @ map (configured f) cs" by blast
  with s(2,3) c(2,3) show ?thesis
    by (intro exI [of _ l]) (simp add: st3(1))
qed

text \<open>
  The configuration a logger writes of itself cannot be read back when it has appenders,
  because they are written without their type: reading it throws and leaves the logger with no
  appender at all.
\<close>

theorem own_config_not_readable:
  assumes "mgr_ok m" and "map_of (lm_map m) name = Some l" and "lg_appenders (lg_at l (lm_store m)) \<noteq> []"
    and "lg_getYamlNode l (lm_store m) = Inr y" and "load value = Some y" and "emit (YScalar name) = name"
    and "lg_formatter (lg_at l (lm_store m)) = Some f" and "format_ok f"
  shows "\<exists>m'. cast_Logger load emit value m = (m', Inl (Throws ''YAML::BadConversion'')) \<and>
    lg_appenders (lg_at l (lm_store m')) = []"
proof -
  let ?st = "lm_store m"
  have lg: "l < length (lg_heap ?st)" "lg_name (lg_at l ?st) = name" using assms(1,2) by (auto simp: mgr_ok_def)
  obtain a as where as: "lg_appenders (lg_at l ?st) = a # as" using assms(3) by (cases "lg_appenders (lg_at l ?st)") auto
  from assms(4,7) as obtain ya ys where y: "y = YMap [(''name'', YScalar name), (''level'', YScalar (ToString (lg_level (lg_at l ?st)))),
      (''formatter'', YScalar (f_pattern f)), (''appenders'', YSeq (ya # ys))]" "ap_getYamlNode (ap_at a ?st) = Inr ya"
    by (auto simp: lg_getYamlNode_def Let_def bindR_eq_Inr lg(2))
  have bad: "appender_from load emit ya = Inl (Throws ''YAML::BadConversion'')"
    using y(2) by (auto simp: ap_getYamlNode_def Let_def appender_from_def sub_def field_def scalar_def
        split: if_splits option.splits appender_kind.splits)
  have n: "name_field emit y = Inr name"
    using assms(6) by (simp add: y(1) name_field_def sub_def field_def scalar_def)
  obtain l' m1 where c: "getLogger name m = Inr (l', m1)"
    "cast_Logger load emit value m = (m1\<lparr>lm_store := fst (configure_logger load emit y l' (lm_store m1))\<rparr>,
       snd (configure_logger load emit y l' (lm_store m1)))"
    using cast_Logger_step [of m load "value" y emit name, OF assms(1,5) n] by blast
  have same: "l' = l" "m1 = m" using c(1) getLogger_known [OF assms(2)] by simp_all
  have fs: "scalar (field ''formatter'' y) = Some (f_pattern f)" "field ''appenders'' y = Some (YSeq (ya # ys))"
    by (simp_all add: y(1) field_def scalar_def)
  obtain st2 where s: "lg_at l st2 = (lg_at l ?st)\<lparr>lg_level := level_field y,
      lg_formatter := Some f, lg_appenders := []\<rparr>"
    "configure_logger load emit y l ?st = (fst (add_all_appenders load emit l (ya # ys) st2),
       bindR (snd (add_all_appenders load emit l (ya # ys) st2)) (\<lambda>_. Inr l))"
    using configure_prefix [OF lg(1) assms(8) fs, of load emit] by metis
  then show ?thesis using c(2) bad by (simp add: same)
qed

subsection \<open>An example\<close>

definition demo_conf :: "ap_conf list" where
  "demo_conf = [\<lparr>ac_kind = Console, ac_level = INFO, ac_format = None\<rparr>,
     \<lparr>ac_kind = File ''a.log'', ac_level = ERROR, ac_format = Some default_formatter\<rparr>]"

lemma default_format_ok: "format_ok default_formatter"
  by (simp add: format_ok_def default_formatter_def default_ctor)

text \<open>A library that knows the nodes of one document, each by a text of its own.\<close>

definition doc_emit :: "yaml list \<Rightarrow> yaml \<Rightarrow> string" where
  "doc_emit ns n = (case n of YScalar s \<Rightarrow> s | _ \<Rightarrow> replicate (length (takeWhile (\<lambda>k. k \<noteq> n) ns)) (CHR ''x''))"

definition doc_load :: "yaml list \<Rightarrow> string \<Rightarrow> yaml option" where
  "doc_load ns s = (if length s < length ns then Some (ns ! length s) else None)"

lemma doc_load_emit: "(\<And>s. n \<noteq> YScalar s) \<Longrightarrow> n \<in> set ns \<Longrightarrow> doc_load ns (doc_emit ns n) = Some n"
proof -
  assume n: "\<And>s. n \<noteq> YScalar s" "n \<in> set ns"
  have "length (takeWhile (\<lambda>k. k \<noteq> n) ns) < length ns"
    using n(2) by (induction ns) auto
  with n show ?thesis
    using nth_length_takeWhile [of "\<lambda>k. k \<noteq> n" ns] by (cases n) (auto simp: doc_load_def doc_emit_def)
qed

lemma logger_configured_witness:
  "\<exists>ld em l m'. cast_Logger ld em ''doc'' mgr_init = (m', Inr l) \<and> lg_name (lg_at l (lm_store m')) = ''net'' \<and>
    map (\<lambda>a. ap_kind (ap_at a (lm_store m'))) (lg_appenders (lg_at l (lm_store m'))) = [Console, File ''a.log'']"
proof -
  let ?y = "lg_conf_yaml ''net'' WARN default_formatter demo_conf"
  let ?ns = "map ap_conf_yaml demo_conf @ [YNull, ?y]"
  have l: "doc_load ?ns ''doc'' = Some ?y" by (simp add: doc_load_def demo_conf_def)
  have e: "doc_emit ?ns (YScalar ''net'') = ''net''" by (simp add: doc_emit_def)
  have c: "\<forall>c \<in> set demo_conf. conf_ok (doc_load ?ns) (doc_emit ?ns) c"
  proof
    fix c assume "c \<in> set demo_conf"
    then have "ap_conf_yaml c \<in> set ?ns" "case ac_format c of None \<Rightarrow> True | Some f \<Rightarrow> format_ok f"
      by (auto simp: demo_conf_def default_format_ok)
    then show "conf_ok (doc_load ?ns) (doc_emit ?ns) c"
      using doc_load_emit [of "ap_conf_yaml c" ?ns] by (simp add: conf_ok_def ap_conf_yaml_def)
  qed
  from logger_configured [where load = "doc_load ?ns" and emit = "doc_emit ?ns", OF mgr_init_ok l e default_format_ok c] obtain l m' where
    r: "cast_Logger (doc_load ?ns) (doc_emit ?ns) ''doc'' mgr_init = (m', Inr l)"
    "lg_name (lg_at l (lm_store m')) = ''net''"
    "map (\<lambda>a. ap_at a (lm_store m')) (lg_appenders (lg_at l (lm_store m'))) =
      map (configured default_formatter) demo_conf" by blast
  have "map ap_kind (map (\<lambda>a. ap_at a (lm_store m')) (lg_appenders (lg_at l (lm_store m')))) =
      [Console, File ''a.log'']"
    unfolding r(3) by (simp add: demo_conf_def configured_def)
  then have "map (\<lambda>a. ap_kind (ap_at a (lm_store m'))) (lg_appenders (lg_at l (lm_store m'))) =
      [Console, File ''a.log'']"
    by (simp add: comp_def)
  with r(1,2) show ?thesis by (intro exI conjI)
qed

lemma own_config_not_readable_witness:
  "\<exists>ld em m'. cast_Logger ld em [] mgr_init = (m', Inl (Throws ''YAML::BadConversion'')) \<and>
    lg_appenders (lg_at 0 (lm_store m')) = []"
proof -
  have m: "map_of (lm_map mgr_init) ''root'' = Some 0" by (simp add: mgr_init_def)
  have a: "lg_appenders (lg_at 0 (lm_store mgr_init)) \<noteq> []" "lg_formatter (lg_at 0 (lm_store mgr_init)) = Some default_formatter"
    by (simp_all add: mgr_init_def lg_at_def)
  obtain y where y: "lg_getYamlNode 0 (lm_store mgr_init) = Inr y"
    by (simp add: mgr_init_def lg_at_def ap_at_def lg_getYamlNode_def ap_getYamlNode_def ap_setFormatter_def
        ConsoleAppender_ctor_def Let_def)
  have l: "doc_load [y] [] = Some y" by (simp add: doc_load_def)
  have e: "doc_emit [y] (YScalar ''root'') = ''root''" by (simp add: doc_emit_def)
  from own_config_not_readable [of mgr_init "''root''" 0 y "doc_load [y]" "[]" "doc_emit [y]", OF mgr_init_ok m a(1) y l e a(2) default_format_ok]
  show ?thesis by blast
qed

section \<open>Writing the configuration\<close>

definition ap_toString :: "(yaml \<Rightarrow> string) \<Rightarrow> appender \<Rightarrow> string result" where
  "ap_toString emit a = bindR (ap_getYamlNode a) (\<lambda>y. Inr (emit y))"

definition lg_getYamlString :: "(yaml \<Rightarrow> string) \<Rightarrow> nat \<Rightarrow> log_store \<Rightarrow> string result" where
  "lg_getYamlString emit l st = bindR (lg_getYamlNode l st) (\<lambda>y. Inr (emit y))"

text \<open>
  \<open>LogManager::getYamlString\<close>: the map is walked in the order of the names. A node is null until
  something is pushed to it.
\<close>

fun dump_nodes ::
  "(string \<Rightarrow> yaml option) \<Rightarrow> (yaml \<Rightarrow> string) \<Rightarrow> log_store \<Rightarrow> nat list \<Rightarrow> yaml list result" where
  "dump_nodes load emit st [] = Inr []"
| "dump_nodes load emit st (l # ls) =
     bindR (lg_getYamlString emit l st) (\<lambda>s. bindR (load_node load s) (\<lambda>y.
       bindR (dump_nodes load emit st ls) (\<lambda>ys. Inr (y # ys))))"

definition LogManager_getYamlString ::
  "(string \<Rightarrow> yaml option) \<Rightarrow> (yaml \<Rightarrow> string) \<Rightarrow> manager \<Rightarrow> string result" where
  "LogManager_getYamlString load emit m =
     bindR (dump_nodes load emit (lm_store m) (map snd (sort_key fst (lm_map m)))) (\<lambda>ys.
       Inr (emit (if ys = [] then YNull else YSeq ys)))"

lemma yaml_nodes_ok:
  "(\<forall>a \<in> set as. ap_hasFormatter a \<longleftrightarrow> ap_formatter a \<noteq> None) \<Longrightarrow> \<exists>ys. yaml_nodes as = Inr ys"
  by (induction as) (auto simp: ap_getYamlNode_def Let_def)

lemma logger_node_ok:
  assumes "appenders_ok st" and "lg_formatter (lg_at l st) \<noteq> None"
    and "\<forall>a \<in> set (lg_appenders (lg_at l st)). a < length (ap_heap st)"
  shows "\<exists>y. lg_getYamlNode l st = Inr y \<and> scalar (field ''name'' y) = Some (lg_name (lg_at l st))"
proof -
  have "\<forall>a \<in> set (map (\<lambda>a. ap_at a st) (lg_appenders (lg_at l st))). ap_hasFormatter a \<longleftrightarrow> ap_formatter a \<noteq> None"
    using assms(3) appenders_ok_at [OF assms(1)] by simp
  from yaml_nodes_ok [OF this] assms(2) show ?thesis
    by (auto simp: lg_getYamlNode_def Let_def field_def scalar_def)
qed

lemma dump_nodes_all:
  assumes "\<forall>(n, l) \<in> set nls. \<exists>y. lg_getYamlNode l st = Inr y \<and> load (emit y) = Some y \<and> scalar (field ''name'' y) = Some n"
  shows "\<exists>ys. dump_nodes load emit st (map snd nls) = Inr ys \<and>
    list_all2 (\<lambda>(n, l) y. lg_getYamlNode l st = Inr y \<and> scalar (field ''name'' y) = Some n) nls ys"
  using assms
proof (induction nls)
  case Nil
  then show ?case by simp
next
  case (Cons nl nls)
  obtain n l where nl: "nl = (n, l)" by (cases nl)
  obtain y where y: "lg_getYamlNode l st = Inr y" "load (emit y) = Some y" "scalar (field ''name'' y) = Some n"
    using Cons.prems by (auto simp: nl)
  obtain ys where "dump_nodes load emit st (map snd nls) = Inr ys"
    "list_all2 (\<lambda>(n, l) y. lg_getYamlNode l st = Inr y \<and> scalar (field ''name'' y) = Some n) nls ys"
    using Cons by auto
  with y show ?case by (auto simp: nl lg_getYamlString_def load_node_def)
qed

text \<open>
  What the manager writes of itself is a sequence with one entry for every logger it knows, in
  the order of the names, and each entry is the configuration of the logger of that name. (The
  YAML library reads back the nodes it wrote.)
\<close>

theorem manager_dump_complete:
  assumes ok: "mgr_ok m" and keys: "distinct (map fst (lm_map m))"
    and refs: "\<And>n l. (n, l) \<in> set (lm_map m) \<Longrightarrow>
      \<forall>a \<in> set (lg_appenders (lg_at l (lm_store m))). a < length (ap_heap (lm_store m))"
    and lib: "\<And>n l y. (n, l) \<in> set (lm_map m) \<Longrightarrow> lg_getYamlNode l (lm_store m) = Inr y \<Longrightarrow> load (emit y) = Some y"
  shows "\<exists>ys. LogManager_getYamlString load emit m = Inr (emit (YSeq ys)) \<and>
    sorted_wrt (<) (map fst (sort_key fst (lm_map m))) \<and>
    list_all2 (\<lambda>(n, l) y. lg_getYamlNode l (lm_store m) = Inr y \<and> scalar (field ''name'' y) = Some n)
      (sort_key fst (lm_map m)) ys"
proof -
  have "\<exists>y. lg_getYamlNode l (lm_store m) = Inr y \<and> load (emit y) = Some y \<and> scalar (field ''name'' y) = Some n"
    if nl: "(n, l) \<in> set (lm_map m)" for n l
  proof -
    have "map_of (lm_map m) n = Some l" using keys nl by simp
    with ok have l: "appenders_ok (lm_store m)" "lg_name (lg_at l (lm_store m)) = n"
      "lg_formatter (lg_at l (lm_store m)) \<noteq> None"
      by (auto simp: mgr_ok_def)
    from logger_node_ok [OF l(1,3) refs [OF nl]] lib [OF nl] show ?thesis by (auto simp: l(2))
  qed
  then have "\<forall>(n, l) \<in> set (sort_key fst (lm_map m)).
      \<exists>y. lg_getYamlNode l (lm_store m) = Inr y \<and> load (emit y) = Some y \<and> scalar (field ''name'' y) = Some n"
    by auto
  from dump_nodes_all [OF this] obtain ys where ys:
    "dump_nodes load emit (lm_store m) (map snd (sort_key fst (lm_map m))) = Inr ys"
    "list_all2 (\<lambda>(n, l) y. lg_getYamlNode l (lm_store m) = Inr y \<and> scalar (field ''name'' y) = Some n)
       (sort_key fst (lm_map m)) ys" by blast
  have "lm_map m \<noteq> []" using ok by (auto simp: mgr_ok_def)
  then have "ys \<noteq> []" using list_all2_lengthD [OF ys(2)] by auto
  moreover have "sorted_wrt (<) (map fst (sort_key fst (lm_map m)))"
  proof -
    have "distinct (map fst (sort_key fst (lm_map m)))"
      using keys by (simp add: distinct_map)
    then show ?thesis by (simp add: strict_sorted_iff)
  qed
  ultimately show ?thesis using ys by (auto simp: LogManager_getYamlString_def)
qed

text \<open>A library that knows one node, and a manager with two loggers.\<close>

lemma manager_dump_complete_witness:
  "\<exists>ld em ys. LogManager_getYamlString ld em mgr_init = Inr (em (YSeq ys)) \<and> length ys = 1"
proof -
  obtain y where y: "lg_getYamlNode 0 (lm_store mgr_init) = Inr y"
    by (simp add: mgr_init_def lg_at_def ap_at_def lg_getYamlNode_def ap_getYamlNode_def ap_setFormatter_def
        ConsoleAppender_ctor_def Let_def)
  have "\<exists>ys. LogManager_getYamlString (\<lambda>_. Some y) (\<lambda>_. []) mgr_init = Inr [] \<and>
    sorted_wrt (<) (map fst (sort_key fst (lm_map mgr_init))) \<and>
    list_all2 (\<lambda>(n, l) y. lg_getYamlNode l (lm_store mgr_init) = Inr y \<and> scalar (field ''name'' y) = Some n)
      (sort_key fst (lm_map mgr_init)) ys"
    by (rule manager_dump_complete [OF mgr_init_ok]) (use y in \<open>auto simp: mgr_init_def lg_at_def\<close>)
  then show ?thesis by (intro exI [of _ "\<lambda>_. Some y"] exI [of _ "\<lambda>_. []"]) (auto simp: mgr_init_def dest!: list_all2_lengthD)
qed

end
