(* ===== verification/ConfigShared.thy ===== *)
theory ConfigShared
  imports Config
begin

text \<open>
  \<open>src/config/config.h\<close>, \<open>config.cc\<close> and \<open>configVar.h\<close>, the configuration as threads share it: the
  registry under its read-write lock, with \<open>Visit\<close>, and \<open>setValue\<close> of one variable by several
  threads, which holds the read lock while it calls the listeners and the write lock for the
  assignment, and no lock in between.
\<close>

section \<open>The registry under its lock\<close>

record 'v config =
  cf_lock :: rwlock
  cf_data :: "'v registry"

text \<open>A guard unlocks also when an exception passes.\<close>

definition cf_Lookup ::
  "nat \<Rightarrow> string \<Rightarrow> string \<Rightarrow> 'v \<Rightarrow> string \<Rightarrow> 'v config \<Rightarrow> ('v config \<times> string option) run" where
  "cf_Lookup t ty name default_value desc cf =
     bindO (RWMutex_wrlock t (cf_lock cf)) (\<lambda>l. case Lookup ty name default_value desc (cf_data cf) of
       Inl e \<Rightarrow> Some (Inl e)
     | Inr (r, p) \<Rightarrow> bindO (Some (RWMutex_unlock t l)) (\<lambda>l'. Some (Inr (\<lparr>cf_lock = l', cf_data = r\<rparr>, p))))"

definition cf_LookupBase :: "nat \<Rightarrow> string \<Rightarrow> 'v config \<Rightarrow> ('v config \<times> 'v entry option) run" where
  "cf_LookupBase t name cf =
     bindO (RWMutex_rdlock t (cf_lock cf)) (\<lambda>l. bindO (Some (RWMutex_unlock t l)) (\<lambda>l'.
       Some (Inr (cf\<lparr>cf_lock := l'\<rparr>, LookupBase name (cf_data cf)))))"

text \<open>
  \<open>Visit\<close> calls its argument for every variable, in the order of the unordered map, which is
  the parameter \<open>names\<close>, and under the read lock.
\<close>

fun visit_all :: "(string \<Rightarrow> 'v config \<Rightarrow> 'v config run) \<Rightarrow> string list \<Rightarrow> 'v config \<Rightarrow> 'v config run" where
  "visit_all cb [] cf = Some (Inr cf)"
| "visit_all cb (k # ks) cf = bindO (cb k cf) (visit_all cb ks)"

definition Visit :: "nat \<Rightarrow> (string \<Rightarrow> 'v config \<Rightarrow> 'v config run) \<Rightarrow> string list \<Rightarrow> 'v config \<Rightarrow> 'v config run" where
  "Visit t cb names cf =
     bindO (RWMutex_rdlock t (cf_lock cf)) (\<lambda>l.
     bindO (visit_all cb names (cf\<lparr>cf_lock := l\<rparr>)) (\<lambda>cf2.
     bindO (Some (RWMutex_unlock t (cf_lock cf2))) (\<lambda>l'. Some (Inr (cf2\<lparr>cf_lock := l'\<rparr>)))))"

text \<open>The plain accessors of \<open>ConfigVarBase\<close>.\<close>

definition setName :: "string \<Rightarrow> 'v cvar \<Rightarrow> 'v cvar" where "setName name c = c\<lparr>cv_name := name\<rparr>"

definition setdescription :: "string \<Rightarrow> 'v cvar \<Rightarrow> 'v cvar" where
  "setdescription description c = c\<lparr>cv_desc := description\<rparr>"

text \<open>What a callback that works on the variable it is given does to the registry.\<close>

definition update_entry :: "(string \<Rightarrow> 'v entry \<Rightarrow> 'v entry) \<Rightarrow> string \<Rightarrow> 'v config \<Rightarrow> 'v config run" where
  "update_entry g k cf = Some (Inr (cf\<lparr>cf_data := (cf_data cf)(k := map_option (g k) (cf_data cf k))\<rparr>))"

lemma visit_all_update:
  "distinct ks \<Longrightarrow> visit_all (update_entry g) ks cf =
     Some (Inr (cf\<lparr>cf_data := (\<lambda>k. if k \<in> set ks then map_option (g k) (cf_data cf k) else cf_data cf k)\<rparr>))"
proof (induction ks arbitrary: cf)
  case (Cons k ks)
  have "(\<lambda>j. if j \<in> set ks then map_option (g j) (((cf_data cf)(k := map_option (g k) (cf_data cf k))) j)
      else ((cf_data cf)(k := map_option (g k) (cf_data cf k))) j) =
    (\<lambda>j. if j \<in> set (k # ks) then map_option (g j) (cf_data cf j) else cf_data cf j)"
    using Cons.prems by (auto simp: fun_eq_iff)
  with Cons show ?case by (simp add: update_entry_def cong: if_cong)
qed simp

text \<open>
  \<open>Visit\<close> reaches every variable of the registry exactly once and leaves the lock free.
\<close>

theorem visit_reaches_all:
  assumes "cf_lock cf = rw_init" and "distinct names" and "set names = dom (cf_data cf)"
  shows "Visit t (update_entry g) names cf = Some (Inr (cf\<lparr>cf_data := (\<lambda>k. map_option (g k) (cf_data cf k))\<rparr>))"
proof -
  obtain d where cf: "cf = \<lparr>cf_lock = rw_init, cf_data = d\<rparr>" using assms(1) by (cases cf) simp
  have "(\<lambda>k. if k \<in> set names then map_option (g k) (d k) else d k) = (\<lambda>k. map_option (g k) (d k))"
    using assms(3) by (auto simp: cf fun_eq_iff dom_def)
  then show ?thesis
    by (simp add: cf Visit_def visit_all_update [OF assms(2)] RWMutex_rdlock_def rwl_rdlock_def RWMutex_unlock_def
        rwl_unlock_def rw_init_def cong: if_cong)
qed

definition demo_config :: "nat config" where
  "demo_config = \<lparr>cf_lock = rw_init, cf_data = [''a'' \<mapsto> \<lparr>en_type = ''int'', en_var = ConfigVar_ctor ''a'' 1 []\<rparr>]\<rparr>"

lemma visit_reaches_all_witness:
  "Visit 1 (update_entry (\<lambda>k e. e\<lparr>en_var := setdescription ''seen'' (en_var e)\<rparr>)) [''a''] demo_config =
    Some (Inr (demo_config\<lparr>cf_data := [''a'' \<mapsto> \<lparr>en_type = ''int'', en_var = ConfigVar_ctor ''a'' 1 ''seen''\<rparr>]\<rparr>))"
  by (subst visit_reaches_all) (auto simp: demo_config_def ConfigVar_ctor_def setdescription_def fun_eq_iff)

text \<open>
  A callback of \<open>Visit\<close> that looks a variable up, and would create it, never returns: it waits
  for the write lock under the read lock of \<open>Visit\<close>.
\<close>

theorem visit_lookup_deadlock:
  assumes "cf_lock cf = rw_init" and "cb k = (\<lambda>cf. bindO (cf_Lookup t ty name v desc cf) (\<lambda>(cf', p). Some (Inr cf')))"
  shows "Visit t cb (k # ks) cf = None"
  using assms by (simp add: Visit_def cf_Lookup_def RWMutex_rdlock_def RWMutex_wrlock_def rwl_rdlock_def rwl_wrlock_def rw_init_def)

lemma visit_lookup_deadlock_witness:
  "Visit 1 (\<lambda>k cf. bindO (cf_Lookup 1 ''int'' ''b'' 2 [] cf) (\<lambda>(cf', p). Some (Inr cf'))) [''a''] demo_config = None"
  by (rule visit_lookup_deadlock) (simp_all add: demo_config_def)

section \<open>A variable set by several threads\<close>

text \<open>
  Where a thread is in \<open>setValue\<close>: not in it; under the read lock, with the value and the
  listeners that are still to be called; before the assignment, with no lock. \<open>sv_calls\<close> records
  the calls of listeners with the old and the new value.
\<close>

datatype 'v set_pc = SetIdle | SetCall 'v "nat list" | SetWrite 'v

record 'v shared_var =
  sv_val :: 'v
  sv_cbs :: "nat list"
  sv_calls :: "(nat \<times> 'v \<times> 'v) list"
  sv_pc :: "nat \<Rightarrow> 'v set_pc"
  sv_threads :: nat

definition sv_init :: "nat \<Rightarrow> nat list \<Rightarrow> 'v \<Rightarrow> 'v shared_var" where
  "sv_init n cbs v = \<lparr>sv_val = v, sv_cbs = cbs, sv_calls = [], sv_pc = (\<lambda>_. SetIdle), sv_threads = n\<rparr>"

definition sv_reading :: "'v set_pc \<Rightarrow> bool" where
  "sv_reading pc = (case pc of SetCall _ _ \<Rightarrow> True | _ \<Rightarrow> False)"

datatype 'v set_move = Begin nat 'v | Proceed nat

text \<open>\<open>None\<close>: the move is not possible; the assignment waits while a thread reads.\<close>

definition set_step :: "'v set_move \<Rightarrow> 'v shared_var \<Rightarrow> 'v shared_var option" where
  "set_step m s = (case m of
     Begin t v \<Rightarrow>
       (if t < sv_threads s \<and> sv_pc s t = SetIdle
        then Some (if v = sv_val s then s else s\<lparr>sv_pc := (sv_pc s)(t := SetCall v (sv_cbs s))\<rparr>)
        else None)
   | Proceed t \<Rightarrow> (case sv_pc s t of
       SetIdle \<Rightarrow> None
     | SetCall v (cb # cbs) \<Rightarrow>
         Some (s\<lparr>sv_calls := sv_calls s @ [(cb, sv_val s, v)], sv_pc := (sv_pc s)(t := SetCall v cbs)\<rparr>)
     | SetCall v [] \<Rightarrow> Some (s\<lparr>sv_pc := (sv_pc s)(t := SetWrite v)\<rparr>)
     | SetWrite v \<Rightarrow>
         (if list_ex (\<lambda>u. sv_reading (sv_pc s u)) [0..<sv_threads s] then None
          else Some (s\<lparr>sv_val := v, sv_pc := (sv_pc s)(t := SetIdle)\<rparr>))))"

fun set_moves :: "'v set_move list \<Rightarrow> 'v shared_var \<Rightarrow> 'v shared_var option" where
  "set_moves [] s = Some s"
| "set_moves (m # ms) s = Option.bind (set_step m s) (set_moves ms)"

text \<open>One call on its own does what \<open>setValue\<close> of the theory \<open>Config\<close> does.\<close>

lemma proceed_calls:
  "sv_pc s t = SetCall v cbs \<Longrightarrow> set_moves (replicate (length cbs) (Proceed t)) s =
     Some (s\<lparr>sv_calls := sv_calls s @ map (\<lambda>cb. (cb, sv_val s, v)) cbs, sv_pc := (sv_pc s)(t := SetCall v [])\<rparr>)"
proof (induction cbs arbitrary: s)
  case Nil
  then have "(sv_pc s)(t := SetCall v []) = sv_pc s" by (auto simp: fun_eq_iff)
  then show ?case by simp
next
  case (Cons cb cbs)
  then show ?case by (simp add: set_step_def cong: if_cong)
qed

lemma set_moves_append: "set_moves (as @ bs) s = Option.bind (set_moves as s) (set_moves bs)"
proof (induction as arbitrary: s)
  case (Cons m ms)
  then show ?case by (cases "set_step m s") simp_all
qed simp

text \<open>
  When one thread sets the variable and no other is in \<open>setValue\<close>, its steps are possible, and
  they call the listeners and change the value as \<open>setValue\<close> does.
\<close>

theorem set_alone_refines_setValue:
  assumes t: "t < sv_threads s" and idle: "\<And>u. sv_pc s u = SetIdle" and new: "v \<noteq> sv_val s"
    and c: "cv_lock c = rw_init" "cv_val c = sv_val s" "map snd (cv_cbs c) = sv_cbs s" "cv_calls c = sv_calls s"
  shows "\<exists>s' c'. set_moves (Begin t v # replicate (length (sv_cbs s)) (Proceed t) @ [Proceed t, Proceed t]) s = Some s' \<and>
    setValue u (\<lambda>cb v1 v2 c. Some (Inr c)) v c = Some (Inr c') \<and> cv_val c' = sv_val s' \<and> cv_calls c' = sv_calls s' \<and>
    (\<forall>u. sv_pc s' u = SetIdle)"
proof -
  let ?s = "s\<lparr>sv_pc := (sv_pc s)(t := SetCall v (sv_cbs s))\<rparr>"
  have b: "set_step (Begin t v) s = Some ?s" using t idle new by (simp add: set_step_def)
  have p: "set_moves (replicate (length (sv_cbs s)) (Proceed t)) ?s =
      Some (s\<lparr>sv_pc := (sv_pc s)(t := SetCall v []), sv_calls := sv_calls s @ map (\<lambda>cb. (cb, sv_val s, v)) (sv_cbs s)\<rparr>)"
    using proceed_calls [of ?s t v "sv_cbs s"] by simp
  have "map (\<lambda>x. (snd x, cv_val c, v)) (cv_cbs c) = map (\<lambda>cb. (cb, sv_val s, v)) (sv_cbs s)"
    unfolding c(3) [symmetric] by (simp add: c(2))
  then have "setValue u (\<lambda>cb v1 v2 c. Some (Inr c)) v c =
      Some (Inr (c\<lparr>cv_val := v, cv_calls := sv_calls s @ map (\<lambda>cb. (cb, sv_val s, v)) (sv_cbs s)\<rparr>))"
    using new by (simp add: setValue_result [OF _ c(1)] c)
  moreover have "\<not> list_ex (\<lambda>u. sv_reading (((sv_pc s)(t := SetWrite v)) u)) [0..<sv_threads s]"
    by (simp add: list_ex_iff sv_reading_def idle)
  ultimately show ?thesis
    using idle by (simp add: b set_moves_append p) (simp add: set_step_def)
qed

lemma set_alone_refines_setValue_witness:
  "\<exists>s' c'. set_moves (Begin 0 7 # replicate 1 (Proceed 0) @ [Proceed 0, Proceed 0]) (sv_init 1 [10] (5 :: int)) = Some s' \<and>
    setValue 3 (\<lambda>cb v1 v2 c. Some (Inr c)) 7 ((ConfigVar_ctor ''a'' 5 [])\<lparr>cv_cbs := [(1, 10)]\<rparr>) = Some (Inr c') \<and> cv_val c' = sv_val s'"
proof -
  have "0 < sv_threads (sv_init 1 [10] (5 :: int))" "\<And>u. sv_pc (sv_init 1 [10] (5 :: int)) u = SetIdle"
    "(7 :: int) \<noteq> sv_val (sv_init 1 [10] 5)"
    by (simp_all add: sv_init_def)
  from set_alone_refines_setValue [OF this, of "(ConfigVar_ctor ''a'' 5 [])\<lparr>cv_cbs := [(1, 10)]\<rparr>" 3]
  show ?thesis by (simp add: ConfigVar_ctor_def sv_init_def) blast
qed

section \<open>What listeners can rely on\<close>

inductive sv_reach :: "'v shared_var \<Rightarrow> 'v shared_var \<Rightarrow> bool" for s0 where
  start: "sv_reach s0 s0"
| step: "sv_reach s0 s \<Longrightarrow> set_step m s = Some s' \<Longrightarrow> sv_reach s0 s'"

definition told :: "nat \<Rightarrow> 'v \<Rightarrow> 'v shared_var \<Rightarrow> bool" where
  "told cb v s \<longleftrightarrow> (\<exists>old. (cb, old, v) \<in> set (sv_calls s))"

lemma told_simps [simp]:
  "told cb v (s\<lparr>sv_pc := pc\<rparr>) = told cb v s" "told cb v (s\<lparr>sv_val := x\<rparr>) = told cb v s"
  "told cb v (s\<lparr>sv_calls := sv_calls s @ [(c, old, x)]\<rparr>) \<longleftrightarrow> told cb v s \<or> cb = c \<and> v = x"
  by (auto simp: told_def)

fun pc_told :: "nat \<Rightarrow> 'v shared_var \<Rightarrow> 'v set_pc \<Rightarrow> bool" where
  "pc_told cb s SetIdle = True"
| "pc_told cb s (SetCall v cbs) = (cb \<in> set cbs \<or> told cb v s)"
| "pc_told cb s (SetWrite v) = told cb v s"

lemma pc_told_mono: "(\<And>v. told cb v s \<Longrightarrow> told cb v s') \<Longrightarrow> pc_told cb s pc \<Longrightarrow> pc_told cb s' pc"
  by (cases pc) auto

definition told_inv :: "'v \<Rightarrow> nat \<Rightarrow> 'v shared_var \<Rightarrow> bool" where
  "told_inv v0 cb s \<longleftrightarrow> cb \<in> set (sv_cbs s) \<and> (sv_val s = v0 \<or> told cb (sv_val s) s) \<and> (\<forall>t. pc_told cb s (sv_pc s t))"

lemma told_inv_pc:
  assumes "told_inv v0 cb s" and "\<And>v. told cb v s \<Longrightarrow> told cb v s'" and "sv_cbs s' = sv_cbs s"
    and "sv_val s' = sv_val s \<or> told cb (sv_val s') s'" and "sv_pc s' = (sv_pc s)(t := pc)" and "pc_told cb s' pc"
  shows "told_inv v0 cb s'"
  using assms pc_told_mono [OF assms(2)] by (auto simp: told_inv_def)

lemma told_inv_step:
  assumes inv: "told_inv v0 cb s" and st: "set_step m s = Some s'"
  shows "told_inv v0 cb s'"
proof -
  have i: "cb \<in> set (sv_cbs s)" "\<And>t. pc_told cb s (sv_pc s t)"
    using inv by (simp_all add: told_inv_def)
  consider (same) "s' = s" | (begins) t v where "s' = s\<lparr>sv_pc := (sv_pc s)(t := SetCall v (sv_cbs s))\<rparr>"
    | (call) t v c cbs where "sv_pc s t = SetCall v (c # cbs)"
        "s' = s\<lparr>sv_calls := sv_calls s @ [(c, sv_val s, v)], sv_pc := (sv_pc s)(t := SetCall v cbs)\<rparr>"
    | (release) t v where "sv_pc s t = SetCall v []" "s' = s\<lparr>sv_pc := (sv_pc s)(t := SetWrite v)\<rparr>"
    | (stored) t v where "sv_pc s t = SetWrite v" "s' = s\<lparr>sv_val := v, sv_pc := (sv_pc s)(t := SetIdle)\<rparr>"
  proof (cases m)
    case (Begin t v)
    then show thesis using st same begins [of t v] by (auto simp: set_step_def split: if_splits)
  next
    case (Proceed t)
    show thesis
    proof (cases "sv_pc s t")
      case SetIdle
      with st Proceed show thesis by (simp add: set_step_def)
    next
      case (SetCall v cbs)
      with st Proceed show thesis
        by (cases cbs) (simp_all add: set_step_def call [of t v] release [of t v])
    next
      case (SetWrite v)
      with st Proceed show thesis by (intro stored [of t v]) (simp_all add: set_step_def split: if_splits)
    qed
  qed
  then show ?thesis
  proof cases
    case same
    with inv show ?thesis by simp
  next
    case (begins t v)
    show ?thesis by (rule told_inv_pc [OF inv, where t = t and pc = "SetCall v (sv_cbs s)"]) (simp_all add: begins i(1))
  next
    case (call t v c cbs)
    show ?thesis by (rule told_inv_pc [OF inv, where t = t]) (use call i(2) [of t] in auto)
  next
    case (release t v)
    show ?thesis by (rule told_inv_pc [OF inv, where t = t]) (use release i(2) [of t] in auto)
  next
    case (stored t v)
    show ?thesis by (rule told_inv_pc [OF inv, where t = t]) (use stored i(2) [of t] in auto)
  qed
qed

lemma set_moves_reach: "sv_reach s0 s \<Longrightarrow> set_moves ms s = Some s' \<Longrightarrow> sv_reach s0 s'"
proof (induction ms arbitrary: s)
  case (Cons m ms)
  then obtain s1 where "set_step m s = Some s1" "set_moves ms s1 = Some s'" by (auto simp: bind_eq_Some_conv)
  with Cons show ?case by (blast intro: sv_reach.step)
qed simp

text \<open>
  Whatever the order of the steps of the threads, a variable never has a value that one of its
  listeners has not been told before.
\<close>

theorem every_value_announced:
  assumes "sv_reach (sv_init n cbs v0) s" and "cb \<in> set cbs" and "sv_val s \<noteq> v0"
  shows "\<exists>old. (cb, old, sv_val s) \<in> set (sv_calls s)"
proof -
  have "told_inv v0 cb s"
    using assms(1)
  proof (induction rule: sv_reach.induct)
    case start
    show ?case using assms(2) by (simp add: told_inv_def sv_init_def)
  next
    case (step s m s')
    then show ?case by (blast intro: told_inv_step)
  qed
  with assms(3) show ?thesis by (simp add: told_inv_def told_def)
qed

lemma every_value_announced_witness:
  "\<exists>s. set_moves [Begin 0 6, Proceed 0, Proceed 0, Proceed 0] (sv_init 2 [10] (5 :: int)) = Some s \<and> sv_val s = 6 \<and>
     (\<exists>old. (10, old, 6) \<in> set (sv_calls s))"
proof -
  obtain s where s: "set_moves [Begin 0 6, Proceed 0, Proceed 0, Proceed 0] (sv_init 2 [10] (5 :: int)) = Some s" "sv_val s = 6"
    by (simp add: set_step_def sv_init_def sv_reading_def upt_rec numeral_2_eq_2)
  have "sv_reach (sv_init 2 [10] 5) s" by (rule set_moves_reach [OF sv_reach.start s(1)])
  from every_value_announced [OF this, of 10] s show ?thesis by auto
qed

text \<open>
  A listener can be left with a value the variable does not have: two threads set it, the
  listener is told 6 and then 7, and the assignments happen in the other order.
\<close>

theorem listener_left_behind:
  "\<exists>s. set_moves [Begin 0 6, Begin 1 7, Proceed 0, Proceed 1, Proceed 0, Proceed 1, Proceed 1, Proceed 0]
      (sv_init 2 [10] (5 :: int)) = Some s \<and>
     sv_val s = 6 \<and> sv_calls s = [(10, 5, 6), (10, 5, 7)] \<and> sv_pc s 0 = SetIdle \<and> sv_pc s 1 = SetIdle"
  by (simp add: set_step_def sv_init_def sv_reading_def upt_rec numeral_2_eq_2)

end
