(* ===== verification/Spec2Isabelle.thy ===== *)
theory Spec2Isabelle
  imports Timer Fiber Arm64 X86 Poller LockFreeList LockFreeConc Processer Wakeup Scheduler FdManager Hook HookInit System FiberRuns ShutdownRuns Locks Sync Thread LogLevel LogFormat Logger LoggerShared LogConfig ConfigShared
begin

text \<open>
  ppcode is a C++ library of stackful coroutines (fibers) for Linux. A \<open>Scheduler\<close> owns worker
  threads, each running a \<open>Processer\<close>, and one thread running a \<open>Poller\<close>, which waits with
  \<open>epoll\<close>, keeps the timers and turns what has become due or ready into fibers. Blocking system
  calls are replaced by functions (\<open>hook.cc\<close>) that register the descriptor or a timer with the
  poller and suspend the calling fiber. Around this core stand wrappers of the POSIX
  synchronisation objects, a lock-free list, a logging library and a configuration library. This
  development models these parts from the sources under \<open>src/src\<close> and proves what makes them
  correct, or where they are not, what they do instead.

  \<^bold>\<open>Theories and sources.\<close>
  \<^item> \<open>Prelude\<close>: machine integers (\<open>u8\<close> to \<open>u64\<close>), the faults that stand for undefined behaviour
    and failed assertions, the monads \<open>result\<close> (a fault or a value) and \<open>run\<close> (\<open>None\<close> for a run
    that does not end), \<open>loopO\<close> for loops, \<open>std::set\<close> with a comparator (locale \<open>comparator\<close>).
  \<^item> \<open>BoundedFifo\<close>: the contract of a bounded queue (locale \<open>bounded_fifo\<close>).
  \<^item> \<open>Timer\<close>: \<open>fiber/timer.h\<close>, \<open>fiber/timer.cc\<close>. The ordered set of tasks is a sorted list over a
    heap of task objects; one operation is one step, since each holds the lock.
  \<^item> \<open>Fiber\<close>: \<open>fiber/fiber.h\<close>, \<open>fiber/fiber.cc\<close>. What the user's function does between two context
    switches is a \<open>segment\<close>.
  \<^item> \<open>Coroutine\<close>: \<open>SwapIn\<close>, \<open>SwapOut\<close> and the making of a context over the two functions of
    \<open>fiber/fcontext.h\<close> (locale \<open>context_switch\<close>), against abstract coroutines. \<open>Arm64\<close>:
    \<open>fiber/jump_arm64_aapcs_elf_gas.S\<close> and \<open>make_arm64_aapcs_elf_gas.S\<close>; \<open>X86\<close>: the files for
    x86-64 in \<open>src/code/boost.context/libs/context/src/asm\<close>, which \<open>select_asm.sh\<close> adds to the
    build. Both are lists of instructions over registers and memory.
  \<^item> \<open>Poller\<close>: \<open>fiber/poller.h\<close>, \<open>fiber/poller.cc\<close>, \<open>wraplib/epoll.h\<close>. The \<open>epoll_ctl\<close> calls are
    logged, and what the kernel watches is computed from the log; the loop runs over a list of
    turns, which hold what the clock, the flags and \<open>epoll_wait\<close> give.
  \<^item> \<open>LockFreeList\<close>: \<open>thread/lockfreelist.h\<close> as one thread runs it, and its refinement to a bounded
    queue. \<open>LockFreeConc\<close>: the same functions, one step for each access to shared memory, and any
    number of threads.
  \<^item> \<open>Processer\<close>: \<open>fiber/processer.h\<close>, \<open>fiber/processer.cc\<close> over any queue with the contract
    (locale \<open>fiber_queue\<close>). \<open>Wakeup\<close>: the shared variables of \<open>addFiber\<close>, \<open>getNewFibers\<close>, \<open>idle\<close>
    and \<open>notify\<close> in any interleaving. \<open>Scheduler\<close>: \<open>fiber/scheduler.h\<close>, \<open>fiber/scheduler.cc\<close>.
  \<^item> \<open>FdManager\<close>: \<open>fiber/fdcontext.h\<close>, \<open>fiber/fdcontext.cc\<close>. \<open>Hook\<close>: \<open>fiber/hook.h\<close>,
    \<open>fiber/hook.cc\<close>. \<open>HookInit\<close>: the table of original functions and the start-up object.
  \<^item> \<open>System\<close>: poller, scheduler and processers together, and sleeping fibers, a turn of the poller
    before the turns of the processers. \<open>FiberSystem\<close>: many fibers in \<open>do_io\<close>, \<open>sleep\<close>, \<open>close\<close> and
    their own code on many processers, with the poller thread, in any interleaving of small steps
    (\<open>fs_step\<close>; a fiber's place in the code is an \<open>fpc\<close>). \<open>FiberWakes\<close>: the wake-ups the poller and the
    timers hold; \<open>FiberPlaces\<close>: the invariant, an equation between multisets of fibers; \<open>FiberSteps\<close>:
    every move keeps it; \<open>FiberRuns\<close>: the reachable states. \<open>Shutdown\<close>, \<open>ShutdownRuns\<close>: \<open>~Scheduler\<close>
    and \<open>stop\<close> while processers and poller run, one step for each shared access.
  \<^item> \<open>Locks\<close>: \<open>thread/mutex\<close>, \<open>rwmutex\<close>, \<open>spinlock\<close>, \<open>scopedlock.h\<close> (locale \<open>lockable\<close>, interpreted
    for each lock). \<open>Sync\<close>: \<open>thread/semaphore\<close>, \<open>barrier\<close>, \<open>condition_variable\<close>. \<open>Thread\<close>:
    \<open>thread/thread\<close>, \<open>thread_attributes\<close>, \<open>util/util.cc\<close>.
  \<^item> \<open>LogLevel\<close>, \<open>LogFormat\<close>, \<open>Logger\<close>: the files of \<open>log/\<close>. \<open>LoggerShared\<close>: \<open>Logger::log\<close>, which
    takes no lock, interleaved with what adds and removes appenders. \<open>Config\<close>, \<open>LexicalCast\<close>,
    \<open>LogConfig\<close>: the files of \<open>config/\<close> and the parts of \<open>log/\<close> that read and write YAML.
    \<open>ConfigShared\<close>: the registry under its lock, and one variable set by several threads.

  \<^bold>\<open>What is shown.\<close>
  \<^item> Fibers: every callback a turn of the poller takes out is run by exactly one processer, once
    (\<open>System\<close>); a sleeper is handed back at its deadline and not before. Processers run their
    fibers in order; the choice of a processer and the sharing out are characterised
    (\<open>Scheduler\<close>). In every interleaving the counter of new fibers accounts for the queue, but a
    wake-up can be lost (\<open>Wakeup\<close>).
  \<^item> Fibers in any interleaving (\<open>FiberRuns\<close>): no fiber is run twice at the same time or queued twice,
    an unfinished one always has exactly one wake-up to come, and no move faults; but a timeout
    can be lost, and a hang-up can run a fiber that has finished.
  \<^item> Context switches, on both machines: a switch saves all that a call must preserve and continues
    exactly where its target was suspended, whatever happened in between, so that fibers are
    coroutines; a new fiber enters its function with its argument, on its own stack.
  \<^item> Shutdown in any interleaving (\<open>ShutdownRuns\<close>): it frees nothing that is in use and cannot
    deadlock on a mutex, a signal or a join; it hangs when the poller begins too late, or when a
    queue that nobody empties any more is full.
  \<^item> Timers: the set stays sorted and no operation uses a bad iterator; exactly the due tasks are
    handed out, in order; a cancelled task never is; waiting as long as \<open>getNextExecuteTime\<close> says is
    enough.
  \<^item> Poller: in every reachable state the registrations are what the kernel watches, and the
    operations return without a fault; the pending count is exact under a stated condition; a
    waiter for one side of a descriptor is never woken by it, since the two sides are confused.
  \<^item> Lock-free list: for one producer and one consumer every interleaving is free of faults, keeps
    the list a bounded queue, and every call returns within a fixed number of own steps; with two
    producers an accepted element can be lost.
  \<^item> Hooks: a hooked call waits exactly while the original reports \<open>EAGAIN\<close>, honours its timeout
    and leaves no timer behind; closing wakes the waiters; the table of descriptors keeps its
    invariant; the connect timeout is the configured one.
  \<^item> Locks and threads: guards exclude each other, a started thread is ready when its constructor
    returns, and is joined or detached exactly once.
  \<^item> Logging and configuration: the parser of patterns agrees with a grammar and inverts printing;
    a log statement writes the right lines to the right appenders; variables notify their
    listeners, keep their types, and take their values from documents; what a configuration
    describes is what is built. With several threads (\<open>LoggerShared\<close>, \<open>ConfigShared\<close>) a log
    statement that overlaps the removal of an appender uses a stale iterator, and a listener can
    be left with a value that is no longer the variable's.
  The theories prove more than the numbered properties, in particular the deviations from the
  intent of the code, each with the inputs that show it.

  \<^bold>\<open>Bounds, fuel and termination.\<close> There is no fuel: loops that need not end are \<open>loopO\<close>, a
  \<open>partial_function (option)\<close>, and theorems about them state that the run is \<open>Some\<close>. The loops of
  \<open>Processer\<close> and \<open>Poller\<close>, which end only when they are told to, run over a list of turns of any
  length. Integers have the width of the source; where a count is assumed not to wrap the theorem
  says so. The versions of the lock-free list are 64-bit words and wrap around.

  \<^bold>\<open>What is assumed.\<close> The kernel, the clock and the POSIX and C libraries are parameters or small
  state machines of their documented behaviour. \<open>boost::lockfree::spsc_queue\<close> has the contract
  \<open>bounded_fifo\<close>, which the list of this repository is shown to meet. yaml-cpp is a datatype of
  nodes with \<open>YAML::Load\<close> and \<open>operator<<\<close> as parameters, and theorems that need it state that a
  node that was written reads back. Memory is sequentially consistent in \<open>LockFreeConc\<close>,
  \<open>Wakeup\<close>, \<open>FiberSystem\<close>, \<open>Shutdown\<close>, \<open>LoggerShared\<close> and \<open>ConfigShared\<close>, and a
  128-bit read is one access.

  The switches run on one thread, whose memory is cells of eight bytes at aligned addresses; code
  between two switches is assumed to stay on its own stack, which nothing in the library checks.

  \<^bold>\<open>Not modelled.\<close> What the fibers keep on their stacks, and the copy of Boost under \<open>src/code\<close>
  apart from the two assembly files; the assembly for other processors; the system calls of the
  kernel beyond what they return; trivial getters and setters, demangling of type names;
  singletons, macros, empty platform files and the tests.
\<close>

end
